(* ===== verification/Prelude.thy ===== *)
theory Prelude
  imports Main "HOL-Library.Word"
begin

text \<open>
  Shared vocabulary of the development.

  \<^item> The integer types of \<^verbatim>\<open>kernel/types.h\<close> as words of the same width.
  \<^item> The result of running a piece of kernel code: a value together with the new
    state. Kernel code can return, panic, hand the CPU to the scheduler, or spin
    for ever; \<open>bnd\<close> sequences two pieces of code, and \<open>wpk\<close> says what holds
    of each outcome.
  \<^item> Byte-addressed memory with little-endian loads and stores.
  \<^item> The lock stack of the running CPU: the abstract view of
    \<^verbatim>\<open>kernel/spinlock.c\<close> that every client uses. The detailed code and the
    proof that it implements this view are in theory \<open>Spinlock\<close>.
\<close>

unbundle bit_operations_syntax

named_theorems wp \<open>rules that push a postcondition through sequenced kernel code\<close>
named_theorems memsimps \<open>loads and stores of the byte-addressed memory\<close>

section \<open>Integers\<close>

type_synonym u8 = "8 word"
type_synonym u16 = "16 word"
type_synonym u32 = "32 word"
type_synonym u64 = "64 word"

text \<open>A C \<open>int\<close> is kept as the 32-bit pattern; its value is \<open>sint\<close> of it.\<close>

type_synonym i32 = "32 word"

section \<open>Results of kernel code\<close>

datatype 'a res =
    Ret 'a
  | Panic string
  | Swtch   \<comment> \<open>the thread called \<^verbatim>\<open>swtch\<close> and the scheduler runs\<close>
  | Hang    \<comment> \<open>the thread spins for ever\<close>

fun bnd :: "'a res \<times> 's \<Rightarrow> ('a \<Rightarrow> 's \<Rightarrow> 'b res \<times> 's) \<Rightarrow> 'b res \<times> 's" where
  "bnd (Ret a, s) f = f a s"
| "bnd (Panic m, s) f = (Panic m, s)"
| "bnd (Swtch, s) f = (Swtch, s)"
| "bnd (Hang, s) f = (Hang, s)"

definition wpk :: "'a res \<times> 's \<Rightarrow> ('a \<Rightarrow> 's \<Rightarrow> bool) \<Rightarrow> ('s \<Rightarrow> bool) \<Rightarrow> bool" where
  "wpk m P Q = (case m of (Ret a, s) \<Rightarrow> P a s | (Swtch, s) \<Rightarrow> Q s | _ \<Rightarrow> False)"

text \<open>\<open>ok m P\<close>: the code returns, and \<open>P\<close> holds of its value and of the new state.\<close>

abbreviation ok :: "'a res \<times> 's \<Rightarrow> ('a \<Rightarrow> 's \<Rightarrow> bool) \<Rightarrow> bool" where
  "ok m P \<equiv> wpk m P (\<lambda>_. False)"

text \<open>\<open>onret m P\<close>: if the code returns, \<open>P\<close> holds of its value and of the new state.\<close>

definition onret :: "'a res \<times> 's \<Rightarrow> ('a \<Rightarrow> 's \<Rightarrow> bool) \<Rightarrow> bool" where
  "onret m P = (case m of (Ret a, s) \<Rightarrow> P a s | _ \<Rightarrow> True)"

lemma bnd_cong [fundef_cong]:
  assumes "m = m'" and "\<And>a s. m' = (Ret a, s) \<Longrightarrow> f a s = g a s"
  shows "bnd m f = bnd m' g"
proof (cases m')
  case (Pair r s)
  with assms show ?thesis by (cases r) auto
qed

lemma bnd_eq_Ret_iff:
  "bnd m f = (Ret b, t) \<longleftrightarrow> (\<exists>a s. m = (Ret a, s) \<and> f a s = (Ret b, t))"
proof (cases m)
  case (Pair r s)
  then show ?thesis by (cases r) auto
qed

lemma bnd_assoc: "bnd (bnd m f) g = bnd m (\<lambda>a s. bnd (f a s) g)"
proof (cases m)
  case (Pair r s)
  then show ?thesis by (cases r) auto
qed

lemma bnd_if: "bnd (if b then m else n) f = (if b then bnd m f else bnd n f)"
  by simp

lemma wpk_Ret [simp, wp]: "wpk (Ret a, s) P Q = P a s"
  by (simp add: wpk_def)

lemma wpk_Swtch [simp, wp]: "wpk (Swtch, s) P Q = Q s"
  by (simp add: wpk_def)

lemma wpk_Panic [simp, wp]: "wpk (Panic m, s) P Q = False"
  by (simp add: wpk_def)

lemma wpk_Hang [simp, wp]: "wpk (Hang, s) P Q = False"
  by (simp add: wpk_def)

lemma wpk_bnd [wp]: "wpk (bnd m f) P Q = wpk m (\<lambda>a s. wpk (f a s) P Q) Q"
proof (cases m)
  case (Pair r s)
  then show ?thesis by (cases r) auto
qed

lemma wpk_if [wp]: "wpk (if b then m else n) P Q = (if b then wpk m P Q else wpk n P Q)"
  by simp

lemma wpk_mono:
  assumes "wpk m P Q" and "\<And>a s. P a s \<Longrightarrow> P' a s" and "\<And>s. Q s \<Longrightarrow> Q' s"
  shows "wpk m P' Q'"
  using assms by (auto simp: wpk_def split: prod.splits res.splits)

lemma okI: "m = (Ret a, s) \<Longrightarrow> P a s \<Longrightarrow> wpk m P Q"
  by simp

lemma ok_E:
  assumes "ok m P" obtains a s where "m = (Ret a, s)" and "P a s"
  using assms by (auto simp: wpk_def split: prod.splits res.splits)

lemma onret_simps [simp]:
  "onret (Ret a, s) P = P a s"
  "onret (Panic m, s) P = True"
  "onret (Swtch, s) P = True"
  "onret (Hang, s) P = True"
  by (simp_all add: onret_def)

lemma onret_bnd [wp]: "onret (bnd m f) P = onret m (\<lambda>a s. onret (f a s) P)"
proof (cases m)
  case (Pair r s)
  then show ?thesis by (cases r) auto
qed

lemma onret_bndI:
  "onret m P \<Longrightarrow> (\<And>a s. P a s \<Longrightarrow> onret (f a s) Q) \<Longrightarrow> onret (bnd m f) Q"
  by (cases m; cases "fst m") (auto simp: onret_def)

lemma onretD: "onret m P \<Longrightarrow> m = (Ret a, s) \<Longrightarrow> P a s"
  by simp

lemma ok_onret: "ok m P \<Longrightarrow> onret m P"
  by (auto simp: wpk_def onret_def split: prod.splits res.splits)

section \<open>Little-endian words\<close>

text \<open>\<open>le_bytes n w\<close>: the \<open>n\<close> low bytes of \<open>w\<close>, least significant first, as a
  RISC-V store writes them; \<open>le_word\<close> is what a load of these bytes reads.\<close>

definition le_bytes :: "nat \<Rightarrow> 'a::len word \<Rightarrow> u8 list" where
  "le_bytes n w = map (\<lambda>i. ucast (drop_bit (8 * i) w)) [0..<n]"

primrec le_word :: "u8 list \<Rightarrow> 'a::len word" where
  "le_word [] = 0"
| "le_word (b # bs) = ucast b OR push_bit 8 (le_word bs)"

lemma length_le_bytes [simp]: "length (le_bytes n w) = n"
  by (simp add: le_bytes_def)

lemma bit_le_word:
  "bit (le_word bs :: 'a::len word) k \<longleftrightarrow>
     k < LENGTH('a) \<and> k div 8 < length bs \<and> bit (bs ! (k div 8)) (k mod 8)"
proof (induction bs arbitrary: k)
  case Nil
  then show ?case by simp
next
  case (Cons b bs)
  show ?case
  proof (cases "k < 8")
    case True
    then show ?thesis
      by (auto simp: bit_or_iff bit_push_bit_iff bit_ucast_iff)
  next
    case False
    then have nz: "k div 8 = Suc ((k - 8) div 8)" and md: "(k - 8) mod 8 = k mod 8"
      by (simp_all add: le_div_geq le_mod_geq)
    have nb: "\<not> bit b k" using False by (auto dest: bit_imp_le_length)
    show ?thesis
      using False nb
      by (auto simp: bit_or_iff bit_push_bit_iff bit_ucast_iff Cons.IH nz md)
  qed
qed

lemma le_word_bytes [simp]:
  assumes "LENGTH('a) \<le> 8 * n"
  shows "le_word (le_bytes n w) = (w :: 'a::len word)"
proof (rule bit_word_eqI)
  fix k assume k: "k < LENGTH('a)"
  then have lt: "k div 8 < n" using assms by auto
  have "bit (le_bytes n w ! (k div 8)) (k mod 8) = bit w (8 * (k div 8) + k mod 8)"
    using lt by (simp add: le_bytes_def bit_ucast_iff bit_drop_bit_eq)
  then show "bit (le_word (le_bytes n w) :: 'a word) k = bit w k"
    using k lt by (simp add: bit_le_word)
qed

lemma le_bytes_word:
  assumes "8 * length bs \<le> LENGTH('a)"
  shows "le_bytes (length bs) (le_word bs :: 'a::len word) = bs"
proof (rule nth_equalityI)
  show "length (le_bytes (length bs) (le_word bs :: 'a word)) = length bs" by simp
next
  fix i assume "i < length (le_bytes (length bs) (le_word bs :: 'a word))"
  then have i: "i < length bs" by simp
  show "le_bytes (length bs) (le_word bs :: 'a word) ! i = bs ! i"
  proof (rule bit_word_eqI)
    fix k assume k: "k < LENGTH(8)"
    then have "8 * i + k < LENGTH('a)" and "(8 * i + k) div 8 = i" and "(8 * i + k) mod 8 = k"
      using i assms by auto
    then show "bit (le_bytes (length bs) (le_word bs :: 'a word) ! i) k = bit (bs ! i) k"
      using i k by (simp add: le_bytes_def bit_ucast_iff bit_drop_bit_eq bit_le_word)
  qed
qed

section \<open>Byte arrays\<close>

text \<open>The bytes of an array kept as a list: a part of it, the array with a part replaced, and
  its 32-bit words.\<close>

definition bslice :: "'a list \<Rightarrow> nat \<Rightarrow> nat \<Rightarrow> 'a list" where
  "bslice d off n = take n (drop off d)"

definition bsplice :: "'a list \<Rightarrow> nat \<Rightarrow> 'a list \<Rightarrow> 'a list" where
  "bsplice d off bs = take off d @ bs @ drop (off + length bs) d"

definition getw :: "u8 list \<Rightarrow> nat \<Rightarrow> u32" where
  "getw d i = le_word (bslice d (4 * i) 4)"

definition setw :: "u8 list \<Rightarrow> nat \<Rightarrow> u32 \<Rightarrow> u8 list" where
  "setw d i v = bsplice d (4 * i) (le_bytes 4 v)"

lemma length_slice [simp]: "length (bslice d off n) = min n (length d - off)"
  by (simp add: bslice_def)

lemma nth_slice: "i < n \<Longrightarrow> off + n \<le> length d \<Longrightarrow> bslice d off n ! i = d ! (off + i)"
  by (simp add: bslice_def)

lemma length_splice [simp]: "off + length bs \<le> length d \<Longrightarrow> length (bsplice d off bs) = length d"
  by (simp add: bsplice_def)

lemma nth_splice:
  "off + length bs \<le> length d \<Longrightarrow> i < length d \<Longrightarrow>
   bsplice d off bs ! i = (if off \<le> i \<and> i < off + length bs then bs ! (i - off) else d ! i)"
  by (auto simp: bsplice_def nth_append min_def not_less)

lemma slice_splice_same: "off + length bs \<le> length d \<Longrightarrow> n = length bs \<Longrightarrow> bslice (bsplice d off bs) off n = bs"
  by (simp add: bslice_def bsplice_def)

lemma slice_splice_other:
  "off + n \<le> length d \<Longrightarrow> off' + length bs \<le> length d \<Longrightarrow> off + n \<le> off' \<or> off' + length bs \<le> off \<Longrightarrow>
   bslice (bsplice d off' bs) off n = bslice d off n"
  by (rule nth_equalityI) (auto simp: nth_slice nth_splice)

lemma length_setw [simp]: "4 * i + 4 \<le> length d \<Longrightarrow> length (setw d i v) = length d"
  by (simp add: setw_def)

lemma getw_setw [simp]:
  "4 * i + 4 \<le> length d \<Longrightarrow> 4 * j + 4 \<le> length d \<Longrightarrow> getw (setw d i v) j = (if i = j then v else getw d j)"
  using slice_splice_other [of "4 * j" 4 d "4 * i" "le_bytes 4 v"]
  by (cases i j rule: linorder_cases) (auto simp: getw_def setw_def slice_splice_same)

section \<open>Byte-addressed memory\<close>

type_synonym memory = "u64 \<Rightarrow> u8"

text \<open>\<open>storeb m a bs\<close> writes the bytes \<open>bs\<close> from address \<open>a\<close> upwards (addresses wrap
  like the 64-bit pointers they are), \<open>loadb m a n\<close> reads \<open>n\<close> bytes.\<close>

definition storeb :: "memory \<Rightarrow> u64 \<Rightarrow> u8 list \<Rightarrow> memory" where
  "storeb m a bs = (\<lambda>x. if unat (x - a) < length bs then bs ! unat (x - a) else m x)"

definition loadb :: "memory \<Rightarrow> u64 \<Rightarrow> nat \<Rightarrow> u8 list" where
  "loadb m a n = map (\<lambda>i. m (a + of_nat i)) [0..<n]"

definition load64 :: "memory \<Rightarrow> u64 \<Rightarrow> u64" where
  "load64 m a = le_word (loadb m a 8)"

definition store64 :: "memory \<Rightarrow> u64 \<Rightarrow> u64 \<Rightarrow> memory" where
  "store64 m a w = storeb m a (le_bytes 8 w)"

text \<open>Two address ranges that share no byte.\<close>

definition sep :: "u64 \<Rightarrow> nat \<Rightarrow> u64 \<Rightarrow> nat \<Rightarrow> bool" where
  "sep a n b k \<longleftrightarrow> n \<le> unat (b - a) \<and> k \<le> unat (a - b)"

lemma length_loadb [simp]: "length (loadb m a n) = n"
  by (simp add: loadb_def)

lemma nth_loadb [simp]: "i < n \<Longrightarrow> loadb m a n ! i = m (a + of_nat i)"
  by (simp add: loadb_def)

lemma unat_of_nat64: "i < 2 ^ 64 \<Longrightarrow> unat (of_nat i :: u64) = i"
  by (simp add: unat_of_nat take_bit_nat_eq_self)

lemma unat_add_nat: "unat a + i < 2 ^ 64 \<Longrightarrow> unat (a + of_nat i :: u64) = unat a + i"
  by (simp add: unat_word_ariths unat_of_nat64)

lemma sep_commute: "sep a n b k = sep b k a n"
  by (auto simp: sep_def)

lemma sep_mono: "sep a n b k \<Longrightarrow> n' \<le> n \<Longrightarrow> k' \<le> k \<Longrightarrow> sep a n' b k'"
  by (auto simp: sep_def)

lemma sep_neq:
  assumes "sep a n b k" and "i < n" and "j < k" and "n \<le> 2 ^ 64" and "k \<le> 2 ^ 64"
  shows "a + of_nat i \<noteq> b + of_nat j"
proof
  assume eq: "a + of_nat i = b + of_nat j"
  show False
  proof (cases "i \<le> j")
    case True
    then have "a - b = of_nat (j - i)" using eq by (simp add: of_nat_diff algebra_simps)
    then have "unat (a - b) = j - i"
      using assms by (simp add: unat_of_nat64)
    then show False using assms True by (auto simp: sep_def)
  next
    case False
    then have "b - a = of_nat (i - j)" using eq by (simp add: of_nat_diff algebra_simps)
    then have "unat (b - a) = i - j"
      using assms by (simp add: unat_of_nat64)
    then show False using assms False by (auto simp: sep_def)
  qed
qed

lemma storeb_Nil [simp, memsimps]: "storeb m a [] = m"
  by (simp add: storeb_def)

lemma storeb_in [memsimps]:
  "i < length bs \<Longrightarrow> length bs \<le> 2 ^ 64 \<Longrightarrow> storeb m a bs (a + of_nat i) = bs ! i"
  by (simp add: storeb_def unat_of_nat64)

lemma storeb_out [memsimps]: "length bs \<le> unat (x - a) \<Longrightarrow> storeb m a bs x = m x"
  by (simp add: storeb_def)

lemma storeb_single [simp]: "storeb m a [b] = m(a := b)"
  by (auto simp: storeb_def fun_eq_iff unat_eq_zero)

lemma storeb_storeb_same [memsimps]:
  "length bs \<le> length cs \<Longrightarrow> storeb (storeb m a bs) a cs = storeb m a cs"
  by (auto simp: storeb_def fun_eq_iff)

lemma loadb_storeb_same [memsimps]:
  "length bs = n \<Longrightarrow> n \<le> 2 ^ 64 \<Longrightarrow> loadb (storeb m a bs) a n = bs"
  by (rule nth_equalityI) (auto simp: storeb_in)

lemma loadb_storeb_sep [memsimps]:
  assumes "sep a (length bs) b n" and "length bs \<le> 2 ^ 64" and "n \<le> 2 ^ 64"
  shows "loadb (storeb m a bs) b n = loadb m b n"
proof (rule nth_equalityI)
  fix i assume "i < length (loadb (storeb m a bs) b n)"
  then have i: "i < n" by simp
  have "length bs \<le> unat (b + of_nat i - a)"
  proof (rule ccontr)
    assume "\<not> ?thesis"
    then have lt: "unat (b + of_nat i - a) < length bs" by simp
    have "a + of_nat (unat (b + of_nat i - a)) = b + of_nat i" by simp
    then show False using sep_neq [OF assms(1) lt i assms(2,3)] by simp
  qed
  then show "loadb (storeb m a bs) b n ! i = loadb m b n ! i"
    using i by (simp add: storeb_out)
qed simp

lemma load64_store64_same [simp, memsimps]: "load64 (store64 m a w) a = w"
  by (simp add: load64_def store64_def loadb_storeb_same)

lemma load64_store64_sep [memsimps]: "sep a 8 b 8 \<Longrightarrow> load64 (store64 m a w) b = load64 m b"
  by (simp add: load64_def store64_def loadb_storeb_sep)

lemma load64_storeb_sep [memsimps]:
  "sep a (length bs) b 8 \<Longrightarrow> length bs \<le> 2 ^ 64 \<Longrightarrow> load64 (storeb m a bs) b = load64 m b"
  by (simp add: load64_def loadb_storeb_sep)

section \<open>The lock stack of the running CPU\<close>

text \<open>The sleep-locks of the kernel: one per cache buffer and one per in-memory inode.\<close>

datatype slid = BufSL nat | InodeSL nat

text \<open>The spinlocks of the kernel, by the variable that holds them.\<close>

datatype lockid =
    KmemLock | PidLock | WaitLock | ProcLock nat | BcacheLock | SlLock slid | LogLock
  | ItableLock | FtableLock | PipeLock u64 | TicksLock | ConsLock | UartLock | PrLock | VdiskLock

text \<open>The addresses that processes sleep on, by the object they point to.\<close>

datatype chan =
    NoChan | ChProc nat | ChLog | ChTicks | ChPipeR u64 | ChPipeW u64 | ChConsR | ChUartR
  | ChSL slid | ChBuf nat | ChDiskFree

record machine =
  held :: "lockid list"   \<comment> \<open>spinlocks the running CPU holds, innermost first\<close>
  mem :: memory           \<comment> \<open>physical memory\<close>

definition acquire :: "lockid \<Rightarrow> 'z machine_scheme \<Rightarrow> unit res \<times> 'z machine_scheme" where
  "acquire l s =
     (if l \<in> set (held s) then (Panic ''acquire'', s) else (Ret (), s\<lparr>held := l # held s\<rparr>))"

definition release :: "lockid \<Rightarrow> 'z machine_scheme \<Rightarrow> unit res \<times> 'z machine_scheme" where
  "release l s =
     (if l \<in> set (held s) then (Ret (), s\<lparr>held := remove1 l (held s)\<rparr>)
      else (Panic ''release'', s))"

lemma acquire_free [simp]: "l \<notin> set (held s) \<Longrightarrow> acquire l s = (Ret (), s\<lparr>held := l # held s\<rparr>)"
  by (simp add: acquire_def)

lemma release_held [simp]:
  "l \<in> set (held s) \<Longrightarrow> release l s = (Ret (), s\<lparr>held := remove1 l (held s)\<rparr>)"
  by (simp add: release_def)

lemma acquire_wp [wp]:
  "wpk (acquire l s) P Q \<longleftrightarrow> l \<notin> set (held s) \<and> P () (s\<lparr>held := l # held s\<rparr>)"
  by (simp add: acquire_def)

lemma release_wp [wp]:
  "wpk (release l s) P Q \<longleftrightarrow> l \<in> set (held s) \<and> P () (s\<lparr>held := remove1 l (held s)\<rparr>)"
  by (simp add: release_def)

lemma held_same [simp]: "s\<lparr>held := held s\<rparr> = s"
  by simp

end
