(* ===== verification/Kstring.thy ===== *)
theory Kstring
  imports Prelude
begin

text \<open>
  The string and memory routines of \<^verbatim>\<open>kernel/string.c\<close>, on byte-addressed
  memory. Each loop is a recursive function over the pointers the source moves; the
  lemmas give each routine its closed form, so that the rest of the development never
  unfolds a loop.
\<close>

section \<open>The routines\<close>

function memset_loop :: "memory \<Rightarrow> u64 \<Rightarrow> u8 \<Rightarrow> nat \<Rightarrow> nat \<Rightarrow> memory" where
  "memset_loop m dst c i n =
     (if i < n then memset_loop (m(dst + of_nat i := c)) dst c (Suc i) n else m)"
  by pat_completeness auto
termination by (relation "measure (\<lambda>(m, dst, c, i, n). n - i)") auto

declare memset_loop.simps [simp del]

definition memset :: "memory \<Rightarrow> u64 \<Rightarrow> i32 \<Rightarrow> u32 \<Rightarrow> memory" where
  "memset m dst c n = memset_loop m dst (ucast c) 0 (unat n)"

primrec memcmp_loop :: "memory \<Rightarrow> u64 \<Rightarrow> u64 \<Rightarrow> nat \<Rightarrow> int" where
  "memcmp_loop m s1 s2 0 = 0"
| "memcmp_loop m s1 s2 (Suc n) =
     (if m s1 \<noteq> m s2 then uint (m s1) - uint (m s2) else memcmp_loop m (s1 + 1) (s2 + 1) n)"

definition memcmp :: "memory \<Rightarrow> u64 \<Rightarrow> u64 \<Rightarrow> u32 \<Rightarrow> int" where
  "memcmp m v1 v2 n = memcmp_loop m v1 v2 (unat n)"

primrec copy_down :: "memory \<Rightarrow> u64 \<Rightarrow> u64 \<Rightarrow> nat \<Rightarrow> memory" where
  "copy_down m d s 0 = m"
| "copy_down m d s (Suc n) = (let d = d - 1; s = s - 1 in copy_down (m(d := m s)) d s n)"

primrec copy_up :: "memory \<Rightarrow> u64 \<Rightarrow> u64 \<Rightarrow> nat \<Rightarrow> memory" where
  "copy_up m d s 0 = m"
| "copy_up m d s (Suc n) = copy_up (m(d := m s)) (d + 1) (s + 1) n"

definition memmove :: "memory \<Rightarrow> u64 \<Rightarrow> u64 \<Rightarrow> u32 \<Rightarrow> memory" where
  "memmove m dst src n =
     (if n = 0 then m
      else if src < dst \<and> src + ucast n > dst
      then copy_down m (dst + ucast n) (src + ucast n) (unat n)
      else copy_up m dst src (unat n))"

definition memcpy :: "memory \<Rightarrow> u64 \<Rightarrow> u64 \<Rightarrow> u32 \<Rightarrow> memory" where
  "memcpy m dst src n = memmove m dst src n"

primrec strncmp_loop :: "memory \<Rightarrow> u64 \<Rightarrow> u64 \<Rightarrow> nat \<Rightarrow> int" where
  "strncmp_loop m p q 0 = 0"
| "strncmp_loop m p q (Suc n) =
     (if m p \<noteq> 0 \<and> m p = m q then strncmp_loop m (p + 1) (q + 1) n
      else uint (m p) - uint (m q))"

definition strncmp :: "memory \<Rightarrow> u64 \<Rightarrow> u64 \<Rightarrow> u32 \<Rightarrow> int" where
  "strncmp m p q n = strncmp_loop m p q (unat n)"

text \<open>\<open>strncpy\<close> takes a signed count; a count below one copies nothing. The first
  loop stops after the NUL it copied, the second one fills the rest.\<close>

primrec zero_fill :: "memory \<Rightarrow> u64 \<Rightarrow> nat \<Rightarrow> memory" where
  "zero_fill m s 0 = m"
| "zero_fill m s (Suc n) = zero_fill (m(s := 0)) (s + 1) n"

primrec strncpy_loop :: "memory \<Rightarrow> u64 \<Rightarrow> u64 \<Rightarrow> nat \<Rightarrow> memory" where
  "strncpy_loop m s t 0 = m"
| "strncpy_loop m s t (Suc n) =
     (let m' = m(s := m t) in
      if m t \<noteq> 0 then strncpy_loop m' (s + 1) (t + 1) n else zero_fill m' (s + 1) n)"

definition strncpy :: "memory \<Rightarrow> u64 \<Rightarrow> u64 \<Rightarrow> int \<Rightarrow> memory" where
  "strncpy m s t n = strncpy_loop m s t (nat n)"

primrec safestrcpy_loop :: "memory \<Rightarrow> u64 \<Rightarrow> u64 \<Rightarrow> nat \<Rightarrow> memory \<times> u64" where
  "safestrcpy_loop m s t 0 = (m, s)"
| "safestrcpy_loop m s t (Suc n) =
     (let m' = m(s := m t) in
      if m t \<noteq> 0 then safestrcpy_loop m' (s + 1) (t + 1) n else (m', s + 1))"

definition safestrcpy :: "memory \<Rightarrow> u64 \<Rightarrow> u64 \<Rightarrow> int \<Rightarrow> memory" where
  "safestrcpy m s t n =
     (if n \<le> 0 then m
      else let (m', s') = safestrcpy_loop m s t (nat (n - 1)) in m'(s' := 0))"

text \<open>\<open>strlen\<close> only returns when a NUL follows; \<open>None\<close> is a scan that never ends.\<close>

partial_function (option) strlen_loop :: "memory \<Rightarrow> u64 \<Rightarrow> nat \<Rightarrow> nat option" where
  "strlen_loop m s n = (if m (s + of_nat n) \<noteq> 0 then strlen_loop m s (Suc n) else Some n)"

definition strlen :: "memory \<Rightarrow> u64 \<Rightarrow> nat option" where
  "strlen m s = strlen_loop m s 0"

section \<open>Closed forms\<close>

lemma unat_u32_64: "unat (n :: u32) \<le> 2 ^ 64"
proof -
  have "unat n < 2 ^ LENGTH(32)" by (rule unsigned_less)
  then show ?thesis by simp
qed

lemma storeb_snoc:
  assumes "length bs < 2 ^ 64"
  shows "(storeb m a bs)(a + of_nat (length bs) := c) = storeb m a (bs @ [c])"
proof
  fix x
  have "x = a + of_nat (length bs) \<longleftrightarrow> unat (x - a) = length bs"
  proof
    assume "x = a + of_nat (length bs)"
    then show "unat (x - a) = length bs" using assms by (simp add: unat_of_nat64)
  next
    assume "unat (x - a) = length bs"
    then have "of_nat (unat (x - a)) = (of_nat (length bs) :: u64)" by simp
    then have "x - a = of_nat (length bs)" by simp
    then show "x = a + of_nat (length bs)" by (simp add: algebra_simps)
  qed
  then show "((storeb m a bs)(a + of_nat (length bs) := c)) x = storeb m a (bs @ [c]) x"
    by (auto simp: storeb_def nth_append)
qed

lemma memset_loop_storeb:
  assumes "i \<le> n" and "n \<le> 2 ^ 64"
  shows "memset_loop (storeb m dst (replicate i c)) dst c i n = storeb m dst (replicate n c)"
  using assms
proof (induction "n - i" arbitrary: i)
  case 0
  then show ?case by (simp add: memset_loop.simps)
next
  case (Suc k)
  then have "i < n" by simp
  moreover have "(storeb m dst (replicate i c))(dst + of_nat i := c)
      = storeb m dst (replicate (Suc i) c)"
    using storeb_snoc [of "replicate i c" m dst c] Suc.prems \<open>i < n\<close>
    by (simp add: replicate_append_same)
  ultimately show ?case
    using Suc.hyps(1) [of "Suc i"] Suc.hyps(2) Suc.prems
    by (simp add: memset_loop.simps [of _ _ _ i])
qed

lemma memset_storeb [memsimps]:
  "memset m dst c n = storeb m dst (replicate (unat n) (ucast c))"
  using memset_loop_storeb [of 0 "unat n" m dst "ucast c", OF _ unat_u32_64]
  by (simp add: memset_def)

lemma copy_up_storeb:
  assumes "k + n \<le> 2 ^ 64" and "\<And>i j. i < j \<Longrightarrow> j < k + n \<Longrightarrow> d + of_nat i \<noteq> s + of_nat j"
  shows "copy_up (storeb m d (loadb m s k)) (d + of_nat k) (s + of_nat k) n
           = storeb m d (loadb m s (k + n))"
  using assms
proof (induction n arbitrary: k)
  case 0
  then show ?case by simp
next
  case (Suc n)
  have src: "storeb m d (loadb m s k) (s + of_nat k) = m (s + of_nat k)"
  proof (rule storeb_out, rule ccontr)
    assume "\<not> length (loadb m s k) \<le> unat (s + of_nat k - d)"
    then have lt: "unat (s + of_nat k - d) < k" by simp
    have "d + of_nat (unat (s + of_nat k - d)) = s + of_nat k" by simp
    then show False using Suc.prems(2) [OF lt] by simp
  qed
  have "(storeb m d (loadb m s k))(d + of_nat k := m (s + of_nat k))
      = storeb m d (loadb m s (Suc k))"
    using storeb_snoc [of "loadb m s k" m d "m (s + of_nat k)"] Suc.prems(1)
    by (simp add: loadb_def)
  then show ?case
    using Suc.IH [of "Suc k"] Suc.prems src by (simp add: algebra_simps)
qed

lemma storeb_Cons:
  assumes "length bs < 2 ^ 64"
  shows "storeb (m(a := b)) (a + 1) bs = storeb m a (b # bs)"
proof
  fix x
  show "storeb (m(a := b)) (a + 1) bs x = storeb m a (b # bs) x"
  proof (cases "x = a")
    case True
    have "unat (- 1 :: u64) = 2 ^ 64 - 1"
      by (simp add: unsigned_minus_1_eq_mask mask_eq_exp_minus_1)
    then show ?thesis using True assms by (simp add: storeb_def)
  next
    case False
    then have "unat (x - (a + 1)) = unat (x - a) - 1" and "0 < unat (x - a)"
      using unat_minus_one [of "x - a"] by (auto simp: algebra_simps unat_gt_0)
    then show ?thesis using False by (auto simp: storeb_def nth_Cons')
  qed
qed

lemma loadb_snoc: "loadb m s (Suc n) = loadb m s n @ [m (s + of_nat n)]"
  by (simp add: loadb_def)

lemma unat_minus_step:
  assumes "Suc n \<le> unat (s - (t :: u64))" shows "n \<le> unat (s - (t + 1))"
proof -
  have "s - t \<noteq> 0" using assms by auto
  then have "unat (s - t - 1) = unat (s - t) - 1" by (rule unat_minus_one)
  then show ?thesis using assms by (simp add: algebra_simps)
qed

lemma copy_down_storeb:
  assumes "n \<le> 2 ^ 64" and "\<And>i j. i < j \<Longrightarrow> j < n \<Longrightarrow> d + of_nat j \<noteq> s + of_nat i"
  shows "copy_down m (d + of_nat n) (s + of_nat n) n = storeb m d (loadb m s n)"
  using assms
proof (induction n arbitrary: m)
  case 0
  then show ?case by (simp add: loadb_def)
next
  case (Suc n)
  let ?m = "m(d + of_nat n := m (s + of_nat n))"
  have "loadb ?m s n = loadb m s n"
  proof (rule nth_equalityI)
    fix i assume "i < length (loadb ?m s n)"
    then have i: "i < n" by simp
    then have "d + of_nat n \<noteq> s + of_nat i" using Suc.prems(2) [of i n] by simp
    then show "loadb ?m s n ! i = loadb m s n ! i" using i by auto
  qed simp
  moreover have "storeb ?m d (loadb m s n) = storeb m d (loadb m s n @ [m (s + of_nat n)])"
  proof -
    have "storeb ?m d (loadb m s n) = (storeb m d (loadb m s n))(d + of_nat n := m (s + of_nat n))"
      using Suc.prems(1) by (auto simp: storeb_def fun_eq_iff unat_of_nat64)
    then show ?thesis
      using storeb_snoc [of "loadb m s n" m d "m (s + of_nat n)"] Suc.prems(1) by simp
  qed
  moreover have "copy_down ?m (d + of_nat n) (s + of_nat n) n = storeb ?m d (loadb ?m s n)"
    by (rule Suc.IH) (use Suc.prems in auto)
  ultimately show ?case by (simp add: Let_def loadb_snoc algebra_simps del: fun_upd_apply)
qed

lemma loadb_Suc: "loadb m p (Suc n) = m p # loadb m (p + 1) n"
  by (rule nth_equalityI) (auto simp: nth_Cons' nth_loadb algebra_simps of_nat_diff)

lemma loadb_upd_out: "n \<le> unat (x - p) \<Longrightarrow> n \<le> 2 ^ 64 \<Longrightarrow> loadb (m(x := b)) p n = loadb m p n"
  by (rule nth_equalityI) (auto simp: unat_of_nat64)

lemma zero_fill_storeb: "n \<le> 2 ^ 64 \<Longrightarrow> zero_fill m s n = storeb m s (replicate n 0)"
proof (induction n arbitrary: m s)
  case 0
  then show ?case by simp
next
  case (Suc n)
  then show ?case using storeb_Cons [of "replicate n 0" m s 0] by simp
qed

text \<open>What \<open>strncpy\<close> writes: the bytes up to the first NUL, then NULs.\<close>

primrec nul_pad :: "u8 list \<Rightarrow> u8 list" where
  "nul_pad [] = []"
| "nul_pad (b # bs) = (if b = 0 then 0 # replicate (length bs) 0 else b # nul_pad bs)"

lemma length_nul_pad [simp]: "length (nul_pad bs) = length bs"
  by (induction bs) auto

lemma nul_pad_idem [simp]: "nul_pad (nul_pad bs) = nul_pad bs"
proof -
  have z: "nul_pad (replicate n 0) = replicate n 0" for n by (induction n) auto
  show ?thesis by (induction bs) (auto simp: z)
qed

lemma strncpy_loop_storeb:
  assumes "sep s n t n" and "2 * n \<le> 2 ^ 64"
  shows "strncpy_loop m s t n = storeb m s (nul_pad (loadb m t n))"
  using assms
proof (induction n arbitrary: m s t)
  case 0
  then show ?case by (simp add: loadb_def)
next
  case (Suc n)
  let ?m = "m(s := m t)"
  have "sep (s + 1) n (t + 1) n" using Suc.prems(1) by (simp add: sep_def)
  then have IH: "strncpy_loop ?m (s + 1) (t + 1) n
      = storeb ?m (s + 1) (nul_pad (loadb ?m (t + 1) n))"
    using Suc by simp
  have "n \<le> unat (s - (t + 1))"
    using Suc.prems(1) by (simp add: sep_def unat_minus_step)
  then have ld: "loadb ?m (t + 1) n = loadb m (t + 1) n"
    using Suc.prems(2) by (simp add: loadb_upd_out)
  show ?case
  proof (cases "m t = 0")
    case True
    then show ?thesis
      using Suc.prems(2) storeb_Cons [of "replicate n 0" m s 0]
      by (simp add: loadb_Suc Let_def zero_fill_storeb)
  next
    case False
    then show ?thesis
      using IH ld Suc.prems(2) storeb_Cons [of "nul_pad (loadb m (t + 1) n)" m s "m t"]
      by (simp add: loadb_Suc Let_def)
  qed
qed

lemma safestrcpy_loop_storeb:
  assumes "sep s n t n" and "2 * n \<le> 2 ^ 64"
  shows "safestrcpy_loop m s t n =
    (let bs = takeWhile (\<lambda>b. b \<noteq> 0) (loadb m t n);
         cs = (if length bs < n then bs @ [0] else bs)
     in (storeb m s cs, s + of_nat (length cs)))"
  using assms
proof (induction n arbitrary: m s t)
  case 0
  then show ?case by (simp add: loadb_def)
next
  case (Suc n)
  let ?m = "m(s := m t)" and ?bs = "takeWhile (\<lambda>b. b \<noteq> 0) (loadb m (t + 1) n)"
  have "sep (s + 1) n (t + 1) n" using Suc.prems(1) by (simp add: sep_def)
  have "n \<le> unat (s - (t + 1))"
    using Suc.prems(1) by (simp add: sep_def unat_minus_step)
  then have ld: "loadb ?m (t + 1) n = loadb m (t + 1) n"
    using Suc.prems(2) by (simp add: loadb_upd_out)
  have IH: "safestrcpy_loop ?m (s + 1) (t + 1) n =
      (let cs = (if length ?bs < n then ?bs @ [0] else ?bs)
       in (storeb ?m (s + 1) cs, s + 1 + of_nat (length cs)))"
    using Suc.IH [of "s + 1" "t + 1" ?m] \<open>sep (s + 1) n (t + 1) n\<close> Suc.prems(2)
    by (simp add: ld Let_def del: fun_upd_apply)
  have len: "length ?bs \<le> n"
    by (metis length_loadb length_takeWhile_le)
  have st: "storeb ?m (s + 1) cs = storeb m s (m t # cs)" if "length cs \<le> Suc n" for cs
    using that Suc.prems(2) by (intro storeb_Cons) simp
  show ?case
  proof (cases "m t = 0")
    case True
    then show ?thesis by (simp add: loadb_Suc Let_def)
  next
    case False
    then show ?thesis
      using len by (simp add: loadb_Suc IH Let_def st add.assoc del: fun_upd_apply)
  qed
qed

lemma range_eqD:
  fixes src dst :: u64
  assumes "unat src + n < 2 ^ 64" and "unat dst + n < 2 ^ 64" and "i < n" and "j < n"
    and "src + of_nat i = dst + of_nat j"
  shows "unat src + i = unat dst + j"
proof -
  have "unat (src + of_nat i) = unat src + i" "unat (dst + of_nat j) = unat dst + j"
    using assms(1-4) by (simp_all add: unat_add_nat)
  then show ?thesis using assms(5) by simp
qed

lemma memmove_down:
  fixes n :: u32
  assumes "unat src + unat n < 2 ^ 64" and "unat dst + unat n < 2 ^ 64" and "src < dst"
  shows "copy_down m (dst + of_nat (unat n)) (src + of_nat (unat n)) (unat n)
      = storeb m dst (loadb m src (unat n))"
proof (rule copy_down_storeb [OF unat_u32_64])
  fix i j assume "i < j" and "j < unat n"
  then show "dst + of_nat j \<noteq> src + of_nat i"
    using range_eqD [OF assms(1,2), of i j] assms(3) by (auto simp: word_less_nat_alt)
qed

lemma memmove_up:
  fixes n :: u32
  assumes "unat src + unat n < 2 ^ 64" and "unat dst + unat n < 2 ^ 64"
    and "\<not> (src < dst \<and> src + ucast n > dst)"
  shows "copy_up m dst src (unat n) = storeb m dst (loadb m src (unat n))"
proof -
  have "copy_up (storeb m dst (loadb m src 0)) (dst + of_nat 0) (src + of_nat 0) (unat n)
      = storeb m dst (loadb m src (0 + unat n))"
  proof (rule copy_up_storeb)
    fix i j assume ij: "i < j" "j < 0 + unat n"
    have "unat (src + ucast n) = unat src + unat n"
      using unat_add_nat [OF assms(1)] by simp
    then show "dst + of_nat i \<noteq> src + of_nat j"
      using range_eqD [OF assms(1,2), of j i] ij assms(3) by (auto simp: word_less_nat_alt)
  qed (use unat_u32_64 [of n] in simp)
  then show ?thesis by (simp add: loadb_def)
qed

lemma memmove_storeb:
  assumes "unat src + unat n < 2 ^ 64" and "unat dst + unat n < 2 ^ 64"
  shows "memmove m dst src n = storeb m dst (loadb m src (unat n))"
proof (cases "n = 0")
  case True
  then show ?thesis by (simp add: memmove_def loadb_def)
next
  case False
  then show ?thesis
    using memmove_down [OF assms, of m] memmove_up [OF assms, of m] by (auto simp: memmove_def)
qed

section \<open>Correctness of the routines\<close>

text \<open>
  C34. \<open>memmove\<close> is overlap-safe: whatever the order and overlap of the two regions,
  afterwards the destination holds the bytes the source held before the call and every
  other byte is unchanged (regions that do not wrap around the address space).
\<close>

theorem memmove_overlap_safe:
  assumes "unat src + unat n < 2 ^ 64" and "unat dst + unat n < 2 ^ 64"
  shows "memmove m dst src n = storeb m dst (loadb m src (unat n))"
  by (rule memmove_storeb [OF assms])

theorem memmove_overlap_safe_witness:
  "unat (0 :: u64) + unat (3 :: u32) < 2 ^ 64 \<and> unat (1 :: u64) + unat (3 :: u32) < 2 ^ 64 \<and>
   memmove (\<lambda>a. ucast a) 1 0 3 = storeb (\<lambda>a. ucast a) 1 (loadb (\<lambda>a. ucast a) 0 (unat (3 :: u32)))"
  using memmove_overlap_safe [of 0 3 1 "\<lambda>a. ucast a"] by simp

lemma nul_pad_eq_iff:
  "length bs = length cs \<Longrightarrow> nul_pad bs = nul_pad cs \<longleftrightarrow>
     (\<forall>i < length bs. (\<forall>j < i. bs ! j \<noteq> 0) \<longrightarrow> bs ! i = cs ! i)"
proof (induction bs cs rule: list_induct2)
  case Nil
  then show ?case by simp
next
  case (Cons b bs c cs)
  show ?case
  proof (cases "b = 0 \<or> b \<noteq> c")
    case True
    then show ?thesis using Cons.hyps by (auto simp: All_less_Suc2)
  next
    case False
    then show ?thesis using Cons.IH Cons.hyps by (auto simp: All_less_Suc2)
  qed
qed

lemma strncmp_loop_iff:
  "strncmp_loop m p q n = 0 \<longleftrightarrow> nul_pad (loadb m p n) = nul_pad (loadb m q n)"
proof (induction n arbitrary: p q)
  case 0
  then show ?case by (simp add: loadb_def)
next
  case (Suc n)
  have "uint (m p) - uint (m q) = 0 \<longleftrightarrow> m p = m q" by (simp add: word_uint_eq_iff)
  with Suc show ?case by (auto simp: loadb_Suc)
qed

text \<open>
  \<open>strncmp\<close> compares C strings: it returns 0 exactly when the two regions agree up
  to and including the first NUL, or on all \<open>n\<close> bytes when there is none.
\<close>

lemma strncmp_zero_iff:
  "strncmp m p q n = 0 \<longleftrightarrow>
     (\<forall>i < unat n. (\<forall>j < i. m (p + of_nat j) \<noteq> 0) \<longrightarrow> m (p + of_nat i) = m (q + of_nat i))"
  using nul_pad_eq_iff [of "loadb m p (unat n)" "loadb m q (unat n)"]
  by (auto simp: strncmp_def strncmp_loop_iff)

text \<open>
  C36. A name stored with \<open>strncpy\<close> is found by \<open>strncmp\<close>: after copying at most \<open>n\<close>
  bytes between regions that do not overlap, the two regions compare equal, and the bytes
  outside the destination are unchanged.
\<close>

theorem strncpy_strncmp:
  assumes "sep s (nat n) t (nat n)" and "0 \<le> n" and "n < 2 ^ 31"
  shows "strncmp (strncpy m s t n) s t (of_int n) = 0 \<and>
         strncpy m s t n = storeb m s (nul_pad (loadb m t (nat n)))"
proof -
  have cp: "strncpy m s t n = storeb m s (nul_pad (loadb m t (nat n)))"
    using assms by (simp add: strncpy_def strncpy_loop_storeb)
  have "unat (of_int n :: u32) = nat n"
    by (simp only: unat_eq_nat_uint uint_word_of_int) (use assms in simp)
  moreover have "loadb (storeb m s (nul_pad (loadb m t (nat n)))) s (nat n) = nul_pad (loadb m t (nat n))"
    using assms by (intro loadb_storeb_same) auto
  moreover have "loadb (storeb m s (nul_pad (loadb m t (nat n)))) t (nat n) = loadb m t (nat n)"
    using assms by (intro loadb_storeb_sep) auto
  ultimately show ?thesis by (simp add: cp strncmp_def strncmp_loop_iff)
qed

theorem strncpy_strncmp_witness:
  "strncmp (strncpy (\<lambda>a. ucast a) 8 0 4) 8 0 (of_int 4) = 0"
  by (rule strncpy_strncmp [THEN conjunct1]) (simp_all add: sep_def)

lemma safestrcpy_storeb:
  assumes "sep s (nat n) t (nat n)" and "0 < n" and "n < 2 ^ 31"
  shows "safestrcpy m s t n =
    (let bs = takeWhile (\<lambda>b. b \<noteq> 0) (loadb m t (nat (n - 1)))
     in storeb m s (bs @ (if length bs < nat (n - 1) then [0, 0] else [0])))"
proof -
  let ?k = "nat (n - 1)"
  let ?bs = "takeWhile (\<lambda>b. b \<noteq> 0) (loadb m t ?k)"
  have "sep s ?k t ?k" using assms(1) by (rule sep_mono) auto
  note loop = safestrcpy_loop_storeb [OF this, of m]
  have len: "length ?bs \<le> ?k" by (metis length_loadb length_takeWhile_le)
  have sn: "(storeb m s cs)(s + of_nat (length cs) := 0) = storeb m s (cs @ [0])"
    if "length cs \<le> Suc ?k" for cs
    using that assms by (intro storeb_snoc) auto
  show ?thesis
    using loop len assms sn [of "?bs @ [0]"] sn [of ?bs]
    by (auto simp: safestrcpy_def Let_def add.assoc)
qed

lemma strlen_loop_Some:
  assumes "m (s + of_nat k) = 0" and "\<And>i. n \<le> i \<Longrightarrow> i < k \<Longrightarrow> m (s + of_nat i) \<noteq> 0" and "n \<le> k"
  shows "strlen_loop m s n = Some k"
  using assms
proof (induction "k - n" arbitrary: n)
  case 0
  then show ?case by (simp add: strlen_loop.simps)
next
  case (Suc d)
  then have "m (s + of_nat n) \<noteq> 0" by simp
  moreover have "strlen_loop m s (Suc n) = Some k"
    using Suc by (intro Suc.hyps(1)) auto
  ultimately show ?case by (simp add: strlen_loop.simps [of m s n])
qed

lemma strlen_loop_SomeD:
  assumes "strlen_loop m s n = Some k"
  shows "n \<le> k \<and> m (s + of_nat k) = 0 \<and> (\<forall>i. n \<le> i \<longrightarrow> i < k \<longrightarrow> m (s + of_nat i) \<noteq> 0)"
proof (rule strlen_loop.raw_induct
    [where P = "\<lambda>m s n k. n \<le> k \<and> m (s + of_nat k) = 0 \<and>
       (\<forall>i. n \<le> i \<longrightarrow> i < k \<longrightarrow> m (s + of_nat i) \<noteq> 0)", OF _ assms])
  fix f m s n k
  assume IH: "\<And>m s n k. f m s n = Some k \<Longrightarrow> n \<le> k \<and> m (s + of_nat k) = 0 \<and>
       (\<forall>i. n \<le> i \<longrightarrow> i < k \<longrightarrow> m (s + of_nat i) \<noteq> (0 :: u8))"
    and eq: "(if m (s + of_nat n) \<noteq> 0 then f m s (Suc n) else Some n) = Some k"
  show "n \<le> k \<and> m (s + of_nat k) = 0 \<and> (\<forall>i. n \<le> i \<longrightarrow> i < k \<longrightarrow> m (s + of_nat i) \<noteq> 0)"
  proof (cases "m (s + of_nat n) = 0")
    case True
    then show ?thesis using eq by auto
  next
    case False
    then have "f m s (Suc n) = Some k" using eq by simp
    note * = IH [OF this]
    have "m (s + of_nat i) \<noteq> 0" if "n \<le> i" "i < k" for i
      using that * False by (cases "i = n") auto
    with * show ?thesis by simp
  qed
qed

text \<open>
  \<open>strlen\<close> returns exactly the offset of the first NUL: it returns \<open>k\<close> if and only
  if byte \<open>k\<close> is NUL and no earlier byte is.
\<close>

lemma strlen_iff:
  "strlen m s = Some k \<longleftrightarrow> m (s + of_nat k) = 0 \<and> (\<forall>i < k. m (s + of_nat i) \<noteq> 0)"
proof
  assume "strlen m s = Some k"
  then show "m (s + of_nat k) = 0 \<and> (\<forall>i < k. m (s + of_nat i) \<noteq> 0)"
    using strlen_loop_SomeD [of m s 0 k] by (simp add: strlen_def)
next
  assume "m (s + of_nat k) = 0 \<and> (\<forall>i < k. m (s + of_nat i) \<noteq> 0)"
  then show "strlen m s = Some k"
    unfolding strlen_def by (intro strlen_loop_Some) auto
qed

end
