(* ===== verification/Spinlock.thy ===== *)
theory Spinlock
  imports Prelude
begin

text \<open>
  \<^verbatim>\<open>kernel/spinlock.c\<close>: interrupt nesting, the lock operations of one CPU, and
  several CPUs interleaving inside them.

  The theory proves three things. Matched \<open>push_off\<close>/\<open>pop_off\<close> calls restore the
  interrupt flag. The code of one CPU implements the lock stack of theory \<open>Prelude\<close>
  (the contract is the locale \<open>lock_stack\<close>, interpreted on both). When CPUs interleave
  at the granularity of the atomic instructions of \<open>acquire\<close> and \<open>release\<close>, no two
  CPUs own a lock at the same time.

  The nesting depth \<^verbatim>\<open>noff\<close>, a C \<^verbatim>\<open>int\<close>, is an integer without bound here: the model and the code agree
  as long as fewer than 2^31 calls of \<open>push_off\<close> are nested.
\<close>

section \<open>One CPU\<close>

record cpu =
  noff :: int        \<comment> \<open>depth of \<open>push_off\<close> nesting\<close>
  intena :: bool     \<comment> \<open>were interrupts enabled before \<open>push_off\<close>?\<close>
  intr :: bool       \<comment> \<open>SIE bit of \<^verbatim>\<open>sstatus\<close>\<close>

record spinlock =
  locked :: bool
  lkcpu :: "nat option"

record smp =
  cpus :: "nat \<Rightarrow> cpu"
  locks :: "lockid \<Rightarrow> spinlock"

definition push_off :: "cpu \<Rightarrow> cpu" where
  "push_off c =
     (let old = intr c;
          c = c\<lparr>intr := False\<rparr>;
          c = (if noff c = 0 then c\<lparr>intena := old\<rparr> else c)
      in c\<lparr>noff := noff c + 1\<rparr>)"

definition pop_off :: "cpu \<Rightarrow> unit res \<times> cpu" where
  "pop_off c =
     (if intr c then (Panic ''pop_off - interruptible'', c)
      else if noff c < 1 then (Panic ''pop_off'', c)
      else let c = c\<lparr>noff := noff c - 1\<rparr>
           in (Ret (), if noff c = 0 \<and> intena c then c\<lparr>intr := True\<rparr> else c))"

definition initlock :: "lockid \<Rightarrow> smp \<Rightarrow> smp" where
  "initlock l s = s\<lparr>locks := (locks s)(l := \<lparr>locked = False, lkcpu = None\<rparr>)\<rparr>"

definition holding :: "nat \<Rightarrow> lockid \<Rightarrow> 'z smp_scheme \<Rightarrow> bool" where
  "holding me l s \<longleftrightarrow> locked (locks s l) \<and> lkcpu (locks s l) = Some me"

text \<open>The whole of \<open>acquire\<close> when no other CPU interferes: a lock that somebody else
  holds is spun on for ever.\<close>

definition spin_acquire :: "nat \<Rightarrow> lockid \<Rightarrow> smp \<Rightarrow> unit res \<times> smp" where
  "spin_acquire me l s =
     (let s = s\<lparr>cpus := (cpus s)(me := push_off (cpus s me))\<rparr>
      in if holding me l s then (Panic ''acquire'', s)
         else if locked (locks s l) then (Hang, s)
         else let s = s\<lparr>locks := (locks s)(l := (locks s l)\<lparr>locked := True\<rparr>)\<rparr>
              in (Ret (), s\<lparr>locks := (locks s)(l := (locks s l)\<lparr>lkcpu := Some me\<rparr>)\<rparr>))"

definition spin_release :: "nat \<Rightarrow> lockid \<Rightarrow> smp \<Rightarrow> unit res \<times> smp" where
  "spin_release me l s =
     (if \<not> holding me l s then (Panic ''release'', s)
      else let s = s\<lparr>locks := (locks s)(l := (locks s l)\<lparr>lkcpu := None\<rparr>)\<rparr>;
               s = s\<lparr>locks := (locks s)(l := (locks s l)\<lparr>locked := False\<rparr>)\<rparr>
           in (case pop_off (cpus s me) of
                 (r, c) \<Rightarrow> (r, s\<lparr>cpus := (cpus s)(me := c)\<rparr>)))"

section \<open>Several CPUs\<close>

text \<open>Where a CPU stands: outside the lock code, about to test-and-set, about to record
  itself as the owner, or between clearing the owner and clearing the lock word.\<close>

datatype pc = Run | AtTas lockid | AtSetCpu lockid | AtClear lockid

record lsys = smp +
  pcs :: "nat \<Rightarrow> pc"
  stk :: "nat \<Rightarrow> lockid list"   \<comment> \<open>ghost: the locks whose word this CPU has set, latest first\<close>

definition owns :: "nat \<Rightarrow> lockid \<Rightarrow> lsys \<Rightarrow> bool" where
  "owns c l s \<longleftrightarrow> pcs s c = AtSetCpu l \<or> pcs s c = AtClear l \<or> lkcpu (locks s l) = Some c"

definition lsys_init :: lsys where
  "lsys_init = \<lparr>cpus = (\<lambda>_. \<lparr>noff = 0, intena = False, intr = True\<rparr>),
     locks = (\<lambda>_. \<lparr>locked = False, lkcpu = None\<rparr>), pcs = (\<lambda>_. Run), stk = (\<lambda>_. [])\<rparr>"

inductive spin_step :: "lsys \<Rightarrow> lsys \<Rightarrow> bool" where
  irq: "pcs s c = Run \<Longrightarrow> noff (cpus s c) = 0 \<Longrightarrow>
     spin_step s (s\<lparr>cpus := (cpus s)(c := (cpus s c)\<lparr>intr := b\<rparr>)\<rparr>)"
| enter: "pcs s c = Run \<Longrightarrow> \<not> holding c l s \<Longrightarrow>
     spin_step s (s\<lparr>cpus := (cpus s)(c := push_off (cpus s c)), pcs := (pcs s)(c := AtTas l)\<rparr>)"
| tas_busy: "pcs s c = AtTas l \<Longrightarrow> locked (locks s l) \<Longrightarrow>
     spin_step s (s\<lparr>locks := (locks s)(l := (locks s l)\<lparr>locked := True\<rparr>)\<rparr>)"
| tas_free: "pcs s c = AtTas l \<Longrightarrow> \<not> locked (locks s l) \<Longrightarrow>
     spin_step s (s\<lparr>locks := (locks s)(l := (locks s l)\<lparr>locked := True\<rparr>),
                    pcs := (pcs s)(c := AtSetCpu l), stk := (stk s)(c := l # stk s c)\<rparr>)"
| set_cpu: "pcs s c = AtSetCpu l \<Longrightarrow>
     spin_step s (s\<lparr>locks := (locks s)(l := (locks s l)\<lparr>lkcpu := Some c\<rparr>),
                    pcs := (pcs s)(c := Run)\<rparr>)"
| leave: "pcs s c = Run \<Longrightarrow> holding c l s \<Longrightarrow>
     spin_step s (s\<lparr>locks := (locks s)(l := (locks s l)\<lparr>lkcpu := None\<rparr>),
                    pcs := (pcs s)(c := AtClear l)\<rparr>)"
| clear: "pcs s c = AtClear l \<Longrightarrow> pop_off (cpus s c) = (Ret (), c') \<Longrightarrow>
     spin_step s (s\<lparr>locks := (locks s)(l := (locks s l)\<lparr>locked := False\<rparr>),
                    cpus := (cpus s)(c := c'), pcs := (pcs s)(c := Run),
                    stk := (stk s)(c := remove1 l (stk s c))\<rparr>)"

inductive spin_reach :: "lsys \<Rightarrow> bool" where
  start: "spin_reach lsys_init"
| step: "spin_reach s \<Longrightarrow> spin_step s t \<Longrightarrow> spin_reach t"

text \<open>The invariant, one lock and one CPU at a time: a lock word is set exactly while it is
  on some CPU's stack, and on one stack only; the recorded owner is that CPU, except in
  the two windows where \<open>acquire\<close> and \<open>release\<close> have only done half of their work; the
  nesting depth counts the stack, and interrupts are off while it is positive.\<close>

definition tas_depth :: "pc \<Rightarrow> int" where
  "tas_depth p = (case p of AtTas _ \<Rightarrow> 1 | _ \<Rightarrow> 0)"

definition lock_ok :: "lsys \<Rightarrow> lockid \<Rightarrow> bool" where
  "lock_ok s l \<longleftrightarrow> (locked (locks s l) \<longleftrightarrow> (\<exists>c. l \<in> set (stk s c))) \<and>
     (\<forall>c d. l \<in> set (stk s c) \<longrightarrow> l \<in> set (stk s d) \<longrightarrow> c = d) \<and>
     (\<forall>c. lkcpu (locks s l) = Some c \<longleftrightarrow>
        l \<in> set (stk s c) \<and> pcs s c \<noteq> AtSetCpu l \<and> pcs s c \<noteq> AtClear l) \<and>
     (\<forall>c. pcs s c = AtSetCpu l \<or> pcs s c = AtClear l \<longrightarrow> l \<in> set (stk s c))"

definition cpu_ok :: "lsys \<Rightarrow> nat \<Rightarrow> bool" where
  "cpu_ok s c \<longleftrightarrow> distinct (stk s c) \<and>
     noff (cpus s c) = int (length (stk s c)) + tas_depth (pcs s c) \<and>
     (0 < noff (cpus s c) \<longrightarrow> \<not> intr (cpus s c))"

definition spin_inv :: "lsys \<Rightarrow> bool" where
  "spin_inv s \<longleftrightarrow> (\<forall>l. lock_ok s l) \<and> (\<forall>c. cpu_ok s c)"

section \<open>Interrupt nesting\<close>

lemma push_off_fields [simp]:
  "noff (push_off c) = noff c + 1"
  "intr (push_off c) = False"
  "intena (push_off c) = (if noff c = 0 then intr c else intena c)"
  by (simp_all add: push_off_def Let_def)

primrec pops :: "nat \<Rightarrow> cpu \<Rightarrow> unit res \<times> cpu" where
  "pops 0 c = (Ret (), c)"
| "pops (Suc n) c = bnd (pop_off c) (\<lambda>_ c. pops n c)"

lemma pops_nested:
  assumes "\<not> intr c" and "noff c = int n" and "0 < n"
  shows "pops n c = (Ret (), c\<lparr>noff := 0, intr := intena c\<rparr>)"
  using assms
proof (induction n arbitrary: c)
  case 0
  then show ?case by simp
next
  case (Suc n)
  show ?case
  proof (cases "n = 0")
    case True
    then show ?thesis using Suc.prems by (simp add: pop_off_def Let_def)
  next
    case False
    then have "pops n (c\<lparr>noff := int n\<rparr>) = (Ret (), c\<lparr>noff := 0, intr := intena c\<rparr>)"
      using Suc.IH [of "c\<lparr>noff := int n\<rparr>"] Suc.prems by simp
    then show ?thesis using Suc.prems False by (simp add: pop_off_def Let_def)
  qed
qed

lemma pushes_nested:
  assumes "noff c = 0"
  shows "(push_off ^^ Suc n) c = c\<lparr>noff := int (Suc n), intena := intr c, intr := False\<rparr>"
proof (induction n)
  case 0
  then show ?case using assms by (simp add: push_off_def Let_def)
next
  case (Suc n)
  then show ?case by (simp add: push_off_def Let_def)
qed

text \<open>
  C37. Interrupt nesting: starting outside any critical section, for any \<open>n\<close> below 2^31, \<open>n\<close> calls of
  \<open>push_off\<close> leave the depth at \<open>n\<close> and interrupts off, and \<open>n\<close> calls of \<open>pop_off\<close> after them
  never panic and leave the depth at zero and the interrupt flag as it was, whether it was on or
  off. On the way the depth stays in the range of the C \<^verbatim>\<open>int\<close> that holds it. Deeper nesting would
  overflow it and is not covered.
\<close>

theorem push_pop_restores:
  assumes "noff c = 0" and "0 < n" and "n < 2 ^ 31"
  shows "(\<forall>k \<le> n. noff ((push_off ^^ k) c) = int k \<and> int k < 2 ^ 31 \<and> (0 < k \<longrightarrow> \<not> intr ((push_off ^^ k) c))) \<and>
    (\<exists>c'. pops n ((push_off ^^ n) c) = (Ret (), c') \<and> noff c' = 0 \<and> intr c' = intr c)"
proof
  show "\<forall>k \<le> n. noff ((push_off ^^ k) c) = int k \<and> int k < 2 ^ 31 \<and> (0 < k \<longrightarrow> \<not> intr ((push_off ^^ k) c))"
  proof (intro allI impI)
    fix k assume "k \<le> n"
    then have "int k < 2 ^ 31" using assms(3) by simp
    then show "noff ((push_off ^^ k) c) = int k \<and> int k < 2 ^ 31 \<and> (0 < k \<longrightarrow> \<not> intr ((push_off ^^ k) c))"
      using assms(1) pushes_nested [OF assms(1), of "k - 1"] by (cases k) (simp_all del: funpow.simps(2))
  qed
next
  obtain k where k: "n = Suc k" using assms(2) by (cases n) auto
  show "\<exists>c'. pops n ((push_off ^^ n) c) = (Ret (), c') \<and> noff c' = 0 \<and> intr c' = intr c"
    using pushes_nested [OF assms(1), of k] by (simp add: k pops_nested del: pops.simps funpow.simps)
qed

theorem push_pop_restores_witness:
  "\<exists>c'. pops 2 ((push_off ^^ 2) \<lparr>noff = 0, intena = False, intr = True\<rparr>) = (Ret (), c') \<and>
     noff c' = 0 \<and> intr c'"
  using push_pop_restores [of "\<lparr>noff = 0, intena = False, intr = True\<rparr>" 2] by simp

section \<open>Mutual exclusion\<close>

lemma spin_inv_init: "spin_inv lsys_init"
  by (simp add: spin_inv_def lock_ok_def cpu_ok_def lsys_init_def tas_depth_def)

lemma holding_stk: "lock_ok s l \<Longrightarrow> holding c l s \<Longrightarrow> l \<in> set (stk s c)"
  by (auto simp: lock_ok_def holding_def)

lemma spin_step_lock_ok:
  assumes "spin_step s t" and "spin_inv s"
  shows "lock_ok t l"
proof -
  from assms(2) have L: "\<And>l. lock_ok s l" and C: "\<And>c. cpu_ok s c" by (auto simp: spin_inv_def)
  from assms(1) show ?thesis
  proof cases
    case (irq c b)
    then show ?thesis using L [of l] by (simp add: lock_ok_def)
  next
    case (enter c k)
    then show ?thesis using L [of l] by (auto simp: lock_ok_def)
  next
    case (tas_busy c k)
    then show ?thesis using L [of l] by (auto simp: lock_ok_def)
  next
    case (tas_free c k)
    then show ?thesis using L [of l] L [of k] by (auto simp: lock_ok_def)
  next
    case (set_cpu c k)
    then show ?thesis using L [of l] by (auto simp: lock_ok_def)
  next
    case (leave c k)
    then show ?thesis using L [of l] by (auto simp: lock_ok_def holding_def)
  next
    case (clear c k c')
    then show ?thesis using L [of l] C [of c] by (auto simp: lock_ok_def cpu_ok_def)
  qed
qed

lemma pop_off_Ret:
  "pop_off c = (Ret (), c') \<Longrightarrow> noff c' = noff c - 1 \<and> (0 < noff c' \<longrightarrow> \<not> intr c')"
  by (auto simp: pop_off_def Let_def split: if_splits)

lemma spin_step_cpu_ok:
  assumes "spin_step s t" and "spin_inv s"
  shows "cpu_ok t d"
proof -
  from assms(2) have L: "\<And>l. lock_ok s l" and C: "\<And>c. cpu_ok s c" by (auto simp: spin_inv_def)
  from assms(1) show ?thesis
  proof cases
    case (irq c b)
    then show ?thesis using C [of d] by (auto simp: cpu_ok_def)
  next
    case (enter c k)
    then show ?thesis using C [of d] by (auto simp: cpu_ok_def tas_depth_def)
  next
    case (tas_busy c k)
    then show ?thesis using C [of d] by (auto simp: cpu_ok_def)
  next
    case (tas_free c k)
    then show ?thesis using C [of d] L [of k] by (auto simp: cpu_ok_def lock_ok_def tas_depth_def)
  next
    case (set_cpu c k)
    then show ?thesis using C [of d] by (auto simp: cpu_ok_def tas_depth_def)
  next
    case (leave c k)
    then show ?thesis using C [of d] by (auto simp: cpu_ok_def tas_depth_def)
  next
    case (clear c k c')
    have k: "k \<in> set (stk s c)" using L [of k] clear by (simp add: lock_ok_def)
    then have "length (remove1 k (stk s c)) + 1 = length (stk s c)"
      using length_pos_if_in_set [OF k] by (simp add: length_remove1)
    then show ?thesis using C [of d] clear pop_off_Ret [OF clear(3)]
      by (cases "d = c") (simp_all add: cpu_ok_def tas_depth_def)
  qed
qed

lemma spin_step_inv: "spin_step s t \<Longrightarrow> spin_inv s \<Longrightarrow> spin_inv t"
  unfolding spin_inv_def [of t] using spin_step_lock_ok spin_step_cpu_ok by blast

lemma spin_reach_inv: "spin_reach s \<Longrightarrow> spin_inv s"
  by (induction rule: spin_reach.induct) (auto intro: spin_inv_init spin_step_inv)

lemma owns_stk: "spin_inv s \<Longrightarrow> owns c l s \<longleftrightarrow> l \<in> set (stk s c)"
  by (auto simp: spin_inv_def lock_ok_def owns_def)

lemmas spin_reachD = spin_reach_inv [THEN owns_stk] spin_reach_inv [unfolded spin_inv_def]

text \<open>
  C23. Mutual exclusion and interrupt safety: in every state that any number of CPUs can
  reach by interleaving the atomic instructions of \<open>acquire\<close> and \<open>release\<close>, a lock has
  at most one owner, the owner runs with interrupts off, and when the owner reaches the
  end of \<open>release\<close> its \<open>pop_off\<close> does not panic.
\<close>

theorem spin_mutual_exclusion:
  assumes "spin_reach s" and "owns c l s"
  shows "(\<forall>d. owns d l s \<longrightarrow> d = c) \<and> \<not> intr (cpus s c) \<and>
         (pcs s c = AtClear l \<longrightarrow> (\<exists>c'. pop_off (cpus s c) = (Ret (), c')))"
proof -
  have inv: "spin_inv s" using assms(1) by (rule spin_reach_inv)
  then have stk: "l \<in> set (stk s c)" using assms(2) by (simp add: owns_stk)
  have "lock_ok s l" and ok: "cpu_ok s c" using inv by (auto simp: spin_inv_def)
  then have uniq: "\<forall>d. owns d l s \<longrightarrow> d = c"
    using stk by (auto simp: owns_stk [OF inv] lock_ok_def)
  have pos: "0 < noff (cpus s c)"
    using ok length_pos_if_in_set [OF stk] by (cases "pcs s c") (auto simp: cpu_ok_def tas_depth_def)
  then have "\<not> intr (cpus s c)" using ok by (simp add: cpu_ok_def)
  with pos uniq show ?thesis by (simp add: pop_off_def Let_def)
qed

lemma spin_reach_owner: "spin_reach (lsys_init\<lparr>
    cpus := (cpus lsys_init)(0 := push_off (cpus lsys_init 0)), pcs := (pcs lsys_init)(0 := AtTas KmemLock)\<rparr>)"
  by (rule spin_reach.step [OF spin_reach.start], rule spin_step.enter)
     (simp_all add: lsys_init_def holding_def)

definition lsys_one :: lsys where
  "lsys_one = \<lparr>cpus = (\<lambda>_. \<lparr>noff = 0, intena = False, intr = True\<rparr>)
       (0 := \<lparr>noff = 1, intena = True, intr = False\<rparr>),
     locks = (\<lambda>_. \<lparr>locked = False, lkcpu = None\<rparr>)(KmemLock := \<lparr>locked = True, lkcpu = None\<rparr>),
     pcs = (\<lambda>_. Run)(0 := AtSetCpu KmemLock), stk = (\<lambda>_. [])(0 := [KmemLock])\<rparr>"

lemma lsys_one_reach: "spin_reach lsys_one"
proof -
  let ?s = "lsys_init\<lparr>cpus := (cpus lsys_init)(0 := push_off (cpus lsys_init 0)),
    pcs := (pcs lsys_init)(0 := AtTas KmemLock)\<rparr>"
  have "spin_step ?s (?s\<lparr>locks := (locks ?s)(KmemLock := (locks ?s KmemLock)\<lparr>locked := True\<rparr>),
      pcs := (pcs ?s)(0 := AtSetCpu KmemLock), stk := (stk ?s)(0 := KmemLock # stk ?s 0)\<rparr>)"
    by (rule spin_step.tas_free) (simp_all add: lsys_init_def)
  then have "spin_reach (?s\<lparr>locks := (locks ?s)(KmemLock := (locks ?s KmemLock)\<lparr>locked := True\<rparr>),
      pcs := (pcs ?s)(0 := AtSetCpu KmemLock), stk := (stk ?s)(0 := KmemLock # stk ?s 0)\<rparr>)"
    by (rule spin_reach.step [OF spin_reach_owner])
  moreover have "?s\<lparr>locks := (locks ?s)(KmemLock := (locks ?s KmemLock)\<lparr>locked := True\<rparr>),
      pcs := (pcs ?s)(0 := AtSetCpu KmemLock), stk := (stk ?s)(0 := KmemLock # stk ?s 0)\<rparr> = lsys_one"
    by (simp add: lsys_init_def lsys_one_def push_off_def Let_def fun_eq_iff)
  ultimately show ?thesis by simp
qed

theorem spin_mutual_exclusion_witness:
  "owns 0 KmemLock lsys_one \<and> \<not> owns 1 KmemLock lsys_one \<and> \<not> intr (cpus lsys_one 0)"
proof -
  have own: "owns 0 KmemLock lsys_one" by (simp add: owns_def lsys_one_def)
  from spin_mutual_exclusion [OF lsys_one_reach own] own show ?thesis by auto
qed

section \<open>The lock stack as an interface\<close>

text \<open>
  What the rest of the kernel relies on: \<open>stack s h\<close> says that the running CPU holds
  exactly the locks \<open>h\<close>, innermost first, and \<open>free l s\<close> that nobody holds \<open>l\<close>. A lock
  that is free can be acquired and a lock on the stack released; acquiring a lock twice
  and releasing a lock that is not held panic.
\<close>

locale lock_stack =
  fixes acq rel :: "lockid \<Rightarrow> 's \<Rightarrow> unit res \<times> 's"
    and stack :: "'s \<Rightarrow> lockid list \<Rightarrow> bool"
    and free :: "lockid \<Rightarrow> 's \<Rightarrow> bool"
  assumes acq_free: "stack s h \<Longrightarrow> l \<notin> set h \<Longrightarrow> free l s \<Longrightarrow> ok (acq l s) (\<lambda>_ s'. stack s' (l # h))"
    and acq_held: "stack s h \<Longrightarrow> l \<in> set h \<Longrightarrow> fst (acq l s) = Panic ''acquire''"
    and rel_held: "stack s h \<Longrightarrow> l \<in> set h \<Longrightarrow> ok (rel l s) (\<lambda>_ s'. stack s' (remove1 l h) \<and> free l s')"
    and rel_free: "stack s h \<Longrightarrow> l \<notin> set h \<Longrightarrow> fst (rel l s) = Panic ''release''"
begin

text \<open>A critical section whose body keeps the stack returns with the stack it started
  with and the lock free again, whatever locks the caller already holds.\<close>

lemma critical_section:
  assumes "stack s h" and "l \<notin> set h" and "free l s"
    and body: "\<And>s. stack s (l # h) \<Longrightarrow> ok (f s) (\<lambda>r s'. stack s' (l # h) \<and> P r)"
  shows "ok (bnd (acq l s) (\<lambda>_ s. bnd (f s) (\<lambda>r s. bnd (rel l s) (\<lambda>_ s. (Ret r, s)))))
           (\<lambda>r s'. stack s' h \<and> free l s' \<and> P r)"
proof -
  obtain s1 where s1: "acq l s = (Ret (), s1)" "stack s1 (l # h)"
    using acq_free [OF assms(1-3)] by (rule ok_E) auto
  obtain r s2 where s2: "f s1 = (Ret r, s2)" "stack s2 (l # h)" "P r"
    using body [OF s1(2)] by (rule ok_E) auto
  obtain s3 where "rel l s2 = (Ret (), s3)" "stack s3 h" "free l s3"
    using rel_held [OF s2(2), of l] by (auto elim!: ok_E)
  with s1 s2 show ?thesis by simp
qed

text \<open>Taking a lock twice inside its own critical section panics before the body runs.\<close>

lemma no_recursive_acquire:
  assumes "stack s h" and "l \<notin> set h" and "free l s"
  shows "fst (bnd (acq l s) (\<lambda>_ s. bnd (acq l s) f)) = Panic ''acquire''"
proof -
  obtain s1 where s1: "acq l s = (Ret (), s1)" "stack s1 (l # h)"
    using acq_free [OF assms] by (rule ok_E) auto
  obtain r s2 where "acq l s1 = (r, s2)" by (cases "acq l s1") auto
  with acq_held [OF s1(2), of l] s1(1) show ?thesis by simp
qed

end

interpretation abs_locks: lock_stack acquire release "\<lambda>s h. held s = h" "\<lambda>l s. True"
  by unfold_locales (auto simp: acquire_def release_def)

text \<open>The relation between the locks and CPUs of \<^verbatim>\<open>spinlock.c\<close> and a lock stack.\<close>

definition spin_stack :: "nat \<Rightarrow> smp \<Rightarrow> lockid list \<Rightarrow> bool" where
  "spin_stack me s h \<longleftrightarrow> distinct h \<and> set h = {l. holding me l s} \<and>
     noff (cpus s me) = int (length h) \<and> (h \<noteq> [] \<longrightarrow> \<not> intr (cpus s me))"

lemma spin_acquire_free:
  assumes "spin_stack me s h" and "l \<notin> set h" and "\<not> locked (locks s l)"
  shows "ok (spin_acquire me l s) (\<lambda>_ s'. spin_stack me s' (l # h))"
  using assms by (auto simp: spin_acquire_def spin_stack_def holding_def Let_def)

lemma spin_release_held:
  assumes "spin_stack me s h" and "l \<in> set h"
  shows "ok (spin_release me l s) (\<lambda>_ s'. spin_stack me s' (remove1 l h) \<and> \<not> locked (locks s' l))"
proof -
  have ni: "\<not> intr (cpus s me)" and n: "noff (cpus s me) = int (length h)" and hl: "holding me l s"
    using assms by (auto simp: spin_stack_def)
  have pos: "0 < length h" using assms(2) by (rule length_pos_if_in_set)
  have len: "int (length (remove1 l h)) = int (length h) - 1"
    using assms(2) pos by (simp add: length_remove1 of_nat_diff Suc_le_eq)
  then have one: "length h = Suc 0 \<longrightarrow> remove1 l h = []" by auto
  have "pop_off (cpus s me) = (Ret (), (cpus s me)\<lparr>noff := int (length h) - 1,
      intr := (length h = 1 \<and> intena (cpus s me))\<rparr>)"
    using ni n pos by (auto simp: pop_off_def Let_def)
  then show ?thesis
    using assms hl len one by (auto simp: spin_release_def spin_stack_def holding_def Let_def)
qed

interpretation spin_locks: lock_stack "spin_acquire me" "spin_release me" "spin_stack me"
    "\<lambda>l s. \<not> locked (locks s l)" for me
proof unfold_locales
  fix s h l assume "spin_stack me s h" and "l \<in> set h"
  then show "fst (spin_acquire me l s) = Panic ''acquire''"
    by (auto simp: spin_acquire_def spin_stack_def holding_def Let_def)
next
  fix s h l assume "spin_stack me s h" and "l \<notin> set h"
  then show "fst (spin_release me l s) = Panic ''release''"
    by (auto simp: spin_release_def spin_stack_def)
qed (simp_all add: spin_acquire_free spin_release_held)

text \<open>
  C28. The detailed spinlock code implements the lock stack: on CPU \<open>me\<close> with stack \<open>h\<close>,
  acquiring a lock behaves as the abstract \<open>acquire\<close> does (it pushes a free lock and
  panics on one already held), and releasing behaves as the abstract \<open>release\<close>.
\<close>

theorem spinlock_refines_stack:
  assumes "spin_stack me s h" and "held t = h" and "l \<in> set h \<or> \<not> locked (locks s l)"
  shows "(\<exists>r s' t'. spin_acquire me l s = (r, s') \<and> acquire l t = (r, t') \<and>
            (r = Ret () \<longrightarrow> spin_stack me s' (held t'))) \<and>
         (\<exists>r s' t'. spin_release me l s = (r, s') \<and> release l t = (r, t') \<and>
            (r = Ret () \<longrightarrow> spin_stack me s' (held t')))"
proof (cases "l \<in> set h")
  case True
  have "fst (spin_acquire me l s) = Panic ''acquire''"
    by (rule spin_locks.acq_held [OF assms(1) True])
  moreover obtain s' where "spin_release me l s = (Ret (), s')" "spin_stack me s' (remove1 l h)"
    using spin_locks.rel_held [OF assms(1) True] by (auto elim!: ok_E)
  ultimately show ?thesis
    using True assms(2) by (cases "spin_acquire me l s") (auto simp: acquire_def release_def)
next
  case False
  have "fst (spin_release me l s) = Panic ''release''"
    by (rule spin_locks.rel_free [OF assms(1) False])
  moreover obtain s' where "spin_acquire me l s = (Ret (), s')" "spin_stack me s' (l # h)"
    using spin_locks.acq_free [OF assms(1) False] assms(3) False by (auto elim!: ok_E)
  ultimately show ?thesis
    using False assms(2) by (cases "spin_release me l s") (auto simp: acquire_def release_def)
qed

definition smp_idle :: smp where
  "smp_idle = \<lparr>cpus = (\<lambda>_. \<lparr>noff = 0, intena = False, intr = True\<rparr>),
     locks = (\<lambda>_. \<lparr>locked = False, lkcpu = None\<rparr>)\<rparr>"

theorem spinlock_refines_stack_witness:
  "\<exists>s' t'. spin_acquire 0 KmemLock smp_idle = (Ret (), s') \<and>
     acquire KmemLock \<lparr>held = [], mem = (\<lambda>_. 0)\<rparr> = (Ret (), t') \<and> spin_stack 0 s' (held t')"
proof -
  have "spin_stack 0 smp_idle []" by (simp add: spin_stack_def smp_idle_def holding_def)
  moreover have "\<not> locked (locks smp_idle KmemLock)" by (simp add: smp_idle_def)
  ultimately show ?thesis
    using spinlock_refines_stack [of 0 smp_idle "[]" "\<lparr>held = [], mem = (\<lambda>_. 0)\<rparr>" KmemLock]
    by (auto simp: acquire_def)
qed

end
