(* ===== verification/Layout.thy ===== *)
theory Layout
  imports Prelude
begin

text \<open>
  The address arithmetic of \<^verbatim>\<open>kernel/riscv.h\<close> and \<^verbatim>\<open>kernel/memlayout.h\<close>: page
  rounding, page-table entries, the indices of a virtual address, and the fixed places of
  the address space.
\<close>

section \<open>Definitions\<close>

abbreviation PGSIZE :: u64 where "PGSIZE \<equiv> 4096"
abbreviation PTE_V :: u64 where "PTE_V \<equiv> 1"
abbreviation PTE_R :: u64 where "PTE_R \<equiv> 2"
abbreviation PTE_W :: u64 where "PTE_W \<equiv> 4"
abbreviation PTE_X :: u64 where "PTE_X \<equiv> 8"
abbreviation PTE_U :: u64 where "PTE_U \<equiv> 16"

definition PGROUNDUP :: "u64 \<Rightarrow> u64" where
  "PGROUNDUP sz = (sz + PGSIZE - 1) AND NOT (PGSIZE - 1)"

definition PGROUNDDOWN :: "u64 \<Rightarrow> u64" where
  "PGROUNDDOWN a = a AND NOT (PGSIZE - 1)"

definition PA2PTE :: "u64 \<Rightarrow> u64" where
  "PA2PTE pa = push_bit 10 (drop_bit 12 pa)"

definition PTE2PA :: "u64 \<Rightarrow> u64" where
  "PTE2PA pte = push_bit 12 (drop_bit 10 pte)"

definition PTE_FLAGS :: "u64 \<Rightarrow> u64" where
  "PTE_FLAGS pte = pte AND 0x3FF"

definition PX :: "nat \<Rightarrow> u64 \<Rightarrow> u64" where
  "PX level va = drop_bit (12 + 9 * level) va AND 0x1FF"

text \<open>\<^verbatim>\<open>MAXVA\<close> is \<open>2^38\<close>, \<^verbatim>\<open>KERNBASE\<close> is \<open>2^31\<close>, and physical memory ends 128
  megabytes above it.\<close>

abbreviation MAXVA :: u64 where "MAXVA \<equiv> 0x4000000000"
abbreviation TRAMPOLINE :: u64 where "TRAMPOLINE \<equiv> MAXVA - PGSIZE"
abbreviation TRAPFRAME :: u64 where "TRAPFRAME \<equiv> TRAMPOLINE - PGSIZE"
abbreviation KERNBASE :: u64 where "KERNBASE \<equiv> 0x80000000"
abbreviation PHYSTOP :: u64 where "PHYSTOP \<equiv> 0x88000000"

definition KSTACK :: "nat \<Rightarrow> u64" where
  "KSTACK p = TRAMPOLINE - (of_nat p + 1) * 2 * PGSIZE"

section \<open>Pages\<close>

lemma mask12: "(4095 :: u64) = mask 12"
  by (simp add: mask_eq_exp_minus_1)

lemma mask10: "(0x3FF :: u64) = mask 10"
  by (simp add: mask_eq_exp_minus_1)

lemma mask9: "(0x1FF :: u64) = mask 9"
  by (simp add: mask_eq_exp_minus_1)

lemma aligned_unat: "(p :: u64) mod PGSIZE = 0 \<longleftrightarrow> 4096 dvd unat p"
proof -
  have "p mod PGSIZE = 0 \<longleftrightarrow> unat (p mod PGSIZE) = 0" by (simp add: unat_eq_zero)
  then show ?thesis by (simp add: unat_mod_distrib dvd_eq_mod_eq_0)
qed

lemma unat_sub64:
  "unat (x - y :: u64) = (if unat y \<le> unat x then unat x - unat y else unat x + 2 ^ 64 - unat y)"
  by (simp add: unat_sub_if_size word_size)

lemma aligned_diff: "4096 dvd unat p \<Longrightarrow> 4096 dvd unat q \<Longrightarrow> 4096 dvd unat (q - p :: u64)"
  by (auto simp: unat_sub64 intro: dvd_diff_nat dvd_add)

lemma aligned_add: "4096 dvd unat p \<Longrightarrow> 4096 dvd unat q \<Longrightarrow> 4096 dvd unat (p + q :: u64)"
  by (simp add: unat_word_ariths dvd_mod)

lemma page_sep:
  assumes "p mod PGSIZE = 0" and "q mod PGSIZE = 0" and "p \<noteq> q"
  shows "sep p 4096 q 4096"
proof -
  have "4096 dvd unat (q - p)" "4096 dvd unat (p - q)"
    using assms aligned_diff by (auto simp: aligned_unat)
  moreover have "unat (q - p) \<noteq> 0" "unat (p - q) \<noteq> 0"
    using assms(3) by (auto simp: unat_eq_zero)
  ultimately show ?thesis by (auto simp: sep_def dvd_imp_le)
qed

lemma PGROUNDDOWN_shift: "PGROUNDDOWN a = push_bit 12 (drop_bit 12 a)"
  by (rule bit_word_eqI)
     (auto simp: PGROUNDDOWN_def mask12 bit_and_iff bit_not_iff bit_mask_iff bit_push_bit_iff
        bit_drop_bit_eq)

lemma unat_PGROUNDDOWN: "unat (PGROUNDDOWN a) = unat a div 4096 * 4096"
proof -
  have "unat (drop_bit 12 a) = unat a div 4096" by (simp add: drop_bit_eq_div unat_div_distrib)
  moreover have "unat a < 2 ^ 64" using unsigned_less [of a] by simp
  then have "unat a div 4096 * 4096 < 2 ^ 64" by linarith
  ultimately show ?thesis
    by (simp add: PGROUNDDOWN_shift push_bit_eq_mult unat_word_ariths)
qed

lemma PGROUNDDOWN_aligned [simp]: "PGROUNDDOWN a mod PGSIZE = 0"
  by (simp add: aligned_unat unat_PGROUNDDOWN)

lemma PGROUNDDOWN_id: "a mod PGSIZE = 0 \<Longrightarrow> PGROUNDDOWN a = a"
proof -
  assume "a mod PGSIZE = 0"
  then have "4096 dvd unat a" by (simp only: aligned_unat)
  then have "unat (PGROUNDDOWN a) = unat a" by (simp add: unat_PGROUNDDOWN)
  then show ?thesis by (simp only: word_unat_eq_iff)
qed

lemma PGROUNDDOWN_le: "unat (PGROUNDDOWN a) \<le> unat a"
  by (simp add: unat_PGROUNDDOWN)

lemma PGROUNDDOWN_offset: "unat (a - PGROUNDDOWN a) = unat a mod 4096"
proof -
  have "unat a div 4096 * 4096 + unat a mod 4096 = unat a" by simp
  then have "unat a - unat a div 4096 * 4096 = unat a mod 4096" by linarith
  then show ?thesis using PGROUNDDOWN_le [of a] by (simp add: unat_sub64 unat_PGROUNDDOWN)
qed

lemma unat_PGROUNDUP:
  assumes "unat a + 4095 < 2 ^ 64"
  shows "unat (PGROUNDUP a) = (unat a + 4095) div 4096 * 4096"
proof -
  have "unat (a + of_nat 4095 :: u64) = unat a + 4095" using assms by (rule unat_add_nat)
  then have "unat (a + 4095) = unat a + 4095" by simp
  moreover have "PGROUNDUP a = PGROUNDDOWN (a + 4095)"
    by (simp add: PGROUNDUP_def PGROUNDDOWN_def add.commute)
  ultimately show ?thesis by (simp add: unat_PGROUNDDOWN)
qed

lemma PGROUNDUP_aligned [simp]: "PGROUNDUP a mod PGSIZE = 0"
proof -
  have "PGROUNDUP a = PGROUNDDOWN (a + 4095)"
    by (simp add: PGROUNDUP_def PGROUNDDOWN_def add.commute)
  then show ?thesis by (simp only: PGROUNDDOWN_aligned)
qed

section \<open>Page-table entries\<close>

lemma aligned_bits: "p mod PGSIZE = 0 \<longleftrightarrow> take_bit 12 (p :: u64) = 0"
  by (simp add: take_bit_eq_mod)

lemma aligned_bit: "p mod PGSIZE = 0 \<Longrightarrow> n < 12 \<Longrightarrow> \<not> bit (p :: u64) n"
  by (metis aligned_bits bit_0_eq bit_take_bit_iff bot_apply bot_bool_def)

lemma flags_small: "(flags :: u64) < 1024 \<Longrightarrow> take_bit 10 flags = flags"
  by (simp add: take_bit_eq_mod word_unat_eq_iff unat_mod_distrib word_less_nat_alt)

text \<open>The physical address and the flags of an entry can be read back.\<close>

lemma PTE2PA_PA2PTE:
  assumes "pa mod PGSIZE = 0" and "flags < 1024"
  shows "PTE2PA (PA2PTE pa OR flags) = pa"
proof (rule bit_word_eqI)
  fix n assume n: "n < LENGTH(64)"
  have fl: "\<not> bit flags k" if "10 \<le> k" for k
  proof -
    have "flags = take_bit 10 flags" using flags_small [OF assms(2)] by simp
    then show ?thesis using that by (metis bit_take_bit_iff not_less)
  qed
  show "bit (PTE2PA (PA2PTE pa OR flags)) n = bit pa n"
  proof (cases "n < 12")
    case True
    then show ?thesis using aligned_bit [OF assms(1)]
      by (simp add: PTE2PA_def bit_push_bit_iff bit_or_iff)
  next
    case False
    then show ?thesis using n fl [of "n - 2"]
      by (auto simp: PTE2PA_def PA2PTE_def bit_push_bit_iff bit_drop_bit_eq bit_or_iff
          intro: bit_imp_le_length)
  qed
qed

lemma PTE_FLAGS_PA2PTE:
  assumes "flags < 1024"
  shows "PTE_FLAGS (PA2PTE pa OR flags) = flags"
proof -
  have fl: "take_bit 10 flags = flags" using assms by (rule flags_small)
  have "PTE_FLAGS (PA2PTE pa OR flags) = take_bit 10 (PA2PTE pa OR flags)"
    by (simp add: PTE_FLAGS_def mask10 take_bit_eq_mask)
  also have "\<dots> = take_bit 10 (PA2PTE pa) OR take_bit 10 flags" by (rule take_bit_or)
  also have "take_bit 10 (PA2PTE pa) = 0"
    by (rule bit_word_eqI) (auto simp: PA2PTE_def bit_take_bit_iff bit_push_bit_iff)
  finally show ?thesis using fl by simp
qed

end
