(* ===== verification/Kalloc.thy ===== *)
theory Kalloc
  imports Layout Kstring
begin

text \<open>
  The physical page allocator, \<^verbatim>\<open>kernel/kalloc.c\<close>. The free list is threaded through
  the free pages themselves: the first eight bytes of a free page hold the address of the
  next one, so a page that is written while it is free, or freed twice, corrupts the list.
\<close>

section \<open>Definitions\<close>

text \<open>\<open>freelist\<close> is \<^verbatim>\<open>kmem.freelist\<close>; \<open>kend\<close> is the linker symbol \<^verbatim>\<open>end\<close>, the first
  address after the kernel.\<close>

record kmem = machine +
  freelist :: u64
  kend :: u64

definition kfree :: "u64 \<Rightarrow> 'z kmem_scheme \<Rightarrow> unit res \<times> 'z kmem_scheme" where
  "kfree pa s =
     (if pa mod PGSIZE \<noteq> 0 \<or> pa < kend s \<or> pa \<ge> PHYSTOP then (Panic ''kfree'', s)
      else let s = s\<lparr>mem := memset (mem s) pa 1 4096\<rparr> in
        bnd (acquire KmemLock s) (\<lambda>_ s.
        let s = s\<lparr>mem := store64 (mem s) pa (freelist s)\<rparr>;
            s = s\<lparr>freelist := pa\<rparr>
        in release KmemLock s))"

definition kalloc :: "'z kmem_scheme \<Rightarrow> u64 res \<times> 'z kmem_scheme" where
  "kalloc s =
     bnd (acquire KmemLock s) (\<lambda>_ s.
     let r = freelist s;
         s = (if r \<noteq> 0 then s\<lparr>freelist := load64 (mem s) r\<rparr> else s)
     in bnd (release KmemLock s) (\<lambda>_ s.
        (Ret r, if r \<noteq> 0 then s\<lparr>mem := memset (mem s) r 5 4096\<rparr> else s)))"

text \<open>The loop of \<^verbatim>\<open>freerange\<close>; the bound \<^verbatim>\<open>p + PGSIZE <= pa_end\<close> is on pointers, so it
  is compared without wrap-around.\<close>

function freerange_loop :: "u64 \<Rightarrow> u64 \<Rightarrow> 'z kmem_scheme \<Rightarrow> unit res \<times> 'z kmem_scheme" where
  "freerange_loop p pa_end s =
     (if unat p + 4096 \<le> unat pa_end
      then bnd (kfree p s) (\<lambda>_ s. freerange_loop (p + PGSIZE) pa_end s)
      else (Ret (), s))"
  by auto
termination
proof (relation "measure (\<lambda>(p, e, s). unat e - unat p)")
  fix p pa_end :: u64 and s a and t :: "'z kmem_scheme"
  assume le: "unat p + 4096 \<le> unat pa_end"
  have "unat pa_end < 2 ^ 64" using unsigned_less [of pa_end] by simp
  then have "unat p + 4096 < 2 ^ 64" using le by linarith
  then have "unat (p + of_nat 4096) = unat p + 4096" by (rule unat_add_nat)
  then show "((p + PGSIZE, pa_end, t), p, pa_end, s) \<in> measure (\<lambda>(p, e, s). unat e - unat p)"
    using le by simp
qed simp

declare freerange_loop.simps [simp del]

definition freerange :: "u64 \<Rightarrow> u64 \<Rightarrow> 'z kmem_scheme \<Rightarrow> unit res \<times> 'z kmem_scheme" where
  "freerange pa_start pa_end s = freerange_loop (PGROUNDUP pa_start) pa_end s"

definition kinit :: "'z kmem_scheme \<Rightarrow> unit res \<times> 'z kmem_scheme" where
  "kinit s = freerange (kend s) PHYSTOP s"

section \<open>The free list\<close>

text \<open>\<open>flist m p ps\<close>: following the links from \<open>p\<close> visits exactly \<open>ps\<close> and ends at 0.\<close>

primrec flist :: "memory \<Rightarrow> u64 \<Rightarrow> u64 list \<Rightarrow> bool" where
  "flist m p [] \<longleftrightarrow> p = 0"
| "flist m p (q # qs) \<longleftrightarrow> p = q \<and> p \<noteq> 0 \<and> flist m (load64 m p) qs"

definition page_ok :: "u64 \<Rightarrow> u64 \<Rightarrow> bool" where
  "page_ok e p \<longleftrightarrow> p mod PGSIZE = 0 \<and> e \<le> p \<and> p < PHYSTOP"

definition kmem_inv :: "'z kmem_scheme \<Rightarrow> u64 list \<Rightarrow> bool" where
  "kmem_inv s ps \<longleftrightarrow> 0 < kend s \<and> flist (mem s) (freelist s) ps \<and> distinct ps \<and>
     list_all (page_ok (kend s)) ps"

text \<open>Memory unchanged outside the page \<open>p\<close>.\<close>

definition only_page :: "u64 \<Rightarrow> memory \<Rightarrow> memory \<Rightarrow> bool" where
  "only_page p m m' \<longleftrightarrow> (\<forall>a. 4096 \<le> unat (a - p) \<longrightarrow> m' a = m a)"

text \<open>Nothing but memory and the free list changes.\<close>

definition kframe :: "'z kmem_scheme \<Rightarrow> 'z kmem_scheme \<Rightarrow> bool" where
  "kframe s s' \<longleftrightarrow> s' = s\<lparr>mem := mem s', freelist := freelist s'\<rparr>"

lemma kframe_refl [simp]: "kframe s s"
  by (simp add: kframe_def)

lemma kframe_upd [simp]:
  "kframe s (s'\<lparr>mem := m\<rparr>) \<longleftrightarrow> kframe s s'"
  "kframe s (s'\<lparr>freelist := f\<rparr>) \<longleftrightarrow> kframe s s'"
proof -
  show "kframe s (s'\<lparr>mem := m\<rparr>) \<longleftrightarrow> kframe s s'" "kframe s (s'\<lparr>freelist := f\<rparr>) \<longleftrightarrow> kframe s s'"
    unfolding kframe_def by (cases s; cases s'; simp)+
qed

lemma kframe_trans: "kframe s s' \<Longrightarrow> kframe s' s'' \<Longrightarrow> kframe s s''"
  unfolding kframe_def by (cases s; cases s'; cases s''; simp)

lemma kframe_held: "kframe s s' \<Longrightarrow> held s' = held s"
  unfolding kframe_def by (cases s; cases s'; simp)

lemma kframe_kend: "kframe s s' \<Longrightarrow> kend s' = kend s"
  unfolding kframe_def by (cases s; cases s'; simp)

lemma page_ok_nonzero: "page_ok e p \<Longrightarrow> 0 < e \<Longrightarrow> p \<noteq> 0"
  by (auto simp: page_ok_def)

lemma page_ok_sep: "page_ok e p \<Longrightarrow> page_ok e q \<Longrightarrow> p \<noteq> q \<Longrightarrow> sep p 4096 q 4096"
  using page_sep [of p q] by (simp add: page_ok_def)

lemma flist_cong:
  "(\<And>q. q \<in> set ps \<Longrightarrow> load64 m' q = load64 m q) \<Longrightarrow> flist m' p ps = flist m p ps"
  by (induction ps arbitrary: p) auto

lemma only_page_trans: "only_page p m m' \<Longrightarrow> only_page p m' m'' \<Longrightarrow> only_page p m m''"
  by (simp add: only_page_def)

lemma only_page_memset: "only_page p m (memset m p c 4096)"
  by (simp add: only_page_def memset_storeb storeb_out)

lemma only_page_store64: "only_page p m (store64 m p w)"
  by (simp add: only_page_def store64_def storeb_out)

lemma only_page_load:
  assumes "only_page p m m'" and "sep p 4096 q 4096" and "i < 4096"
  shows "m' (q + of_nat i) = m (q + of_nat i)"
proof -
  have "4096 \<le> unat (q + of_nat i - p)"
  proof (rule ccontr)
    assume "\<not> ?thesis"
    then have lt: "unat (q + of_nat i - p) < 4096" by simp
    have "p + of_nat (unat (q + of_nat i - p)) = q + of_nat i" by simp
    then show False using sep_neq [OF assms(2) lt assms(3)] by simp
  qed
  then show ?thesis using assms(1) by (simp add: only_page_def)
qed

lemma only_page_loadb:
  assumes "only_page p m m'" and "sep p 4096 q 4096" and "n \<le> 4096"
  shows "loadb m' q n = loadb m q n"
proof (rule nth_equalityI)
  fix i assume "i < length (loadb m' q n)"
  then show "loadb m' q n ! i = loadb m q n ! i"
    using only_page_load [OF assms(1,2)] assms(3) by simp
qed simp

lemma only_page_load64:
  "only_page p m m' \<Longrightarrow> sep p 4096 q 4096 \<Longrightarrow> load64 m' q = load64 m q"
  by (simp add: load64_def only_page_loadb)

lemma only_page_flist:
  assumes "only_page p m m'" and "page_ok e p" and "list_all (page_ok e) ps" and "p \<notin> set ps"
  shows "flist m' q ps = flist m q ps"
proof (rule flist_cong)
  fix r assume r: "r \<in> set ps"
  then have "page_ok e r" and "p \<noteq> r" using assms(3,4) by (auto simp: list_all_iff)
  then show "load64 m' r = load64 m r"
    using only_page_load64 [OF assms(1)] page_ok_sep [OF assms(2)] by blast
qed

text \<open>Writes that leave the links of the free pages alone keep the invariant.\<close>

lemma kmem_inv_mem:
  "kmem_inv s ps \<Longrightarrow> (\<And>q. q \<in> set ps \<Longrightarrow> load64 m q = load64 (mem s) q) \<Longrightarrow>
   kmem_inv (s\<lparr>mem := m\<rparr>) ps"
  by (simp add: kmem_inv_def flist_cong [of ps m "mem s"])

section \<open>What the operations do\<close>

lemma kfree_spec:
  assumes inv: "kmem_inv s ps" and pa: "page_ok (kend s) pa" and new: "pa \<notin> set ps"
    and lk: "KmemLock \<notin> set (held s)"
  shows "ok (kfree pa s) (\<lambda>_ s'. kmem_inv s' (pa # ps) \<and> only_page pa (mem s) (mem s') \<and>
           (\<exists>m. s' = s\<lparr>mem := m, freelist := pa\<rparr>))"
proof -
  let ?m = "store64 (memset (mem s) pa 1 4096) pa (freelist s)"
  have run: "kfree pa s = (Ret (), s\<lparr>mem := ?m, freelist := pa\<rparr>)"
    using pa lk by (simp add: kfree_def page_ok_def Let_def not_less not_le)
  have op: "only_page pa (mem s) ?m"
    by (rule only_page_trans [OF only_page_memset only_page_store64])
  moreover have "flist ?m (freelist s) ps"
    using only_page_flist [OF op pa _ new] inv by (simp add: kmem_inv_def)
  ultimately show ?thesis
    using inv pa new page_ok_nonzero [OF pa] by (simp add: run kmem_inv_def) blast
qed

lemma kfree_panics:
  "\<not> page_ok (kend s) pa \<Longrightarrow> kfree pa s = (Panic ''kfree'', s)"
  by (auto simp: kfree_def page_ok_def not_less not_le)

lemma kalloc_none:
  assumes "kmem_inv s []" and "KmemLock \<notin> set (held s)"
  shows "kalloc s = (Ret 0, s)"
  using assms by (simp add: kalloc_def kmem_inv_def)

lemma kalloc_some:
  assumes inv: "kmem_inv s (p # ps)" and lk: "KmemLock \<notin> set (held s)"
  shows "kalloc s = (Ret p, s\<lparr>freelist := load64 (mem s) p, mem := memset (mem s) p 5 4096\<rparr>)"
    and "kmem_inv (s\<lparr>freelist := load64 (mem s) p, mem := memset (mem s) p 5 4096\<rparr>) ps"
proof -
  have p: "freelist s = p" "p \<noteq> 0" "page_ok (kend s) p" "p \<notin> set ps"
    using inv by (auto simp: kmem_inv_def)
  then show "kalloc s = (Ret p, s\<lparr>freelist := load64 (mem s) p, mem := memset (mem s) p 5 4096\<rparr>)"
    using lk by (simp add: kalloc_def)
  show "kmem_inv (s\<lparr>freelist := load64 (mem s) p, mem := memset (mem s) p 5 4096\<rparr>) ps"
    using inv p only_page_flist [OF only_page_memset p(3) _ p(4)]
    by (simp add: kmem_inv_def)
qed

section \<open>Start-up\<close>

text \<open>The pages of \<open>[p, e)\<close> in increasing order.\<close>

definition pages_of :: "u64 \<Rightarrow> u64 \<Rightarrow> u64 list" where
  "pages_of p e = map (\<lambda>i. p + of_nat (4096 * i)) [0..<(unat e - unat p) div 4096]"

lemma pages_of_step:
  assumes "unat p + 4096 \<le> unat e"
  shows "pages_of p e = p # pages_of (p + PGSIZE) e" and "unat (p + PGSIZE) = unat p + 4096"
proof -
  have "unat e < 2 ^ 64" using unsigned_less [of e] by simp
  then have "unat p + 4096 < 2 ^ 64" using assms by linarith
  then have "unat (p + of_nat 4096) = unat p + 4096" by (rule unat_add_nat)
  then show step: "unat (p + PGSIZE) = unat p + 4096" by simp
  have n: "(unat e - unat p) div 4096 = Suc ((unat e - unat (p + PGSIZE)) div 4096)"
    using assms by (simp add: step le_div_geq)
  show "pages_of p e = p # pages_of (p + PGSIZE) e"
    by (simp add: pages_of_def n upt_conv_Cons map_Suc_upt [symmetric] algebra_simps
        del: upt_Suc map_Suc_upt)
qed

lemma pages_of_stop: "\<not> unat p + 4096 \<le> unat e \<Longrightarrow> pages_of p e = []"
  by (simp add: pages_of_def)

lemma pages_of_ge: "unat p \<le> unat e \<Longrightarrow> q \<in> set (pages_of p e) \<Longrightarrow> p \<le> q"
proof -
  assume le: "unat p \<le> unat e" and "q \<in> set (pages_of p e)"
  then obtain i where q: "q = p + of_nat (4096 * i)" and i: "i < (unat e - unat p) div 4096"
    by (auto simp: pages_of_def)
  have "unat e < 2 ^ 64" using unsigned_less [of e] by simp
  moreover have "4096 * i < unat e - unat p" using i by linarith
  ultimately have "unat p + 4096 * i < 2 ^ 64" by linarith
  then have "unat q = unat p + 4096 * i" unfolding q by (rule unat_add_nat)
  then show "p \<le> q" by (simp add: word_le_nat_alt)
qed

lemma freerange_loop_spec:
  assumes "kmem_inv s ps" and "p mod PGSIZE = 0" and "kend s \<le> p" and "e \<le> PHYSTOP"
    and "\<forall>q\<in>set ps. q < p" and "KmemLock \<notin> set (held s)"
  shows "ok (freerange_loop p e s) (\<lambda>_ s'. kmem_inv s' (rev (pages_of p e) @ ps) \<and>
           held s' = held s \<and> kend s' = kend s)"
  using assms
proof (induction p e s arbitrary: ps rule: freerange_loop.induct)
  case (1 p e s)
  show ?case
  proof (cases "unat p + 4096 \<le> unat e")
    case False
    then show ?thesis using 1(2) by (simp add: freerange_loop.simps pages_of_stop)
  next
    case True
    note st = pages_of_step [OF True]
    have ok: "page_ok (kend s) p" and new: "p \<notin> set ps"
      using 1(3-6) True by (auto simp: page_ok_def word_less_nat_alt word_le_nat_alt)
    obtain s1 where s1: "kfree p s = (Ret (), s1)" "kmem_inv s1 (p # ps)" "held s1 = held s"
        "kend s1 = kend s"
      using kfree_spec [OF 1(2) ok new 1(7)] by (auto elim!: ok_E)
    have "4096 dvd unat p" using 1(3) by (simp add: aligned_unat)
    then have al: "(p + PGSIZE) mod PGSIZE = 0" by (simp add: aligned_unat st)
    have lt: "\<forall>q\<in>set (p # ps). q < p + PGSIZE"
      using 1(6) by (auto simp: word_less_nat_alt st)
    have ge: "kend s1 \<le> p + PGSIZE" using 1(4) by (simp add: s1 word_le_nat_alt st)
    show ?thesis
      using 1(1) [OF True s1(1) s1(2) al ge 1(5) lt] 1(7) True
      by (simp add: freerange_loop.simps [of p] s1 st)
  qed
qed

lemma kinit_spec:
  assumes "0 < kend s" and "unat (kend s) \<le> unat PHYSTOP" and "freelist s = 0"
    and "KmemLock \<notin> set (held s)"
  shows "ok (kinit s) (\<lambda>_ s'. kmem_inv s' (rev (pages_of (PGROUNDUP (kend s)) PHYSTOP)) \<and>
           held s' = held s \<and> kend s' = kend s)"
proof -
  have "unat (PGROUNDUP (kend s)) = (unat (kend s) + 4095) div 4096 * 4096"
    using assms(2) by (intro unat_PGROUNDUP) simp
  moreover have "unat (kend s) \<le> (unat (kend s) + 4095) div 4096 * 4096" by linarith
  ultimately have "kend s \<le> PGROUNDUP (kend s)" by (simp add: word_le_nat_alt)
  moreover have "kmem_inv s []" using assms by (simp add: kmem_inv_def)
  ultimately show ?thesis
    using freerange_loop_spec [of s "[]" "PGROUNDUP (kend s)" PHYSTOP] assms(4)
    by (simp add: kinit_def freerange_def)
qed

section \<open>The allocator as an interface\<close>

text \<open>A client of the allocator: allocate a page and remember it, or free the \<open>i\<close>-th page
  it still owns.\<close>

datatype aop = Alloc | Free nat

primrec client :: "('s \<Rightarrow> u64 res \<times> 's) \<Rightarrow> (u64 \<Rightarrow> 's \<Rightarrow> unit res \<times> 's) \<Rightarrow> aop list \<Rightarrow>
    u64 list \<Rightarrow> 's \<Rightarrow> u64 list res \<times> 's" where
  "client al fr [] own s = (Ret own, s)"
| "client al fr (x # xs) own s = (case x of
      Alloc \<Rightarrow> bnd (al s) (\<lambda>r s. client al fr xs (if r = 0 then own else r # own) s)
    | Free i \<Rightarrow>
        if i < length own
        then bnd (fr (own ! i) s) (\<lambda>_ s. client al fr xs (take i own @ drop (Suc i) own) s)
        else client al fr xs own s)"

text \<open>
  What the clients of the allocator rely on. \<open>inv s ps\<close>: the pages \<open>ps\<close> are free, next one
  first; \<open>rd\<close> is the memory; \<open>page\<close> says which addresses are pages of the allocator.
\<close>

locale page_allocator =
  fixes alloc :: "'s \<Rightarrow> u64 res \<times> 's"
    and free :: "u64 \<Rightarrow> 's \<Rightarrow> unit res \<times> 's"
    and inv :: "'s \<Rightarrow> u64 list \<Rightarrow> bool"
    and rd :: "'s \<Rightarrow> memory"
    and page :: "u64 \<Rightarrow> bool"
  assumes inv_distinct: "inv s ps \<Longrightarrow> distinct ps"
    and inv_page: "inv s ps \<Longrightarrow> p \<in> set ps \<Longrightarrow> page p \<and> p \<noteq> 0"
    and page_apart: "page p \<Longrightarrow> page q \<Longrightarrow> p \<noteq> q \<Longrightarrow> sep p 4096 q 4096"
    and alloc_empty: "inv s [] \<Longrightarrow> ok (alloc s) (\<lambda>r s'. r = 0 \<and> s' = s)"
    and alloc_page: "inv s (p # ps) \<Longrightarrow>
      ok (alloc s) (\<lambda>r s'. r = p \<and> inv s' ps \<and> only_page p (rd s) (rd s'))"
    and free_page: "inv s ps \<Longrightarrow> page p \<Longrightarrow> p \<notin> set ps \<Longrightarrow>
      ok (free p s) (\<lambda>_ s'. inv s' (p # ps) \<and> only_page p (rd s) (rd s'))"
begin

lemma alloc_keeps_pages:
  assumes "inv s (p # ps)" and "page q" and "q \<noteq> p"
  shows "ok (alloc s) (\<lambda>r s'. loadb (rd s') q 4096 = loadb (rd s) q 4096)"
proof -
  have "page p" using inv_page [OF assms(1)] by simp
  then have "sep p 4096 q 4096" using page_apart assms(2,3) by metis
  then show ?thesis using alloc_page [OF assms(1)] by (auto elim!: ok_E intro: only_page_loadb)
qed

text \<open>Whatever a client does, no page is free and owned, or owned twice, and none is lost.\<close>

lemma client_safe:
  assumes "inv s ps" and "distinct (own @ ps)" and "\<forall>p\<in>set own. page p"
  shows "ok (client alloc free ops own s) (\<lambda>own' s'. \<exists>ps'. inv s' ps' \<and> distinct (own' @ ps') \<and>
           set own' \<union> set ps' = set own \<union> set ps)"
  using assms
proof (induction ops arbitrary: own s ps)
  case Nil
  then show ?case by auto
next
  case (Cons x xs)
  show ?case
  proof (cases x)
    case Alloc
    show ?thesis
    proof (cases ps)
      case Nil
      then have "alloc s = (Ret 0, s)" using alloc_empty Cons.prems(1) by (auto elim!: ok_E)
      then show ?thesis using Cons Alloc by simp
    next
      case (Cons p qs)
      then obtain t where t: "alloc s = (Ret p, t)" "inv t qs"
        using alloc_page [of s p qs] Cons.prems(1) by (auto elim!: ok_E)
      have p: "page p" "p \<noteq> 0" using inv_page [OF Cons.prems(1)] Cons by auto
      show ?thesis
        using Cons.IH [OF t(2), of "p # own"] Cons.prems Cons Alloc p t by simp
    qed
  next
    case (Free i)
    show ?thesis
    proof (cases "i < length own")
      case False
      then show ?thesis using Cons Free by simp
    next
      case True
      let ?own = "take i own @ drop (Suc i) own"
      have own: "own = take i own @ own ! i # drop (Suc i) own" using True by (rule id_take_nth_drop)
      have "distinct ((take i own @ own ! i # drop (Suc i) own) @ ps)"
        using Cons.prems(2) own by simp
      then have d: "distinct (?own @ own ! i # ps)" by auto
      have "set own = set (take i own @ own ! i # drop (Suc i) own)" using own by simp
      then have st: "set own = insert (own ! i) (set ?own)" by auto
      obtain t where t: "free (own ! i) s = (Ret (), t)" "inv t (own ! i # ps)"
        using free_page [OF Cons.prems(1), of "own ! i"] Cons.prems(2,3) True
        by (auto elim!: ok_E simp: disjoint_iff)
      have "\<forall>p\<in>set ?own. page p" using Cons.prems(3) st by simp
      then show ?thesis using Cons.IH [OF t(2) d] True Free t st by simp
    qed
  qed
qed

end

interpretation ka: page_allocator kalloc kfree
  "\<lambda>s ps. kmem_inv s ps \<and> kend s = e \<and> KmemLock \<notin> set (held s)" mem "page_ok e" for e
proof unfold_locales
  fix s :: "'z kmem_scheme" and ps p
  assume "kmem_inv s (p # ps) \<and> kend s = e \<and> KmemLock \<notin> set (held s)"
  then show "ok (kalloc s) (\<lambda>r s'. r = p \<and> (kmem_inv s' ps \<and> kend s' = e \<and>
      KmemLock \<notin> set (held s')) \<and> only_page p (mem s) (mem s'))"
    using kalloc_some [of s p ps] by (simp add: only_page_memset)
next
  fix s :: "'z kmem_scheme" and ps p
  assume "kmem_inv s ps \<and> kend s = e \<and> KmemLock \<notin> set (held s)" and "page_ok e p" and "p \<notin> set ps"
  then show "ok (kfree p s) (\<lambda>_ s'. (kmem_inv s' (p # ps) \<and> kend s' = e \<and>
      KmemLock \<notin> set (held s')) \<and> only_page p (mem s) (mem s'))"
    using kfree_spec [of s ps p] by (auto elim!: ok_E)
qed (auto simp: kmem_inv_def list_all_iff page_ok_sep kalloc_none dest: page_ok_nonzero)

section \<open>Properties\<close>

text \<open>
  C13. Start the allocator with \<^verbatim>\<open>kinit\<close> and run any sequence of allocations and frees of
  pages that were handed out: no call panics, no page is handed out while it is still
  owned, none is both free and owned, and the free list and the owned pages together are
  exactly the pages between the kernel and \<^verbatim>\<open>PHYSTOP\<close>, so that none is lost either.
\<close>

theorem kalloc_never_aliases:
  assumes "0 < kend s" and "unat (kend s) \<le> unat PHYSTOP" and "freelist s = 0"
    and "KmemLock \<notin> set (held s)"
  shows "ok (bnd (kinit s) (\<lambda>_ s. client kalloc kfree ops [] s)) (\<lambda>own s'.
           \<exists>ps. kmem_inv s' ps \<and> distinct (own @ ps) \<and>
             set own \<union> set ps = set (pages_of (PGROUNDUP (kend s)) PHYSTOP))"
proof -
  obtain t where t: "kinit s = (Ret (), t)" "held t = held s" "kend t = kend s"
      "kmem_inv t (rev (pages_of (PGROUNDUP (kend s)) PHYSTOP))"
    using kinit_spec [OF assms] by (auto elim!: ok_E)
  then have "kmem_inv t (rev (pages_of (PGROUNDUP (kend s)) PHYSTOP)) \<and> kend t = kend s \<and>
      KmemLock \<notin> set (held t)" using assms(4) by simp
  from ka.client_safe [OF this, of "[]" ops] ka.inv_distinct [OF this] t(1) show ?thesis
    by (auto elim!: ok_E)
qed

definition kmem0 :: kmem where
  "kmem0 = \<lparr>held = [], mem = (\<lambda>_. 0), freelist = 0, kend = 0x87FFE000\<rparr>"

theorem kalloc_never_aliases_witness:
  "ok (bnd (kinit kmem0) (\<lambda>_ s. client kalloc kfree [Alloc, Alloc, Alloc, Free 0, Alloc] [] s))
     (\<lambda>own s'. \<exists>ps. kmem_inv s' ps \<and> distinct (own @ ps) \<and>
        set own \<union> set ps = {0x87FFE000, 0x87FFF000})"
proof -
  have "set (pages_of (PGROUNDUP (kend kmem0)) PHYSTOP) = {0x87FFE000, 0x87FFF000}"
    by (simp add: kmem0_def pages_of_def PGROUNDUP_def upt_conv_Cons)
  then show ?thesis
    using kalloc_never_aliases [of kmem0 "[Alloc, Alloc, Alloc, Free 0, Alloc]"]
    by (simp add: kmem0_def)
qed

text \<open>
  C29. \<^verbatim>\<open>kfree\<close> accepts exactly the page-aligned addresses between the kernel and
  \<^verbatim>\<open>PHYSTOP\<close> and panics on all others. A page that is freed is the next one that
  \<^verbatim>\<open>kalloc\<close> returns, filled with the junk byte 5; the pair leaves the free list, the locks
  and every byte outside that page as they were.
\<close>

theorem kfree_kalloc_roundtrip:
  assumes "kmem_inv s ps" and "pa \<notin> set ps" and "KmemLock \<notin> set (held s)"
  shows "if page_ok (kend s) pa
         then ok (bnd (kfree pa s) (\<lambda>_ s. kalloc s)) (\<lambda>r s'. r = pa \<and> kmem_inv s' ps \<and>
                held s' = held s \<and> only_page pa (mem s) (mem s') \<and>
                loadb (mem s') pa 4096 = replicate 4096 5)
         else kfree pa s = (Panic ''kfree'', s)"
proof (cases "page_ok (kend s) pa")
  case True
  obtain t where t: "kfree pa s = (Ret (), t)" "kmem_inv t (pa # ps)" "held t = held s"
      "only_page pa (mem s) (mem t)"
    using kfree_spec [OF assms(1) True assms(2,3)] by (auto elim!: ok_E)
  have "KmemLock \<notin> set (held t)" using t assms(3) by simp
  from kalloc_some [OF t(2) this] only_page_trans [OF t(4) only_page_memset, of 5] t True show ?thesis
    by (simp add: memset_storeb loadb_storeb_same)
next
  case False
  then show ?thesis by (simp add: kfree_panics)
qed

theorem kfree_kalloc_roundtrip_witness:
  "ok (bnd (kfree 0x87FFF000 kmem0) (\<lambda>_ s. kalloc s)) (\<lambda>r s'. r = 0x87FFF000 \<and> kmem_inv s' [] \<and>
      held s' = [] \<and> only_page 0x87FFF000 (\<lambda>_. 0) (mem s') \<and>
      loadb (mem s') 0x87FFF000 4096 = replicate 4096 5) \<and>
   kfree 0x87FFF001 kmem0 = (Panic ''kfree'', kmem0)"
proof -
  have inv: "kmem_inv kmem0 []" by (simp add: kmem_inv_def kmem0_def)
  have "page_ok (kend kmem0) 0x87FFF000" "\<not> page_ok (kend kmem0) 0x87FFF001"
    by (simp_all add: page_ok_def kmem0_def)
  then show ?thesis
    using kfree_kalloc_roundtrip [of kmem0 "[]" "0x87FFF000", OF inv]
      kfree_kalloc_roundtrip [of kmem0 "[]" "0x87FFF001", OF inv]
    by (simp add: kmem0_def)
qed

end
