(* ===== verification/Vm.thy ===== *)
theory Vm
  imports Kalloc
begin

text \<open>
  Page tables, \<^verbatim>\<open>kernel/vm.c\<close>. A page table is the address of its root page; its entries
  are read from and written to physical memory, as the hardware and the kernel do. A kernel
  buffer that \<^verbatim>\<open>copyout\<close> reads is given by its bytes; \<^verbatim>\<open>copyin\<close> and \<^verbatim>\<open>copyinstr\<close> return
  the bytes they have written to the kernel buffer beside their C result.
\<close>

section \<open>Definitions\<close>

text \<open>One iteration of the loop of \<^verbatim>\<open>walk\<close>: the next page table, or \<open>None\<close> where
  \<^verbatim>\<open>walk\<close> returns 0.\<close>

definition walk_step ::
  "u64 \<Rightarrow> u64 \<Rightarrow> nat \<Rightarrow> bool \<Rightarrow> 'z kmem_scheme \<Rightarrow> u64 option res \<times> 'z kmem_scheme" where
  "walk_step pagetable va level alloc s =
     (let pte = pagetable + 8 * PX level va in
      if load64 (mem s) pte AND PTE_V \<noteq> 0 then (Ret (Some (PTE2PA (load64 (mem s) pte))), s)
      else if \<not> alloc then (Ret None, s)
      else bnd (kalloc s) (\<lambda>pagetable s.
        if pagetable = 0 then (Ret None, s)
        else let s = s\<lparr>mem := memset (mem s) pagetable 0 4096\<rparr>;
                 s = s\<lparr>mem := store64 (mem s) pte (PA2PTE pagetable OR PTE_V)\<rparr>
             in (Ret (Some pagetable), s)))"

primrec walk_loop ::
  "nat \<Rightarrow> u64 \<Rightarrow> u64 \<Rightarrow> bool \<Rightarrow> 'z kmem_scheme \<Rightarrow> u64 res \<times> 'z kmem_scheme" where
  "walk_loop 0 pagetable va alloc s = (Ret (pagetable + 8 * PX 0 va), s)"
| "walk_loop (Suc l) pagetable va alloc s =
     bnd (walk_step pagetable va (Suc l) alloc s) (\<lambda>r s.
       case r of None \<Rightarrow> (Ret 0, s) | Some pagetable \<Rightarrow> walk_loop l pagetable va alloc s)"

definition walk :: "u64 \<Rightarrow> u64 \<Rightarrow> bool \<Rightarrow> 'z kmem_scheme \<Rightarrow> u64 res \<times> 'z kmem_scheme" where
  "walk pagetable va alloc s =
     (if va \<ge> MAXVA then (Panic ''walk'', s) else walk_loop 2 pagetable va alloc s)"

definition walkaddr :: "u64 \<Rightarrow> u64 \<Rightarrow> 'z kmem_scheme \<Rightarrow> u64 res \<times> 'z kmem_scheme" where
  "walkaddr pagetable va s =
     (if va \<ge> MAXVA then (Ret 0, s)
      else bnd (walk pagetable va False s) (\<lambda>pte s.
        if pte = 0 then (Ret 0, s)
        else if load64 (mem s) pte AND PTE_V = 0 then (Ret 0, s)
        else if load64 (mem s) pte AND PTE_U = 0 then (Ret 0, s)
        else (Ret (PTE2PA (load64 (mem s) pte)), s)))"

text \<open>\<^verbatim>\<open>walk\<close> panics at \<^verbatim>\<open>MAXVA\<close>, so the loops over pages below stop.\<close>

lemma walk_Ret_bound: "walk pt a al s = (Ret p, t) \<Longrightarrow> a < MAXVA"
  by (auto simp: walk_def not_le split: if_splits)

lemma page_step_less:
  assumes "a < MAXVA" shows "unat MAXVA - unat (a + PGSIZE) < unat MAXVA - unat a"
proof -
  have a: "unat a < 274877906944" using assms by (simp add: word_less_nat_alt)
  have "unat (a + of_nat 4096) = unat a + 4096" using a by (intro unat_add_nat) simp
  then show ?thesis using a by simp
qed

function mappages_loop ::
  "u64 \<Rightarrow> u64 \<Rightarrow> u64 \<Rightarrow> u64 \<Rightarrow> u64 \<Rightarrow> 'z kmem_scheme \<Rightarrow> int res \<times> 'z kmem_scheme" where
  "mappages_loop pagetable a lst pa perm s =
     bnd (walk pagetable a True s) (\<lambda>pte s.
       if pte = 0 then (Ret (- 1), s)
       else if load64 (mem s) pte AND PTE_V \<noteq> 0 then (Panic ''mappages: remap'', s)
       else let s = s\<lparr>mem := store64 (mem s) pte (PA2PTE pa OR perm OR PTE_V)\<rparr> in
         if a = lst then (Ret 0, s)
         else mappages_loop pagetable (a + PGSIZE) lst (pa + PGSIZE) perm s)"
  by auto
termination
  by (relation "measure (\<lambda>(pt, a, l, pa, perm, s). unat MAXVA - unat a)")
     (auto dest!: walk_Ret_bound intro: page_step_less [simplified])

declare mappages_loop.simps [simp del]

definition mappages ::
  "u64 \<Rightarrow> u64 \<Rightarrow> u64 \<Rightarrow> u64 \<Rightarrow> u64 \<Rightarrow> 'z kmem_scheme \<Rightarrow> int res \<times> 'z kmem_scheme" where
  "mappages pagetable va sz pa perm s =
     (if sz = 0 then (Panic ''mappages: size'', s)
      else mappages_loop pagetable (PGROUNDDOWN va) (PGROUNDDOWN (va + sz - 1)) pa perm s)"

definition kvmmap ::
  "u64 \<Rightarrow> u64 \<Rightarrow> u64 \<Rightarrow> u64 \<Rightarrow> u64 \<Rightarrow> 'z kmem_scheme \<Rightarrow> unit res \<times> 'z kmem_scheme" where
  "kvmmap kpgtbl va pa sz perm s =
     bnd (mappages kpgtbl va sz pa perm s) (\<lambda>r s.
       if r \<noteq> 0 then (Panic ''kvmmap'', s) else (Ret (), s))"

function uvmunmap_loop ::
  "u64 \<Rightarrow> u64 \<Rightarrow> u64 \<Rightarrow> bool \<Rightarrow> 'z kmem_scheme \<Rightarrow> unit res \<times> 'z kmem_scheme" where
  "uvmunmap_loop pagetable a lim do_free s =
     (if a < lim then
        bnd (walk pagetable a False s) (\<lambda>pte s.
          if pte = 0 then (Panic ''uvmunmap: walk'', s)
          else if load64 (mem s) pte AND PTE_V = 0 then (Panic ''uvmunmap: not mapped'', s)
          else if PTE_FLAGS (load64 (mem s) pte) = PTE_V then (Panic ''uvmunmap: not a leaf'', s)
          else bnd (if do_free then kfree (PTE2PA (load64 (mem s) pte)) s else (Ret (), s)) (\<lambda>_ s.
            uvmunmap_loop pagetable (a + PGSIZE) lim do_free (s\<lparr>mem := store64 (mem s) pte 0\<rparr>)))
      else (Ret (), s))"
  by auto
termination
  by (relation "measure (\<lambda>(pt, a, l, f, s). unat MAXVA - unat a)")
     (auto dest!: walk_Ret_bound intro: page_step_less [simplified])

declare uvmunmap_loop.simps [simp del]

definition uvmunmap ::
  "u64 \<Rightarrow> u64 \<Rightarrow> u64 \<Rightarrow> bool \<Rightarrow> 'z kmem_scheme \<Rightarrow> unit res \<times> 'z kmem_scheme" where
  "uvmunmap pagetable va npages do_free s =
     (if va mod PGSIZE \<noteq> 0 then (Panic ''uvmunmap: not aligned'', s)
      else uvmunmap_loop pagetable va (va + npages * PGSIZE) do_free s)"

definition uvmcreate :: "'z kmem_scheme \<Rightarrow> u64 res \<times> 'z kmem_scheme" where
  "uvmcreate s =
     bnd (kalloc s) (\<lambda>pagetable s.
       if pagetable = 0 then (Ret 0, s)
       else (Ret pagetable, s\<lparr>mem := memset (mem s) pagetable 0 4096\<rparr>))"

text \<open>\<^verbatim>\<open>uvmfirst\<close> ignores the result of \<^verbatim>\<open>mappages\<close>; \<open>src\<close> is the program it copies.\<close>

definition uvmfirst :: "u64 \<Rightarrow> u8 list \<Rightarrow> 'z kmem_scheme \<Rightarrow> unit res \<times> 'z kmem_scheme" where
  "uvmfirst pagetable src s =
     (if length src \<ge> 4096 then (Panic ''uvmfirst: more than a page'', s)
      else bnd (kalloc s) (\<lambda>pg s.
        let s = s\<lparr>mem := memset (mem s) pg 0 4096\<rparr> in
        bnd (mappages pagetable 0 PGSIZE pg (PTE_W OR PTE_R OR PTE_X OR PTE_U) s) (\<lambda>_ s.
          (Ret (), s\<lparr>mem := storeb (mem s) pg src\<rparr>))))"

text \<open>The page count of \<^verbatim>\<open>uvmdealloc\<close> is a C \<^verbatim>\<open>int\<close>, which is sign-extended when it is
  passed on.\<close>

definition uvmdealloc :: "u64 \<Rightarrow> u64 \<Rightarrow> u64 \<Rightarrow> 'z kmem_scheme \<Rightarrow> u64 res \<times> 'z kmem_scheme" where
  "uvmdealloc pagetable oldsz newsz s =
     (if newsz \<ge> oldsz then (Ret oldsz, s)
      else bnd
        (if PGROUNDUP newsz < PGROUNDUP oldsz then
           let npages = ucast ((PGROUNDUP oldsz - PGROUNDUP newsz) div PGSIZE) :: i32
           in uvmunmap pagetable (PGROUNDUP newsz) (scast npages) True s
         else (Ret (), s))
        (\<lambda>_ s. (Ret newsz, s)))"

lemma PGROUNDDOWN_MAXVA: "PGROUNDDOWN a < MAXVA \<Longrightarrow> a < MAXVA"
proof -
  assume "PGROUNDDOWN a < MAXVA"
  then have "unat a div 4096 * 4096 < 274877906944"
    by (simp add: word_less_nat_alt unat_PGROUNDDOWN)
  then have "unat a div 4096 < 67108864" by simp
  then have "unat a < 274877906944" by (simp add: div_less_iff_less_mult)
  then show ?thesis by (simp add: word_less_nat_alt)
qed

lemma mappages_Ret_bound: "mappages pt a sz pa perm s = (Ret r, t) \<Longrightarrow> a < MAXVA"
  by (subst (asm) mappages_def, subst (asm) mappages_loop.simps)
     (auto simp: bnd_eq_Ret_iff dest!: walk_Ret_bound intro: PGROUNDDOWN_MAXVA split: if_splits)

function uvmalloc_loop ::
  "u64 \<Rightarrow> u64 \<Rightarrow> u64 \<Rightarrow> u64 \<Rightarrow> u64 \<Rightarrow> 'z kmem_scheme \<Rightarrow> u64 res \<times> 'z kmem_scheme" where
  "uvmalloc_loop pagetable a oldsz newsz xperm s =
     (if a < newsz then
        bnd (kalloc s) (\<lambda>pg s.
          if pg = 0 then bnd (uvmdealloc pagetable a oldsz s) (\<lambda>_ s. (Ret 0, s))
          else let s = s\<lparr>mem := memset (mem s) pg 0 4096\<rparr> in
            bnd (mappages pagetable a PGSIZE pg (PTE_R OR PTE_U OR xperm) s) (\<lambda>r s.
              if r \<noteq> 0 then
                bnd (kfree pg s) (\<lambda>_ s.
                bnd (uvmdealloc pagetable a oldsz s) (\<lambda>_ s. (Ret 0, s)))
              else uvmalloc_loop pagetable (a + PGSIZE) oldsz newsz xperm s))
      else (Ret newsz, s))"
  by auto
termination
  by (relation "measure (\<lambda>(pt, a, l, n, x, s). unat MAXVA - unat a)")
     (auto dest!: mappages_Ret_bound intro: page_step_less [simplified])

declare uvmalloc_loop.simps [simp del]

definition uvmalloc ::
  "u64 \<Rightarrow> u64 \<Rightarrow> u64 \<Rightarrow> u64 \<Rightarrow> 'z kmem_scheme \<Rightarrow> u64 res \<times> 'z kmem_scheme" where
  "uvmalloc pagetable oldsz newsz xperm s =
     (if newsz < oldsz then (Ret oldsz, s)
      else uvmalloc_loop pagetable (PGROUNDUP oldsz) (PGROUNDUP oldsz) newsz xperm s)"

text \<open>\<^verbatim>\<open>freewalk\<close> recurses into the tables an entry points to. The depth is bounded by
  fuel; a well-formed table is three levels deep.\<close>

primrec freewalk_entries :: "(u64 \<Rightarrow> 'z kmem_scheme \<Rightarrow> unit res \<times> 'z kmem_scheme) \<Rightarrow> u64 \<Rightarrow>
    nat list \<Rightarrow> 'z kmem_scheme \<Rightarrow> unit res \<times> 'z kmem_scheme" where
  "freewalk_entries rec pagetable [] s = (Ret (), s)"
| "freewalk_entries rec pagetable (i # is) s =
     (let pte = load64 (mem s) (pagetable + 8 * of_nat i) in
      if pte AND PTE_V \<noteq> 0 \<and> pte AND (PTE_R OR PTE_W OR PTE_X) = 0 then
        bnd (rec (PTE2PA pte) s) (\<lambda>_ s.
        freewalk_entries rec pagetable is
          (s\<lparr>mem := store64 (mem s) (pagetable + 8 * of_nat i) 0\<rparr>))
      else if pte AND PTE_V \<noteq> 0 then (Panic ''freewalk: leaf'', s)
      else freewalk_entries rec pagetable is s)"

primrec freewalk :: "nat \<Rightarrow> u64 \<Rightarrow> 'z kmem_scheme \<Rightarrow> unit res \<times> 'z kmem_scheme" where
  "freewalk 0 pagetable s = (Hang, s)"
| "freewalk (Suc fuel) pagetable s =
     bnd (freewalk_entries (freewalk fuel) pagetable [0..<512] s) (\<lambda>_ s. kfree pagetable s)"

definition uvmfree :: "u64 \<Rightarrow> u64 \<Rightarrow> 'z kmem_scheme \<Rightarrow> unit res \<times> 'z kmem_scheme" where
  "uvmfree pagetable sz s =
     bnd (if sz > 0 then uvmunmap pagetable 0 (PGROUNDUP sz div PGSIZE) True s else (Ret (), s))
       (\<lambda>_ s. freewalk 4 pagetable s)"

function uvmcopy_loop ::
  "u64 \<Rightarrow> u64 \<Rightarrow> u64 \<Rightarrow> u64 \<Rightarrow> 'z kmem_scheme \<Rightarrow> int res \<times> 'z kmem_scheme" where
  "uvmcopy_loop old new i sz s =
     (if i < sz then
        bnd (walk old i False s) (\<lambda>pte s.
          if pte = 0 then (Panic ''uvmcopy: pte should exist'', s)
          else if load64 (mem s) pte AND PTE_V = 0 then (Panic ''uvmcopy: page not present'', s)
          else let pa = PTE2PA (load64 (mem s) pte); flags = PTE_FLAGS (load64 (mem s) pte) in
            bnd (kalloc s) (\<lambda>pg s.
              if pg = 0 then
                bnd (uvmunmap new 0 (i div PGSIZE) True s) (\<lambda>_ s. (Ret (- 1), s))
              else let s = s\<lparr>mem := memmove (mem s) pg pa 4096\<rparr> in
                bnd (mappages new i PGSIZE pg flags s) (\<lambda>r s.
                  if r \<noteq> 0 then
                    bnd (kfree pg s) (\<lambda>_ s.
                    bnd (uvmunmap new 0 (i div PGSIZE) True s) (\<lambda>_ s. (Ret (- 1), s)))
                  else uvmcopy_loop old new (i + PGSIZE) sz s)))
      else (Ret 0, s))"
  by auto
termination
  by (relation "measure (\<lambda>(pt, p, a, z, s). unat MAXVA - unat a)")
     (auto dest!: mappages_Ret_bound intro: page_step_less [simplified])

declare uvmcopy_loop.simps [simp del]

definition uvmcopy :: "u64 \<Rightarrow> u64 \<Rightarrow> u64 \<Rightarrow> 'z kmem_scheme \<Rightarrow> int res \<times> 'z kmem_scheme" where
  "uvmcopy old new sz s = uvmcopy_loop old new 0 sz s"

definition uvmclear :: "u64 \<Rightarrow> u64 \<Rightarrow> 'z kmem_scheme \<Rightarrow> unit res \<times> 'z kmem_scheme" where
  "uvmclear pagetable va s =
     bnd (walk pagetable va False s) (\<lambda>pte s.
       if pte = 0 then (Panic ''uvmclear'', s)
       else (Ret (), s\<lparr>mem := store64 (mem s) pte (load64 (mem s) pte AND NOT PTE_U)\<rparr>))"

text \<open>The part of a page from \<open>va\<close> to its end, at most \<open>len\<close> bytes.\<close>

definition page_chunk :: "u64 \<Rightarrow> nat \<Rightarrow> nat" where
  "page_chunk va len = min (unat (PGSIZE - (va - PGROUNDDOWN va))) len"

lemma unat_page_rest: "unat (PGSIZE - (va - PGROUNDDOWN va)) = 4096 - unat va mod 4096"
  by (subst unat_sub64) (simp add: PGROUNDDOWN_offset)

lemma page_chunk_pos [simp]: "0 < len \<Longrightarrow> 0 < page_chunk va len"
  by (simp add: page_chunk_def unat_page_rest)

lemma page_chunk_le [simp]: "page_chunk va len \<le> len"
  by (simp add: page_chunk_def)

function copyout :: "u64 \<Rightarrow> u64 \<Rightarrow> u8 list \<Rightarrow> 'z kmem_scheme \<Rightarrow> int res \<times> 'z kmem_scheme" where
  "copyout pagetable dstva src s =
     (if length src > 0 then
        let va0 = PGROUNDDOWN dstva in
        bnd (walkaddr pagetable va0 s) (\<lambda>pa0 s.
          if pa0 = 0 then (Ret (- 1), s)
          else let n = page_chunk dstva (length src);
                   s = s\<lparr>mem := storeb (mem s) (pa0 + (dstva - va0)) (take n src)\<rparr>
               in copyout pagetable (va0 + PGSIZE) (drop n src) s)
      else (Ret 0, s))"
  by auto
termination
  by (relation "measure (\<lambda>(pt, a, src, s). length src)") (auto intro: page_chunk_pos)

declare copyout.simps [simp del]

function copyin ::
  "u64 \<Rightarrow> u64 \<Rightarrow> nat \<Rightarrow> 'z kmem_scheme \<Rightarrow> (int \<times> u8 list) res \<times> 'z kmem_scheme" where
  "copyin pagetable srcva len s =
     (if len > 0 then
        let va0 = PGROUNDDOWN srcva in
        bnd (walkaddr pagetable va0 s) (\<lambda>pa0 s.
          if pa0 = 0 then (Ret (- 1, []), s)
          else let n = page_chunk srcva len;
                   bs = loadb (mem s) (pa0 + (srcva - va0)) n
               in bnd (copyin pagetable (va0 + PGSIZE) (len - n) s) (\<lambda>r s.
                    (Ret (fst r, bs @ snd r), s)))
      else (Ret (0, []), s))"
  by auto
termination
  by (relation "measure (\<lambda>(pt, a, len, s). len)") (auto intro: page_chunk_pos)

declare copyin.simps [simp del]

text \<open>The inner loop of \<^verbatim>\<open>copyinstr\<close>: the bytes it stores from one page and whether it met
  the terminating zero.\<close>

primrec copyinstr_page :: "memory \<Rightarrow> u64 \<Rightarrow> nat \<Rightarrow> u8 list \<times> bool" where
  "copyinstr_page m p 0 = ([], False)"
| "copyinstr_page m p (Suc n) =
     (if m p = 0 then ([0], True)
      else let r = copyinstr_page m (p + 1) n in (m p # fst r, snd r))"

lemma copyinstr_page_len: "\<not> snd (copyinstr_page m p n) \<Longrightarrow> length (fst (copyinstr_page m p n)) = n"
  by (induction n arbitrary: p) (auto simp: Let_def split: if_splits)

function copyinstr ::
  "u64 \<Rightarrow> u64 \<Rightarrow> nat \<Rightarrow> 'z kmem_scheme \<Rightarrow> (int \<times> u8 list) res \<times> 'z kmem_scheme" where
  "copyinstr pagetable srcva mx s =
     (if mx > 0 then
        let va0 = PGROUNDDOWN srcva in
        bnd (walkaddr pagetable va0 s) (\<lambda>pa0 s.
          if pa0 = 0 then (Ret (- 1, []), s)
          else let n = page_chunk srcva mx;
                   r = copyinstr_page (mem s) (pa0 + (srcva - va0)) n
               in if snd r then (Ret (0, fst r), s)
                  else bnd (copyinstr pagetable (va0 + PGSIZE) (mx - n) s) (\<lambda>r' s.
                    (Ret (fst r', fst r @ snd r'), s)))
      else (Ret (- 1, []), s))"
  by auto
termination
  by (relation "measure (\<lambda>(pt, a, mx, s). mx)") (auto intro: page_chunk_pos)

declare copyinstr.simps [simp del]

end
