(* ===== verification/Pagetable.thy ===== *)
theory Pagetable
  imports Vm "HOL-Library.Sublist"
begin

text \<open>
  Correctness of \<^verbatim>\<open>kernel/vm.c\<close>: a page table in memory is a tree of pages that share
  nothing with each other or with the free list, and \<^verbatim>\<open>walk\<close> and \<^verbatim>\<open>mappages\<close> implement the
  map from virtual addresses to entries it stands for.
\<close>

declare mod_0_imp_dvd [rule del]

section \<open>Slots of a page\<close>

definition slot :: "u64 \<Rightarrow> nat \<Rightarrow> u64" where
  "slot a i = a + 8 * of_nat i"

definition px :: "nat \<Rightarrow> u64 \<Rightarrow> nat" where
  "px l va = unat (PX l va)"

lemma px_less [simp]: "px l va < 512"
proof -
  have "PX l va = take_bit 9 (drop_bit (12 + 9 * l) va)"
    by (simp add: PX_def mask9 take_bit_eq_mask)
  then show ?thesis by (simp add: px_def take_bit_eq_mod unat_mod_distrib)
qed

lemma slot_px: "pt + 8 * PX l va = slot pt (px l va)"
  by (simp add: slot_def px_def)

lemma unat_flip: "a \<noteq> b \<Longrightarrow> unat (a - b :: u64) = 2 ^ 64 - unat (b - a)"
  using unat_sub64 [of 0 "b - a"] by (auto simp: unat_eq_zero split: if_splits)

lemma sep_sub:
  assumes "sep a n b k" and "i + n' \<le> n" and "j + k' \<le> k" and "0 < n'" and "0 < k'"
  shows "sep (a + of_nat i) n' (b + of_nat j) k'"
proof -
  have half: "n' \<le> unat ((b + of_nat j) - (a + of_nat i))"
    if "n \<le> unat (b - a)" "k \<le> unat (a - b)" "i + n' \<le> n" "j + k' \<le> k" "0 < n'" "0 < k'"
    for a b :: u64 and i j n k n' k'
  proof -
    have "a \<noteq> b" using that by auto
    then have "unat (a - b) = 2 ^ 64 - unat (b - a)" by (rule unat_flip)
    then have d: "unat (b - a) + j < 2 ^ 64" using that by linarith
    then have "unat (b - a + of_nat j) = unat (b - a) + j" by (rule unat_add_nat)
    moreover have "unat (of_nat i :: u64) = i" using that d by (intro unat_of_nat64) linarith
    ultimately have "unat (b - a + of_nat j - of_nat i) = unat (b - a) + j - i"
      using that by (subst unat_sub64) simp
    moreover have "b - a + of_nat j - of_nat i = (b + of_nat j) - (a + of_nat i)" by simp
    ultimately show ?thesis using that by simp
  qed
  from half [of n b a k i n' j k'] half [of k a b n j k' i n'] assms show ?thesis
    by (auto simp: sep_def)
qed

lemma slot_sep_same:
  assumes "i < 512" and "j < 512" and "i < j"
  shows "sep (slot a i) 8 (slot a j) 8"
proof -
  have "slot a j - slot a i = of_nat (8 * (j - i))"
    using assms by (simp add: slot_def of_nat_diff algebra_simps)
  then have up: "unat (slot a j - slot a i) = 8 * (j - i)"
    using assms by (simp only:) (rule unat_of_nat64, simp)
  then have "slot a i \<noteq> slot a j" using assms by auto
  then have "unat (slot a i - slot a j) = 2 ^ 64 - 8 * (j - i)"
    using unat_flip up by metis
  moreover have "8 \<le> 8 * (j - i)" "8 * (j - i) \<le> 4096" using assms by linarith+
  ultimately show ?thesis unfolding sep_def using up by (intro conjI) simp_all
qed

lemma slot_sep:
  assumes "a mod PGSIZE = 0" and "b mod PGSIZE = 0" and "i < 512" and "j < 512"
    and "a \<noteq> b \<or> i \<noteq> j"
  shows "sep (slot a i) 8 (slot b j) 8"
proof (cases "a = b")
  case True
  then show ?thesis
    using assms slot_sep_same [of i j a] slot_sep_same [of j i a] sep_commute
    by (metis linorder_neqE_nat)
next
  case False
  have "sep (a + of_nat (8 * i)) 8 (b + of_nat (8 * j)) 8"
    by (rule sep_sub [OF page_sep [OF assms(1,2) False]]) (use assms in auto)
  then show ?thesis by (simp add: slot_def)
qed

lemma page_slot_sep:
  assumes "c mod PGSIZE = 0" and "a mod PGSIZE = 0" and "i < 512" and "a \<noteq> c"
  shows "sep c 4096 (slot a i) 8"
proof -
  have "sep (c + of_nat 0) 4096 (a + of_nat (8 * i)) 8"
    by (rule sep_sub [OF page_sep [OF assms(1,2)]]) (use assms in auto)
  then show ?thesis by (simp add: slot_def)
qed

lemma slot_in_page:
  assumes "i < 512" and "4096 \<le> unat (x - a)"
  shows "store64 m (slot a i) w x = m x"
proof -
  have "8 \<le> unat (x - slot a i)"
  proof (rule ccontr)
    assume "\<not> ?thesis"
    then have lt: "unat (x - slot a i) < 8" by simp
    have "x - a = of_nat (8 * i + unat (x - slot a i))" by (simp add: slot_def)
    then have "unat (x - a) = 8 * i + unat (x - slot a i)"
      using lt assms(1) by (simp only:) (rule unat_of_nat64, simp)
    then show False using assms lt by simp
  qed
  then show ?thesis by (simp add: store64_def storeb_out)
qed

lemma only_page_slot:
  assumes "only_page c m m'" and "sep c 4096 b 8"
  shows "load64 m' b = load64 m b"
proof -
  have "4096 \<le> unat (b + of_nat i - c)" if "i < 8" for i
  proof (rule ccontr)
    assume "\<not> ?thesis"
    then have lt: "unat (b + of_nat i - c) < 4096" by simp
    have "c + of_nat (unat (b + of_nat i - c)) = b + of_nat i" by simp
    then show False using sep_neq [OF assms(2) lt that] by simp
  qed
  then have "loadb m' b 8 = loadb m b 8"
    using assms(1) by (auto simp: only_page_def intro!: nth_equalityI)
  then show ?thesis by (simp add: load64_def)
qed

section \<open>The tree of a page table\<close>

text \<open>\<open>child\<close>: where a valid entry points. \<open>node\<close> follows a path of entry indices from the
  root. \<open>pte_of\<close>: the last-level entry for a virtual address, 0 where a table is missing.\<close>

definition child :: "memory \<Rightarrow> u64 \<Rightarrow> nat \<Rightarrow> u64 option" where
  "child m a i = (let pte = load64 m (slot a i) in
     if pte AND PTE_V \<noteq> 0 then Some (PTE2PA pte) else None)"

primrec node :: "memory \<Rightarrow> u64 \<Rightarrow> nat list \<Rightarrow> u64 option" where
  "node m pt [] = Some pt"
| "node m pt (i # is) = (case child m pt i of None \<Rightarrow> None | Some b \<Rightarrow> node m b is)"

definition pte_of :: "memory \<Rightarrow> u64 \<Rightarrow> u64 \<Rightarrow> u64" where
  "pte_of m pt va = (case node m pt [px 2 va, px 1 va] of None \<Rightarrow> 0
     | Some a \<Rightarrow> load64 m (slot a (px 0 va)))"

definition path :: "nat list \<Rightarrow> bool" where
  "path p \<longleftrightarrow> length p \<le> 2 \<and> (\<forall>i\<in>set p. i < 512)"

text \<open>The page-table pages are pages of the allocator, not free, and no page is reached
  along two paths.\<close>

definition pt_ok :: "memory \<Rightarrow> u64 \<Rightarrow> u64 \<Rightarrow> u64 list \<Rightarrow> bool" where
  "pt_ok m pt e ps \<longleftrightarrow> (\<forall>p a. path p \<and> node m pt p = Some a \<longrightarrow>
     page_ok e a \<and> a \<notin> set ps \<and> (\<forall>q. path q \<and> node m pt q = Some a \<longrightarrow> q = p))"

definition nodes :: "memory \<Rightarrow> u64 \<Rightarrow> u64 set" where
  "nodes m pt = {a. \<exists>p. path p \<and> node m pt p = Some a}"

lemma node_snoc: "node m pt (p @ [i]) = Option.bind (node m pt p) (\<lambda>a. child m a i)"
  by (induction p arbitrary: pt) (auto split: option.splits)

lemma path_Nil [simp]: "path []"
  by (simp add: path_def)

lemma path_snocD: "path (q @ [j]) \<Longrightarrow> path q \<and> j < 512 \<and> length q \<le> 1"
  by (auto simp: path_def)

lemma path_px [simp]: "path [px 2 va]" "path [px 2 va, px 1 va]"
  by (auto simp: path_def)

lemma pt_ok_page: "pt_ok m pt e ps \<Longrightarrow> path p \<Longrightarrow> node m pt p = Some a \<Longrightarrow> page_ok e a"
  by (auto simp: pt_ok_def)

lemma pt_ok_aligned: "pt_ok m pt e ps \<Longrightarrow> path p \<Longrightarrow> node m pt p = Some a \<Longrightarrow> a mod PGSIZE = 0"
  by (auto simp: pt_ok_def page_ok_def)

lemma pt_ok_free: "pt_ok m pt e ps \<Longrightarrow> path p \<Longrightarrow> node m pt p = Some a \<Longrightarrow> a \<notin> set ps"
  by (auto simp: pt_ok_def)

lemma pt_ok_inj:
  "pt_ok m pt e ps \<Longrightarrow> path p \<Longrightarrow> node m pt p = Some a \<Longrightarrow> path q \<Longrightarrow> node m pt q = Some a \<Longrightarrow> q = p"
  by (auto simp: pt_ok_def)

lemma pt_ok_cong:
  "(\<And>q. path q \<Longrightarrow> node m' pt q = node m pt q) \<Longrightarrow> pt_ok m pt e ps \<Longrightarrow> set ps' \<subseteq> set ps \<Longrightarrow>
   pt_ok m' pt e ps'"
  unfolding pt_ok_def by (metis subsetD)

lemma child_cong: "load64 m' (slot a i) = load64 m (slot a i) \<Longrightarrow> child m' a i = child m a i"
  by (simp add: child_def)

text \<open>A page that is not part of the table can be written freely.\<close>

lemma node_other_page:
  assumes ok: "pt_ok m pt e ps" and c: "c mod PGSIZE = 0" "c \<notin> nodes m pt"
    and op: "only_page c m m'" and q: "path q"
  shows "node m' pt q = node m pt q"
  using q
proof (induction q rule: rev_induct)
  case (snoc j q)
  note q = path_snocD [OF snoc.prems]
  show ?case
  proof (cases "node m pt q")
    case (Some a)
    have al: "a mod PGSIZE = 0" by (rule pt_ok_aligned [OF ok _ Some]) (use q in simp)
    have ne: "a \<noteq> c" using c(2) q Some by (auto simp: nodes_def)
    have "sep c 4096 (slot a j) 8" by (rule page_slot_sep [OF c(1) al _ ne]) (use q in simp)
    then have "load64 m' (slot a j) = load64 m (slot a j)" by (rule only_page_slot [OF op])
    from child_cong [OF this] show ?thesis using snoc.IH q Some by (simp add: node_snoc)
  qed (use snoc.IH q in \<open>simp add: node_snoc\<close>)
qed simp

text \<open>Writing one entry only affects the paths through that entry.\<close>

lemma node_store:
  assumes ok: "pt_ok m pt e ps" and p: "path p" "node m pt p = Some a" and i: "i < 512"
    and q: "path q" "\<not> prefix (p @ [i]) q"
  shows "node (store64 m (slot a i) w) pt q = node m pt q"
  using q
proof (induction q rule: rev_induct)
  case (snoc j q)
  note q = path_snocD [OF snoc.prems(1)]
  have npre: "\<not> prefix (p @ [i]) q" using snoc.prems(2) prefix_order.trans by fastforce
  show ?case
  proof (cases "node m pt q")
    case (Some b)
    have ne: "b \<noteq> a \<or> j \<noteq> i"
    proof (rule ccontr)
      assume "\<not> ?thesis"
      then have "q = p" "j = i" using pt_ok_inj [OF ok p] q Some by auto
      then show False using snoc.prems(2) by simp
    qed
    have al: "b mod PGSIZE = 0" by (rule pt_ok_aligned [OF ok _ Some]) (use q in simp)
    have "sep (slot a i) 8 (slot b j) 8"
      by (rule slot_sep [OF pt_ok_aligned [OF ok p] al i]) (use q ne in auto)
    then have "load64 (store64 m (slot a i) w) (slot b j) = load64 m (slot b j)"
      by (rule load64_store64_sep)
    from child_cong [OF this] show ?thesis using snoc.IH q npre Some by (simp add: node_snoc)
  qed (use snoc.IH q npre in \<open>simp add: node_snoc\<close>)
qed simp

lemma node_below_None: "node m pt p = None \<Longrightarrow> node m pt (p @ q) = None"
  by (induction p arbitrary: pt) (auto split: option.splits)

lemma load_zero_page:
  assumes "i < 512" shows "load64 (memset m c 0 4096) (slot c i) = 0"
proof -
  have "unat (slot c i + of_nat k - c) = 8 * i + k" if "k < 8" for k
  proof -
    have "slot c i + of_nat k - c = of_nat (8 * i + k)" by (simp add: slot_def)
    then show ?thesis using that assms by (simp only:) (rule unat_of_nat64, simp)
  qed
  then have "loadb (memset m c 0 4096) (slot c i) 8 = replicate 8 0"
    using assms by (auto simp: memset_storeb storeb_def intro!: nth_equalityI)
  moreover have "le_word (replicate 8 0) = (0 :: u64)" by (simp add: numeral_eq_Suc)
  ultimately show ?thesis by (simp only: load64_def)
qed

lemma valid_PA2PTE: "(PA2PTE c OR PTE_V) AND PTE_V \<noteq> 0"
proof -
  have "bit ((PA2PTE c OR PTE_V) AND PTE_V) 0" by (simp add: bit_and_iff bit_or_iff)
  then show ?thesis by (metis bit_0_eq bot_apply bot_bool_def)
qed

text \<open>The memory after a zeroed page \<open>c\<close> has been hooked into entry \<open>i\<close> of the table at path
  \<open>p\<close>, and the tree it holds.\<close>

definition hook :: "memory \<Rightarrow> u64 \<Rightarrow> nat \<Rightarrow> u64 \<Rightarrow> memory" where
  "hook m a i c = store64 (memset (memset m c 5 4096) c 0 4096) (slot a i) (PA2PTE c OR PTE_V)"

lemma only_page_zeroed: "only_page c m (memset (memset m c 5 4096) c 0 4096)"
  by (rule only_page_trans [OF only_page_memset only_page_memset])

lemma pt_ok_zeroed:
  assumes "pt_ok m pt e ps" and "c mod PGSIZE = 0" and "c \<notin> nodes m pt"
  shows "pt_ok (memset (memset m c 5 4096) c 0 4096) pt e ps"
  by (rule pt_ok_cong [OF node_other_page [OF assms only_page_zeroed] assms(1)]) simp_all

lemma node_hook:
  assumes ok: "pt_ok m pt e ps" and c: "page_ok e c" "c \<notin> nodes m pt"
    and p: "path p" "length p \<le> 1" "node m pt p = Some a" and i: "i < 512" "child m a i = None"
    and q: "path q"
  shows "node (hook m a i c) pt q = (if q = p @ [i] then Some c else node m pt q)"
proof -
  let ?m = "memset (memset m c 5 4096) c 0 4096"
  have al: "c mod PGSIZE = 0" using c(1) by (simp add: page_ok_def)
  note ok1 = pt_ok_zeroed [OF ok al c(2)]
  note same = node_other_page [OF ok al c(2) only_page_zeroed]
  have pa: "node ?m pt p = Some a" using same p by simp
  have store: "node (hook m a i c) pt q' = node ?m pt q'" if "path q'" "\<not> prefix (p @ [i]) q'" for q'
    unfolding hook_def by (rule node_store [OF ok1 p(1) pa i(1) that])
  have "node (hook m a i c) pt p = Some a" using store [OF p(1)] pa by simp
  moreover have "child (hook m a i c) a i = Some c"
    using PTE2PA_PA2PTE [OF al, of 1] valid_PA2PTE by (simp add: child_def hook_def Let_def)
  ultimately have self: "node (hook m a i c) pt (p @ [i]) = Some c" by (simp add: node_snoc)
  show ?thesis
  proof (cases "prefix (p @ [i]) q")
    case False
    then show ?thesis using store [OF q] same q by auto
  next
    case True
    then obtain r where r: "q = (p @ [i]) @ r" by (auto simp: prefix_def)
    have old: "node m pt (p @ [i]) = None" using p i by (simp add: node_snoc)
    show ?thesis
    proof (cases r)
      case Nil
      then show ?thesis using r self by simp
    next
      case (Cons j js)
      then have q3: "q = (p @ [i]) @ [j]" "j < 512" using r q by (auto simp: path_def)
      have "c \<noteq> a" using c(2) p by (auto simp: nodes_def)
      then have "sep (slot a i) 8 (slot c j) 8"
        using slot_sep [OF pt_ok_aligned [OF ok p(1,3)] al i(1) q3(2)] by simp
      then have "load64 (hook m a i c) (slot c j) = 0"
        using load_zero_page [OF q3(2)] by (simp add: hook_def load64_store64_sep)
      then have "child (hook m a i c) c j = None" by (simp add: child_def)
      then have "node (hook m a i c) pt q = None" using self q3 by (simp only: node_snoc) simp
      then show ?thesis using node_below_None [OF old, of "[j]"] q3 by simp
    qed
  qed
qed

section \<open>Walking with allocation\<close>

text \<open>Memory unchanged on every page that is not in \<open>A\<close>.\<close>

definition same_outside :: "u64 set \<Rightarrow> memory \<Rightarrow> memory \<Rightarrow> bool" where
  "same_outside A m m' \<longleftrightarrow> (\<forall>c x. c mod PGSIZE = 0 \<longrightarrow> c \<notin> A \<longrightarrow> unat (x - c) < 4096 \<longrightarrow> m' x = m x)"

lemma same_outside_refl [simp]: "same_outside A m m"
  by (simp add: same_outside_def)

lemma same_outsideI:
  "(\<And>c x. c mod PGSIZE = 0 \<Longrightarrow> c \<notin> A \<Longrightarrow> unat (x - c) < 4096 \<Longrightarrow> m' x = m x) \<Longrightarrow> same_outside A m m'"
  unfolding same_outside_def by blast

lemma same_outsideD:
  "same_outside A m m' \<Longrightarrow> c mod PGSIZE = 0 \<Longrightarrow> c \<notin> A \<Longrightarrow> unat (x - c) < 4096 \<Longrightarrow> m' x = m x"
  unfolding same_outside_def by blast

lemma same_outside_trans:
  assumes "same_outside A m m1" and "same_outside B m1 m2" and "A \<subseteq> B"
  shows "same_outside B m m2"
proof (rule same_outsideI)
  fix c x assume c: "c mod PGSIZE = 0" "c \<notin> B" "unat (x - c) < 4096"
  then have "c \<notin> A" using assms(3) by blast
  from same_outsideD [OF assms(1) c(1) this c(3)] same_outsideD [OF assms(2) c] show "m2 x = m x"
    by simp
qed

text \<open>What a walk that may allocate keeps: every table stays where it is, new ones come from
  the free list and are empty, and no byte outside the tables changes.\<close>

definition walked :: "u64 \<Rightarrow> 'z kmem_scheme \<Rightarrow> u64 list \<Rightarrow> 'z kmem_scheme \<Rightarrow> u64 list \<Rightarrow> bool" where
  "walked pt s ps s' ps' \<longleftrightarrow> kmem_inv s' ps' \<and> set ps' \<subseteq> set ps \<and>
     pt_ok (mem s') pt (kend s) ps' \<and>
     (\<forall>va. pte_of (mem s') pt va = pte_of (mem s) pt va) \<and>
     (\<forall>p a. path p \<and> node (mem s) pt p = Some a \<longrightarrow> node (mem s') pt p = Some a) \<and>
     nodes (mem s') pt \<subseteq> nodes (mem s) pt \<union> set ps \<and>
     same_outside (nodes (mem s') pt) (mem s) (mem s') \<and> kframe s s'"

lemma walked_refl: "kmem_inv s ps \<Longrightarrow> pt_ok (mem s) pt (kend s) ps \<Longrightarrow> walked pt s ps s ps"
  by (auto simp: walked_def)

lemma walked_nodes: "walked pt s ps s' ps' \<Longrightarrow> nodes (mem s) pt \<subseteq> nodes (mem s') pt"
  by (auto simp: walked_def nodes_def)

lemma walked_state: "walked pt s ps s' ps' \<Longrightarrow> kend s' = kend s \<and> held s' = held s"
  by (simp add: walked_def kframe_kend kframe_held)

lemma walked_trans:
  assumes 1: "walked pt s ps s1 ps1" and 2: "walked pt s1 ps1 s2 ps2"
  shows "walked pt s ps s2 ps2"
proof -
  have e: "kend s1 = kend s" using walked_state [OF 1] by simp
  have "kframe s s2" using 1 2 kframe_trans unfolding walked_def by blast
  moreover have "same_outside (nodes (mem s2) pt) (mem s) (mem s2)"
    using same_outside_trans 1 2 walked_nodes [OF 2] unfolding walked_def by blast
  moreover have "nodes (mem s2) pt \<subseteq> nodes (mem s) pt \<union> set ps" "set ps2 \<subseteq> set ps"
    using 1 2 unfolding walked_def by blast+
  ultimately show ?thesis using 1 2 by (simp add: walked_def e)
qed

lemma hook_bytes:
  assumes "i < 512" and "c \<noteq> d" and "a \<noteq> d" and "c mod PGSIZE = 0" and "d mod PGSIZE = 0"
    and "a mod PGSIZE = 0" and "unat (x - d) < 4096"
  shows "hook m a i c x = m x"
proof -
  have far: "4096 \<le> unat (x - b)" if "sep b 4096 d 4096" for b
  proof (rule ccontr)
    assume "\<not> ?thesis"
    then have lt: "unat (x - b) < 4096" by simp
    have "b + of_nat (unat (x - b)) = d + of_nat (unat (x - d))" by simp
    then show False using sep_neq [OF that lt assms(7)] by simp
  qed
  have "4096 \<le> unat (x - a)" by (rule far [OF page_sep [OF assms(6,5,3)]])
  then have "hook m a i c x = memset (memset m c 5 4096) c 0 4096 x"
    unfolding hook_def by (rule slot_in_page [OF assms(1)])
  also have "\<dots> = m x"
    using only_page_zeroed far [OF page_sep [OF assms(4,5,2)]] by (simp add: only_page_def)
  finally show ?thesis .
qed

lemma pte_of_hook:
  assumes ok: "pt_ok m pt e ps" and c: "page_ok e c" "c \<notin> nodes m pt"
    and p: "path p" "length p \<le> 1" "node m pt p = Some a" and i: "i < 512" "child m a i = None"
  shows "pte_of (hook m a i c) pt va = pte_of m pt va"
proof -
  have al: "c mod PGSIZE = 0" using c(1) by (simp add: page_ok_def)
  have ala: "a mod PGSIZE = 0" by (rule pt_ok_aligned [OF ok p(1,3)])
  note nh = node_hook [OF ok c p i, of "[px 2 va, px 1 va]", OF path_px(2)]
  show ?thesis
  proof (cases "[px 2 va, px 1 va] = p @ [i]")
    case True
    have "node m pt (p @ [i]) = None" using p i by (simp add: node_snoc)
    then have old: "pte_of m pt va = 0" using True by (simp only: pte_of_def) simp
    have "c \<noteq> a" using c(2) p by (auto simp: nodes_def)
    then have "sep (slot a i) 8 (slot c (px 0 va)) 8" using slot_sep [OF ala al i(1)] by simp
    then have "load64 (hook m a i c) (slot c (px 0 va)) = 0"
      by (simp add: hook_def load64_store64_sep load_zero_page)
    then show ?thesis using nh True old by (simp only: pte_of_def) simp
  next
    case False
    show ?thesis
    proof (cases "node m pt [px 2 va, px 1 va]")
      case None
      then show ?thesis using nh False by (simp only: pte_of_def) simp
    next
      case (Some b)
      have alb: "b mod PGSIZE = 0" by (rule pt_ok_aligned [OF ok path_px(2) Some])
      have "b \<noteq> a" using pt_ok_inj [OF ok p(1,3) path_px(2), of va] p(2) Some by auto
      moreover have "b \<noteq> c" using c(2) Some path_px(2) unfolding nodes_def by blast
      ultimately have s: "sep (slot a i) 8 (slot b (px 0 va)) 8" "sep c 4096 (slot b (px 0 va)) 8"
        using slot_sep [OF ala alb i(1)] page_slot_sep [OF al alb] by simp_all
      then have "load64 (hook m a i c) (slot b (px 0 va)) = load64 m (slot b (px 0 va))"
        using only_page_slot [OF only_page_zeroed s(2)] by (simp add: hook_def load64_store64_sep)
      then show ?thesis using nh False Some by (simp only: pte_of_def) simp
    qed
  qed
qed

lemma free_not_node: "pt_ok m pt e ps \<Longrightarrow> c \<in> set ps \<Longrightarrow> c \<notin> nodes m pt"
  by (auto simp: pt_ok_def nodes_def)

lemma walked_hook:
  assumes inv: "kmem_inv s (c # cs)" and ok: "pt_ok (mem s) pt (kend s) (c # cs)"
    and p: "path p" "length p \<le> 1" "node (mem s) pt p = Some a"
    and i: "i < 512" "child (mem s) a i = None"
    and inv': "kmem_inv (s\<lparr>freelist := f, mem := hook (mem s) a i c\<rparr>) cs"
  shows "walked pt s (c # cs) (s\<lparr>freelist := f, mem := hook (mem s) a i c\<rparr>) cs"
proof -
  let ?m = "hook (mem s) a i c"
  have c: "page_ok (kend s) c" "c \<notin> nodes (mem s) pt" "c \<notin> set cs"
    using inv free_not_node [OF ok] by (auto simp: kmem_inv_def)
  have al: "c mod PGSIZE = 0" "a mod PGSIZE = 0"
    using c(1) pt_ok_aligned [OF ok p(1,3)] by (simp_all add: page_ok_def)
  note nh = node_hook [OF ok c(1,2) p i]
  have pi: "path (p @ [i])" using p i by (auto simp: path_def)
  have old: "node (mem s) pt (p @ [i]) = None" using p i by (simp add: node_snoc)
  have nodes: "nodes ?m pt = insert c (nodes (mem s) pt)"
  proof (intro equalityI subsetI)
    fix x assume "x \<in> nodes ?m pt"
    then show "x \<in> insert c (nodes (mem s) pt)" using nh by (auto simp: nodes_def split: if_splits)
  next
    fix x assume "x \<in> insert c (nodes (mem s) pt)"
    then consider "x = c" | q where "path q" "node (mem s) pt q = Some x" by (auto simp: nodes_def)
    then show "x \<in> nodes ?m pt"
    proof cases
      case 1
      then show ?thesis using nh [OF pi] pi by (auto simp: nodes_def)
    next
      case 2
      then show ?thesis using nh [OF 2(1)] old by (auto simp: nodes_def split: if_splits)
    qed
  qed
  have nc: "node (mem s) pt q \<noteq> Some c" if "path q" for q
    using c(2) that by (auto simp: nodes_def)
  have "pt_ok ?m pt (kend s) cs"
    using ok c nh nc unfolding pt_ok_def by (auto split: if_splits)
  moreover have "pte_of ?m pt va = pte_of (mem s) pt va" for va
    by (rule pte_of_hook [OF ok c(1,2) p i])
  moreover have "node ?m pt q = Some b" if "path q" "node (mem s) pt q = Some b" for q b
    using nh [OF that(1)] that old by auto
  moreover have "same_outside (nodes ?m pt) (mem s) ?m"
  proof (rule same_outsideI)
    fix d x assume d: "d mod PGSIZE = 0" "d \<notin> nodes ?m pt" "unat (x - d) < 4096"
    have "c \<noteq> d" "a \<noteq> d" using d(2) nodes p by (auto simp: nodes_def)
    then show "?m x = mem s x" using hook_bytes [OF i(1) _ _ al(1) d(1) al(2) d(3)] by blast
  qed
  ultimately show ?thesis using inv' nodes by (auto simp: walked_def)
qed

lemma hook_load:
  assumes "i < 512" and "c mod PGSIZE = 0" and "a mod PGSIZE = 0" and "q mod PGSIZE = 0"
    and "c \<noteq> q" and "a \<noteq> q"
  shows "load64 (hook m a i c) q = load64 m q"
proof -
  have q: "slot q 0 = q" by (simp add: slot_def)
  have "sep (slot a i) 8 q 8" using slot_sep [OF assms(3,4,1), of 0] assms(6) q by simp
  moreover have "sep c 4096 q 8" using page_slot_sep [OF assms(2,4), of 0] assms(5) q by simp
  ultimately show ?thesis
    using only_page_slot [OF only_page_zeroed] by (simp add: hook_def load64_store64_sep)
qed

lemma kmem_inv_hook:
  assumes inv: "kmem_inv s (c # cs)" and ok: "pt_ok (mem s) pt (kend s) (c # cs)"
    and p: "path p" "length p \<le> 1" "node (mem s) pt p = Some a" and i: "i < 512"
    and lk: "KmemLock \<notin> set (held s)"
  shows "kmem_inv (s\<lparr>freelist := load64 (mem s) c, mem := hook (mem s) a i c\<rparr>) cs"
proof -
  let ?t = "s\<lparr>freelist := load64 (mem s) c, mem := memset (mem s) c 5 4096\<rparr>"
  have "kmem_inv (?t\<lparr>mem := hook (mem s) a i c\<rparr>) cs"
  proof (rule kmem_inv_mem [OF kalloc_some(2) [OF inv lk]])
    fix q assume q: "q \<in> set cs"
    have al: "c mod PGSIZE = 0" "q mod PGSIZE = 0" and ne: "c \<noteq> q"
      using inv q by (auto simp: kmem_inv_def page_ok_def list_all_iff)
    have a: "a mod PGSIZE = 0" "a \<noteq> q"
      using pt_ok_aligned [OF ok p(1,3)] pt_ok_free [OF ok p(1,3)] q by auto
    have "load64 (hook (mem s) a i c) q = load64 (mem s) q"
      by (rule hook_load [OF i al(1) a(1) al(2) ne a(2)])
    also have "\<dots> = load64 (memset (mem s) c 5 4096) q"
      using only_page_load64 [OF only_page_memset page_sep [OF al ne]] by simp
    finally show "load64 (hook (mem s) a i c) q = load64 (mem ?t) q" by simp
  qed
  then show ?thesis by simp
qed

lemma walk_step_alloc:
  assumes inv: "kmem_inv s ps" and ok: "pt_ok (mem s) pt (kend s) ps"
    and p: "path p" "length p \<le> 1" "node (mem s) pt p = Some a" and lk: "KmemLock \<notin> set (held s)"
  shows "ok (walk_step a va l True s) (\<lambda>r s'. \<exists>ps'. walked pt s ps s' ps' \<and>
           (case r of None \<Rightarrow> ps' = [] | Some b \<Rightarrow> node (mem s') pt (p @ [px l va]) = Some b))"
proof (cases "child (mem s) a (px l va)")
  case (Some b)
  then have "walk_step a va l True s = (Ret (Some b), s)"
    by (auto simp: walk_step_def slot_px child_def Let_def split: if_splits)
  then show ?thesis using walked_refl [OF inv ok] Some p by (auto simp: node_snoc)
next
  case None
  then have inval: "load64 (mem s) (slot a (px l va)) AND PTE_V = 0"
    by (auto simp: child_def Let_def split: if_splits)
  show ?thesis
  proof (cases ps)
    case Nil
    then have "walk_step a va l True s = (Ret None, s)"
      using inval kalloc_none [of s] inv lk by (simp add: walk_step_def slot_px)
    then show ?thesis using walked_refl [OF inv ok] Nil by auto
  next
    case (Cons c cs)
    have c: "c \<noteq> 0" using inv Cons by (auto simp: kmem_inv_def)
    let ?t = "s\<lparr>freelist := load64 (mem s) c, mem := hook (mem s) a (px l va) c\<rparr>"
    have run: "walk_step a va l True s = (Ret (Some c), ?t)"
      using inval kalloc_some(1) [of s c cs] inv lk Cons c
      by (simp add: walk_step_def slot_px hook_def Let_def)
    have free: "c \<notin> nodes (mem s) pt" using free_not_node [OF ok] Cons by simp
    have ok1: "page_ok (kend s) c" using inv Cons by (simp add: kmem_inv_def)
    have al: "a mod PGSIZE = 0" by (rule pt_ok_aligned [OF ok p(1,3)])
    have "kmem_inv ?t cs" by (rule kmem_inv_hook [OF inv [unfolded Cons] ok [unfolded Cons] p px_less lk])
    then have "walked pt s (c # cs) ?t cs"
      using walked_hook [OF inv [unfolded Cons] ok [unfolded Cons] p px_less None] by blast
    moreover have "node (mem ?t) pt (p @ [px l va]) = Some c"
      using node_hook [OF ok ok1 free p px_less None, of "p @ [px l va]"] p
      by (simp add: path_def)
    ultimately show ?thesis using run Cons by auto
  qed
qed

lemma walk_alloc:
  assumes inv: "kmem_inv s ps" and ok: "pt_ok (mem s) pt (kend s) ps"
    and root: "pt_ok (mem s) pt (kend s) ps" and lk: "KmemLock \<notin> set (held s)" and va: "va < MAXVA"
  shows "ok (walk pt va True s) (\<lambda>pte s'. \<exists>ps'. walked pt s ps s' ps' \<and>
           (pte = 0 \<and> ps' = [] \<or>
            (\<exists>a. node (mem s') pt [px 2 va, px 1 va] = Some a \<and> pte = slot a (px 0 va))))"
proof -
  obtain r1 s1 ps1 where s1: "walk_step pt va 2 True s = (Ret r1, s1)" "walked pt s ps s1 ps1"
      and r1: "case r1 of None \<Rightarrow> ps1 = [] | Some b \<Rightarrow> node (mem s1) pt ([] @ [px 2 va]) = Some b"
    using walk_step_alloc [OF inv ok path_Nil _ _ lk, of pt va 2] by (auto elim!: ok_E)
  show ?thesis
  proof (cases r1)
    case None
    then have "walk pt va True s = (Ret 0, s1)"
      using s1 va by (simp add: walk_def numeral_2_eq_2)
    then show ?thesis using s1(2) r1 None by auto
  next
    case (Some b)
    have inv1: "kmem_inv s1 ps1" "pt_ok (mem s1) pt (kend s1) ps1" "KmemLock \<notin> set (held s1)"
      using s1(2) walked_state [OF s1(2)] lk by (auto simp: walked_def)
    obtain r2 s2 ps2 where s2: "walk_step b va 1 True s1 = (Ret r2, s2)" "walked pt s1 ps1 s2 ps2"
      and r2: "case r2 of None \<Rightarrow> ps2 = [] | Some c \<Rightarrow> node (mem s2) pt ([px 2 va] @ [px 1 va]) = Some c"
      using walk_step_alloc [OF inv1(1,2) path_px(1) _ _ inv1(3), of va b va 1] r1 Some
      by (auto elim!: ok_E)
    have run: "walk pt va True s =
        (case r2 of None \<Rightarrow> (Ret 0, s2) | Some c \<Rightarrow> (Ret (slot c (px 0 va)), s2))"
      using s1 s2 va Some by (simp add: walk_def numeral_2_eq_2 slot_px not_le split: option.splits)
    note w = walked_trans [OF s1(2) s2(2)]
    show ?thesis
    proof (cases r2)
      case None
      then show ?thesis using run w r2 by auto
    next
      case (Some c)
      then have "node (mem s2) pt [px 2 va, px 1 va] = Some c" using r2 by simp
      then show ?thesis using run w Some by (simp del: node.simps) blast
    qed
  qed
qed

text \<open>A walk without allocation reads the tree.\<close>

lemma walk_step_read:
  "walk_step a va l False s = (Ret (child (mem s) a (px l va)), s)"
  by (simp add: walk_step_def slot_px child_def Let_def)

lemma walk_read:
  "va < MAXVA \<Longrightarrow> walk pt va False s =
     (Ret (case node (mem s) pt [px 2 va, px 1 va] of None \<Rightarrow> 0 | Some a \<Rightarrow> slot a (px 0 va)), s)"
  by (auto simp: walk_def numeral_2_eq_2 walk_step_read slot_px split: option.splits)

lemma slot_nonzero:
  assumes "page_ok e a" and "0 < e" and "i < 512"
  shows "slot a i \<noteq> 0"
proof -
  have a: "0 < unat a" "unat a < 2281701376"
    using assms by (auto simp: page_ok_def word_less_nat_alt word_le_nat_alt)
  have "unat (a + of_nat (8 * i)) = unat a + 8 * i"
    using a assms(3) by (intro unat_add_nat) simp
  then show ?thesis using a by (auto simp: slot_def simp flip: unat_eq_zero)
qed

section \<open>Entries and addresses\<close>

lemma px_nat: "px l va = unat va div 2 ^ (12 + 9 * l) mod 512"
proof -
  have "PX l va = drop_bit (12 + 9 * l) va mod 512"
    by (simp add: PX_def mask9 flip: take_bit_eq_mask) (simp add: take_bit_eq_mod)
  then have "px l va = unat (drop_bit (12 + 9 * l) va) mod 512"
    unfolding px_def by (simp only: unat_mod_distrib) simp
  also have "unat (drop_bit (12 + 9 * l) va) = drop_bit (12 + 9 * l) (unat va)"
    by (simp only: unsigned_drop_bit_eq) (simp add: take_bit_nat_eq_self unsigned_less [THEN order_less_le_trans])
  finally show ?thesis by (simp only: drop_bit_eq_div)
qed

lemma digits3:
  assumes "(n :: nat) < 134217728"
  shows "n = n mod 512 + 512 * (n div 512 mod 512) + 262144 * (n div 262144 mod 512)"
proof -
  have "n div 512 div 512 = n div 262144" by (simp add: div_mult2_eq [symmetric])
  moreover have "n div 262144 mod 512 = n div 262144" using assms by simp
  moreover have "n div 512 div 512 * 512 + n div 512 mod 512 = n div 512" by (rule div_mult_mod_eq)
  moreover have "n div 512 * 512 + n mod 512 = n" by (rule div_mult_mod_eq)
  ultimately show ?thesis by linarith
qed

text \<open>The three indices determine the page of an address below \<^verbatim>\<open>MAXVA\<close>.\<close>

lemma px_inj:
  assumes "va < MAXVA" and "vb < MAXVA"
    and "px 2 va = px 2 vb" and "px 1 va = px 1 vb" and "px 0 va = px 0 vb"
  shows "PGROUNDDOWN va = PGROUNDDOWN vb"
proof -
  have split: "unat v div 4096 = px 0 v + 512 * px 1 v + 262144 * px 2 v" if "v < MAXVA" for v
  proof -
    have lt: "unat v div 4096 < 134217728"
      using that by (simp add: word_less_nat_alt div_less_iff_less_mult)
    have "unat v div 2 ^ 21 = unat v div 4096 div 512" "unat v div 2 ^ 30 = unat v div 4096 div 262144"
      by (simp_all add: div_mult2_eq [symmetric])
    then have px: "px 0 v = unat v div 4096 mod 512" "px 1 v = unat v div 4096 div 512 mod 512"
        "px 2 v = unat v div 4096 div 262144 mod 512"
      by (simp_all add: px_nat)
    show ?thesis unfolding px by (rule digits3 [OF lt])
  qed
  have "unat va div 4096 = unat vb div 4096" using split assms by simp
  then have "unat (PGROUNDDOWN va) = unat (PGROUNDDOWN vb)" by (simp add: unat_PGROUNDDOWN)
  then show ?thesis by (simp add: word_unat_eq_iff)
qed

lemma px_page: "px l (PGROUNDDOWN va) = px l va"
proof -
  have "unat va div 4096 * 4096 div 2 ^ (12 + 9 * l) = unat va div 2 ^ (12 + 9 * l)"
    by (simp add: power_add div_mult2_eq)
  then show ?thesis by (simp add: px_nat unat_PGROUNDDOWN)
qed

lemma node_leaf_store:
  assumes ok: "pt_ok m pt e ps" and a: "node m pt [px 2 va, px 1 va] = Some a" and q: "path q"
  shows "node (store64 m (slot a (px 0 va)) w) pt q = node m pt q"
proof (rule node_store [OF ok path_px(2) a px_less q])
  show "\<not> prefix ([px 2 va, px 1 va] @ [px 0 va]) q"
    using q by (auto simp: path_def dest: prefix_length_le)
qed

lemma pte_of_leaf_store:
  assumes ok: "pt_ok m pt e ps" and a: "node m pt [px 2 va, px 1 va] = Some a"
    and lt: "va < MAXVA" "vb < MAXVA"
  shows "pte_of (store64 m (slot a (px 0 va)) w) pt vb =
           (if PGROUNDDOWN vb = PGROUNDDOWN va then w else pte_of m pt vb)"
proof (cases "PGROUNDDOWN vb = PGROUNDDOWN va")
  case True
  then have "px l vb = px l va" for l using px_page by metis
  then show ?thesis
    using True a node_leaf_store [OF ok a path_px(2), of w va] by (simp add: pte_of_def del: node.simps)
next
  case False
  note same = node_leaf_store [OF ok a path_px(2), of w vb]
  show ?thesis
  proof (cases "node m pt [px 2 vb, px 1 vb]")
    case None
    then show ?thesis using False same by (simp add: pte_of_def del: node.simps)
  next
    case (Some b)
    have "a \<noteq> b \<or> px 0 va \<noteq> px 0 vb"
    proof (rule ccontr)
      assume "\<not> ?thesis"
      then have "a = b" "px 0 va = px 0 vb" by auto
      moreover have "[px 2 vb, px 1 vb] = [px 2 va, px 1 va]"
        by (rule pt_ok_inj [OF ok path_px(2) a path_px(2)]) (use Some \<open>a = b\<close> in simp)
      ultimately show False using px_inj [OF lt(2,1)] False by simp
    qed
    then have "sep (slot a (px 0 va)) 8 (slot b (px 0 vb)) 8"
      using slot_sep [OF pt_ok_aligned [OF ok path_px(2) a] pt_ok_aligned [OF ok path_px(2) Some]]
      by simp
    then show ?thesis
      using False same Some by (simp add: pte_of_def load64_store64_sep del: node.simps)
  qed
qed

section \<open>Mapping pages\<close>

text \<open>What \<^verbatim>\<open>mappages\<close> has done when it has mapped the pages from \<open>a\<close> up to \<open>B\<close>.\<close>

definition mapped_upto :: "u64 \<Rightarrow> 'z kmem_scheme \<Rightarrow> u64 list \<Rightarrow> 'z kmem_scheme \<Rightarrow> u64 list \<Rightarrow>
    u64 \<Rightarrow> nat \<Rightarrow> u64 \<Rightarrow> u64 \<Rightarrow> bool" where
  "mapped_upto pt s ps s' ps' a B pa perm \<longleftrightarrow> kmem_inv s' ps' \<and> set ps' \<subseteq> set ps \<and>
     pt_ok (mem s') pt (kend s) ps' \<and> kframe s s' \<and>
     (\<forall>vb < MAXVA. pte_of (mem s') pt vb =
        (if unat a \<le> unat (PGROUNDDOWN vb) \<and> unat (PGROUNDDOWN vb) < B
         then PA2PTE (pa + (PGROUNDDOWN vb - a)) OR perm OR PTE_V else pte_of (mem s) pt vb)) \<and>
     nodes (mem s) pt \<subseteq> nodes (mem s') pt \<and> nodes (mem s') pt \<subseteq> nodes (mem s) pt \<union> set ps \<and>
     same_outside (nodes (mem s') pt) (mem s) (mem s')"

lemma walked_mapped:
  "walked pt s ps s' ps' \<Longrightarrow> mapped_upto pt s ps s' ps' a (unat a) pa perm"
  using walked_nodes [of pt s ps s' ps'] by (auto simp: walked_def mapped_upto_def)

lemma slot_far:
  assumes "i < 512" and "a mod PGSIZE = 0" and "c mod PGSIZE = 0" and "a \<noteq> c" and "unat (x - c) < 4096"
  shows "store64 m (slot a i) w x = m x"
proof (rule slot_in_page [OF assms(1)])
  show "4096 \<le> unat (x - a)"
  proof (rule ccontr)
    assume "\<not> ?thesis"
    then have lt: "unat (x - a) < 4096" by simp
    have "a + of_nat (unat (x - a)) = c + of_nat (unat (x - c))" by simp
    then show False using sep_neq [OF page_sep [OF assms(2-4)] lt assms(5)] by simp
  qed
qed

lemma leaf_store_inv:
  assumes inv: "kmem_inv s ps" and ok: "pt_ok (mem s) pt (kend s) ps"
    and a: "node (mem s) pt [px 2 va, px 1 va] = Some a"
  shows "kmem_inv (s\<lparr>mem := store64 (mem s) (slot a (px 0 va)) w\<rparr>) ps"
proof (rule kmem_inv_mem [OF inv])
  fix q assume q: "q \<in> set ps"
  have "q mod PGSIZE = 0" using inv q by (auto simp: kmem_inv_def list_all_iff page_ok_def)
  moreover have "a \<noteq> q" using pt_ok_free [OF ok path_px(2) a] q by auto
  moreover have "slot q 0 = q" by (simp add: slot_def)
  ultimately have "sep (slot a (px 0 va)) 8 q 8"
    using slot_sep [OF pt_ok_aligned [OF ok path_px(2) a], of q "px 0 va" 0] by simp
  then show "load64 (store64 (mem s) (slot a (px 0 va)) w) q = load64 (mem s) q"
    by (rule load64_store64_sep)
qed

text \<open>One round of the loop: a walk that found the entry, and the write to it.\<close>

lemma mapped_one:
  assumes w: "walked pt s ps s1 ps1" and b: "node (mem s1) pt [px 2 va, px 1 va] = Some b"
    and va: "va < MAXVA" "va mod PGSIZE = 0"
  shows "mapped_upto pt s ps (s1\<lparr>mem := store64 (mem s1) (slot b (px 0 va)) (PA2PTE pa OR perm OR PTE_V)\<rparr>)
           ps1 va (unat va + 4096) pa perm"
proof -
  let ?m = "store64 (mem s1) (slot b (px 0 va)) (PA2PTE pa OR perm OR PTE_V)"
  have inv: "kmem_inv s1 ps1" "pt_ok (mem s1) pt (kend s1) ps1"
    using w walked_state [OF w] by (simp_all add: walked_def)
  have self: "PGROUNDDOWN va = va" by (rule PGROUNDDOWN_id [OF va(2)])
  have same: "node ?m pt q = node (mem s1) pt q" if "path q" for q
    by (rule node_leaf_store [OF inv(2) b that])
  then have nodes: "nodes ?m pt = nodes (mem s1) pt" by (auto simp: nodes_def)
  have "pt_ok ?m pt (kend s) ps1"
    using pt_ok_cong [OF same inv(2)] walked_state [OF w] by simp
  moreover have "kmem_inv (s1\<lparr>mem := ?m\<rparr>) ps1" by (rule leaf_store_inv [OF inv b])
  moreover have "pte_of ?m pt vb =
      (if unat va \<le> unat (PGROUNDDOWN vb) \<and> unat (PGROUNDDOWN vb) < unat va + 4096
       then PA2PTE (pa + (PGROUNDDOWN vb - va)) OR perm OR PTE_V else pte_of (mem s) pt vb)"
    if vb: "vb < MAXVA" for vb
  proof -
    have "unat va \<le> unat (PGROUNDDOWN vb) \<and> unat (PGROUNDDOWN vb) < unat va + 4096 \<longleftrightarrow>
        PGROUNDDOWN vb = va"
    proof -
      obtain k where "unat va = 4096 * k" using va(2) by (auto simp only: aligned_unat elim: dvdE)
      moreover have "4096 * k \<le> j * 4096 \<and> j * 4096 < 4096 * k + 4096 \<longleftrightarrow> j * 4096 = 4096 * k"
        for j :: nat by auto
      ultimately show ?thesis by (simp only: word_unat_eq_iff unat_PGROUNDDOWN)
    qed
    then show ?thesis
      using pte_of_leaf_store [OF inv(2) b va(1) vb] w self by (simp add: walked_def)
  qed
  moreover have "same_outside (nodes (mem s1) pt) (mem s1) ?m"
  proof (rule same_outsideI)
    fix c x assume c: "c mod PGSIZE = 0" "c \<notin> nodes (mem s1) pt" "unat (x - c) < 4096"
    have "b \<in> nodes (mem s1) pt" unfolding nodes_def using b path_px(2) by blast
    then have "b \<noteq> c" using c(2) by blast
    from slot_far [OF px_less pt_ok_aligned [OF inv(2) path_px(2) b] c(1) this c(3)]
    show "?m x = mem s1 x" .
  qed
  then have "same_outside (nodes ?m pt) (mem s) ?m"
    unfolding nodes using same_outside_trans w unfolding walked_def by blast
  moreover have "nodes (mem s) pt \<subseteq> nodes ?m pt" "nodes ?m pt \<subseteq> nodes (mem s) pt \<union> set ps"
      "set ps1 \<subseteq> set ps" "kframe s s1"
    using w walked_nodes [OF w] unfolding nodes walked_def by blast+
  ultimately show ?thesis unfolding mapped_upto_def by simp
qed

lemma mapped_upto_trans:
  assumes 1: "mapped_upto pt s ps s1 ps1 a (unat a + 4096) pa perm"
    and 2: "mapped_upto pt s1 ps1 s2 ps2 (a + PGSIZE) B (pa + PGSIZE) perm"
    and B: "unat a + 4096 \<le> B" and a: "unat (a + PGSIZE) = unat a + 4096" "a mod PGSIZE = 0"
  shows "mapped_upto pt s ps s2 ps2 a B pa perm"
proof -
  have e: "kend s1 = kend s" using 1 by (simp add: mapped_upto_def kframe_kend)
  have "kframe s s2" using 1 2 kframe_trans unfolding mapped_upto_def by blast
  moreover have "pte_of (mem s2) pt vb =
      (if unat a \<le> unat (PGROUNDDOWN vb) \<and> unat (PGROUNDDOWN vb) < B
       then PA2PTE (pa + (PGROUNDDOWN vb - a)) OR perm OR PTE_V else pte_of (mem s) pt vb)"
    if "vb < MAXVA" for vb
  proof -
    have "pa + PGSIZE + (PGROUNDDOWN vb - (a + PGSIZE)) = pa + (PGROUNDDOWN vb - a)" by simp
    then show ?thesis using 1 2 that a B unfolding mapped_upto_def by auto
  qed
  moreover have "nodes (mem s) pt \<subseteq> nodes (mem s2) pt" "set ps2 \<subseteq> set ps"
      "nodes (mem s2) pt \<subseteq> nodes (mem s) pt \<union> set ps"
    using 1 2 unfolding mapped_upto_def by blast+
  moreover have "same_outside (nodes (mem s2) pt) (mem s) (mem s2)"
    using same_outside_trans 1 2 unfolding mapped_upto_def by blast
  ultimately show ?thesis using 2 e unfolding mapped_upto_def by simp
qed

lemma aligned_next:
  assumes "a mod PGSIZE = 0" and "a < MAXVA"
  shows "(a + PGSIZE) mod PGSIZE = 0" and "unat (a + PGSIZE) = unat a + 4096"
proof -
  have lt: "unat a < 274877906944" using assms(2) by (simp add: word_less_nat_alt)
  have "unat (a + of_nat 4096) = unat a + 4096" using lt by (intro unat_add_nat) simp
  then show step: "unat (a + PGSIZE) = unat a + 4096" by simp
  have "4096 dvd unat a" using assms(1) by (simp only: aligned_unat)
  then show "(a + PGSIZE) mod PGSIZE = 0" by (simp only: aligned_unat step) simp
qed

lemma mappages_round:
  assumes inv: "kmem_inv s ps" and ok: "pt_ok (mem s) pt (kend s) ps"
    and lk: "KmemLock \<notin> set (held s)" and va: "a < MAXVA" "a mod PGSIZE = 0"
    and new: "pte_of (mem s) pt a AND PTE_V = 0"
  obtains (full) s1 where "mappages_loop pt a lst pa perm s = (Ret (- 1), s1)"
      and "mapped_upto pt s ps s1 [] a (unat a) pa perm"
  | (more) s1 ps1 where "mappages_loop pt a lst pa perm s =
        (if a = lst then (Ret 0, s1) else mappages_loop pt (a + PGSIZE) lst (pa + PGSIZE) perm s1)"
      and "mapped_upto pt s ps s1 ps1 a (unat a + 4096) pa perm"
proof -
  obtain pte s1 ps1 where s1: "walk pt a True s = (Ret pte, s1)" "walked pt s ps s1 ps1"
      and pte: "pte = 0 \<and> ps1 = [] \<or>
        (\<exists>b. node (mem s1) pt [px 2 a, px 1 a] = Some b \<and> pte = slot b (px 0 a))"
    using walk_alloc [OF inv ok ok lk va(1)] by (auto elim!: ok_E simp del: node.simps)
  from pte show ?thesis
  proof
    assume z: "pte = 0 \<and> ps1 = []"
    then have "mappages_loop pt a lst pa perm s = (Ret (- 1), s1)"
      using s1(1) by (simp add: mappages_loop.simps [of pt a])
    then show ?thesis using full walked_mapped [OF s1(2)] z by simp
  next
    assume "\<exists>b. node (mem s1) pt [px 2 a, px 1 a] = Some b \<and> pte = slot b (px 0 a)"
    then obtain b where b: "node (mem s1) pt [px 2 a, px 1 a] = Some b" "pte = slot b (px 0 a)"
      by blast
    have ok1: "pt_ok (mem s1) pt (kend s) ps1" "0 < kend s"
      using s1(2) inv by (simp_all add: walked_def kmem_inv_def)
    have nz: "slot b (px 0 a) \<noteq> 0"
      by (rule slot_nonzero [OF pt_ok_page [OF ok1(1) path_px(2) b(1)] ok1(2) px_less])
    have "pte_of (mem s1) pt a = pte_of (mem s) pt a" using s1(2) by (simp add: walked_def)
    then have "load64 (mem s1) pte AND PTE_V = 0" using new b by (simp add: pte_of_def del: node.simps)
    then have "mappages_loop pt a lst pa perm s =
        (if a = lst
         then (Ret 0, s1\<lparr>mem := store64 (mem s1) (slot b (px 0 a)) (PA2PTE pa OR perm OR PTE_V)\<rparr>)
         else mappages_loop pt (a + PGSIZE) lst (pa + PGSIZE) perm
           (s1\<lparr>mem := store64 (mem s1) (slot b (px 0 a)) (PA2PTE pa OR perm OR PTE_V)\<rparr>))"
      using s1(1) b nz by (simp add: mappages_loop.simps [of pt a] Let_def)
    then show ?thesis by (rule more [OF _ mapped_one [OF s1(2) b(1) va]])
  qed
qed

text \<open>The loop maps every page, or stops because memory has run out.\<close>

lemma mappages_loop_spec:
  assumes "kmem_inv s ps" and "pt_ok (mem s) pt (kend s) ps" and "KmemLock \<notin> set (held s)"
    and "a mod PGSIZE = 0" and "unat lst = unat a + 4096 * n" and "lst < MAXVA"
    and "\<forall>k\<le>n. pte_of (mem s) pt (a + of_nat (4096 * k)) AND PTE_V = 0"
  shows "ok (mappages_loop pt a lst pa perm s) (\<lambda>r s'. \<exists>ps' B.
           mapped_upto pt s ps s' ps' a B pa perm \<and>
           (r = 0 \<and> B = unat lst + 4096 \<or> r = - 1 \<and> ps' = [] \<and> unat a \<le> B \<and> B \<le> unat lst))"
  using assms
proof (induction n arbitrary: s ps a pa)
  case 0
  have lst: "lst = a" using 0(5) by (simp add: word_unat_eq_iff)
  have new: "pte_of (mem s) pt a AND PTE_V = 0" using 0(7) by simp
  from 0(1-3) 0(6) [unfolded lst] 0(4) new show ?case
  proof (cases rule: mappages_round [where lst = lst and pa = pa and perm = perm])
    case (full s1)
    then show ?thesis using lst by auto
  next
    case (more s1 ps1)
    then show ?thesis using lst by auto
  qed
next
  case (Suc n)
  have lt: "a < MAXVA" using Suc.prems(5,6) by (simp add: word_less_nat_alt)
  note nx = aligned_next [OF Suc.prems(4) lt]
  have new: "pte_of (mem s) pt a AND PTE_V = 0" using Suc.prems(7) by (auto dest: spec [of _ 0])
  from Suc.prems(1-3) lt Suc.prems(4) new show ?case
  proof (cases rule: mappages_round [where lst = lst and pa = pa and perm = perm])
    case (full s1)
    then show ?thesis using Suc.prems(5) by auto
  next
    case (more s1 ps1)
    have st: "kmem_inv s1 ps1" "pt_ok (mem s1) pt (kend s1) ps1" "KmemLock \<notin> set (held s1)"
      using more(2) Suc.prems(3) by (auto simp: mapped_upto_def kframe_kend kframe_held)
    have free: "\<forall>k\<le>n. pte_of (mem s1) pt (a + PGSIZE + of_nat (4096 * k)) AND PTE_V = 0"
    proof (intro allI impI)
      fix k assume k: "k \<le> n"
      let ?v = "a + of_nat (4096 * Suc k)"
      have le: "unat a + 4096 * Suc k \<le> unat lst" using k Suc.prems(5) by simp
      moreover have lstb: "unat lst < 274877906944" using Suc.prems(6) by (simp add: word_less_nat_alt)
      ultimately have u: "unat ?v = unat a + 4096 * Suc k" by (intro unat_add_nat) simp
      have v: "?v < MAXVA" using u le lstb by (simp add: word_less_nat_alt)
      have "4096 dvd unat a" using Suc.prems(4) by (simp only: aligned_unat)
      then have "unat (PGROUNDDOWN ?v) = unat a + 4096 * Suc k"
        by (simp only: unat_PGROUNDDOWN u) auto
      then have "pte_of (mem s1) pt ?v = pte_of (mem s) pt ?v"
        using more(2) v unfolding mapped_upto_def by simp
      moreover have "pte_of (mem s) pt ?v AND PTE_V = 0"
        using Suc.prems(7) k by (simp only: Suc_le_mono)
      moreover have "?v = a + PGSIZE + of_nat (4096 * k)" by simp
      ultimately show "pte_of (mem s1) pt (a + PGSIZE + of_nat (4096 * k)) AND PTE_V = 0"
        by (simp only:)
    qed
    have lst: "unat lst = unat (a + PGSIZE) + 4096 * n" using Suc.prems(5) nx by simp
    have ne: "a \<noteq> lst" using Suc.prems(5) by auto
    obtain r s2 ps2 B where s2: "mappages_loop pt (a + PGSIZE) lst (pa + PGSIZE) perm s1 = (Ret r, s2)"
        "mapped_upto pt s1 ps1 s2 ps2 (a + PGSIZE) B (pa + PGSIZE) perm"
        "r = 0 \<and> B = unat lst + 4096 \<or> r = - 1 \<and> ps2 = [] \<and> unat (a + PGSIZE) \<le> B \<and> B \<le> unat lst"
      using Suc.IH [of s1 ps1 "a + PGSIZE" "pa + PGSIZE", OF st nx(1) lst Suc.prems(6) free]
      by (elim ok_E) blast
    have B: "unat a + 4096 \<le> B" using s2(3) lst nx(2) by auto
    have "mapped_upto pt s ps s2 ps2 a B pa perm"
      by (rule mapped_upto_trans [OF more(2) s2(2) B nx(2) Suc.prems(4)])
    moreover have "mappages_loop pt a lst pa perm s = (Ret r, s2)" using more(1) ne s2(1) by simp
    moreover have "r = 0 \<and> B = unat lst + 4096 \<or> r = - 1 \<and> ps2 = [] \<and> unat a \<le> B \<and> B \<le> unat lst"
      using s2(3) B by linarith
    ultimately show ?thesis by auto
  qed
qed

end
