(* ===== verification/Usermem.thy ===== *)
theory Usermem
  imports Pagetable
begin

text \<open>
  User memory as the kernel reaches it through a page table: \<^verbatim>\<open>walkaddr\<close>, \<^verbatim>\<open>copyin\<close> and
  \<^verbatim>\<open>copyout\<close> read and write exactly the bytes a user program sees, and nothing else.
\<close>

declare mod_0_imp_dvd [rule del]

section \<open>User addresses\<close>

text \<open>\<open>upage\<close>: the physical page behind a user address, 0 where there is none.
  \<open>ubyte\<close>: the byte a user program sees at an address.\<close>

definition upage :: "memory \<Rightarrow> u64 \<Rightarrow> u64 \<Rightarrow> u64" where
  "upage m pt va = (let pte = pte_of m pt va in
     if va < MAXVA \<and> pte AND PTE_V \<noteq> 0 \<and> pte AND PTE_U \<noteq> 0 then PTE2PA pte else 0)"

definition ubyte :: "memory \<Rightarrow> u64 \<Rightarrow> u64 \<Rightarrow> u8" where
  "ubyte m pt va = m (upage m pt va + (va - PGROUNDDOWN va))"

text \<open>User pages are not page-table pages, and no two of them share a physical page.\<close>

definition user_ok :: "memory \<Rightarrow> u64 \<Rightarrow> bool" where
  "user_ok m pt \<longleftrightarrow> (\<forall>va. upage m pt va \<noteq> 0 \<longrightarrow> upage m pt va \<notin> nodes m pt \<and>
     (\<forall>vb. upage m pt vb = upage m pt va \<longrightarrow> PGROUNDDOWN vb = PGROUNDDOWN va))"

lemma walkaddr_upage:
  assumes ok: "pt_ok (mem s) pt e ps" and e: "0 < e"
  shows "walkaddr pt va s = (Ret (upage (mem s) pt va), s)"
proof (cases "va < MAXVA")
  case True
  show ?thesis
  proof (cases "node (mem s) pt [px 2 va, px 1 va]")
    case None
    then show ?thesis using True
      by (simp add: walkaddr_def walk_read upage_def pte_of_def not_le del: node.simps)
  next
    case (Some a)
    have "slot a (px 0 va) \<noteq> 0"
      by (rule slot_nonzero [OF pt_ok_page [OF ok path_px(2) Some] e px_less])
    moreover have "\<not> MAXVA \<le> va" using True by simp
    ultimately show ?thesis using True Some
      by (simp add: walkaddr_def walk_read upage_def pte_of_def Let_def del: node.simps)
  qed
qed (auto simp: walkaddr_def upage_def not_less Let_def)

lemma PTE2PA_aligned [simp]: "PTE2PA pte mod PGSIZE = 0"
proof -
  have "take_bit 12 (PTE2PA pte) = 0"
    by (rule bit_word_eqI) (auto simp: PTE2PA_def bit_take_bit_iff bit_push_bit_iff)
  then show ?thesis by (simp only: aligned_bits)
qed

lemma upage_aligned [simp]: "upage m pt va mod PGSIZE = 0"
  by (simp add: upage_def Let_def)

lemma pte_of_page: "pte_of m pt (PGROUNDDOWN va) = pte_of m pt va"
  by (simp only: pte_of_def px_page)

lemma upage_page: "upage m pt (PGROUNDDOWN va) = upage m pt va"
proof -
  have "PGROUNDDOWN va < MAXVA \<longleftrightarrow> va < MAXVA"
    using PGROUNDDOWN_MAXVA [of va] PGROUNDDOWN_le [of va]
    by (auto simp: word_less_nat_alt)
  then show ?thesis by (simp add: upage_def pte_of_page)
qed

text \<open>Writing a page that is not a page-table page changes no translation.\<close>

lemma pte_of_other_page:
  assumes ok: "pt_ok m pt e ps" and c: "c mod PGSIZE = 0" "c \<notin> nodes m pt" and op: "only_page c m m'"
  shows "pte_of m' pt va = pte_of m pt va"
proof -
  note same = node_other_page [OF ok c op path_px(2), of va]
  show ?thesis
  proof (cases "node m pt [px 2 va, px 1 va]")
    case None
    then show ?thesis using same by (simp add: pte_of_def del: node.simps)
  next
    case (Some a)
    then have "a \<in> nodes m pt" unfolding nodes_def using path_px(2) by blast
    then have "a \<noteq> c" using c(2) by blast
    then have "sep c 4096 (slot a (px 0 va)) 8"
      using page_slot_sep [OF c(1) pt_ok_aligned [OF ok path_px(2) Some]] by simp
    then show ?thesis using same Some only_page_slot [OF op] by (simp add: pte_of_def del: node.simps)
  qed
qed

lemma only_page_storeb:
  assumes "off + length bs \<le> 4096"
  shows "only_page p m (storeb m (p + of_nat off) bs)"
  unfolding only_page_def
proof (intro allI impI)
  fix a assume far: "4096 \<le> unat (a - p)"
  have "unat (of_nat off :: u64) = off" using assms by (intro unat_of_nat64) simp
  then have "unat (a - p - of_nat off) = unat (a - p) - off"
    using far assms by (subst unat_sub64) simp
  moreover have "a - p - of_nat off = a - (p + of_nat off)" by simp
  ultimately have "length bs \<le> unat (a - (p + of_nat off))" using far assms by simp
  then show "storeb m (p + of_nat off) bs a = m a" by (rule storeb_out)
qed

text \<open>The user pages of an address range, as C accesses them byte by byte.\<close>

definition range_mapped :: "memory \<Rightarrow> u64 \<Rightarrow> u64 \<Rightarrow> nat \<Rightarrow> bool" where
  "range_mapped m pt va n \<longleftrightarrow> (\<forall>i<n. upage m pt (va + of_nat i) \<noteq> 0)"

lemma PGROUNDDOWN_add:
  assumes "unat va mod 4096 + i < 4096"
  shows "PGROUNDDOWN (va + of_nat i) = PGROUNDDOWN va" and "unat (va + of_nat i) = unat va + i"
proof -
  have lt: "unat va < 2 ^ 64" using unsigned_less [of va] by simp
  have "unat va div 4096 * 4096 + unat va mod 4096 = unat va" by (rule div_mult_mod_eq)
  moreover have "unat va div 4096 * 4096 \<le> 18446744073709547520" using lt by simp
  ultimately have "unat va + i < 18446744073709551616" using assms by linarith
  then have "unat va + i < 2 ^ 64" by simp
  then show u: "unat (va + of_nat i) = unat va + i" by (rule unat_add_nat)
  have "unat va + i = (unat va mod 4096 + i) + unat va div 4096 * 4096" by simp
  then have "(unat va + i) div 4096 = (unat va mod 4096 + i) div 4096 + unat va div 4096"
    by (simp only: div_mult_self1)
  then have "(unat va + i) div 4096 = unat va div 4096" by (simp only: div_less [OF assms] add_0)
  then have "unat (PGROUNDDOWN (va + of_nat i)) = unat (PGROUNDDOWN va)"
    by (simp only: unat_PGROUNDDOWN u)
  then show "PGROUNDDOWN (va + of_nat i) = PGROUNDDOWN va" by (simp only: word_unat_eq_iff)
qed

lemma offset_of: "va - PGROUNDDOWN va = of_nat (unat va mod 4096)"
  by (simp only: PGROUNDDOWN_offset [symmetric]) simp

lemma unat_page_plus: "unat va = unat (PGROUNDDOWN va) + unat va mod 4096"
  by (simp add: unat_PGROUNDDOWN)

text \<open>A write of \<open>bs\<close> at the user address \<open>va\<close> that stays within one mapped page.\<close>

definition ustore :: "memory \<Rightarrow> u64 \<Rightarrow> u64 \<Rightarrow> u8 list \<Rightarrow> memory" where
  "ustore m pt va bs = storeb m (upage m pt va + of_nat (unat va mod 4096)) bs"

definition can_store :: "memory \<Rightarrow> u64 \<Rightarrow> u64 \<Rightarrow> u64 list \<Rightarrow> u64 \<Rightarrow> nat \<Rightarrow> bool" where
  "can_store m pt e ps va n \<longleftrightarrow> pt_ok m pt e ps \<and> user_ok m pt \<and> upage m pt va \<noteq> 0 \<and>
     unat va mod 4096 + n \<le> 4096"

lemma user_store_page:
  "can_store m pt e ps va (length bs) \<Longrightarrow> only_page (upage m pt va) m (ustore m pt va bs)"
  unfolding ustore_def by (rule only_page_storeb) (simp add: can_store_def)

lemma user_store_node: "can_store m pt e ps va n \<Longrightarrow> upage m pt va \<notin> nodes m pt"
  by (simp add: user_ok_def can_store_def)

lemma user_store_upage:
  assumes "can_store m pt e ps va (length bs)"
  shows "upage (ustore m pt va bs) pt vb = upage m pt vb"
proof -
  have "pte_of (ustore m pt va bs) pt vb = pte_of m pt vb"
    using pte_of_other_page [OF _ upage_aligned user_store_node user_store_page] assms
    by (auto simp: can_store_def)
  then show ?thesis by (simp add: upage_def)
qed

lemma user_store_nodes:
  assumes "can_store m pt e ps va (length bs)" and "path q"
  shows "node (ustore m pt va bs) pt q = node m pt q"
proof -
  have "pt_ok m pt e ps" using assms by (simp add: can_store_def)
  from node_other_page [OF this upage_aligned user_store_node [OF assms(1)] user_store_page [OF assms(1)]
      assms(2)] show ?thesis .
qed

lemma user_store_ok:
  assumes "can_store m pt e ps va (length bs)"
  shows "pt_ok (ustore m pt va bs) pt e ps" and "user_ok (ustore m pt va bs) pt"
proof -
  have ok: "pt_ok m pt e ps" "user_ok m pt" using assms by (simp_all add: can_store_def)
  show "pt_ok (ustore m pt va bs) pt e ps"
    by (rule pt_ok_cong [OF user_store_nodes [OF assms] ok(1)]) auto
  have nodes: "nodes (ustore m pt va bs) pt = nodes m pt"
    using user_store_nodes [OF assms] by (auto simp: nodes_def)
  show "user_ok (ustore m pt va bs) pt"
    using ok(2) unfolding user_ok_def user_store_upage [OF assms] nodes .
qed

text \<open>Reading back at distance \<open>j\<close> from where a write at offset \<open>i\<close> of the same page started.\<close>

lemma storeb_offset:
  assumes "i < 4096" and "j < 4096" and "i + length bs \<le> 4096"
  shows "storeb m (p + of_nat i) bs (p + of_nat j) =
           (if i \<le> j \<and> j < i + length bs then bs ! (j - i) else m (p + of_nat j))"
proof (cases "i \<le> j")
  case True
  have "p + of_nat j - (p + of_nat i) = of_nat (j - i)" using True by (simp add: of_nat_diff)
  moreover have "unat (of_nat (j - i) :: u64) = j - i" using assms by (intro unat_of_nat64) simp
  ultimately have "unat (p + of_nat j - (p + of_nat i)) = j - i" by simp
  then show ?thesis using True by (auto simp: storeb_def)
next
  case False
  have "p + of_nat j - (p + of_nat i) = - of_nat (i - j)" using False by (simp add: of_nat_diff)
  moreover have "unat (of_nat (i - j) :: u64) = i - j" using assms by (intro unat_of_nat64) simp
  ultimately have "4096 \<le> unat (p + of_nat j - (p + of_nat i))"
    using unat_sub64 [of 0 "of_nat (i - j)"] False assms(1) by simp
  then show ?thesis using False assms(3) by (simp add: storeb_out)
qed

lemma range_same_page:
  assumes "unat va mod 4096 + n \<le> 4096" and "unat va \<le> unat vb" and "unat vb < unat va + n"
  shows "PGROUNDDOWN vb = PGROUNDDOWN va"
proof -
  have "unat va mod 4096 + (unat vb - unat va) < 4096" using assms by linarith
  from PGROUNDDOWN_add [OF this] have
    "PGROUNDDOWN (va + of_nat (unat vb - unat va)) = PGROUNDDOWN va"
    "unat (va + of_nat (unat vb - unat va)) = unat vb" using assms(2) by simp_all
  then show ?thesis by (simp only: word_unat_eq_iff) (metis word_unat_eq_iff)
qed

lemma user_store_ubyte:
  assumes can: "can_store m pt e ps va (length bs)" and vb: "upage m pt vb \<noteq> 0"
  shows "ubyte (ustore m pt va bs) pt vb = (if unat va \<le> unat vb \<and> unat vb < unat va + length bs
           then bs ! (unat vb - unat va) else ubyte m pt vb)"
proof (cases "PGROUNDDOWN vb = PGROUNDDOWN va")
  case True
  let ?o = "unat va mod 4096" and ?i = "unat vb mod 4096"
  have up: "upage m pt vb = upage m pt va" using upage_page [of m pt] True by metis
  have dist: "unat vb + ?o = unat va + ?i"
    using unat_page_plus [of va] unat_page_plus [of vb] True by simp
  have "ubyte (ustore m pt va bs) pt vb =
      storeb m (upage m pt va + of_nat ?o) bs (upage m pt va + of_nat ?i)"
    unfolding ubyte_def user_store_upage [OF can] up offset_of by (simp add: ustore_def)
  also have "\<dots> = (if ?o \<le> ?i \<and> ?i < ?o + length bs then bs ! (?i - ?o) else m (upage m pt va + of_nat ?i))"
    using can by (intro storeb_offset) (simp_all add: can_store_def)
  also have "m (upage m pt va + of_nat ?i) = ubyte m pt vb" by (simp add: ubyte_def up offset_of)
  also have "?o \<le> ?i \<and> ?i < ?o + length bs \<longleftrightarrow> unat va \<le> unat vb \<and> unat vb < unat va + length bs"
    using dist by linarith
  also have "?i - ?o = unat vb - unat va" using dist by linarith
  finally show ?thesis .
next
  case False
  have ne: "upage m pt va \<noteq> upage m pt vb"
    using can False unfolding user_ok_def can_store_def by metis
  have "ustore m pt va bs (upage m pt vb + of_nat (unat vb mod 4096)) = m (upage m pt vb + of_nat (unat vb mod 4096))"
    by (rule only_page_load [OF user_store_page [OF can] page_sep [OF _ _ ne]]) simp_all
  then have "ubyte (ustore m pt va bs) pt vb = ubyte m pt vb"
    by (simp add: ubyte_def user_store_upage [OF can] offset_of)
  moreover have "\<not> (unat va \<le> unat vb \<and> unat vb < unat va + length bs)"
    using range_same_page can False unfolding can_store_def by blast
  ultimately show ?thesis by (simp only: if_False)
qed

section \<open>Copying to and from user memory\<close>

definition upages :: "memory \<Rightarrow> u64 \<Rightarrow> u64 set" where
  "upages m pt = {p. p \<noteq> 0 \<and> (\<exists>va. upage m pt va = p)}"

text \<open>What index \<open>i\<close> holds when \<open>bs\<close> has been written from index \<open>n\<close> on, and it held \<open>v\<close> before.\<close>

definition overlay :: "nat \<Rightarrow> 'a list \<Rightarrow> 'a \<Rightarrow> nat \<Rightarrow> 'a" where
  "overlay n bs v i = (if n \<le> i \<and> i < n + length bs then bs ! (i - n) else v)"

lemma overlay_Nil [simp]: "overlay n [] v i = v"
  by (auto simp: overlay_def)

lemma overlay_append: "overlay n (xs @ ys) v i = overlay (n + length xs) ys (overlay n xs v i) i"
  by (auto simp: overlay_def nth_append)

text \<open>The bytes \<open>bs\<close> have been written at the user address \<open>a\<close>, no translation has changed, and
  nor has any byte outside the user pages of the table.\<close>

definition uwritten :: "u64 \<Rightarrow> u64 \<Rightarrow> u64 list \<Rightarrow> 'z kmem_scheme \<Rightarrow> 'z kmem_scheme \<Rightarrow> u64 \<Rightarrow> u8 list \<Rightarrow> bool" where
  "uwritten pt e ps s s' a bs \<longleftrightarrow> s' = s\<lparr>mem := mem s'\<rparr> \<and> pt_ok (mem s') pt e ps \<and> user_ok (mem s') pt \<and>
     (\<forall>va. upage (mem s') pt va = upage (mem s) pt va) \<and>
     (\<forall>va. upage (mem s) pt va \<noteq> 0 \<longrightarrow>
        ubyte (mem s') pt va = overlay (unat a) bs (ubyte (mem s) pt va) (unat va)) \<and>
     same_outside (upages (mem s) pt) (mem s) (mem s')"

lemma uwritten_Nil: "pt_ok (mem s) pt e ps \<Longrightarrow> user_ok (mem s) pt \<Longrightarrow> uwritten pt e ps s s a []"
  by (auto simp: uwritten_def)

lemma uwritten_ustore:
  assumes "can_store (mem s) pt e ps a (length bs)"
  shows "uwritten pt e ps s (s\<lparr>mem := ustore (mem s) pt a bs\<rparr>) a bs"
proof -
  have "same_outside (upages (mem s) pt) (mem s) (ustore (mem s) pt a bs)"
  proof (rule same_outsideI)
    fix c x assume c: "c mod PGSIZE = 0" "c \<notin> upages (mem s) pt" "unat (x - c) < 4096"
    have "upage (mem s) pt a \<noteq> c" using c(2) assms by (auto simp: upages_def can_store_def)
    from only_page_load [OF user_store_page [OF assms] page_sep [OF upage_aligned c(1) this] c(3)]
    show "ustore (mem s) pt a bs x = mem s x" by simp
  qed
  then show ?thesis
    using user_store_ok [OF assms] user_store_upage [OF assms] user_store_ubyte [OF assms]
    by (simp add: uwritten_def overlay_def)
qed

lemma uwritten_trans:
  assumes 1: "uwritten pt e ps s s1 a xs" and 2: "uwritten pt e ps s1 s2 b ys"
    and b: "ys \<noteq> [] \<Longrightarrow> unat b = unat a + length xs"
  shows "uwritten pt e ps s s2 a (xs @ ys)"
proof -
  have "s2 = s\<lparr>mem := mem s2\<rparr>" using 1 2 unfolding uwritten_def by (cases s; cases s1; cases s2) simp
  moreover have up: "upage (mem s1) pt va = upage (mem s) pt va" for va
    using 1 by (simp add: uwritten_def)
  then have "upages (mem s1) pt = upages (mem s) pt" by (simp add: upages_def)
  then have "same_outside (upages (mem s) pt) (mem s) (mem s2)"
    using same_outside_trans 1 2 unfolding uwritten_def by (metis subset_refl)
  moreover have "ubyte (mem s2) pt va = overlay (unat a) (xs @ ys) (ubyte (mem s) pt va) (unat va)"
    if va: "upage (mem s) pt va \<noteq> 0" for va
  proof -
    have "ubyte (mem s2) pt va = overlay (unat b) ys (ubyte (mem s1) pt va) (unat va)"
      "ubyte (mem s1) pt va = overlay (unat a) xs (ubyte (mem s) pt va) (unat va)"
      using 1 2 va up by (simp_all add: uwritten_def)
    then show ?thesis using b by (cases "ys = []") (simp_all add: overlay_append)
  qed
  moreover have "upage (mem s2) pt va = upage (mem s) pt va" for va
    using 2 up by (simp add: uwritten_def)
  moreover have "pt_ok (mem s2) pt e ps" "user_ok (mem s2) pt" using 2 by (simp_all add: uwritten_def)
  ultimately show ?thesis by (simp add: uwritten_def)
qed

lemma range_mapped_cong:
  "(\<And>va. upage m' pt va = upage m pt va) \<Longrightarrow> range_mapped m' pt a n = range_mapped m pt a n"
  by (simp add: range_mapped_def)

text \<open>A range of \<open>len\<close> bytes from \<open>va\<close> is mapped when the page of \<open>va\<close> is, and the rest of the
  range from the next page on.\<close>

lemma chunk_cases:
  obtains (fits) "page_chunk va len = len" "unat va mod 4096 + len \<le> 4096"
  | (cross) "page_chunk va len = 4096 - unat va mod 4096" "4096 - unat va mod 4096 < len"
  using that by (cases "len \<le> 4096 - unat va mod 4096") (auto simp: page_chunk_def unat_page_rest)

lemma next_page:
  assumes "unat va < 274877906944"
  shows "PGROUNDDOWN va + PGSIZE = va + of_nat (4096 - unat va mod 4096)"
    and "unat (PGROUNDDOWN va + PGSIZE) = unat va + (4096 - unat va mod 4096)"
proof -
  have "unat (PGROUNDDOWN va) \<le> unat va" by (rule PGROUNDDOWN_le)
  then have "unat (PGROUNDDOWN va + of_nat 4096) = unat (PGROUNDDOWN va) + 4096"
    using assms by (intro unat_add_nat) simp
  then show u: "unat (PGROUNDDOWN va + PGSIZE) = unat va + (4096 - unat va mod 4096)"
    using unat_page_plus [of va] mod_less_divisor [of 4096 "unat va"] by simp
  have "unat (va + of_nat (4096 - unat va mod 4096)) = unat va + (4096 - unat va mod 4096)"
    using assms by (intro unat_add_nat) simp
  then show "PGROUNDDOWN va + PGSIZE = va + of_nat (4096 - unat va mod 4096)"
    using u by (simp only: word_unat_eq_iff)
qed

lemma upage_chunk:
  assumes "unat va mod 4096 + n \<le> 4096" and "i < n"
  shows "upage m pt (va + of_nat i) = upage m pt va"
proof -
  have "PGROUNDDOWN (va + of_nat i) = PGROUNDDOWN va" using assms by (intro PGROUNDDOWN_add) simp
  then show ?thesis using upage_page [of m pt] by metis
qed

lemma range_mapped_fits:
  assumes "unat va mod 4096 + n \<le> 4096" and "0 < n"
  shows "range_mapped m pt va n \<longleftrightarrow> upage m pt va \<noteq> 0"
  using upage_chunk [OF assms(1)] assms(2) by (auto simp: range_mapped_def)

lemma all_less_split:
  "k \<le> n \<Longrightarrow> (\<forall>i<n. P i) \<longleftrightarrow> (\<forall>i<k. P i) \<and> (\<forall>i<n - k. P (k + i))" for k n :: nat
proof (intro iffI allI impI conjI)
  fix i assume "k \<le> n" and P: "(\<forall>i<k. P i) \<and> (\<forall>i<n - k. P (k + i))" and i: "i < n"
  show "P i"
  proof (cases "i < k")
    case False
    then have "i - k < n - k" using i by linarith
    then have "P (k + (i - k))" using P by blast
    then show ?thesis using False by simp
  qed (use P in simp)
qed auto

lemma range_mapped_cross:
  assumes "4096 - unat va mod 4096 < n" and "unat va < 274877906944"
  shows "range_mapped m pt va n \<longleftrightarrow> upage m pt va \<noteq> 0 \<and>
    range_mapped m pt (PGROUNDDOWN va + PGSIZE) (n - (4096 - unat va mod 4096))"
proof -
  let ?k = "4096 - unat va mod 4096"
  have k: "unat va mod 4096 + ?k \<le> 4096" "0 < ?k" using mod_less_divisor [of 4096 "unat va"] by simp_all
  have split: "(\<forall>i<n. P i) \<longleftrightarrow> (\<forall>i<?k. P i) \<and> (\<forall>i<n - ?k. P (?k + i))" for P :: "nat \<Rightarrow> bool"
    using all_less_split [of ?k n P] assms(1) by simp
  have "range_mapped m pt va n \<longleftrightarrow> range_mapped m pt va ?k \<and>
      (\<forall>i<n - ?k. upage m pt (va + of_nat (?k + i)) \<noteq> 0)"
    unfolding range_mapped_def by (rule split)
  also have "range_mapped m pt va ?k \<longleftrightarrow> upage m pt va \<noteq> 0" by (rule range_mapped_fits [OF k])
  also have "(\<forall>i<n - ?k. upage m pt (va + of_nat (?k + i)) \<noteq> 0) \<longleftrightarrow>
      range_mapped m pt (PGROUNDDOWN va + PGSIZE) (n - ?k)"
    unfolding range_mapped_def next_page(1) [OF assms(2)] by (simp only: of_nat_add add.assoc)
  finally show ?thesis .
qed

lemma copyout_Nil [simp]: "copyout pt a [] s = (Ret 0, s)"
  by (simp add: copyout.simps)

lemma copyout_unmapped:
  assumes "pt_ok (mem s) pt e ps" and "0 < e" and "src \<noteq> []" and "upage (mem s) pt dstva = 0"
  shows "copyout pt dstva src s = (Ret (- 1), s)"
  using assms walkaddr_upage [OF assms(1,2), of "PGROUNDDOWN dstva"]
  by (simp add: copyout.simps [of pt dstva] upage_page Let_def)

lemma copyout_chunk:
  assumes "pt_ok (mem s) pt e ps" and "0 < e" and "user_ok (mem s) pt" and "src \<noteq> []"
    and "upage (mem s) pt dstva \<noteq> 0"
  defines "n \<equiv> page_chunk dstva (length src)"
  obtains s1 where "copyout pt dstva src s = copyout pt (PGROUNDDOWN dstva + PGSIZE) (drop n src) s1"
    and "uwritten pt e ps s s1 dstva (take n src)"
proof
  let ?s = "s\<lparr>mem := ustore (mem s) pt dstva (take n src)\<rparr>"
  show "copyout pt dstva src s = copyout pt (PGROUNDDOWN dstva + PGSIZE) (drop n src) ?s"
    using assms(4,5) walkaddr_upage [OF assms(1,2), of "PGROUNDDOWN dstva"]
    by (simp add: copyout.simps [of pt dstva] upage_page Let_def ustore_def offset_of n_def)
  have "unat dstva mod 4096 + n \<le> 4096" by (simp add: n_def page_chunk_def unat_page_rest)
  then have "can_store (mem s) pt e ps dstva (length (take n src))"
    using assms by (simp add: can_store_def min_def)
  then show "uwritten pt e ps s ?s dstva (take n src)" by (rule uwritten_ustore)
qed

lemma copyout_writes:
  assumes "pt_ok (mem s) pt e ps" and "0 < e" and "user_ok (mem s) pt"
    and "unat dstva + length src \<le> 274877906944"
  shows "ok (copyout pt dstva src s) (\<lambda>r s'. \<exists>k \<le> length src.
           uwritten pt e ps s s' dstva (take k src) \<and>
           (if range_mapped (mem s) pt dstva (length src) then r = 0 \<and> k = length src else r = - 1))"
  using assms
proof (induction "length src" arbitrary: dstva src s rule: less_induct)
  case less
  note ok = less(2) and e = less(3) and uok = less(4) and len = less(5)
  consider (nil) "src = []" | (unmapped) "src \<noteq> []" "upage (mem s) pt dstva = 0"
    | (mapped) "src \<noteq> []" "upage (mem s) pt dstva \<noteq> 0" by blast
  then show ?case
  proof cases
    case nil
    then show ?thesis using uwritten_Nil [OF ok uok] by (simp add: range_mapped_def)
  next
    case unmapped
    have "\<not> range_mapped (mem s) pt dstva (length src)"
      using unmapped by (auto simp: range_mapped_def intro!: exI [of _ 0])
    then show ?thesis using copyout_unmapped [OF ok e unmapped] uwritten_Nil [OF ok uok] by auto
  next
    case mapped
    let ?n = "page_chunk dstva (length src)" and ?dst = "PGROUNDDOWN dstva + PGSIZE"
    obtain s1 where step: "copyout pt dstva src s = copyout pt ?dst (drop ?n src) s1"
      and w: "uwritten pt e ps s s1 dstva (take ?n src)"
      using copyout_chunk [OF ok e uok mapped] by blast
    have s1: "pt_ok (mem s1) pt e ps" "user_ok (mem s1) pt" "\<And>va. upage (mem s1) pt va = upage (mem s) pt va"
      using w by (simp_all add: uwritten_def)
    show ?thesis
    proof (cases rule: chunk_cases [of dstva "length src"])
      case fits
      then show ?thesis using step w mapped range_mapped_fits [OF fits(2)] by auto
    next
      case cross
      have lt: "unat dstva < 274877906944" using len mapped(1) by (cases src) auto
      note np = next_page [OF lt]
      have "length (drop ?n src) < length src" using mapped(1) by simp
      moreover have "unat ?dst + length (drop ?n src) \<le> 274877906944"
        using np(2) cross len by simp
      ultimately obtain r s2 k where s2: "copyout pt ?dst (drop ?n src) s1 = (Ret r, s2)"
        "k \<le> length (drop ?n src)" "uwritten pt e ps s1 s2 ?dst (take k (drop ?n src))"
        "if range_mapped (mem s1) pt ?dst (length (drop ?n src)) then r = 0 \<and> k = length (drop ?n src) else r = - 1"
        using less(1) [of "drop ?n src" s1 ?dst] s1(1,2) e by (auto elim!: ok_E)
      have "uwritten pt e ps s s2 dstva (take ?n src @ take k (drop ?n src))"
        by (rule uwritten_trans [OF w s2(3)]) (use np(2) cross in simp)
      then have "uwritten pt e ps s s2 dstva (take (?n + k) src)" by (simp only: take_add)
      moreover have "range_mapped (mem s) pt dstva (length src) \<longleftrightarrow>
          range_mapped (mem s1) pt ?dst (length (drop ?n src))"
        using range_mapped_cross [OF cross(2) lt] mapped(2) cross(1) range_mapped_cong [OF s1(3)] by simp
      ultimately show ?thesis using step s2(1,2,4) cross
        by (auto intro!: exI [of _ "?n + k"] split: if_splits)
    qed
  qed
qed

text \<open>Reading user memory one byte at a time: \<^verbatim>\<open>copyin\<close> and \<^verbatim>\<open>copyinstr\<close> without the page
  arithmetic.\<close>

primrec uread :: "memory \<Rightarrow> u64 \<Rightarrow> u64 \<Rightarrow> nat \<Rightarrow> int \<times> u8 list" where
  "uread m pt va 0 = (0, [])"
| "uread m pt va (Suc n) =
     (if upage m pt va = 0 then (- 1, [])
      else let r = uread m pt (va + 1) n in (fst r, ubyte m pt va # snd r))"

primrec uscan :: "memory \<Rightarrow> u64 \<Rightarrow> u64 \<Rightarrow> nat \<Rightarrow> int \<times> u8 list" where
  "uscan m pt va 0 = (- 1, [])"
| "uscan m pt va (Suc n) =
     (if upage m pt va = 0 then (- 1, [])
      else if ubyte m pt va = 0 then (0, [0])
      else let r = uscan m pt (va + 1) n in (fst r, ubyte m pt va # snd r))"

lemma upage_MAXVA: "upage m pt va \<noteq> 0 \<Longrightarrow> unat va < 274877906944"
  by (auto simp: upage_def Let_def word_less_nat_alt split: if_splits)

lemma next_byte:
  assumes "unat va mod 4096 + Suc n \<le> 4096" and "n \<noteq> 0"
  shows "upage m pt (va + 1) = upage m pt va" and "unat (va + 1) mod 4096 = unat va mod 4096 + 1"
proof -
  have b: "unat va mod 4096 + 1 < 4096" using assms by simp
  show "upage m pt (va + 1) = upage m pt va" using upage_chunk [of va 2 1 m pt] b by simp
  have pg: "PGROUNDDOWN (va + 1) = PGROUNDDOWN va" "unat (va + 1) = unat va + 1"
    using PGROUNDDOWN_add [OF b] by simp_all
  then show "unat (va + 1) mod 4096 = unat va mod 4096 + 1"
    using unat_page_plus [of va] unat_page_plus [of "va + 1"] by simp
qed

lemma uread_chunk:
  assumes "unat va mod 4096 + n \<le> 4096" and "upage m pt va \<noteq> 0"
  shows "uread m pt va (n + k) =
    (fst (uread m pt (va + of_nat n) k),
     loadb m (upage m pt va + of_nat (unat va mod 4096)) n @ snd (uread m pt (va + of_nat n) k))"
  using assms
proof (induction n arbitrary: va)
  case 0
  then show ?case by (simp add: loadb_def)
next
  case (Suc n)
  show ?case
  proof (cases "n = 0")
    case True
    then show ?thesis using Suc.prems by (simp add: loadb_def ubyte_def offset_of Let_def)
  next
    case False
    note nb = next_byte [OF Suc.prems(1) False]
    have "uread m pt (va + 1) (n + k) =
        (fst (uread m pt (va + 1 + of_nat n) k),
         loadb m (upage m pt (va + 1) + of_nat (unat (va + 1) mod 4096)) n @
         snd (uread m pt (va + 1 + of_nat n) k))"
      using Suc.IH [of "va + 1"] Suc.prems nb by simp
    then show ?thesis
      using Suc.prems nb by (simp add: loadb_Suc ubyte_def offset_of Let_def algebra_simps)
  qed
qed

lemma uscan_chunk:
  assumes "unat va mod 4096 + n \<le> 4096" and "upage m pt va \<noteq> 0"
  shows "uscan m pt va (n + k) =
    (let c = copyinstr_page m (upage m pt va + of_nat (unat va mod 4096)) n in
     if snd c then (0, fst c)
     else (fst (uscan m pt (va + of_nat n) k), fst c @ snd (uscan m pt (va + of_nat n) k)))"
  using assms
proof (induction n arbitrary: va)
  case 0
  then show ?case by simp
next
  case (Suc n)
  show ?case
  proof (cases "n = 0")
    case True
    then show ?thesis using Suc.prems by (simp add: ubyte_def offset_of Let_def)
  next
    case False
    note nb = next_byte [OF Suc.prems(1) False]
    show ?thesis
      using Suc.IH [of "va + 1"] Suc.prems nb by (simp add: ubyte_def offset_of Let_def algebra_simps)
  qed
qed

lemma copyin_uread:
  assumes "pt_ok (mem s) pt e ps" and "0 < e"
  shows "copyin pt va len s = (Ret (uread (mem s) pt va len), s)"
proof (induction len arbitrary: va rule: less_induct)
  case (less len)
  note wa = walkaddr_upage [OF assms, of "PGROUNDDOWN va", unfolded upage_page]
  consider "len = 0" | "len \<noteq> 0" "upage (mem s) pt va = 0" | "len \<noteq> 0" "upage (mem s) pt va \<noteq> 0"
    by blast
  then show ?case
  proof cases
    case 1
    then show ?thesis by (simp add: copyin.simps)
  next
    case 2
    then show ?thesis using wa by (cases len) (simp_all add: copyin.simps [of pt va])
  next
    case 3
    let ?n = "page_chunk va len"
    have fit: "unat va mod 4096 + ?n \<le> 4096" by (simp add: page_chunk_def unat_page_rest)
    have step: "copyin pt va len s = bnd (copyin pt (PGROUNDDOWN va + PGSIZE) (len - ?n) s) (\<lambda>r s.
        (Ret (fst r, loadb (mem s) (upage (mem s) pt va + of_nat (unat va mod 4096)) ?n @ snd r), s))"
      using 3 wa less by (simp add: copyin.simps [of pt va] Let_def offset_of)
    have "uread (mem s) pt (PGROUNDDOWN va + PGSIZE) (len - ?n) = uread (mem s) pt (va + of_nat ?n) (len - ?n)"
    proof (cases rule: chunk_cases [of va len])
      case cross
      then show ?thesis by (simp only: next_page(1) [OF upage_MAXVA [OF 3(2)]])
    qed simp
    moreover have "len = ?n + (len - ?n)" by simp
    ultimately show ?thesis
      using step less [of "len - ?n" "PGROUNDDOWN va + PGSIZE"] uread_chunk [OF fit 3(2), of "len - ?n"] 3(1)
      by simp
  qed
qed

lemma copyinstr_uscan:
  assumes "pt_ok (mem s) pt e ps" and "0 < e"
  shows "copyinstr pt va mx s = (Ret (uscan (mem s) pt va mx), s)"
proof (induction mx arbitrary: va rule: less_induct)
  case (less mx)
  note wa = walkaddr_upage [OF assms, of "PGROUNDDOWN va", unfolded upage_page]
  consider "mx = 0" | "mx \<noteq> 0" "upage (mem s) pt va = 0" | "mx \<noteq> 0" "upage (mem s) pt va \<noteq> 0"
    by blast
  then show ?case
  proof cases
    case 1
    then show ?thesis by (simp add: copyinstr.simps)
  next
    case 2
    then show ?thesis using wa by (cases mx) (simp_all add: copyinstr.simps [of pt va])
  next
    case 3
    let ?n = "page_chunk va mx"
    let ?c = "copyinstr_page (mem s) (upage (mem s) pt va + of_nat (unat va mod 4096)) ?n"
    have fit: "unat va mod 4096 + ?n \<le> 4096" by (simp add: page_chunk_def unat_page_rest)
    have step: "copyinstr pt va mx s = (if snd ?c then (Ret (0, fst ?c), s)
        else bnd (copyinstr pt (PGROUNDDOWN va + PGSIZE) (mx - ?n) s) (\<lambda>r s.
          (Ret (fst r, fst ?c @ snd r), s)))"
      using 3 wa by (simp add: copyinstr.simps [of pt va] Let_def offset_of)
    have "uscan (mem s) pt (PGROUNDDOWN va + PGSIZE) (mx - ?n) = uscan (mem s) pt (va + of_nat ?n) (mx - ?n)"
    proof (cases rule: chunk_cases [of va mx])
      case cross
      then show ?thesis by (simp only: next_page(1) [OF upage_MAXVA [OF 3(2)]])
    qed simp
    moreover have "mx = ?n + (mx - ?n)" by simp
    ultimately show ?thesis
      using step less [of "mx - ?n" "PGROUNDDOWN va + PGSIZE"] uscan_chunk [OF fit 3(2), of "mx - ?n"] 3(1)
      by (simp add: Let_def)
  qed
qed

lemma uread_mapped:
  "range_mapped m pt va n \<Longrightarrow> uread m pt va n = (0, map (\<lambda>i. ubyte m pt (va + of_nat i)) [0..<n])"
proof (induction n arbitrary: va)
  case (Suc n)
  have nz: "upage m pt va \<noteq> 0" and rest: "range_mapped m pt (va + 1) n"
    using Suc.prems by (auto simp: range_mapped_def All_less_Suc2 algebra_simps)
  have "map (\<lambda>i. ubyte m pt (va + of_nat i)) [0..<Suc n] =
      ubyte m pt va # map (\<lambda>i. ubyte m pt (va + 1 + of_nat i)) [0..<n]"
    by (simp add: upt_conv_Cons map_Suc_upt [symmetric] algebra_simps del: upt_Suc map_Suc_upt)
  then show ?case using Suc.IH [OF rest] nz by (simp del: upt_Suc)
qed simp

lemma flags_or:
  assumes "(x :: u64) < 1024" and "y < 1024"
  shows "x OR y < 1024"
proof -
  have "take_bit 10 (x OR y) = x OR y" using flags_small [OF assms(1)] flags_small [OF assms(2)]
    by (simp only: take_bit_or)
  then have "x OR y = (x OR y) mod 1024" by (simp add: take_bit_eq_mod)
  from arg_cong [OF this, of unat] have "unat (x OR y) = unat (x OR y) mod 1024"
    by (simp add: unat_mod_distrib)
  moreover have "unat (x OR y) mod 1024 < 1024" by simp
  ultimately have "unat (x OR y) < 1024" by linarith
  then show ?thesis by (simp add: word_less_nat_alt)
qed

text \<open>The translation an entry written by \<^verbatim>\<open>mappages\<close> gives to user code.\<close>

lemma user_entry:
  assumes "pa mod PGSIZE = 0" and "perm < 1024" and "perm AND PTE_U \<noteq> 0"
  shows "(PA2PTE pa OR perm OR PTE_V) AND PTE_V \<noteq> 0" and "(PA2PTE pa OR perm OR PTE_V) AND PTE_U \<noteq> 0"
    and "PTE2PA (PA2PTE pa OR perm OR PTE_V) = pa"
proof -
  have "bit ((PA2PTE pa OR perm OR PTE_V) AND PTE_V) 0" by (simp add: bit_and_iff bit_or_iff)
  then show "(PA2PTE pa OR perm OR PTE_V) AND PTE_V \<noteq> 0" by (metis bit_0_eq bot_apply bot_bool_def)
  have "(PA2PTE pa OR perm OR PTE_V) AND PTE_U = (PA2PTE pa AND PTE_U) OR (perm AND PTE_U) OR (PTE_V AND PTE_U)"
    by (simp only: bit.conj_disj_distrib2 or.assoc)
  then show "(PA2PTE pa OR perm OR PTE_V) AND PTE_U \<noteq> 0" using assms(3) by (metis or_eq_0_iff)
  show "PTE2PA (PA2PTE pa OR perm OR PTE_V) = pa"
    using PTE2PA_PA2PTE [OF assms(1) flags_or [OF assms(2), of PTE_V]] by (simp add: or.assoc)
qed

lemma page_range:
  assumes "4096 dvd a" and "4096 dvd b"
  shows "a \<le> x div 4096 * 4096 \<and> x div 4096 * 4096 < b \<longleftrightarrow> a \<le> x \<and> x < (b :: nat)"
proof -
  obtain i j where ij: "a = 4096 * i" "b = 4096 * j" using assms by (auto elim!: dvdE)
  have "4096 * i \<le> x div 4096 * 4096 \<longleftrightarrow> 4096 * i \<le> x"
    by (simp add: less_eq_div_iff_mult_less_eq mult.commute)
  moreover have "x div 4096 * 4096 < 4096 * j \<longleftrightarrow> x < 4096 * j"
    by (simp add: div_less_iff_less_mult mult.commute)
  ultimately show ?thesis by (simp only: ij)
qed

text \<open>The page of the last address of a range of \<open>n + 1\<close> pages.\<close>

lemma last_page:
  assumes "4096 dvd unat va" and "unat sz = 4096 * Suc n" and "unat va + unat sz \<le> 274877906944"
  shows "unat (PGROUNDDOWN (va + sz - 1)) = unat va + 4096 * n"
proof -
  have "unat (va + of_nat (unat sz)) = unat va + unat sz" using assms(3) by (intro unat_add_nat) simp
  then have "unat (va + sz) = unat va + unat sz" by simp
  then have u: "unat (va + sz - 1) = unat va + unat sz - 1" using assms(2) by (subst unat_sub64) simp
  obtain k where "unat va = 4096 * k" using assms(1) by (rule dvdE)
  then have "unat va + unat sz - 1 = 4095 + (k + n) * 4096" using assms(2) by simp
  then have "(unat va + unat sz - 1) div 4096 = k + n" by (simp only: div_mult_self1)
  then show ?thesis using \<open>unat va = 4096 * k\<close> by (simp only: unat_PGROUNDDOWN u) simp
qed

lemma mapped_upage:
  assumes m: "mapped_upto pt s ps s' ps' va B pa perm" and va: "va mod PGSIZE = 0" "pa mod PGSIZE = 0"
    and B: "4096 dvd B" "B \<le> 274877906944" and perm: "perm < 1024" "perm AND PTE_U \<noteq> 0"
  shows "upage (mem s') pt vb = (if unat va \<le> unat vb \<and> unat vb < B
    then pa + (PGROUNDDOWN vb - va) else upage (mem s) pt vb)"
proof (cases "vb < MAXVA")
  case True
  have dv: "4096 dvd unat va" "4096 dvd unat pa" using va by (simp_all only: aligned_unat)
  have "4096 dvd unat (PGROUNDDOWN vb - va)"
    by (rule aligned_diff [OF dv(1)]) (simp add: unat_PGROUNDDOWN)
  then have al: "(pa + (PGROUNDDOWN vb - va)) mod PGSIZE = 0"
    using aligned_add [OF dv(2)] by (simp only: aligned_unat)
  have "pte_of (mem s') pt vb = (if unat va \<le> unat vb \<and> unat vb < B
      then PA2PTE (pa + (PGROUNDDOWN vb - va)) OR perm OR PTE_V else pte_of (mem s) pt vb)"
    using m True page_range [OF dv(1) B(1), of "unat vb"] unfolding mapped_upto_def
    by (simp only: unat_PGROUNDDOWN)
  then show ?thesis using True user_entry [OF al perm] by (simp add: upage_def Let_def)
next
  case False
  then have "274877906944 \<le> unat vb" by (simp add: word_less_nat_alt)
  then show ?thesis using False B by (simp add: upage_def Let_def)
qed

section \<open>A concrete page table\<close>

text \<open>A root page at \<open>0x80001000\<close> that maps the first two pages of the address space to
  \<open>0x80004000\<close> and \<open>0x80005000\<close>.\<close>

definition mem1 :: memory where
  "mem1 = store64 (store64 (store64 (store64 (\<lambda>_. 0)
     (slot 0x80001000 0) (PA2PTE 0x80002000 OR PTE_V))
     (slot 0x80002000 0) (PA2PTE 0x80003000 OR PTE_V))
     (slot 0x80003000 0) (PA2PTE 0x80004000 OR 22 OR PTE_V))
     (slot 0x80003000 1) (PA2PTE 0x80005000 OR 22 OR PTE_V)"

definition kmem1 :: kmem where
  "kmem1 = \<lparr>held = [], mem = mem1, freelist = 0, kend = 0x80000000\<rparr>"

lemma load_slot:
  assumes "a mod PGSIZE = 0" and "b mod PGSIZE = 0" and "i < 512" and "j < 512"
  shows "load64 (store64 m (slot a i) w) (slot b j) = (if a = b \<and> i = j then w else load64 m (slot b j))"
  using slot_sep [OF assms] by (auto simp: load64_store64_sep)

lemma load_zero: "load64 (\<lambda>_. 0) a = 0"
  by (simp add: load64_def loadb_def numeral_eq_Suc)

lemma mem1_slot:
  assumes "a mod PGSIZE = 0" and "i < 512"
  shows "load64 mem1 (slot a i) =
    (if a = 0x80003000 \<and> i = 1 then PA2PTE 0x80005000 OR 22 OR PTE_V
     else if a = 0x80003000 \<and> i = 0 then PA2PTE 0x80004000 OR 22 OR PTE_V
     else if a = 0x80002000 \<and> i = 0 then PA2PTE 0x80003000 OR PTE_V
     else if a = 0x80001000 \<and> i = 0 then PA2PTE 0x80002000 OR PTE_V else 0)"
  using assms by (simp add: mem1_def load_slot load_zero)

lemma mem1_node:
  assumes "path p"
  shows "node mem1 0x80001000 p = (if p = [] then Some 0x80001000 else if p = [0] then Some 0x80002000
    else if p = [0, 0] then Some 0x80003000 else None)"
proof -
  have c: "child mem1 0x80001000 i = (if i = 0 then Some 0x80002000 else None)"
    "child mem1 0x80002000 i = (if i = 0 then Some 0x80003000 else None)" if "i < 512" for i
    using that by (simp_all add: child_def mem1_slot Let_def PA2PTE_def PTE2PA_def)
  have "length p \<le> 2" "\<forall>i\<in>set p. i < 512" using assms by (simp_all add: path_def)
  then consider "p = []" | i where "p = [i]" "i < 512" | i j where "p = [i, j]" "i < 512" "j < 512"
    by (cases p rule: list.exhaust [case_names Nil Cons]; cases "tl p") auto
  then show ?thesis by cases (auto simp: c)
qed

lemma kmem1_ok: "pt_ok (mem kmem1) 0x80001000 (kend kmem1) []"
proof -
  have "page_ok 0x80000000 0x80001000" "page_ok 0x80000000 0x80002000" "page_ok 0x80000000 0x80003000"
    by (simp_all add: page_ok_def)
  then show ?thesis by (auto simp: pt_ok_def kmem1_def mem1_node split: if_splits)
qed

lemma mem1_upage:
  "upage mem1 0x80001000 va = (if va < MAXVA \<and> px 2 va = 0 \<and> px 1 va = 0 \<and> px 0 va = 0 then 0x80004000
     else if va < MAXVA \<and> px 2 va = 0 \<and> px 1 va = 0 \<and> px 0 va = 1 then 0x80005000 else 0)"
proof -
  have "node mem1 0x80001000 [px 2 va, px 1 va] = (if px 2 va = 0 \<and> px 1 va = 0 then Some 0x80003000 else None)"
    using mem1_node [OF path_px(2), of va] by auto
  then have "pte_of mem1 0x80001000 va = (if px 2 va = 0 \<and> px 1 va = 0
      then load64 mem1 (slot 0x80003000 (px 0 va)) else 0)"
    unfolding pte_of_def by (simp only:) simp
  also have "load64 mem1 (slot 0x80003000 (px 0 va)) =
      (if px 0 va = 1 then PA2PTE 0x80005000 OR 22 OR PTE_V
       else if px 0 va = 0 then PA2PTE 0x80004000 OR 22 OR PTE_V else 0)"
    by (simp add: mem1_slot)
  finally show ?thesis by (simp add: upage_def Let_def PA2PTE_def PTE2PA_def)
qed

lemma kmem1_user: "user_ok (mem kmem1) 0x80001000"
proof -
  have "nodes mem1 0x80001000 \<subseteq> {0x80001000, 0x80002000, 0x80003000}"
    by (auto simp: nodes_def mem1_node split: if_splits)
  then have "upage mem1 0x80001000 va \<notin> nodes mem1 0x80001000" if "upage mem1 0x80001000 va \<noteq> 0" for va
    using that by (auto simp: mem1_upage split: if_splits)
  moreover have "PGROUNDDOWN vb = PGROUNDDOWN va"
    if "upage mem1 0x80001000 va \<noteq> 0" "upage mem1 0x80001000 vb = upage mem1 0x80001000 va" for va vb
    using that px_inj [of vb va] by (auto simp: mem1_upage split: if_splits)
  moreover have m: "mem kmem1 = mem1" by (simp add: kmem1_def)
  ultimately show ?thesis unfolding user_ok_def m by blast
qed

lemma kmem1_mapped: "range_mapped (mem kmem1) 0x80001000 0xffe 4"
proof -
  have "upage mem1 0x80001000 0xffe \<noteq> 0" "upage mem1 0x80001000 0xfff \<noteq> 0"
    "upage mem1 0x80001000 0x1000 \<noteq> 0" "upage mem1 0x80001000 0x1001 \<noteq> 0"
    by (simp_all add: mem1_upage px_nat)
  then have "upage mem1 0x80001000 (0xffe + of_nat i) \<noteq> 0" if "i \<in> {0, 1, 2, 3}" for i
    using that by auto
  moreover have "i \<in> {0, 1, 2, 3}" if "i < 4" for i :: nat using that by auto
  ultimately show ?thesis unfolding range_mapped_def kmem1_def by simp
qed

section \<open>Properties\<close>

text \<open>
  C26. \<^verbatim>\<open>copyin\<close> and \<^verbatim>\<open>copyinstr\<close> walk the page table once per page and copy a chunk at a
  time, yet they return exactly what reading user memory one byte at a time would give:
  the same result code and the same bytes, failures included, on every well-formed page
  table and for every address and length. They change no state.
\<close>

theorem copyin_bytewise:
  assumes "pt_ok (mem s) pt (kend s) ps" and "0 < kend s"
  shows "copyin pt va len s = (Ret (uread (mem s) pt va len), s) \<and>
         copyinstr pt va len s = (Ret (uscan (mem s) pt va len), s)"
  using copyin_uread [OF assms] copyinstr_uscan [OF assms] by simp

theorem copyin_bytewise_witness:
  "copyin 0x80001000 0xffe 4 kmem1 = (Ret (uread mem1 0x80001000 0xffe 4), kmem1) \<and>
   copyinstr 0x80001000 0xffe 4 kmem1 = (Ret (uscan mem1 0x80001000 0xffe 4), kmem1) \<and>
   fst (uread mem1 0x80001000 0xffe 4) = 0"
proof -
  have m: "mem kmem1 = mem1" "0 < kend kmem1" by (simp_all add: kmem1_def)
  show ?thesis
    using copyin_bytewise [OF kmem1_ok m(2), of "0xffe" 4] uread_mapped [OF kmem1_mapped] m(1) by simp
qed

text \<open>
  C15. Isolation and round trip of \<^verbatim>\<open>copyout\<close>. When the user range is mapped, \<^verbatim>\<open>copyout\<close>
  returns 0, a \<^verbatim>\<open>copyin\<close> of the range gives the bytes back, the other bytes of the
  process keep their values, and no byte outside the user-accessible pages of this page
  table changes: not the kernel's, not another process's, not the page tables themselves.
\<close>

theorem copyout_isolated:
  assumes "pt_ok (mem s) pt (kend s) ps" and "0 < kend s" and "user_ok (mem s) pt"
    and "unat dstva + length src \<le> unat MAXVA" and "range_mapped (mem s) pt dstva (length src)"
  shows "ok (copyout pt dstva src s) (\<lambda>r s'. r = 0 \<and>
           fst (copyin pt dstva (length src) s') = Ret (0, src) \<and>
           (\<forall>va. upage (mem s) pt va \<noteq> 0 \<longrightarrow>
              ubyte (mem s') pt va = overlay (unat dstva) src (ubyte (mem s) pt va) (unat va)) \<and>
           same_outside (upages (mem s) pt) (mem s) (mem s'))"
proof -
  have len: "unat dstva + length src \<le> 274877906944" using assms(4) by simp
  obtain s' where s': "copyout pt dstva src s = (Ret 0, s')" "uwritten pt (kend s) ps s s' dstva src"
    using copyout_writes [OF assms(1-3) len] assms(5) by (auto elim!: ok_E)
  have ok': "pt_ok (mem s') pt (kend s) ps" and up: "\<And>va. upage (mem s') pt va = upage (mem s) pt va"
    using s'(2) by (simp_all add: uwritten_def)
  have byte: "ubyte (mem s') pt (dstva + of_nat i) = src ! i" if i: "i < length src" for i
  proof -
    have "unat dstva + i < 274877906944" using i len by linarith
    then have "unat (dstva + of_nat i) = unat dstva + i" by (intro unat_add_nat) simp
    moreover have "upage (mem s) pt (dstva + of_nat i) \<noteq> 0"
      using assms(5) i by (simp add: range_mapped_def)
    ultimately show ?thesis using s'(2) i by (simp add: uwritten_def overlay_def)
  qed
  have "range_mapped (mem s') pt dstva (length src)" using assms(5) range_mapped_cong [OF up] by simp
  from uread_mapped [OF this] have "uread (mem s') pt dstva (length src) = (0, src)"
    using byte by (auto intro: nth_equalityI)
  then show ?thesis
    using s' copyin_uread [OF ok' assms(2)] by (simp add: uwritten_def)
qed

theorem copyout_isolated_witness:
  "ok (copyout 0x80001000 0xffe [1, 2, 3, 4] kmem1) (\<lambda>r s'. r = 0 \<and>
     fst (copyin 0x80001000 0xffe 4 s') = Ret (0, [1, 2, 3, 4]) \<and>
     same_outside (upages mem1 0x80001000) mem1 (mem s'))"
proof -
  have m: "mem kmem1 = mem1" "0 < kend kmem1" by (simp_all add: kmem1_def)
  have len: "unat (0xffe :: u64) + length [1 :: u8, 2, 3, 4] \<le> unat MAXVA" by simp
  have map: "range_mapped (mem kmem1) 0x80001000 0xffe (length [1 :: u8, 2, 3, 4])"
    using kmem1_mapped by (simp add: numeral_eq_Suc)
  from copyout_isolated [OF kmem1_ok m(2) kmem1_user len map] m(1) show ?thesis
    by (auto elim!: ok_E simp: numeral_eq_Suc)
qed

text \<open>
  C14. \<^verbatim>\<open>mappages\<close> builds the translation it is asked for. On a range of unmapped pages it
  either returns 0, and then \<^verbatim>\<open>walkaddr\<close> sends every address of the range to its place in
  the physical range and every other address where it went before, or it returns -1, and
  then the allocator has run out of pages. Either way the page table stays a tree of pages
  of its own, and the free list stays sound.
\<close>

theorem mappages_translates:
  assumes "kmem_inv s ps" and "pt_ok (mem s) pt (kend s) ps" and "KmemLock \<notin> set (held s)"
    and "va mod PGSIZE = 0" and "pa mod PGSIZE = 0"
    and "unat sz = 4096 * Suc n" and "unat va + unat sz \<le> unat MAXVA"
    and "\<forall>k\<le>n. pte_of (mem s) pt (va + of_nat (4096 * k)) AND PTE_V = 0"
    and "perm < 1024" and "perm AND PTE_U \<noteq> 0"
  shows "ok (mappages pt va sz pa perm s) (\<lambda>r s'. \<exists>ps'. kmem_inv s' ps' \<and>
           pt_ok (mem s') pt (kend s') ps' \<and>
           (r = 0 \<and> (\<forall>vb. fst (walkaddr pt vb s') =
              (if unat va \<le> unat vb \<and> unat vb < unat va + unat sz
               then Ret (pa + (PGROUNDDOWN vb - va)) else fst (walkaddr pt vb s)))
            \<or> r = - 1 \<and> ps' = []))"
proof -
  let ?lst = "PGROUNDDOWN (va + sz - 1)"
  have szb: "unat va + unat sz \<le> 274877906944" using assms(7) by simp
  have dv: "4096 dvd unat va" using assms(4) by (simp only: aligned_unat)
  have self: "PGROUNDDOWN va = va" by (rule PGROUNDDOWN_id [OF assms(4)])
  have lst: "unat ?lst = unat va + 4096 * n" by (rule last_page [OF dv assms(6) szb])
  have ltM: "?lst < MAXVA" using lst assms(6) szb by (simp add: word_less_nat_alt)
  have "sz \<noteq> 0" using assms(6) by auto
  then obtain r s' ps' B where s': "mappages pt va sz pa perm s = (Ret r, s')"
      "mapped_upto pt s ps s' ps' va B pa perm"
      "r = 0 \<and> B = unat ?lst + 4096 \<or> r = - 1 \<and> ps' = [] \<and> unat va \<le> B \<and> B \<le> unat ?lst"
    using mappages_loop_spec [OF assms(1-4) lst ltM assms(8), of pa perm]
    by (auto elim!: ok_E simp: mappages_def self)
  have st: "kmem_inv s' ps'" "pt_ok (mem s') pt (kend s') ps'" "0 < kend s'"
    using s'(2) assms(1) by (auto simp: mapped_upto_def kframe_kend kmem_inv_def)
  have tr: "fst (walkaddr pt vb s') = (if unat va \<le> unat vb \<and> unat vb < unat va + unat sz
      then Ret (pa + (PGROUNDDOWN vb - va)) else fst (walkaddr pt vb s))" if r: "r = 0" for vb
  proof -
    have B: "B = unat va + unat sz" using s'(3) r lst assms(6) by simp
    have "0 < kend s" using assms(1) by (simp add: kmem_inv_def)
    then show ?thesis
      using mapped_upage [OF s'(2) assms(4,5) _ _ assms(9,10), of vb] B szb dv assms(6)
        walkaddr_upage [OF st(2,3)] walkaddr_upage [OF assms(2)] by simp
  qed
  show ?thesis using s' st tr by auto
qed

theorem mappages_translates_witness:
  "ok (mappages 0x80001000 0x2000 0x2000 0x80006000 22 kmem1) (\<lambda>r s'. \<exists>ps'. kmem_inv s' ps' \<and>
     pt_ok (mem s') 0x80001000 (kend s') ps' \<and>
     (r = 0 \<and> fst (walkaddr 0x80001000 0x3abc s') = Ret 0x80007000 \<or> r = - 1 \<and> ps' = []))"
proof -
  have inv: "kmem_inv kmem1 []" and lk: "KmemLock \<notin> set (held kmem1)"
    by (simp_all add: kmem_inv_def kmem1_def)
  have al: "(0x2000 :: u64) mod PGSIZE = 0" "(0x80006000 :: u64) mod PGSIZE = 0"
    "unat (0x2000 :: u64) = 4096 * Suc 1" "unat (0x2000 :: u64) + unat (0x2000 :: u64) \<le> unat MAXVA"
    "(22 :: u64) < 1024" "(22 :: u64) AND PTE_U \<noteq> 0" by simp_all
  have "pte_of mem1 0x80001000 0x2000 = 0" "pte_of mem1 0x80001000 0x3000 = 0"
    using mem1_node [OF path_px(2), of "0x2000"] mem1_node [OF path_px(2), of "0x3000"]
    by (simp_all add: pte_of_def px_nat mem1_slot del: node.simps)
  then have new: "\<forall>k\<le>1. pte_of (mem kmem1) 0x80001000 (0x2000 + of_nat (4096 * k)) AND PTE_V = 0"
    by (auto simp: kmem1_def le_Suc_eq)
  have "PGROUNDDOWN 0x3abc = 0x3000" by (simp add: PGROUNDDOWN_def)
  then show ?thesis
    using mappages_translates [OF inv kmem1_ok lk al(1-4) new al(5,6)]
    by (elim ok_E) (auto dest: spec [of _ "0x3abc"])
qed

end
