(* ===== verification/Vmframe.thy ===== *)
theory Vmframe
  imports Usermem
begin

text \<open>
  What the memory operations leave alone: whenever \<^verbatim>\<open>kalloc\<close>, \<^verbatim>\<open>kfree\<close> or an operation of
  \<^verbatim>\<open>kernel/vm.c\<close> returns, only physical memory and the free list have changed. The locks,
  the process table and all other kernel state are as they were.
\<close>

named_theorems kframes

definition kpres :: "('a res \<times> 'z kmem_scheme) \<Rightarrow> 'z kmem_scheme \<Rightarrow> bool" where
  "kpres m s \<longleftrightarrow> onret m (\<lambda>_ s'. kframe s s')"

lemma kpres_Ret [simp]: "kpres (Ret a, s') s \<longleftrightarrow> kframe s s'"
  by (simp add: kpres_def)

lemma kpres_Panic [simp]: "kpres (Panic e, s') s" "kpres (Hang, s') s" "kpres (Swtch, s') s"
  by (simp_all add: kpres_def)

lemma kpres_if [intro]: "(b \<Longrightarrow> kpres m s) \<Longrightarrow> (\<not> b \<Longrightarrow> kpres n s) \<Longrightarrow> kpres (if b then m else n) s"
  by simp

lemma kpres_bnd [intro]:
  assumes "kpres m s" and "\<And>a t. m = (Ret a, t) \<Longrightarrow> kframe s t \<Longrightarrow> kpres (f a t) s"
  shows "kpres (bnd m f) s"
proof (cases m)
  case (Pair r t)
  then show ?thesis using assms by (cases r) (auto simp: kpres_def)
qed

lemma kpres_trans: "kpres m t \<Longrightarrow> kframe s t \<Longrightarrow> kpres m s"
  by (auto simp: kpres_def onret_def intro: kframe_trans split: prod.splits res.splits)

lemma kpresD: "kpres m s \<Longrightarrow> m = (Ret a, t) \<Longrightarrow> kframe s t"
  by simp

lemma kfree_frame [kframes]: "kpres (kfree pa s) s"
  by (auto simp: kfree_def Let_def acquire_def kframe_def)

lemma kalloc_frame [kframes]: "kpres (kalloc s) s"
  by (auto simp: kalloc_def Let_def acquire_def kframe_def)

lemma walk_step_frame [kframes]: "kpres (walk_step pt va l al s) s"
  unfolding walk_step_def Let_def by (intro kpres_if kpres_bnd kalloc_frame) auto

lemma walk_loop_frame: "kframe s t \<Longrightarrow> kpres (walk_loop l pt va al t) s"
proof (induction l arbitrary: pt t)
  case (Suc l)
  show ?case unfolding walk_loop.simps
    using Suc by (intro kpres_bnd kpres_trans [OF walk_step_frame]) (auto split: option.splits)
qed simp

lemma walk_frame [kframes]: "kpres (walk pt va al s) s"
  unfolding walk_def by (auto intro: walk_loop_frame)

lemma walkaddr_frame [kframes]: "kpres (walkaddr pt va s) s"
  unfolding walkaddr_def by (intro kpres_if kpres_bnd walk_frame) auto

lemma mappages_loop_frame: "kframe s t \<Longrightarrow> kpres (mappages_loop pt a l pa perm t) s"
proof (induction pt a l pa perm t rule: mappages_loop.induct)
  case (1 pt a l pa perm t)
  show ?case
    by (subst mappages_loop.simps, rule kpres_bnd [OF kpres_trans [OF walk_frame 1(2)]])
       (auto simp: Let_def intro!: 1(1))
qed

lemma mappages_frame [kframes]: "kpres (mappages pt va sz pa perm s) s"
  unfolding mappages_def by (auto intro: mappages_loop_frame)

lemma kvmmap_frame [kframes]: "kpres (kvmmap pt va pa sz perm s) s"
  unfolding kvmmap_def by (intro kpres_bnd mappages_frame) auto

lemma uvmunmap_loop_frame: "kframe s t \<Longrightarrow> kpres (uvmunmap_loop pt a l fr t) s"
proof (induction pt a l fr t rule: uvmunmap_loop.induct)
  case (1 pt a l fr t)
  show ?case
  proof (cases "a < l")
    case True
    show ?thesis
    proof (subst uvmunmap_loop.simps, simp only: True if_True,
        rule kpres_bnd [OF kpres_trans [OF walk_frame 1(2)]], intro kpres_if kpres_Panic)
      fix pte u assume w: "walk pt a False t = (Ret pte, u)" and f: "kframe s u"
        and c: "pte \<noteq> 0" "load64 (mem u) pte AND PTE_V \<noteq> 0" "PTE_FLAGS (load64 (mem u) pte) \<noteq> PTE_V"
      show "kpres (bnd (if fr then kfree (PTE2PA (load64 (mem u) pte)) u else (Ret (), u))
          (\<lambda>_ v. uvmunmap_loop pt (a + PGSIZE) l fr (v\<lparr>mem := store64 (mem v) pte 0\<rparr>))) s"
        by (rule kpres_bnd, rule kpres_if)
           (use f in \<open>auto intro: kpres_trans [OF kfree_frame] intro!: 1(1) [OF True w c]\<close>)
    qed
  qed (use 1(2) in \<open>simp add: uvmunmap_loop.simps\<close>)
qed

lemma uvmunmap_frame [kframes]: "kpres (uvmunmap pt va n fr s) s"
  unfolding uvmunmap_def by (auto intro: uvmunmap_loop_frame)

lemma uvmcreate_frame [kframes]: "kpres (uvmcreate s) s"
  unfolding uvmcreate_def by (intro kpres_bnd kalloc_frame) auto

lemma uvmfirst_frame [kframes]: "kpres (uvmfirst pt src s) s"
  unfolding uvmfirst_def Let_def
  by (auto intro!: kpres_if kpres_bnd kalloc_frame kpres_trans [OF mappages_frame])

lemma uvmdealloc_frame [kframes]: "kpres (uvmdealloc pt a b s) s"
  unfolding uvmdealloc_def Let_def by (auto intro!: kpres_if kpres_bnd uvmunmap_frame)

lemma freewalk_frame [kframes]: "kpres (freewalk n pt s) s"
proof (induction n arbitrary: pt s)
  case (Suc n)
  have "kframe s t \<Longrightarrow> kpres (freewalk_entries (freewalk n) pt is t) s" for "is" t
  proof (induction "is" arbitrary: t)
    case (Cons i "is")
    then show ?case
      by (auto simp: Let_def intro!: kpres_if kpres_bnd kpres_trans [OF Suc])
  qed simp
  then show ?case by (auto intro!: kpres_bnd kpres_trans [OF kfree_frame])
qed simp

lemma uvmfree_frame [kframes]: "kpres (uvmfree pt sz s) s"
  unfolding uvmfree_def by (auto intro!: kpres_bnd kpres_if uvmunmap_frame kpres_trans [OF freewalk_frame])

lemma uvmalloc_loop_frame: "kframe s t \<Longrightarrow> kpres (uvmalloc_loop pt a old new x t) s"
proof (induction pt a old new x t rule: uvmalloc_loop.induct)
  case (1 pt a old new x t)
  show ?case
  proof (cases "a < new")
    case True
    show ?thesis
    proof (subst uvmalloc_loop.simps, simp only: True if_True Let_def,
        rule kpres_bnd [OF kpres_trans [OF kalloc_frame 1(2)]], rule kpres_if)
      fix pg u assume k: "kalloc t = (Ret pg, u)" and f: "kframe s u"
      show "kpres (bnd (uvmdealloc pt a old u) (\<lambda>_ v. (Ret 0, v))) s"
        by (rule kpres_bnd [OF kpres_trans [OF uvmdealloc_frame f]]) simp
      assume pg: "pg \<noteq> 0"
      let ?u = "u\<lparr>mem := memset (mem u) pg 0 4096\<rparr>"
      have "kframe s ?u" using f by simp
      then show "kpres (bnd (mappages pt a PGSIZE pg (PTE_R OR PTE_U OR x) ?u) (\<lambda>r v.
          if r \<noteq> 0 then bnd (kfree pg v) (\<lambda>_ v. bnd (uvmdealloc pt a old v) (\<lambda>_ v. (Ret 0, v)))
          else uvmalloc_loop pt (a + PGSIZE) old new x v)) s"
        by (intro kpres_bnd [OF kpres_trans [OF mappages_frame]] kpres_if)
           (auto intro!: kpres_bnd kpres_trans [OF kfree_frame] kpres_trans [OF uvmdealloc_frame]
              1(1) [OF True k pg refl])
    qed
  qed (use 1(2) in \<open>simp add: uvmalloc_loop.simps\<close>)
qed

lemma uvmalloc_frame [kframes]: "kpres (uvmalloc pt old new x s) s"
  unfolding uvmalloc_def by (auto intro: uvmalloc_loop_frame)

lemma copyout_frame_from: "kframe s t \<Longrightarrow> kpres (copyout pt a src t) s"
proof (induction pt a src t rule: copyout.induct)
  case (1 pt a src t)
  show ?case
    by (subst copyout.simps, auto simp: Let_def 1(2) simp del: page_chunk_le
        intro!: kpres_bnd [OF kpres_trans [OF walkaddr_frame 1(2)]] 1(1))
qed

lemma copyout_frame [kframes]: "kpres (copyout pt a src s) s"
  by (rule copyout_frame_from) simp

lemma copyin_frame_from: "kframe s t \<Longrightarrow> kpres (copyin pt a n t) s"
proof (induction pt a n t rule: copyin.induct)
  case (1 pt a n t)
  show ?case
    by (subst copyin.simps, auto simp: Let_def 1(2)
        intro!: kpres_bnd [OF kpres_trans [OF walkaddr_frame 1(2)]] kpres_bnd 1(1))
qed

lemma copyin_frame [kframes]: "kpres (copyin pt a n s) s"
  by (rule copyin_frame_from) simp

lemma copyinstr_frame_from: "kframe s t \<Longrightarrow> kpres (copyinstr pt a n t) s"
proof (induction pt a n t rule: copyinstr.induct)
  case (1 pt a n t)
  show ?case
    by (subst copyinstr.simps, auto simp: Let_def 1(2)
        intro!: kpres_bnd [OF kpres_trans [OF walkaddr_frame 1(2)]] kpres_bnd 1(1))
qed

lemma copyinstr_frame [kframes]: "kpres (copyinstr pt a n s) s"
  by (rule copyinstr_frame_from) simp

end
