(* ===== verification/Proc.thy ===== *)
theory Proc
  imports Vmframe
begin

text \<open>
  The process table of \<^verbatim>\<open>kernel/proc.c\<close>: allocation and release of slots, sleeping and
  waking, killing, the scheduler, and the kernel page table. Operations that also need the
  file system (\<^verbatim>\<open>fork\<close>, \<^verbatim>\<open>exit\<close>) are modelled with it.
\<close>

section \<open>Definitions\<close>

abbreviation NPROC :: nat where "NPROC \<equiv> 64"

datatype procstate = UNUSED | USED | SLEEPING | RUNNABLE | RUNNING | ZOMBIE

text \<open>Saved registers for \<^verbatim>\<open>swtch\<close>: \<^verbatim>\<open>ra\<close>, \<^verbatim>\<open>sp\<close> and \<^verbatim>\<open>s0\<close> to \<^verbatim>\<open>s11\<close>.\<close>

record kcontext =
  c_ra :: u64
  c_sp :: u64
  c_s :: "u64 list"

text \<open>\<^verbatim>\<open>struct proc\<close>. Pointers to processes, open files and in-memory inodes are indices into
  their tables, \<open>None\<close> for the null pointer.\<close>

record proc =
  p_state :: procstate
  p_chan :: chan
  p_killed :: i32
  p_xstate :: i32
  p_pid :: i32
  runCount :: i32
  systemcallCount :: i32
  interruptCount :: i32
  preemptCount :: i32
  trapCount :: i32
  sleepCount :: i32
  p_parent :: "nat option"
  p_kstack :: u64
  p_sz :: u64
  p_pagetable :: u64
  p_trapframe :: u64
  p_context :: kcontext
  p_ofile :: "nat option list"
  p_cwd :: "nat option"
  p_name :: "u8 list"

text \<open>\<open>curproc\<close> is \<^verbatim>\<open>mycpu()->proc\<close>; the last three fields are the linker symbols
  \<^verbatim>\<open>etext\<close>, \<^verbatim>\<open>trampoline\<close> and \<^verbatim>\<open>forkret\<close>.\<close>

record ptable = kmem +
  procs :: "nat \<Rightarrow> proc"
  nextpid :: i32
  curproc :: "nat option"
  initproc :: "nat option"
  kernel_pagetable :: u64
  etext :: u64
  trampoline :: u64
  forkret_addr :: u64

definition setp :: "nat \<Rightarrow> (proc \<Rightarrow> proc) \<Rightarrow> 'z ptable_scheme \<Rightarrow> 'z ptable_scheme" where
  "setp i f s = s\<lparr>procs := (procs s)(i := f (procs s i))\<rparr>"

text \<open>Code that follows \<^verbatim>\<open>p = myproc()\<close>; without a process it dereferences a null pointer,
  which the kernel trap handler turns into a panic.\<close>

definition myproc :: "(nat \<Rightarrow> 'z ptable_scheme \<Rightarrow> 'a res \<times> 'z ptable_scheme) \<Rightarrow>
    'z ptable_scheme \<Rightarrow> 'a res \<times> 'z ptable_scheme" where
  "myproc f s = (case curproc s of None \<Rightarrow> (Panic ''kerneltrap'', s) | Some p \<Rightarrow> f p s)"

primrec proc_mapstacks_loop ::
  "u64 \<Rightarrow> nat list \<Rightarrow> 'z ptable_scheme \<Rightarrow> unit res \<times> 'z ptable_scheme" where
  "proc_mapstacks_loop kpgtbl [] s = (Ret (), s)"
| "proc_mapstacks_loop kpgtbl (i # is) s =
     bnd (kalloc s) (\<lambda>pa s.
       if pa = 0 then (Panic ''kalloc'', s)
       else bnd (kvmmap kpgtbl (KSTACK i) pa PGSIZE (PTE_R OR PTE_W) s) (\<lambda>_ s.
         proc_mapstacks_loop kpgtbl is s))"

definition proc_mapstacks :: "u64 \<Rightarrow> 'z ptable_scheme \<Rightarrow> unit res \<times> 'z ptable_scheme" where
  "proc_mapstacks kpgtbl s = proc_mapstacks_loop kpgtbl [0..<NPROC] s"

definition kvmmake :: "'z ptable_scheme \<Rightarrow> u64 res \<times> 'z ptable_scheme" where
  "kvmmake s =
     bnd (kalloc s) (\<lambda>kpgtbl s.
     let s = s\<lparr>mem := memset (mem s) kpgtbl 0 4096\<rparr> in
     bnd (kvmmap kpgtbl 0x10000000 0x10000000 PGSIZE (PTE_R OR PTE_W) s) (\<lambda>_ s.
     bnd (kvmmap kpgtbl 0x10001000 0x10001000 PGSIZE (PTE_R OR PTE_W) s) (\<lambda>_ s.
     bnd (kvmmap kpgtbl 0x0c000000 0x0c000000 0x400000 (PTE_R OR PTE_W) s) (\<lambda>_ s.
     bnd (kvmmap kpgtbl KERNBASE KERNBASE (etext s - KERNBASE) (PTE_R OR PTE_X) s) (\<lambda>_ s.
     bnd (kvmmap kpgtbl (etext s) (etext s) (PHYSTOP - etext s) (PTE_R OR PTE_W) s) (\<lambda>_ s.
     bnd (kvmmap kpgtbl TRAMPOLINE (trampoline s) PGSIZE (PTE_R OR PTE_X) s) (\<lambda>_ s.
     bnd (proc_mapstacks kpgtbl s) (\<lambda>_ s. (Ret kpgtbl, s)))))))))"

definition kvminit :: "'z ptable_scheme \<Rightarrow> unit res \<times> 'z ptable_scheme" where
  "kvminit s = bnd (kvmmake s) (\<lambda>pt s. (Ret (), s\<lparr>kernel_pagetable := pt\<rparr>))"

definition procinit :: "'z ptable_scheme \<Rightarrow> unit res \<times> 'z ptable_scheme" where
  "procinit s = (Ret (), s\<lparr>procs := (\<lambda>i. if i < NPROC
     then (procs s i)\<lparr>p_state := UNUSED, p_kstack := KSTACK i\<rparr> else procs s i)\<rparr>)"

definition allocpid :: "'z ptable_scheme \<Rightarrow> i32 res \<times> 'z ptable_scheme" where
  "allocpid s =
     bnd (acquire PidLock s) (\<lambda>_ s.
     let pid = nextpid s;
         s = s\<lparr>nextpid := nextpid s + 1\<rparr>
     in bnd (release PidLock s) (\<lambda>_ s. (Ret pid, s)))"

definition proc_pagetable :: "nat \<Rightarrow> 'z ptable_scheme \<Rightarrow> u64 res \<times> 'z ptable_scheme" where
  "proc_pagetable p s =
     bnd (uvmcreate s) (\<lambda>pagetable s.
     if pagetable = 0 then (Ret 0, s)
     else bnd (mappages pagetable TRAMPOLINE PGSIZE (trampoline s) (PTE_R OR PTE_X) s) (\<lambda>r s.
       if r < 0 then bnd (uvmfree pagetable 0 s) (\<lambda>_ s. (Ret 0, s))
       else bnd (mappages pagetable TRAPFRAME PGSIZE (p_trapframe (procs s p)) (PTE_R OR PTE_W) s) (\<lambda>r s.
         if r < 0 then
           bnd (uvmunmap pagetable TRAMPOLINE 1 False s) (\<lambda>_ s.
           bnd (uvmfree pagetable 0 s) (\<lambda>_ s. (Ret 0, s)))
         else (Ret pagetable, s))))"

definition proc_freepagetable :: "u64 \<Rightarrow> u64 \<Rightarrow> 'z ptable_scheme \<Rightarrow> unit res \<times> 'z ptable_scheme" where
  "proc_freepagetable pagetable sz s =
     bnd (uvmunmap pagetable TRAMPOLINE 1 False s) (\<lambda>_ s.
     bnd (uvmunmap pagetable TRAPFRAME 1 False s) (\<lambda>_ s.
     uvmfree pagetable sz s))"

definition freeproc_reset :: "proc \<Rightarrow> proc" where
  "freeproc_reset q = q\<lparr>p_pagetable := 0, p_sz := 0, p_pid := 0, p_parent := None,
     p_name := (p_name q)[0 := 0], p_chan := NoChan, p_killed := 0, p_xstate := 0, p_state := UNUSED\<rparr>"

definition freeproc :: "nat \<Rightarrow> 'z ptable_scheme \<Rightarrow> unit res \<times> 'z ptable_scheme" where
  "freeproc p s =
     bnd (if p_trapframe (procs s p) \<noteq> 0 then kfree (p_trapframe (procs s p)) s else (Ret (), s)) (\<lambda>_ s.
     let s = setp p (\<lambda>q. q\<lparr>p_trapframe := 0\<rparr>) s in
     bnd (if p_pagetable (procs s p) \<noteq> 0
          then proc_freepagetable (p_pagetable (procs s p)) (p_sz (procs s p)) s else (Ret (), s)) (\<lambda>_ s.
     (Ret (), setp p freeproc_reset s)))"

text \<open>The search loop of \<^verbatim>\<open>allocproc\<close> returns with the lock of the slot it found held.\<close>

primrec allocproc_find :: "nat list \<Rightarrow> 'z ptable_scheme \<Rightarrow> nat option res \<times> 'z ptable_scheme" where
  "allocproc_find [] s = (Ret None, s)"
| "allocproc_find (p # ps) s =
     bnd (acquire (ProcLock p) s) (\<lambda>_ s.
       if p_state (procs s p) = UNUSED then (Ret (Some p), s)
       else bnd (release (ProcLock p) s) (\<lambda>_ s. allocproc_find ps s))"

text \<open>The two error exits of \<^verbatim>\<open>allocproc\<close>, and the code from its label \<^verbatim>\<open>found\<close> on.\<close>

definition allocproc_undo :: "nat \<Rightarrow> 'z ptable_scheme \<Rightarrow> nat option res \<times> 'z ptable_scheme" where
  "allocproc_undo p s =
     bnd (freeproc p s) (\<lambda>_ s. bnd (release (ProcLock p) s) (\<lambda>_ s. (Ret None, s)))"

definition allocproc_pagetable :: "nat \<Rightarrow> 'z ptable_scheme \<Rightarrow> nat option res \<times> 'z ptable_scheme" where
  "allocproc_pagetable p s =
     bnd (proc_pagetable p s) (\<lambda>pt s.
     let s = setp p (\<lambda>q. q\<lparr>p_pagetable := pt\<rparr>) s in
     if pt = 0 then allocproc_undo p s
     else (Ret (Some p), setp p (\<lambda>q. q\<lparr>p_context :=
       \<lparr>c_ra = forkret_addr s, c_sp = p_kstack q + PGSIZE, c_s = replicate 12 0\<rparr>\<rparr>) s))"

definition allocproc_found :: "nat \<Rightarrow> 'z ptable_scheme \<Rightarrow> nat option res \<times> 'z ptable_scheme" where
  "allocproc_found p s =
     bnd (allocpid s) (\<lambda>pid s.
     let s = setp p (\<lambda>q. q\<lparr>p_pid := pid, p_state := USED\<rparr>) s in
     bnd (kalloc s) (\<lambda>tf s.
     let s = setp p (\<lambda>q. q\<lparr>p_trapframe := tf\<rparr>) s in
     if tf = 0 then allocproc_undo p s else allocproc_pagetable p s))"

definition allocproc :: "'z ptable_scheme \<Rightarrow> nat option res \<times> 'z ptable_scheme" where
  "allocproc s =
     bnd (allocproc_find [0..<NPROC] s) (\<lambda>r s.
     case r of None \<Rightarrow> (Ret None, s) | Some p \<Rightarrow> allocproc_found p s)"

definition growproc :: "i32 \<Rightarrow> 'z ptable_scheme \<Rightarrow> int res \<times> 'z ptable_scheme" where
  "growproc n = myproc (\<lambda>p s.
     let sz = p_sz (procs s p) in
     if sint n > 0 then
       bnd (uvmalloc (p_pagetable (procs s p)) sz (sz + scast n) PTE_W s) (\<lambda>sz s.
       if sz = 0 then (Ret (- 1), s) else (Ret 0, setp p (\<lambda>q. q\<lparr>p_sz := sz\<rparr>) s))
     else if sint n < 0 then
       bnd (uvmdealloc (p_pagetable (procs s p)) sz (sz + scast n) s) (\<lambda>sz s.
       (Ret 0, setp p (\<lambda>q. q\<lparr>p_sz := sz\<rparr>) s))
     else (Ret 0, setp p (\<lambda>q. q\<lparr>p_sz := sz\<rparr>) s))"

text \<open>\<^verbatim>\<open>sched\<close> gives the CPU away; the code after \<^verbatim>\<open>swtch\<close> runs when the process is scheduled
  again. A CPU that holds a lock has its interrupts off, so \<^verbatim>\<open>intr_get\<close> is true only when
  no lock is held.\<close>

definition sched :: "'z ptable_scheme \<Rightarrow> unit res \<times> 'z ptable_scheme" where
  "sched = myproc (\<lambda>p s.
     if ProcLock p \<notin> set (held s) then (Panic ''sched p->lock'', s)
     else if length (held s) \<noteq> 1 then (Panic ''sched locks'', s)
     else if p_state (procs s p) = RUNNING then (Panic ''sched running'', s)
     else if held s = [] then (Panic ''sched interruptible'', s)
     else (Swtch, s))"

definition yield :: "'z ptable_scheme \<Rightarrow> unit res \<times> 'z ptable_scheme" where
  "yield = myproc (\<lambda>p s.
     bnd (acquire (ProcLock p) s) (\<lambda>_ s.
     let s = setp p (\<lambda>q. q\<lparr>p_state := RUNNABLE, preemptCount := preemptCount q + 1\<rparr>) s in
     bnd (sched s) (\<lambda>_ s. release (ProcLock p) s)))"

definition sleep :: "chan \<Rightarrow> lockid \<Rightarrow> 'z ptable_scheme \<Rightarrow> unit res \<times> 'z ptable_scheme" where
  "sleep ch lk = myproc (\<lambda>p s.
     bnd (acquire (ProcLock p) s) (\<lambda>_ s.
     bnd (release lk s) (\<lambda>_ s.
     let s = setp p (\<lambda>q. q\<lparr>sleepCount := sleepCount q + 1, p_chan := ch, p_state := SLEEPING\<rparr>) s in
     bnd (sched s) (\<lambda>_ s.
     let s = setp p (\<lambda>q. q\<lparr>p_chan := NoChan\<rparr>) s in
     bnd (release (ProcLock p) s) (\<lambda>_ s.
     acquire lk s)))))"

text \<open>What is left of \<^verbatim>\<open>yield\<close> and \<^verbatim>\<open>sleep\<close> when the process runs again.\<close>

definition yield_resume :: "'z ptable_scheme \<Rightarrow> unit res \<times> 'z ptable_scheme" where
  "yield_resume = myproc (\<lambda>p s. release (ProcLock p) s)"

definition sleep_resume :: "lockid \<Rightarrow> 'z ptable_scheme \<Rightarrow> unit res \<times> 'z ptable_scheme" where
  "sleep_resume lk = myproc (\<lambda>p s.
     let s = setp p (\<lambda>q. q\<lparr>p_chan := NoChan\<rparr>) s in
     bnd (release (ProcLock p) s) (\<lambda>_ s. acquire lk s))"

primrec wakeup_loop :: "chan \<Rightarrow> nat list \<Rightarrow> 'z ptable_scheme \<Rightarrow> unit res \<times> 'z ptable_scheme" where
  "wakeup_loop ch [] s = (Ret (), s)"
| "wakeup_loop ch (p # ps) s =
     (if curproc s \<noteq> Some p then
        bnd (acquire (ProcLock p) s) (\<lambda>_ s.
        let s = (if p_state (procs s p) = SLEEPING \<and> p_chan (procs s p) = ch
                 then setp p (\<lambda>q. q\<lparr>p_state := RUNNABLE\<rparr>) s else s)
        in bnd (release (ProcLock p) s) (\<lambda>_ s. wakeup_loop ch ps s))
      else wakeup_loop ch ps s)"

definition wakeup :: "chan \<Rightarrow> 'z ptable_scheme \<Rightarrow> unit res \<times> 'z ptable_scheme" where
  "wakeup ch s = wakeup_loop ch [0..<NPROC] s"

primrec kill_loop :: "i32 \<Rightarrow> nat list \<Rightarrow> 'z ptable_scheme \<Rightarrow> int res \<times> 'z ptable_scheme" where
  "kill_loop pid [] s = (Ret (- 1), s)"
| "kill_loop pid (p # ps) s =
     bnd (acquire (ProcLock p) s) (\<lambda>_ s.
       if p_pid (procs s p) = pid then
         let s = setp p (\<lambda>q. q\<lparr>p_killed := 1\<rparr>) s;
             s = (if p_state (procs s p) = SLEEPING then setp p (\<lambda>q. q\<lparr>p_state := RUNNABLE\<rparr>) s else s)
         in bnd (release (ProcLock p) s) (\<lambda>_ s. (Ret 0, s))
       else bnd (release (ProcLock p) s) (\<lambda>_ s. kill_loop pid ps s))"

definition kill :: "i32 \<Rightarrow> 'z ptable_scheme \<Rightarrow> int res \<times> 'z ptable_scheme" where
  "kill pid s = kill_loop pid [0..<NPROC] s"

definition setkilled :: "nat \<Rightarrow> 'z ptable_scheme \<Rightarrow> unit res \<times> 'z ptable_scheme" where
  "setkilled p s =
     bnd (acquire (ProcLock p) s) (\<lambda>_ s.
     let s = setp p (\<lambda>q. q\<lparr>p_killed := 1\<rparr>) s in release (ProcLock p) s)"

definition killed :: "nat \<Rightarrow> 'z ptable_scheme \<Rightarrow> i32 res \<times> 'z ptable_scheme" where
  "killed p s =
     bnd (acquire (ProcLock p) s) (\<lambda>_ s.
     let k = p_killed (procs s p) in
     bnd (release (ProcLock p) s) (\<lambda>_ s. (Ret k, s)))"

text \<open>The sleep channel that a process pointer is.\<close>

definition proc_chan :: "nat option \<Rightarrow> chan" where
  "proc_chan p = (case p of None \<Rightarrow> NoChan | Some i \<Rightarrow> ChProc i)"

primrec reparent_loop :: "nat \<Rightarrow> nat list \<Rightarrow> 'z ptable_scheme \<Rightarrow> unit res \<times> 'z ptable_scheme" where
  "reparent_loop p [] s = (Ret (), s)"
| "reparent_loop p (pp # pps) s =
     (if p_parent (procs s pp) = Some p then
        let s = setp pp (\<lambda>q. q\<lparr>p_parent := initproc s\<rparr>) s in
        bnd (wakeup (proc_chan (initproc s)) s) (\<lambda>_ s. reparent_loop p pps s)
      else reparent_loop p pps s)"

definition reparent :: "nat \<Rightarrow> 'z ptable_scheme \<Rightarrow> unit res \<times> 'z ptable_scheme" where
  "reparent p s = reparent_loop p [0..<NPROC] s"

text \<open>The scan of \<^verbatim>\<open>wait\<close>: \<open>Inl r\<close> when \<^verbatim>\<open>wait\<close> returns \<open>r\<close> from inside the scan,
  \<open>Inr havekids\<close> at its end.\<close>

primrec wait_scan :: "nat \<Rightarrow> u64 \<Rightarrow> bool \<Rightarrow> nat list \<Rightarrow> 'z ptable_scheme \<Rightarrow>
    (i32 + bool) res \<times> 'z ptable_scheme" where
  "wait_scan p addr havekids [] s = (Ret (Inr havekids), s)"
| "wait_scan p addr havekids (pp # pps) s =
     (if p_parent (procs s pp) = Some p then
        bnd (acquire (ProcLock pp) s) (\<lambda>_ s.
        if p_state (procs s pp) = ZOMBIE then
          let pid = p_pid (procs s pp) in
          bnd (if addr \<noteq> 0
               then copyout (p_pagetable (procs s p)) addr (le_bytes 4 (p_xstate (procs s pp))) s
               else (Ret 0, s)) (\<lambda>r s.
          if r < 0 then
            bnd (release (ProcLock pp) s) (\<lambda>_ s.
            bnd (release WaitLock s) (\<lambda>_ s. (Ret (Inl (- 1)), s)))
          else
            bnd (freeproc pp s) (\<lambda>_ s.
            bnd (release (ProcLock pp) s) (\<lambda>_ s.
            bnd (release WaitLock s) (\<lambda>_ s. (Ret (Inl pid), s)))))
        else bnd (release (ProcLock pp) s) (\<lambda>_ s. wait_scan p addr True pps s))
      else wait_scan p addr havekids pps s)"

text \<open>One round of the loop of \<^verbatim>\<open>wait\<close>, entered with \<^verbatim>\<open>wait_lock\<close> held: on the first call and
  again after every \<^verbatim>\<open>sleep\<close>.\<close>

definition wait_round :: "u64 \<Rightarrow> 'z ptable_scheme \<Rightarrow> i32 res \<times> 'z ptable_scheme" where
  "wait_round addr = myproc (\<lambda>p s.
     bnd (wait_scan p addr False [0..<NPROC] s) (\<lambda>r s. case r of
       Inl r \<Rightarrow> (Ret r, s)
     | Inr havekids \<Rightarrow>
         bnd (if havekids then killed p s else (Ret 1, s)) (\<lambda>k s.
         if k \<noteq> 0 then bnd (release WaitLock s) (\<lambda>_ s. (Ret (- 1), s))
         else bnd (sleep (ChProc p) WaitLock s) (\<lambda>_ s. (Swtch, s)))))"

definition wait :: "u64 \<Rightarrow> 'z ptable_scheme \<Rightarrow> i32 res \<times> 'z ptable_scheme" where
  "wait addr s = bnd (acquire WaitLock s) (\<lambda>_ s. wait_round addr s)"

text \<open>One step of the scheduler loop at slot \<open>p\<close>: \<open>True\<close> when it has switched to the process.
  \<open>scheduler_back\<close> is the code after \<^verbatim>\<open>swtch\<close>.\<close>

definition scheduler_pick :: "nat \<Rightarrow> 'z ptable_scheme \<Rightarrow> bool res \<times> 'z ptable_scheme" where
  "scheduler_pick p s =
     bnd (acquire (ProcLock p) s) (\<lambda>_ s.
     if p_state (procs s p) = RUNNABLE then
       (Ret True, (setp p (\<lambda>q. q\<lparr>p_state := RUNNING, runCount := runCount q + 1\<rparr>) s)\<lparr>curproc := Some p\<rparr>)
     else bnd (release (ProcLock p) s) (\<lambda>_ s. (Ret False, s)))"

definition scheduler_back :: "nat \<Rightarrow> 'z ptable_scheme \<Rightarrow> unit res \<times> 'z ptable_scheme" where
  "scheduler_back p s = release (ProcLock p) (s\<lparr>curproc := None\<rparr>)"

text \<open>Where \<^verbatim>\<open>either_copyout\<close> writes and \<^verbatim>\<open>either_copyin\<close> reads: a user address, a kernel
  address, or an object of the caller that is not kept in physical memory here, whose bytes
  the caller takes from or passes in the call.\<close>

datatype xdst = UserDst u64 | KernDst u64 | LocalDst

datatype xsrc = UserSrc u64 | KernSrc u64 | LocalSrc "u8 list"

definition either_copyout :: "xdst \<Rightarrow> u8 list \<Rightarrow> 'z ptable_scheme \<Rightarrow> int res \<times> 'z ptable_scheme" where
  "either_copyout dst src s = (case dst of
      UserDst a \<Rightarrow> myproc (\<lambda>p s. copyout (p_pagetable (procs s p)) a src s) s
    | KernDst a \<Rightarrow> (Ret 0, s\<lparr>mem := storeb (mem s) a src\<rparr>)
    | LocalDst \<Rightarrow> (Ret 0, s))"

definition either_copyin :: "xsrc \<Rightarrow> nat \<Rightarrow> 'z ptable_scheme \<Rightarrow> (int \<times> u8 list) res \<times> 'z ptable_scheme" where
  "either_copyin src len s = (case src of
      UserSrc a \<Rightarrow> myproc (\<lambda>p s. copyin (p_pagetable (procs s p)) a len s) s
    | KernSrc a \<Rightarrow> (Ret (0, loadb (mem s) a len), s)
    | LocalSrc bs \<Rightarrow> (Ret (0, take len bs), s))"

end
