(* ===== verification/Sched.thy ===== *)
theory Sched
  imports Proc
begin

text \<open>
  Scheduling: what \<^verbatim>\<open>wakeup\<close>, \<^verbatim>\<open>kill\<close>, \<^verbatim>\<open>sleep\<close>, \<^verbatim>\<open>yield\<close> and the scheduler do to the
  process table, the run of one CPU as a sequence of events with the per-process counters,
  and the interleaving of a sleeping and a waking process.
\<close>

section \<open>The operations in closed form\<close>

lemma setp_procs [simp]: "procs (setp i f s) = (procs s)(i := f (procs s i))"
  by (simp add: setp_def)

lemma setp_fields [simp]:
  "held (setp i f s) = held s" "curproc (setp i f s) = curproc s" "mem (setp i f s) = mem s"
  "freelist (setp i f s) = freelist s" "kend (setp i f s) = kend s" "nextpid (setp i f s) = nextpid s"
  "initproc (setp i f s) = initproc s"
  by (simp_all add: setp_def)

lemma setp_held [simp]: "(setp i f s)\<lparr>held := h\<rparr> = setp i f (s\<lparr>held := h\<rparr>)"
  by (simp add: setp_def)

definition no_plock :: "'z machine_scheme \<Rightarrow> bool" where
  "no_plock s \<longleftrightarrow> (\<forall>p. ProcLock p \<notin> set (held s))"

lemma no_plock_held [simp]: "no_plock s \<Longrightarrow> ProcLock p \<notin> set (held s)"
  by (simp add: no_plock_def)

definition woken :: "chan \<Rightarrow> nat option \<Rightarrow> proc \<Rightarrow> nat \<Rightarrow> proc" where
  "woken ch cur q i = (if cur \<noteq> Some i \<and> p_state q = SLEEPING \<and> p_chan q = ch
     then q\<lparr>p_state := RUNNABLE\<rparr> else q)"

lemma wakeup_loop_spec:
  assumes "no_plock s"
  shows "wakeup_loop ch ps s = (Ret (), s\<lparr>procs := (\<lambda>i. if i \<in> set ps
           then woken ch (curproc s) (procs s i) i else procs s i)\<rparr>)"
  using assms
proof (induction ps arbitrary: s)
  case (Cons p ps)
  let ?s = "s\<lparr>procs := (procs s)(p := woken ch (curproc s) (procs s p) p)\<rparr>"
  have "wakeup_loop ch (p # ps) s = wakeup_loop ch ps ?s"
    using Cons.prems by (simp add: woken_def setp_def Let_def)
  also have "\<dots> = (Ret (), ?s\<lparr>procs := (\<lambda>i. if i \<in> set ps
      then woken ch (curproc ?s) (procs ?s i) i else procs ?s i)\<rparr>)"
    using Cons.prems by (intro Cons.IH) (simp add: no_plock_def)
  also have "\<dots> = (Ret (), s\<lparr>procs := (\<lambda>i. if i \<in> set (p # ps)
      then woken ch (curproc s) (procs s i) i else procs s i)\<rparr>)"
    by (simp add: fun_eq_iff woken_def)
  finally show ?case .
qed simp

lemma wakeup_spec:
  "no_plock s \<Longrightarrow> wakeup ch s = (Ret (), s\<lparr>procs := (\<lambda>i. if i < NPROC
     then woken ch (curproc s) (procs s i) i else procs s i)\<rparr>)"
  by (simp add: wakeup_def wakeup_loop_spec)

definition struck :: "proc \<Rightarrow> proc" where
  "struck q = q\<lparr>p_killed := 1, p_state := (if p_state q = SLEEPING then RUNNABLE else p_state q)\<rparr>"

lemma kill_loop_spec:
  assumes "no_plock s"
  shows "kill_loop pid ps s = (case find (\<lambda>i. p_pid (procs s i) = pid) ps of
     None \<Rightarrow> (Ret (- 1), s) | Some i \<Rightarrow> (Ret 0, setp i struck s))"
  using assms by (induction ps) (auto simp: Let_def setp_def struck_def)

lemma kill_spec:
  "no_plock s \<Longrightarrow> kill pid s = (case find (\<lambda>i. p_pid (procs s i) = pid) [0..<NPROC] of
     None \<Rightarrow> (Ret (- 1), s) | Some i \<Rightarrow> (Ret 0, setp i struck s))"
  by (simp only: kill_def kill_loop_spec)

lemma killed_spec: "ProcLock p \<notin> set (held s) \<Longrightarrow> killed p s = (Ret (p_killed (procs s p)), s)"
  by (simp add: killed_def Let_def)

definition put_asleep :: "chan \<Rightarrow> proc \<Rightarrow> proc" where
  "put_asleep ch q = q\<lparr>sleepCount := sleepCount q + 1, p_chan := ch, p_state := SLEEPING\<rparr>"

definition preempted :: "proc \<Rightarrow> proc" where
  "preempted q = q\<lparr>p_state := RUNNABLE, preemptCount := preemptCount q + 1\<rparr>"

text \<open>\<^verbatim>\<open>sleep\<close> and \<^verbatim>\<open>yield\<close> reach the scheduler exactly when the caller holds no other lock.\<close>

lemma sleep_spec:
  assumes "curproc s = Some p" and "held s = lk # h" and "distinct (held s)" and "ProcLock p \<notin> set (held s)"
  shows "sleep ch lk s = (if h = [] then Swtch else Panic ''sched locks'',
           setp p (put_asleep ch) (s\<lparr>held := ProcLock p # h\<rparr>))"
  using assms by (auto simp: sleep_def myproc_def sched_def Let_def setp_def put_asleep_def)

lemma yield_spec:
  assumes "curproc s = Some p" and "held s = h" and "ProcLock p \<notin> set h"
  shows "yield s = (if h = [] then Swtch else Panic ''sched locks'',
           setp p preempted (s\<lparr>held := ProcLock p # h\<rparr>))"
  using assms by (auto simp: yield_def myproc_def sched_def Let_def setp_def preempted_def)

section \<open>One CPU as a sequence of events\<close>

text \<open>
  What happens on a CPU that runs scheduler and processes: the scheduler tries a slot, and a
  process it switches to first finishes the \<^verbatim>\<open>yield\<close> or \<^verbatim>\<open>sleep\<close> it had stopped in (the
  lock to take again after \<^verbatim>\<open>sleep\<close> is part of the event); the running process yields,
  sleeps, wakes others up, kills, or takes and releases locks.
\<close>

datatype sev = Pick nat lockid | Yield | Sleep chan lockid | Wakeup chan | Kill i32
  | Lock lockid | Unlock lockid

datatype act = Ran | Preempted | Slept

text \<open>The CPU goes from a process that has called \<^verbatim>\<open>sched\<close> back to the scheduler loop.\<close>

definition to_scheduler :: "act \<Rightarrow> unit res \<times> 'z ptable_scheme \<Rightarrow>
    (nat \<times> act) list res \<times> 'z ptable_scheme" where
  "to_scheduler a m = (case m of
      (Swtch, s) \<Rightarrow> myproc (\<lambda>p s. bnd (scheduler_back p s) (\<lambda>_ s. (Ret [(p, a)], s))) s
    | (Ret _, s) \<Rightarrow> (Ret [], s)
    | (Panic e, s) \<Rightarrow> (Panic e, s)
    | (Hang, s) \<Rightarrow> (Hang, s))"

primrec sched_ev :: "sev \<Rightarrow> 'z ptable_scheme \<Rightarrow> (nat \<times> act) list res \<times> 'z ptable_scheme" where
  "sched_ev (Pick p lk) s =
     (if curproc s \<noteq> None \<or> p \<ge> NPROC then (Ret [], s)
      else bnd (scheduler_pick p s) (\<lambda>b s.
        if b then
          bnd (if p_chan (procs s p) = NoChan then yield_resume s else sleep_resume lk s) (\<lambda>_ s.
          (Ret [(p, Ran)], s))
        else (Ret [], s)))"
| "sched_ev Yield s = to_scheduler Preempted (yield s)"
| "sched_ev (Sleep ch lk) s = to_scheduler Slept (sleep ch lk s)"
| "sched_ev (Wakeup ch) s = bnd (wakeup ch s) (\<lambda>_ s. (Ret [], s))"
| "sched_ev (Kill pid) s = bnd (kill pid s) (\<lambda>_ s. (Ret [], s))"
| "sched_ev (Lock l) s =
     (if curproc s = None then (Ret [], s) else bnd (acquire l s) (\<lambda>_ s. (Ret [], s)))"
| "sched_ev (Unlock l) s = bnd (release l s) (\<lambda>_ s. (Ret [], s))"

primrec sched_run :: "sev list \<Rightarrow> 'z ptable_scheme \<Rightarrow> (nat \<times> act) list res \<times> 'z ptable_scheme" where
  "sched_run [] s = (Ret [], s)"
| "sched_run (e # es) s =
     bnd (sched_ev e s) (\<lambda>h s. bnd (sched_run es s) (\<lambda>k s. (Ret (h @ k), s)))"

text \<open>The locks of an event are not process locks: those are only taken inside the
  operations above.\<close>

definition plain_lock :: "lockid \<Rightarrow> bool" where
  "plain_lock l \<longleftrightarrow> (case l of ProcLock _ \<Rightarrow> False | _ \<Rightarrow> True)"

definition plain :: "sev \<Rightarrow> bool" where
  "plain e \<longleftrightarrow> (case e of Pick _ l \<Rightarrow> plain_lock l | Sleep _ l \<Rightarrow> plain_lock l | Lock l \<Rightarrow> plain_lock l
     | _ \<Rightarrow> True)"

definition sched_ok :: "'z ptable_scheme \<Rightarrow> bool" where
  "sched_ok s \<longleftrightarrow> no_plock s \<and> distinct (held s) \<and> (curproc s = None \<longrightarrow> held s = []) \<and>
     (\<forall>i. p_state (procs s i) = RUNNING \<longleftrightarrow> curproc s = Some i)"

definition accounted :: "'z ptable_scheme \<Rightarrow> (nat \<times> act) list \<Rightarrow> 'z ptable_scheme \<Rightarrow> bool" where
  "accounted s h s' \<longleftrightarrow> (\<forall>i.
     runCount (procs s' i) = runCount (procs s i) + of_nat (count_list h (i, Ran)) \<and>
     preemptCount (procs s' i) = preemptCount (procs s i) + of_nat (count_list h (i, Preempted)) \<and>
     sleepCount (procs s' i) = sleepCount (procs s i) + of_nat (count_list h (i, Slept)) \<and>
     int (count_list h (i, Ran)) + (if curproc s = Some i then 1 else 0) =
       int (count_list h (i, Preempted)) + int (count_list h (i, Slept)) +
       (if curproc s' = Some i then 1 else 0))"

lemma accounted_refl: "accounted s [] s"
  by (simp add: accounted_def)

lemma accounted_trans:
  assumes 1: "accounted s h t" and 2: "accounted t k u"
  shows "accounted s (h @ k) u"
  unfolding accounted_def
proof (intro allI conjI)
  fix i
  show "runCount (procs u i) = runCount (procs s i) + of_nat (count_list (h @ k) (i, Ran))"
    "preemptCount (procs u i) = preemptCount (procs s i) + of_nat (count_list (h @ k) (i, Preempted))"
    "sleepCount (procs u i) = sleepCount (procs s i) + of_nat (count_list (h @ k) (i, Slept))"
    using 1 2 by (simp_all add: accounted_def algebra_simps)
  have "int (count_list h (i, Ran)) + (if curproc s = Some i then 1 else 0) =
      int (count_list h (i, Preempted)) + int (count_list h (i, Slept)) + (if curproc t = Some i then 1 else 0)"
    "int (count_list k (i, Ran)) + (if curproc t = Some i then 1 else 0) =
      int (count_list k (i, Preempted)) + int (count_list k (i, Slept)) + (if curproc u = Some i then 1 else 0)"
    using 1 2 by (simp_all add: accounted_def)
  then show "int (count_list (h @ k) (i, Ran)) + (if curproc s = Some i then 1 else 0) =
      int (count_list (h @ k) (i, Preempted)) + int (count_list (h @ k) (i, Slept)) +
      (if curproc u = Some i then 1 else 0)" by simp
qed

lemma pick_step:
  assumes "sched_ok s" and "plain_lock lk"
  shows "onret (sched_ev (Pick p lk) s) (\<lambda>h s'. sched_ok s' \<and> accounted s h s')"
proof (cases "curproc s = None \<and> p < NPROC")
  case True
  have st: "held s = []" "\<And>i. p_state (procs s i) \<noteq> RUNNING" using assms(1) True
    by (auto simp: sched_ok_def)
  have lk: "\<And>q. ProcLock q \<noteq> lk" using assms(2) by (auto simp: plain_lock_def)
  show ?thesis
  proof (cases "p_state (procs s p) = RUNNABLE")
    case run: True
    then show ?thesis using True st lk
      by (auto simp: scheduler_pick_def yield_resume_def sleep_resume_def myproc_def Let_def setp_def
          sched_ok_def no_plock_def accounted_def)
  next
    case False
    then show ?thesis using True st assms(1)
      by (auto simp: scheduler_pick_def accounted_def sched_ok_def no_plock_def)
  qed
qed (use assms in \<open>auto simp: accounted_def\<close>)

lemma yield_step:
  assumes "sched_ok s"
  shows "onret (sched_ev Yield s) (\<lambda>h s'. sched_ok s' \<and> accounted s h s')"
proof (cases "curproc s")
  case None
  then show ?thesis by (simp add: yield_def myproc_def to_scheduler_def)
next
  case (Some p)
  have "ProcLock p \<notin> set (held s)" using assms by (simp add: sched_ok_def)
  from yield_spec [OF Some refl this] show ?thesis
    using assms Some by (auto simp: to_scheduler_def myproc_def scheduler_back_def setp_def preempted_def
        sched_ok_def no_plock_def accounted_def)
qed

lemma sleep_step:
  assumes "sched_ok s" and "plain_lock lk"
  shows "onret (sched_ev (Sleep ch lk) s) (\<lambda>h s'. sched_ok s' \<and> accounted s h s')"
proof (cases "curproc s")
  case None
  then show ?thesis by (simp add: sleep_def myproc_def to_scheduler_def)
next
  case (Some p)
  have lk: "\<And>q. ProcLock q \<noteq> lk" using assms(2) by (auto simp: plain_lock_def)
  have st: "ProcLock p \<notin> set (held s)" "distinct (held s)" using assms(1) by (simp_all add: sched_ok_def)
  show ?thesis
  proof (cases "lk \<in> set (held s)")
    case True
    show ?thesis
    proof (cases "remove1 lk (held s) = []")
      case one: True
      then have "held s = [lk]" using True st(2) by (cases "held s") (auto split: if_splits)
      from sleep_spec [OF Some this _ st(1)] show ?thesis
        using assms(1) Some st by (auto simp: to_scheduler_def myproc_def scheduler_back_def setp_def
            put_asleep_def sched_ok_def no_plock_def accounted_def)
    next
      case False
      then show ?thesis using Some st lk True
        by (auto simp: sleep_def myproc_def sched_def Let_def to_scheduler_def)
    qed
  next
    case False
    then show ?thesis using Some st lk
      by (auto simp: sleep_def myproc_def Let_def to_scheduler_def release_def)
  qed
qed

lemma wakeup_step:
  assumes "sched_ok s"
  shows "onret (sched_ev (Wakeup ch) s) (\<lambda>h s'. sched_ok s' \<and> accounted s h s')"
proof -
  have "no_plock s" using assms by (simp add: sched_ok_def)
  from wakeup_spec [OF this] show ?thesis
    using assms by (auto simp: sched_ok_def no_plock_def accounted_def woken_def)
qed

lemma struck_fields [simp]:
  "p_state (struck q) = RUNNING \<longleftrightarrow> p_state q = RUNNING" "runCount (struck q) = runCount q"
  "preemptCount (struck q) = preemptCount q" "sleepCount (struck q) = sleepCount q"
  by (simp_all add: struck_def)

lemma kill_step:
  assumes "sched_ok s"
  shows "onret (sched_ev (Kill pid) s) (\<lambda>h s'. sched_ok s' \<and> accounted s h s')"
proof -
  have "no_plock s" using assms by (simp add: sched_ok_def)
  from kill_spec [OF this] show ?thesis
    using assms by (auto simp: sched_ok_def no_plock_def accounted_def split: option.splits)
qed

lemma sched_ev_step:
  assumes "sched_ok s" and "plain e"
  shows "onret (sched_ev e s) (\<lambda>h s'. sched_ok s' \<and> accounted s h s')"
proof (cases e)
  case (Lock l)
  then show ?thesis using assms
    by (auto simp: acquire_def sched_ok_def no_plock_def accounted_def plain_def plain_lock_def)
next
  case (Unlock l)
  then show ?thesis using assms
    by (auto simp: release_def sched_ok_def no_plock_def accounted_def dest: notin_set_remove1)
qed (use assms pick_step yield_step sleep_step wakeup_step kill_step in \<open>auto simp: plain_def simp del: sched_ev.simps\<close>)

lemma sched_run_accounted:
  assumes "sched_ok s" and "\<forall>e\<in>set es. plain e"
  shows "onret (sched_run es s) (\<lambda>h s'. sched_ok s' \<and> accounted s h s')"
  using assms
proof (induction es arbitrary: s)
  case Nil
  then show ?case by (simp add: accounted_refl)
next
  case (Cons e es)
  show ?case
  proof (cases "sched_ev e s")
    case (Pair r t)
    show ?thesis
    proof (cases r)
      case (Ret h)
      then have t: "sched_ok t" "accounted s h t"
        using sched_ev_step [OF Cons.prems(1), of e] Cons.prems(2) Pair by auto
      have "onret (sched_run es t) (\<lambda>k u. sched_ok u \<and> accounted t k u)"
        using Cons.IH [OF t(1)] Cons.prems(2) by simp
      then have "onret (sched_run es t) (\<lambda>k u. sched_ok u \<and> accounted s (h @ k) u)"
        using accounted_trans [OF t(2)] by (auto simp: onret_def split: prod.splits res.splits)
      then show ?thesis using Pair Ret by (simp add: wp)
    qed (use Pair in simp_all)
  qed
qed

section \<open>Properties\<close>

text \<open>
  C5. The scheduling counters count what they are named after. Along every sequence of
  scheduler passes, yields, sleeps, wakeups, kills and lock operations on a CPU that does
  not panic, the run, preemption and sleep counters of every process grow by exactly the
  number of times it was dispatched, yielded and went to sleep, and dispatches and
  give-ups balance up to the process that is running. In every state reached a process is
  in state RUNNING exactly when it is the current one.
\<close>

theorem sched_counters_exact:
  assumes "sched_ok s" and "\<forall>e\<in>set es. plain e" and "sched_run es s = (Ret h, s')"
  shows "(\<forall>i. p_state (procs s' i) = RUNNING \<longleftrightarrow> curproc s' = Some i) \<and>
    (\<forall>i. runCount (procs s' i) = runCount (procs s i) + of_nat (count_list h (i, Ran)) \<and>
         preemptCount (procs s' i) = preemptCount (procs s i) + of_nat (count_list h (i, Preempted)) \<and>
         sleepCount (procs s' i) = sleepCount (procs s i) + of_nat (count_list h (i, Slept)) \<and>
         int (count_list h (i, Ran)) + (if curproc s = Some i then 1 else 0) =
           int (count_list h (i, Preempted)) + int (count_list h (i, Slept)) +
           (if curproc s' = Some i then 1 else 0))"
  using onretD [OF sched_run_accounted [OF assms(1,2)] assms(3)]
  by (simp add: sched_ok_def accounted_def)

text \<open>Two processes, the first of which is run, waits on a channel and is woken by the second.\<close>

definition proc0 :: proc where
  "proc0 = \<lparr>p_state = UNUSED, p_chan = NoChan, p_killed = 0, p_xstate = 0, p_pid = 0, runCount = 0,
     systemcallCount = 0, interruptCount = 0, preemptCount = 0, trapCount = 0, sleepCount = 0,
     p_parent = None, p_kstack = 0, p_sz = 0, p_pagetable = 0, p_trapframe = 0,
     p_context = \<lparr>c_ra = 0, c_sp = 0, c_s = replicate 12 0\<rparr>, p_ofile = replicate 16 None,
     p_cwd = None, p_name = replicate 16 0\<rparr>"

definition ptable0 :: ptable where
  "ptable0 = \<lparr>held = [], mem = (\<lambda>_. 0), freelist = 0, kend = 0x80020000,
     procs = (\<lambda>i. if i < 2 then proc0\<lparr>p_state := RUNNABLE, p_pid := of_nat (Suc i)\<rparr> else proc0),
     nextpid = 3, curproc = None, initproc = Some 0, kernel_pagetable = 0, etext = 0x80010000,
     trampoline = 0x8000f000, forkret_addr = 0x80001234\<rparr>"

definition events0 :: "sev list" where
  "events0 = [Pick 0 TicksLock, Lock TicksLock, Sleep ChTicks TicksLock, Pick 0 TicksLock, Pick 1 TicksLock,
     Wakeup ChTicks, Yield, Pick 0 TicksLock, Unlock TicksLock]"

lemma ptable0_ok: "sched_ok ptable0"
  by (auto simp: sched_ok_def no_plock_def ptable0_def proc0_def)

lemma events0_run:
  "fst (sched_run events0 ptable0) = Ret [(0, Ran), (0, Slept), (1, Ran), (1, Preempted), (0, Ran)]"
  by code_simp

theorem sched_counters_exact_witness:
  "fst (sched_run events0 ptable0) = Ret [(0, Ran), (0, Slept), (1, Ran), (1, Preempted), (0, Ran)] \<and>
   runCount (procs (snd (sched_run events0 ptable0)) 0) = 2 \<and>
   sleepCount (procs (snd (sched_run events0 ptable0)) 0) = 1 \<and>
   preemptCount (procs (snd (sched_run events0 ptable0)) 1) = 1"
proof -
  obtain s' where s': "sched_run events0 ptable0 =
      (Ret [(0, Ran), (0, Slept), (1, Ran), (1, Preempted), (0, Ran)], s')"
    using events0_run by (cases "sched_run events0 ptable0") simp
  have "\<forall>e\<in>set events0. plain e" by (simp add: events0_def plain_def plain_lock_def)
  from sched_counters_exact [OF ptable0_ok this s'] s' show ?thesis
    by (simp add: ptable0_def proc0_def)
qed

end
