(* ===== verification/Sleepwake.thy ===== *)
theory Sleepwake
  imports Sched
begin

text \<open>
  The hand-over between \<^verbatim>\<open>sleep\<close> and \<^verbatim>\<open>wakeup\<close> (\<^verbatim>\<open>kernel/proc.c\<close>) when they run on two
  CPUs at the same time. The sleeper waits for a condition that the lock \<^verbatim>\<open>lk\<close> protects,
  in a loop around \<^verbatim>\<open>sleep\<close>; the waker sets the condition under \<^verbatim>\<open>lk\<close> and calls
  \<^verbatim>\<open>wakeup\<close>. Each step is one lock operation or one access to the shared fields.
\<close>

section \<open>Definitions\<close>

datatype who = Sleeper | Waker

text \<open>Where the sleeper is: before \<^verbatim>\<open>acquire(lk)\<close>; at the test of the condition; at
  \<^verbatim>\<open>acquire(&p->lock)\<close>, \<^verbatim>\<open>release(lk)\<close> and the assignments in \<^verbatim>\<open>sleep\<close>; in the
  scheduler with \<^verbatim>\<open>p->lock\<close> still held; switched out; switched in again; at the second
  \<^verbatim>\<open>acquire(lk)\<close>; and past the loop.\<close>

datatype spc = SStart | STest | SLockP | SRelLk | SMark | SInSched | SOut | SIn | SRelock | SDone

text \<open>Where the waker is: before \<^verbatim>\<open>acquire(lk)\<close>; at the assignment of the condition; at
  \<^verbatim>\<open>acquire(&p->lock)\<close> and the test in \<^verbatim>\<open>wakeup\<close>; at \<^verbatim>\<open>release(lk)\<close>; finished.\<close>

datatype wpc = WStart | WSet | WLockP | WTest | WRelLk | WDone

record handover =
  cond :: bool
  lk_owner :: "who option"
  p_owner :: "who option"
  sl_state :: procstate
  sl_chan :: bool          \<comment> \<open>\<^verbatim>\<open>p->chan\<close> is the channel of the condition\<close>
  s_at :: spc
  w_at :: wpc

definition handover_init :: handover where
  "handover_init = \<lparr>cond = False, lk_owner = None, p_owner = None, sl_state = RUNNING, sl_chan = False,
     s_at = SStart, w_at = WStart\<rparr>"

inductive hstep :: "handover \<Rightarrow> handover \<Rightarrow> bool" where
  s_lock: "s_at s = SStart \<Longrightarrow> lk_owner s = None \<Longrightarrow> hstep s (s\<lparr>lk_owner := Some Sleeper, s_at := STest\<rparr>)"
| s_true: "s_at s = STest \<Longrightarrow> cond s \<Longrightarrow> hstep s (s\<lparr>lk_owner := None, s_at := SDone\<rparr>)"
| s_false: "s_at s = STest \<Longrightarrow> \<not> cond s \<Longrightarrow> hstep s (s\<lparr>s_at := SLockP\<rparr>)"
| s_plock: "s_at s = SLockP \<Longrightarrow> p_owner s = None \<Longrightarrow> hstep s (s\<lparr>p_owner := Some Sleeper, s_at := SRelLk\<rparr>)"
| s_unlock: "s_at s = SRelLk \<Longrightarrow> hstep s (s\<lparr>lk_owner := None, s_at := SMark\<rparr>)"
| s_mark: "s_at s = SMark \<Longrightarrow> hstep s (s\<lparr>sl_chan := True, sl_state := SLEEPING, s_at := SInSched\<rparr>)"
| s_switch: "s_at s = SInSched \<Longrightarrow> hstep s (s\<lparr>p_owner := None, s_at := SOut\<rparr>)"
| s_pick: "s_at s = SOut \<Longrightarrow> p_owner s = None \<Longrightarrow> sl_state s = RUNNABLE \<Longrightarrow>
    hstep s (s\<lparr>p_owner := Some Sleeper, sl_state := RUNNING, s_at := SIn\<rparr>)"
| s_back: "s_at s = SIn \<Longrightarrow> hstep s (s\<lparr>sl_chan := False, p_owner := None, s_at := SRelock\<rparr>)"
| s_relock: "s_at s = SRelock \<Longrightarrow> lk_owner s = None \<Longrightarrow> hstep s (s\<lparr>lk_owner := Some Sleeper, s_at := STest\<rparr>)"
| w_lock: "w_at s = WStart \<Longrightarrow> lk_owner s = None \<Longrightarrow> hstep s (s\<lparr>lk_owner := Some Waker, w_at := WSet\<rparr>)"
| w_set: "w_at s = WSet \<Longrightarrow> hstep s (s\<lparr>cond := True, w_at := WLockP\<rparr>)"
| w_plock: "w_at s = WLockP \<Longrightarrow> p_owner s = None \<Longrightarrow> hstep s (s\<lparr>p_owner := Some Waker, w_at := WTest\<rparr>)"
| w_test: "w_at s = WTest \<Longrightarrow>
    hstep s (s\<lparr>sl_state := (if sl_state s = SLEEPING \<and> sl_chan s then RUNNABLE else sl_state s),
      p_owner := None, w_at := WRelLk\<rparr>)"
| w_unlock: "w_at s = WRelLk \<Longrightarrow> hstep s (s\<lparr>lk_owner := None, w_at := WDone\<rparr>)"

inductive hreach :: "handover \<Rightarrow> bool" where
  start: "hreach handover_init"
| step: "hreach s \<Longrightarrow> hstep s t \<Longrightarrow> hreach t"

section \<open>The invariant\<close>

definition hinv :: "handover \<Rightarrow> bool" where
  "hinv s \<longleftrightarrow>
     (lk_owner s = Some Sleeper \<longleftrightarrow> s_at s \<in> {STest, SLockP, SRelLk}) \<and>
     (lk_owner s = Some Waker \<longleftrightarrow> w_at s \<in> {WSet, WLockP, WTest, WRelLk}) \<and>
     (p_owner s = Some Sleeper \<longleftrightarrow> s_at s \<in> {SRelLk, SMark, SInSched, SIn}) \<and>
     (p_owner s = Some Waker \<longleftrightarrow> w_at s = WTest) \<and>
     (cond s \<longleftrightarrow> w_at s \<in> {WLockP, WTest, WRelLk, WDone}) \<and>
     (s_at s \<in> {SLockP, SRelLk} \<longrightarrow> \<not> cond s) \<and>
     (s_at s \<in> {SMark, SInSched} \<longrightarrow> w_at s \<in> {WStart, WSet, WLockP}) \<and>
     (s_at s = SInSched \<longrightarrow> sl_state s = SLEEPING \<and> sl_chan s) \<and>
     (s_at s = SOut \<longrightarrow> (sl_state s = SLEEPING \<and> sl_chan s \<and> w_at s \<notin> {WRelLk, WDone}) \<or>
        sl_state s = RUNNABLE \<and> cond s) \<and>
     (s_at s \<in> {SIn, SRelock} \<longrightarrow> cond s) \<and>
     (s_at s \<notin> {SInSched, SOut} \<longrightarrow> sl_state s = RUNNING)"

lemma hinv_init: "hinv handover_init"
  by (simp add: hinv_def handover_init_def)

lemma hinv_step: "hstep s t \<Longrightarrow> hinv s \<Longrightarrow> hinv t"
proof (induction rule: hstep.induct)
  case (s_lock s)
  then show ?case by (cases "w_at s") (auto simp: hinv_def)
next
  case (s_true s)
  then show ?case by (cases "w_at s") (auto simp: hinv_def)
next
  case (s_false s)
  then show ?case by (cases "w_at s") (auto simp: hinv_def)
next
  case (s_plock s)
  then show ?case by (cases "w_at s") (auto simp: hinv_def)
next
  case (s_unlock s)
  then show ?case by (cases "w_at s") (auto simp: hinv_def)
next
  case (s_mark s)
  then show ?case by (cases "w_at s") (auto simp: hinv_def)
next
  case (s_switch s)
  then show ?case by (cases "w_at s") (auto simp: hinv_def)
next
  case (s_pick s)
  then show ?case by (cases "w_at s") (auto simp: hinv_def)
next
  case (s_back s)
  then show ?case by (cases "w_at s") (auto simp: hinv_def)
next
  case (s_relock s)
  then show ?case by (cases "w_at s") (auto simp: hinv_def)
next
  case (w_lock s)
  then show ?case by (cases "s_at s") (auto simp: hinv_def)
next
  case (w_set s)
  then show ?case by (cases "s_at s") (auto simp: hinv_def)
next
  case (w_plock s)
  then show ?case by (cases "s_at s") (auto simp: hinv_def)
next
  case (w_test s)
  then show ?case by (cases "s_at s") (auto simp: hinv_def)
next
  case (w_unlock s)
  then show ?case by (cases "s_at s") (auto simp: hinv_def)
qed

lemma hreach_inv: "hreach s \<Longrightarrow> hinv s"
  by (induction rule: hreach.induct) (auto simp: hinv_init intro: hinv_step)

lemma lk_free:
  "hinv s \<Longrightarrow> s_at s \<notin> {STest, SLockP, SRelLk} \<Longrightarrow> w_at s \<notin> {WSet, WLockP, WTest, WRelLk} \<Longrightarrow>
   lk_owner s = None"
  by (cases "lk_owner s"; cases "the (lk_owner s)") (auto simp: hinv_def)

lemma p_free:
  "hinv s \<Longrightarrow> s_at s \<notin> {SRelLk, SMark, SInSched, SIn} \<Longrightarrow> w_at s \<noteq> WTest \<Longrightarrow> p_owner s = None"
  by (cases "p_owner s"; cases "the (p_owner s)") (auto simp: hinv_def)

text \<open>Unless both have finished, one of them can take a step.\<close>

lemma sleeper_can: "s_at s \<in> {STest, SRelLk, SMark, SInSched, SIn} \<Longrightarrow> \<exists>t. hstep s t"
  by (cases "cond s") (auto intro: hstep.intros)

lemma waker_progress:
  assumes "hinv s" and "w_at s \<noteq> WDone"
  shows "\<exists>t. hstep s t"
proof (cases "w_at s")
  case WStart
  show ?thesis
  proof (cases "s_at s \<in> {STest, SLockP, SRelLk}")
    case True
    then show ?thesis using sleeper_can p_free [OF assms(1)] WStart by (auto intro: hstep.s_plock)
  qed (use lk_free [OF assms(1)] WStart in \<open>auto intro: hstep.w_lock\<close>)
next
  case WLockP
  show ?thesis
  proof (cases "s_at s \<in> {SRelLk, SMark, SInSched, SIn}")
    case True
    then show ?thesis using sleeper_can by blast
  qed (use p_free [OF assms(1)] WLockP in \<open>auto intro: hstep.w_plock\<close>)
qed (use assms in \<open>auto intro: hstep.intros\<close>)

lemma hinv_progress:
  assumes "hinv s" and "s_at s \<noteq> SDone \<or> w_at s \<noteq> WDone"
  shows "\<exists>t. hstep s t"
proof (cases "w_at s = WDone")
  case True
  then show ?thesis
    using assms lk_free [OF assms(1)] p_free [OF assms(1)] sleeper_can [of s]
    by (cases "s_at s") (auto simp: hinv_def intro: hstep.s_lock hstep.s_pick hstep.s_relock hstep.s_plock)
next
  case False
  then show ?thesis using waker_progress [OF assms(1)] by simp
qed

text \<open>The number of steps the two still have to take.\<close>

definition s_rank :: "bool \<Rightarrow> spc \<Rightarrow> nat" where
  "s_rank c p = (case p of SStart \<Rightarrow> 10 | STest \<Rightarrow> (if c then 1 else 9) | SLockP \<Rightarrow> 8 | SRelLk \<Rightarrow> 7
     | SMark \<Rightarrow> 6 | SInSched \<Rightarrow> 5 | SOut \<Rightarrow> 4 | SIn \<Rightarrow> 3 | SRelock \<Rightarrow> 2 | SDone \<Rightarrow> 0)"

definition w_rank :: "wpc \<Rightarrow> nat" where
  "w_rank p = (case p of WStart \<Rightarrow> 5 | WSet \<Rightarrow> 4 | WLockP \<Rightarrow> 3 | WTest \<Rightarrow> 2 | WRelLk \<Rightarrow> 1 | WDone \<Rightarrow> 0)"

definition h_rank :: "handover \<Rightarrow> nat" where
  "h_rank s = s_rank (cond s) (s_at s) + w_rank (w_at s)"

lemma h_rank_step: "hstep s t \<Longrightarrow> hinv s \<Longrightarrow> h_rank t < h_rank s"
  by (induction rule: hstep.induct)
     (auto simp: hinv_def h_rank_def s_rank_def w_rank_def split: spc.splits)

section \<open>Property\<close>

text \<open>
  C6. No wakeup is lost. However the steps of the sleeping and the waking CPU interleave,
  there is no infinite run, a state in which neither can move is one in which both have
  finished, and once the waker has returned the sleeper is never left in state SLEEPING.
\<close>

theorem no_lost_wakeup:
  "\<not> (\<exists>f :: nat \<Rightarrow> handover. f 0 = handover_init \<and> (\<forall>i. hstep (f i) (f (Suc i)))) \<and>
   (\<forall>s. hreach s \<longrightarrow> \<not> (\<exists>t. hstep s t) \<longrightarrow> s_at s = SDone \<and> w_at s = WDone) \<and>
   (\<forall>s. hreach s \<longrightarrow> w_at s = WDone \<longrightarrow> sl_state s \<noteq> SLEEPING)"
proof (intro conjI allI impI notI)
  assume "\<exists>f :: nat \<Rightarrow> handover. f 0 = handover_init \<and> (\<forall>i. hstep (f i) (f (Suc i)))"
  then obtain f :: "nat \<Rightarrow> handover" where f: "f 0 = handover_init" "\<And>i. hstep (f i) (f (Suc i))" by blast
  have "hreach (f i)" for i by (induction i) (use f in \<open>auto intro: hreach.intros\<close>)
  then have "h_rank (f (Suc i)) < h_rank (f i)" for i using f(2) h_rank_step hreach_inv by blast
  then show False using wf_iff_no_infinite_down_chain [of "measure h_rank"] by (auto simp: wf_measure)
next
  fix s assume "hreach s" and "\<not> (\<exists>t. hstep s t)"
  then show "s_at s = SDone" "w_at s = WDone" using hinv_progress hreach_inv by blast+
next
  fix s assume "hreach s" and "w_at s = WDone" and "sl_state s = SLEEPING"
  then show False using hreach_inv [of s] by (auto simp: hinv_def)
qed

text \<open>A run in which the sleeper goes to sleep before the waker starts.\<close>

definition asleep0 :: handover where
  "asleep0 = \<lparr>cond = True, lk_owner = None, p_owner = None, sl_state = RUNNABLE, sl_chan = True,
     s_at = SOut, w_at = WDone\<rparr>"

lemma asleep0_reach: "hreach asleep0"
proof -
  note H = handover_init_def
  let ?s1 = "handover_init\<lparr>lk_owner := Some Sleeper, s_at := STest\<rparr>"
  let ?s2 = "?s1\<lparr>s_at := SLockP\<rparr>"
  let ?s3 = "?s2\<lparr>p_owner := Some Sleeper, s_at := SRelLk\<rparr>"
  let ?s4 = "?s3\<lparr>lk_owner := None, s_at := SMark\<rparr>"
  let ?s5 = "?s4\<lparr>sl_chan := True, sl_state := SLEEPING, s_at := SInSched\<rparr>"
  let ?s6 = "?s5\<lparr>p_owner := None, s_at := SOut\<rparr>"
  let ?t1 = "?s6\<lparr>lk_owner := Some Waker, w_at := WSet\<rparr>"
  let ?t2 = "?t1\<lparr>cond := True, w_at := WLockP\<rparr>"
  let ?t3 = "?t2\<lparr>p_owner := Some Waker, w_at := WTest\<rparr>"
  let ?t4 = "?t3\<lparr>sl_state := (if sl_state ?t3 = SLEEPING \<and> sl_chan ?t3 then RUNNABLE else sl_state ?t3),
      p_owner := None, w_at := WRelLk\<rparr>"
  let ?t5 = "?t4\<lparr>lk_owner := None, w_at := WDone\<rparr>"
  have "hreach ?s1" by (rule hreach.step [OF hreach.start hstep.s_lock]) (simp_all add: H)
  then have "hreach ?s2" by (rule hreach.step [OF _ hstep.s_false]) (simp_all add: H)
  then have "hreach ?s3" by (rule hreach.step [OF _ hstep.s_plock]) (simp_all add: H)
  then have "hreach ?s4" by (rule hreach.step [OF _ hstep.s_unlock]) (simp_all add: H)
  then have "hreach ?s5" by (rule hreach.step [OF _ hstep.s_mark]) (simp_all add: H)
  then have "hreach ?s6" by (rule hreach.step [OF _ hstep.s_switch]) (simp_all add: H)
  then have "hreach ?t1" by (rule hreach.step [OF _ hstep.w_lock]) (simp_all add: H)
  then have "hreach ?t2" by (rule hreach.step [OF _ hstep.w_set]) (simp_all add: H)
  then have "hreach ?t3" by (rule hreach.step [OF _ hstep.w_plock]) (simp_all add: H)
  then have "hreach ?t4" by (rule hreach.step [OF _ hstep.w_test]) (simp_all add: H)
  then have "hreach ?t5" by (rule hreach.step [OF _ hstep.w_unlock]) (simp_all add: H)
  moreover have "?t5 = asleep0" by (simp add: H asleep0_def)
  ultimately show ?thesis by simp
qed

theorem no_lost_wakeup_witness: "hreach asleep0 \<and> w_at asleep0 = WDone \<and> sl_state asleep0 \<noteq> SLEEPING"
  using no_lost_wakeup asleep0_reach by (auto simp: asleep0_def)

end
