(* ===== verification/Proctable.thy ===== *)
theory Proctable
  imports Sched
begin

text \<open>
  Allocation and release of process slots: \<^verbatim>\<open>allocproc\<close> and \<^verbatim>\<open>freeproc\<close> of
  \<^verbatim>\<open>kernel/proc.c\<close> touch one slot only, and process identifiers of live processes stay
  distinct.
\<close>

section \<open>Frames\<close>

lemma kframe_ptable:
  "kframe s t \<Longrightarrow> procs t = procs s \<and> nextpid t = nextpid s \<and> curproc t = curproc s \<and>
     initproc t = initproc s \<and> held t = held s"
  unfolding kframe_def by (cases s; cases t) simp

lemma kframe_procs: "kframe s t \<Longrightarrow> procs t = procs s"
  by (simp add: kframe_ptable)

text \<open>Only slot \<open>p\<close>, memory and the free list differ.\<close>

definition slot_only :: "nat \<Rightarrow> 'z ptable_scheme \<Rightarrow> 'z ptable_scheme \<Rightarrow> bool" where
  "slot_only p s t \<longleftrightarrow> held t = held s \<and> nextpid t = nextpid s \<and> curproc t = curproc s \<and>
     initproc t = initproc s \<and> (\<forall>i. i \<noteq> p \<longrightarrow> procs t i = procs s i)"

lemma slot_only_kframe: "slot_only p s t \<Longrightarrow> kframe t u \<Longrightarrow> slot_only p s u"
  using kframe_ptable [of t u] by (simp add: slot_only_def)

lemma slot_only_setp [simp]: "slot_only p s (setp p f t) \<longleftrightarrow> slot_only p s t"
  by (simp add: slot_only_def)

lemma slot_only_refl [simp]: "slot_only p s s"
  by (simp add: slot_only_def)

lemma onret_kpres:
  assumes "kpres m t" and "\<And>a u. kframe t u \<Longrightarrow> P a u"
  shows "onret m P"
  using assms by (auto simp: kpres_def onret_def split: prod.splits res.splits)

lemma proc_freepagetable_frame: "kpres (proc_freepagetable pt sz s) s"
  unfolding proc_freepagetable_def
  by (auto intro!: kpres_bnd uvmunmap_frame kpres_trans [OF uvmunmap_frame] kpres_trans [OF uvmfree_frame])

lemma proc_pagetable_frame: "kpres (proc_pagetable p s) s"
  unfolding proc_pagetable_def
  by (auto intro!: kpres_bnd kpres_if uvmcreate_frame kpres_trans [OF mappages_frame]
      kpres_trans [OF uvmfree_frame] kpres_trans [OF uvmunmap_frame])

text \<open>\<open>holds p s q t\<close>: only slot \<open>p\<close> differs, and it is \<open>q\<close>.\<close>

definition holds :: "nat \<Rightarrow> 'z ptable_scheme \<Rightarrow> proc \<Rightarrow> 'z ptable_scheme \<Rightarrow> bool" where
  "holds p s q t \<longleftrightarrow> slot_only p s t \<and> procs t p = q \<and> forkret_addr t = forkret_addr s"

lemma kframe_forkret: "kframe s t \<Longrightarrow> forkret_addr t = forkret_addr s"
  unfolding kframe_def by (cases s; cases t) simp

lemma holds_kframe: "holds p s q t \<Longrightarrow> kframe t u \<Longrightarrow> holds p s q u"
  using slot_only_kframe [of p s t u] kframe_procs [of t u] kframe_forkret [of t u] by (simp add: holds_def)

lemma onret_holds: "kpres m t \<Longrightarrow> holds p s q t \<Longrightarrow> onret m (\<lambda>_ u. holds p s q u)"
  by (rule onret_kpres) (auto intro: holds_kframe)

lemma holds_setp: "holds p s q t \<Longrightarrow> holds p s (f q) (setp p f t)"
  by (simp add: holds_def) (simp add: setp_def)

text \<open>A slot after \<^verbatim>\<open>freeproc\<close>.\<close>

definition freed :: "proc \<Rightarrow> proc" where
  "freed q = q\<lparr>p_state := UNUSED, p_chan := NoChan, p_killed := 0, p_xstate := 0, p_pid := 0, p_parent := None, p_sz := 0,
     p_pagetable := 0, p_trapframe := 0, p_name := (p_name q)[0 := 0]\<rparr>"

lemma freed_reset: "freeproc_reset (q\<lparr>p_trapframe := 0\<rparr>) = freed q"
  by (cases q) (simp add: freeproc_reset_def freed_def)

lemma freeproc_spec:
  assumes "holds p s q t"
  shows "onret (freeproc p t) (\<lambda>_ s'. holds p s (freed q) s')"
  unfolding freeproc_def Let_def
proof (rule onret_bndI)
  show "onret (if p_trapframe (procs t p) \<noteq> 0 then kfree (p_trapframe (procs t p)) t else (Ret (), t))
      (\<lambda>_ u. holds p s q u)"
    using assms onret_holds [OF kfree_frame assms] by simp
next
  fix a u assume "holds p s q u"
  then have u: "holds p s (q\<lparr>p_trapframe := 0\<rparr>) (setp p (\<lambda>q. q\<lparr>p_trapframe := 0\<rparr>) u)" by (rule holds_setp)
  let ?u = "setp p (\<lambda>q. q\<lparr>p_trapframe := 0\<rparr>) u"
  have "onret (if p_pagetable (procs ?u p) \<noteq> 0
      then proc_freepagetable (p_pagetable (procs ?u p)) (p_sz (procs ?u p)) ?u else (Ret (), ?u))
      (\<lambda>_ v. holds p s (q\<lparr>p_trapframe := 0\<rparr>) v)"
    using u onret_holds [OF proc_freepagetable_frame u] by simp
  then show "onret (bnd (if p_pagetable (procs ?u p) \<noteq> 0
      then proc_freepagetable (p_pagetable (procs ?u p)) (p_sz (procs ?u p)) ?u else (Ret (), ?u))
      (\<lambda>_ s. (Ret (), setp p freeproc_reset s)))
      (\<lambda>_ s'. holds p s (freed q) s')"
  proof (rule onret_bndI)
    fix a v assume "holds p s (q\<lparr>p_trapframe := 0\<rparr>) v"
    from holds_setp [OF this, of freeproc_reset]
    show "onret (Ret (), setp p freeproc_reset v) (\<lambda>_ s'. holds p s (freed q) s')" by (simp add: freed_reset)
  qed
qed

lemma allocproc_find_spec:
  assumes "no_plock s"
  shows "allocproc_find ps s = (case find (\<lambda>i. p_state (procs s i) = UNUSED) ps of
     None \<Rightarrow> (Ret None, s) | Some p \<Rightarrow> (Ret (Some p), s\<lparr>held := ProcLock p # held s\<rparr>))"
  using assms by (induction ps) auto

lemma allocpid_spec:
  "PidLock \<notin> set (held s) \<Longrightarrow> allocpid s = (Ret (nextpid s), s\<lparr>nextpid := nextpid s + 1\<rparr>)"
  by (simp add: allocpid_def Let_def)

text \<open>A slot as \<^verbatim>\<open>allocproc\<close> sets it up: it will start at \<^verbatim>\<open>forkret\<close> on its own kernel stack.\<close>

definition set_up :: "proc \<Rightarrow> i32 \<Rightarrow> u64 \<Rightarrow> u64 \<Rightarrow> u64 \<Rightarrow> proc" where
  "set_up q pid tf pt ra = q\<lparr>p_pid := pid, p_state := USED, p_trapframe := tf, p_pagetable := pt,
     p_context := \<lparr>c_ra = ra, c_sp = p_kstack q + PGSIZE, c_s = replicate 12 0\<rparr>\<rparr>"

text \<open>What \<^verbatim>\<open>allocproc\<close> does after it has found the slot \<open>p\<close> and locked it.\<close>

definition claimed :: "nat \<Rightarrow> i32 \<Rightarrow> 'z ptable_scheme \<Rightarrow> nat option \<Rightarrow> 'z ptable_scheme \<Rightarrow> bool" where
  "claimed p pid s r s' \<longleftrightarrow> (case r of
     None \<Rightarrow> held s' = remove1 (ProcLock p) (held s) \<and> holds p (s\<lparr>held := held s'\<rparr>) (freed (procs s p)) s'
   | Some q \<Rightarrow> q = p \<and> (\<exists>tf pt. tf \<noteq> 0 \<and> pt \<noteq> 0 \<and> holds p s (set_up (procs s p) pid tf pt (forkret_addr s)) s'))"

lemma allocproc_undo_spec:
  assumes "holds p s q t" and "freed q = freed (procs s p)" and "ProcLock p \<in> set (held s)"
  shows "onret (allocproc_undo p t) (claimed p pid s)"
  unfolding allocproc_undo_def
  by (rule onret_bndI [OF freeproc_spec [OF assms(1)]])
     (use assms(2,3) in \<open>auto simp: holds_def slot_only_def claimed_def\<close>)

lemma allocproc_pagetable_spec:
  assumes "holds p s ((procs s p)\<lparr>p_pid := pid, p_state := USED, p_trapframe := tf\<rparr>) t"
    and "ProcLock p \<in> set (held s)" and "tf \<noteq> 0"
  shows "onret (allocproc_pagetable p t) (claimed p pid s)"
  unfolding allocproc_pagetable_def Let_def
proof (rule onret_bndI [OF onret_kpres [OF proc_pagetable_frame]])
  fix u assume "kframe t u"
  then show "holds p s ((procs s p)\<lparr>p_pid := pid, p_state := USED, p_trapframe := tf\<rparr>) u" by (rule holds_kframe [OF assms(1)])
next
  fix pt u assume "holds p s ((procs s p)\<lparr>p_pid := pid, p_state := USED, p_trapframe := tf\<rparr>) u"
  from holds_setp [OF this, of "\<lambda>q. q\<lparr>p_pagetable := pt\<rparr>"]
  have u: "holds p s ((procs s p)\<lparr>p_pid := pid, p_state := USED, p_trapframe := tf, p_pagetable := pt\<rparr>) (setp p (\<lambda>q. q\<lparr>p_pagetable := pt\<rparr>) u)"
    (is "holds p s ?q ?u") by simp
  have fr: "forkret_addr ?u = forkret_addr s" using u by (simp add: holds_def)
  let ?f = "\<lambda>q. q\<lparr>p_context := \<lparr>c_ra = forkret_addr ?u, c_sp = p_kstack q + PGSIZE, c_s = replicate 12 0\<rparr>\<rparr>"
  have "holds p s (set_up (procs s p) pid tf pt (forkret_addr s)) (setp p ?f ?u)"
    using holds_setp [OF u, of ?f] unfolding fr by (simp add: set_up_def)
  then have "claimed p pid s (Some p) (setp p ?f ?u)" if "pt \<noteq> 0" using assms(3) that by (auto simp: claimed_def)
  moreover have "onret (allocproc_undo p ?u) (claimed p pid s)"
    by (rule allocproc_undo_spec [OF u _ assms(2)]) (simp add: freed_def)
  ultimately show "onret (if pt = 0 then allocproc_undo p ?u else (Ret (Some p), setp p ?f ?u)) (claimed p pid s)"
    by (cases "pt = 0") simp_all
qed

lemma allocproc_found_spec:
  assumes "PidLock \<notin> set (held s)" and "ProcLock p \<in> set (held s)"
  shows "onret (allocproc_found p s) (claimed p (nextpid s) (s\<lparr>nextpid := nextpid s + 1\<rparr>))"
proof -
  let ?s = "s\<lparr>nextpid := nextpid s + 1\<rparr>" and ?q = "(procs s p)\<lparr>p_pid := nextpid s, p_state := USED\<rparr>"
  let ?t = "setp p (\<lambda>q. q\<lparr>p_pid := nextpid s, p_state := USED\<rparr>) ?s"
  have "holds p ?s (procs s p) ?s" by (simp add: holds_def)
  then have t: "holds p ?s ?q ?t" by (rule holds_setp)
  have "onret (bnd (kalloc ?t) (\<lambda>tf s. let s = setp p (\<lambda>q. q\<lparr>p_trapframe := tf\<rparr>) s in
     if tf = 0 then allocproc_undo p s else allocproc_pagetable p s)) (claimed p (nextpid s) ?s)"
  proof (rule onret_bndI [OF onret_kpres [OF kalloc_frame]])
    fix u assume "kframe ?t u"
    then show "holds p ?s ?q u" by (rule holds_kframe [OF t])
  next
    fix tf u assume "holds p ?s ?q u"
    from holds_setp [OF this, of "\<lambda>q. q\<lparr>p_trapframe := tf\<rparr>"]
    have u: "holds p ?s ((procs ?s p)\<lparr>p_pid := nextpid s, p_state := USED, p_trapframe := tf\<rparr>) (setp p (\<lambda>q. q\<lparr>p_trapframe := tf\<rparr>) u)"
      by simp
    have "onret (allocproc_undo p (setp p (\<lambda>q. q\<lparr>p_trapframe := tf\<rparr>) u)) (claimed p (nextpid s) ?s)"
      by (rule allocproc_undo_spec [OF u]) (use assms(2) in \<open>simp_all add: freed_def\<close>)
    with allocproc_pagetable_spec [OF u] assms(2)
    show "onret (let s = setp p (\<lambda>q. q\<lparr>p_trapframe := tf\<rparr>) u in
        if tf = 0 then allocproc_undo p s else allocproc_pagetable p s) (claimed p (nextpid s) ?s)"
      by (auto simp: Let_def)
  qed
  then show ?thesis by (simp add: allocproc_found_def allocpid_spec [OF assms(1)] Let_def)
qed

section \<open>Process identifiers\<close>

definition live :: "'z ptable_scheme \<Rightarrow> nat \<Rightarrow> bool" where
  "live s i \<longleftrightarrow> i < NPROC \<and> p_state (procs s i) \<noteq> UNUSED"

text \<open>Live processes have distinct, positive identifiers below the next one to be handed out.\<close>

definition pid_ok :: "'z ptable_scheme \<Rightarrow> bool" where
  "pid_ok s \<longleftrightarrow> 0 < sint (nextpid s) \<and>
     (\<forall>i. live s i \<longrightarrow> 0 < sint (p_pid (procs s i)) \<and> sint (p_pid (procs s i)) < sint (nextpid s)) \<and>
     (\<forall>i j. live s i \<longrightarrow> live s j \<longrightarrow> p_pid (procs s i) = p_pid (procs s j) \<longrightarrow> i = j)"

lemma sint_succ: "sint (x :: i32) < 2 ^ 31 - 1 \<Longrightarrow> sint (x + 1) = sint x + 1"
  using sint_ge [of x] by (simp add: sint_word_ariths signed_take_bit_int_eq_self)

lemma find_unused:
  assumes "find (\<lambda>i. p_state (procs s i) = UNUSED) [0..<NPROC] = Some p"
  shows "p < NPROC" and "p_state (procs s p) = UNUSED"
  using assms by (auto simp: find_Some_iff)

lemma claimed_pid_ok:
  assumes ok: "pid_ok s" and of: "sint (nextpid s) < 2 ^ 31 - 1"
    and p: "p < NPROC" "p_state (procs s p) = UNUSED"
    and c: "claimed p (nextpid s) (s\<lparr>held := h, nextpid := nextpid s + 1\<rparr>) r s'"
  shows "pid_ok s'"
proof -
  have np: "nextpid s' = nextpid s + 1" and other: "\<And>i. i \<noteq> p \<Longrightarrow> procs s' i = procs s i"
    using c by (auto simp: claimed_def holds_def slot_only_def split: option.splits)
  have nx: "sint (nextpid s') = sint (nextpid s) + 1" using sint_succ [OF of] np by simp
  have lv: "live s i \<and> procs s' i = procs s i" if "live s' i" "i \<noteq> p" for i
    using that other by (simp add: live_def)
  have new: "p_pid (procs s' p) = nextpid s" if "live s' p"
    using c that by (auto simp: claimed_def holds_def freed_def set_up_def live_def split: option.splits)
  show ?thesis unfolding pid_ok_def
  proof (intro conjI allI impI)
    show "0 < sint (nextpid s')" using ok nx by (simp add: pid_ok_def)
  next
    fix i assume i: "live s' i"
    show "0 < sint (p_pid (procs s' i))" "sint (p_pid (procs s' i)) < sint (nextpid s')"
      using ok nx lv [OF i] new i by (cases "i = p"; force simp: pid_ok_def)+
  next
    fix i j assume ij: "live s' i" "live s' j" "p_pid (procs s' i) = p_pid (procs s' j)"
    have ne: "p_pid (procs s k) \<noteq> nextpid s" if "live s k" for k using ok that by (auto simp: pid_ok_def)
    show "i = j"
    proof (cases "i = p \<or> j = p")
      case True
      then show ?thesis using ij lv [OF ij(1)] lv [OF ij(2)] new ne by metis
    next
      case False
      then show ?thesis using ok ij lv [OF ij(1)] lv [OF ij(2)] by (simp add: pid_ok_def)
    qed
  qed
qed

section \<open>Properties\<close>

text \<open>
  C8. \<^verbatim>\<open>allocproc\<close> hands out an unused slot with an identifier no live process has. Whenever it
  returns, and as long as the identifier counter is below 2^31 - 1, live identifiers stay distinct and
  below the counter. A slot that is returned was unused; it is locked, in state USED, with the next
  identifier, a trapframe, a page table, and a context that starts at \<^verbatim>\<open>forkret\<close> on the top of the slot's
  kernel stack; nothing else of it changes, so that it starts with the scheduling counters of the last
  process that had it, and no other slot changes. When none is returned, the locks are as before and
  either every slot was in use and no slot has changed, or one unused slot is reset, unused as it
  was, and an identifier has been used up.
\<close>

theorem allocproc_fresh:
  assumes "pid_ok s" and "no_plock s" and "PidLock \<notin> set (held s)" and "sint (nextpid s) < 2 ^ 31 - 1"
    and "allocproc s = (Ret r, s')"
  shows "pid_ok s' \<and> (case r of
      None \<Rightarrow> held s' = held s \<and> (
        (\<forall>i < NPROC. live s i) \<and> s' = s \<or>
        (\<exists>p < NPROC. \<not> live s p \<and> nextpid s' = nextpid s + 1 \<and> procs s' = (procs s)(p := (procs s p)\<lparr>p_state := UNUSED,
           p_chan := NoChan, p_killed := 0, p_xstate := 0, p_pid := 0, p_parent := None, p_sz := 0, p_pagetable := 0,
           p_trapframe := 0, p_name := (p_name (procs s p))[0 := 0]\<rparr>)))
    | Some p \<Rightarrow> p < NPROC \<and> \<not> live s p \<and> held s' = ProcLock p # held s \<and> nextpid s' = nextpid s + 1 \<and>
        (\<exists>tf pt. tf \<noteq> 0 \<and> pt \<noteq> 0 \<and> procs s' = (procs s)(p := (procs s p)\<lparr>p_pid := nextpid s, p_state := USED,
           p_trapframe := tf, p_pagetable := pt, p_context := \<lparr>c_ra = forkret_addr s, c_sp = p_kstack (procs s p) + PGSIZE,
             c_s = replicate 12 0\<rparr>\<rparr>)))"
proof (cases "find (\<lambda>i. p_state (procs s i) = UNUSED) [0..<NPROC]")
  case None
  then have "r = None" "s' = s"
    using assms(2,5) allocproc_find_spec [OF assms(2)] by (simp_all add: allocproc_def)
  moreover have "\<forall>i < NPROC. live s i" using None by (auto simp: find_None_iff live_def)
  ultimately show ?thesis using assms(1) by simp
next
  case (Some p)
  note p = find_unused [OF Some]
  let ?s = "s\<lparr>held := ProcLock p # held s\<rparr>"
  have "allocproc_found p ?s = (Ret r, s')"
    using assms(5) Some allocproc_find_spec [OF assms(2)] by (simp add: allocproc_def)
  from onretD [OF allocproc_found_spec this] assms(3)
  have c: "claimed p (nextpid s) (s\<lparr>held := ProcLock p # held s, nextpid := nextpid s + 1\<rparr>) r s'" by simp
  have ok: "pid_ok s'" by (rule claimed_pid_ok [OF assms(1,4) p c])
  have nl: "p < NPROC" "\<not> live s p" using p by (simp_all add: live_def)
  show ?thesis
  proof (cases r)
    case None
    then have h: "held s' = held s" "nextpid s' = nextpid s + 1" "procs s' = (procs s)(p := freed (procs s p))"
      using c by (auto simp: claimed_def holds_def slot_only_def fun_eq_iff)
    then show ?thesis unfolding None freed_def using ok nl by auto
  next
    case (Some q)
    then obtain tf pt where h: "tf \<noteq> 0" "pt \<noteq> 0" "q = p" "held s' = ProcLock p # held s" "nextpid s' = nextpid s + 1"
        "procs s' = (procs s)(p := set_up (procs s p) (nextpid s) tf pt (forkret_addr s))"
      using c by (auto simp: claimed_def holds_def slot_only_def fun_eq_iff)
    then show ?thesis unfolding Some set_up_def using ok nl by auto
  qed
qed

text \<open>A table with a free slot and four free pages, which is what a new process takes.\<close>

definition ptable2 :: ptable where
  "ptable2 = ptable0\<lparr>freelist := 0x80021000, mem := store64 (store64 (store64 (\<lambda>_. 0) 0x80021000 0x80022000)
     0x80022000 0x80023000) 0x80023000 0x80024000\<rparr>"

lemma load64_memset_sep: "sep p 4096 a 8 \<Longrightarrow> load64 (memset m p c 4096) a = load64 m a"
  by (simp add: memset_storeb load64_storeb_sep)

lemma load64_memset_zero:
  assumes "unat (a - p) \<le> 4088" shows "load64 (memset m p 0 4096) a = 0"
proof -
  have "memset m p 0 4096 (a + of_nat i) = 0" if "i < 8" for i
  proof -
    have "unat (a - p + of_nat i) = unat (a - p) + i" using assms that by (intro unat_add_nat) simp
    moreover have "a + of_nat i - p = a - p + of_nat i" by simp
    ultimately have "unat (a + of_nat i - p) < 4096" using assms that by (simp only:)
    then show ?thesis by (simp add: memset_storeb storeb_def)
  qed
  then have "loadb (memset m p 0 4096) a 8 = replicate 8 0" by (auto intro!: nth_equalityI)
  then show ?thesis by (simp add: load64_def numeral_eq_Suc)
qed

lemma kalloc_pop:
  "KmemLock \<notin> set (held s) \<Longrightarrow> freelist s \<noteq> 0 \<Longrightarrow> kalloc s = (Ret (freelist s),
     s\<lparr>freelist := load64 (mem s) (freelist s), mem := memset (mem s) (freelist s) 5 4096\<rparr>)"
  by (simp add: kalloc_def Let_def)

lemma walk_levels:
  "va < MAXVA \<Longrightarrow> walk pt va al s = bnd (walk_step pt va 2 al s) (\<lambda>r s. case r of None \<Rightarrow> (Ret 0, s) | Some pt \<Rightarrow>
     bnd (walk_step pt va 1 al s) (\<lambda>r s. case r of None \<Rightarrow> (Ret 0, s) | Some pt \<Rightarrow> (Ret (pt + 8 * PX 0 va), s)))"
  unfolding walk_def numeral_2_eq_2 walk_loop.simps One_nat_def by (auto simp: not_less)

lemma mappages_one:
  assumes "walk pt va True s = (Ret pte, t)" and "pte \<noteq> 0" and "load64 (mem t) pte AND PTE_V = 0"
    and "PGROUNDDOWN va = va" and "PGROUNDDOWN (va + PGSIZE - 1) = va"
  shows "mappages pt va PGSIZE pa perm s = (Ret 0, t\<lparr>mem := store64 (mem t) pte (PA2PTE pa OR perm OR PTE_V)\<rparr>)"
  using assms by (simp add: mappages_def mappages_loop.simps [of pt va] Let_def)

lemma proc_pagetable2:
  assumes "KmemLock \<notin> set (held s)" and "freelist s = 0x80022000"
    and "mem s = memset (mem ptable2) 0x80021000 5 4096"
  shows "\<exists>s'. proc_pagetable p s = (Ret 0x80022000, s')"
proof -
  have l: "load64 (mem s) 0x80022000 = 0x80023000" "load64 (mem s) 0x80023000 = 0x80024000" "load64 (mem s) 0x80024000 = 0"
    unfolding assms(3) by (simp_all add: ptable2_def load64_memset_sep load64_store64_sep load_zero sep_def)
  have k: "kalloc s = (Ret 0x80022000, s\<lparr>freelist := 0x80023000, mem := memset (mem s) 0x80022000 5 4096\<rparr>)"
    using kalloc_pop [OF assms(1)] assms(2) l by simp
  have u: "uvmcreate s = (Ret 0x80022000, s\<lparr>freelist := 0x80023000, mem := memset (memset (mem s) 0x80022000 5 4096) 0x80022000 0 4096\<rparr>)"
    by (simp add: uvmcreate_def k)
  define m where "m = memset (memset (mem s) 0x80022000 5 4096) 0x80022000 0 4096"
  define m1 where "m1 = store64 (memset (memset m 0x80023000 5 4096) 0x80023000 0 4096) 0x800227f8 0x20008c01"
  define m2 where "m2 = store64 (memset (memset m1 0x80024000 5 4096) 0x80024000 0 4096) 0x80023ff8 0x20009001"
  define m3 where "m3 = store64 m2 0x80024ff8 (PA2PTE (trampoline s) OR (PTE_R OR PTE_X) OR PTE_V)"
  note ld = load64_memset_sep load64_memset_zero load64_store64_sep sep_def
  have lm: "load64 m 0x800227f8 = 0" "load64 m 0x80023000 = 0x80024000" "load64 m 0x80024000 = 0"
    using l by (simp_all add: m_def ld)
  have lm1: "load64 m1 0x80023ff8 = 0" "load64 m1 0x80024000 = 0" using lm by (simp_all add: m1_def ld)
  have lm2: "load64 m2 0x80024ff8 = 0" "load64 m3 0x800227f8 = 0x20008c01" "load64 m3 0x80023ff8 = 0x20009001" "load64 m3 0x80024ff0 = 0"
    by (simp_all add: m3_def m2_def m1_def ld)
  have px: "PX 2 0x3ffffff000 = 255" "PX 1 0x3ffffff000 = 511" "PX (Suc 0) 0x3ffffff000 = 511" "PX 0 0x3ffffff000 = 511"
    "PX 2 0x3fffffe000 = 255" "PX 1 0x3fffffe000 = 511" "PX (Suc 0) 0x3fffffe000 = 511" "PX 0 0x3fffffe000 = 510"
    by (simp_all add: PX_def)
  have w1: "walk 0x80022000 TRAMPOLINE True (s\<lparr>freelist := 0x80023000, mem := m\<rparr>) = (Ret 0x80024ff8, s\<lparr>freelist := 0, mem := m2\<rparr>)"
    using assms(1) lm lm1
    by (simp add: walk_levels walk_step_def px PA2PTE_def kalloc_pop Let_def m1_def [symmetric]) (simp add: m2_def)
  have w2: "walk 0x80022000 TRAPFRAME True (s\<lparr>freelist := 0, mem := m3\<rparr>) = (Ret 0x80024ff0, s\<lparr>freelist := 0, mem := m3\<rparr>)"
    using lm2 by (simp add: walk_levels walk_step_def px PTE2PA_def)
  have "mappages 0x80022000 TRAMPOLINE PGSIZE (trampoline s) (PTE_R OR PTE_X) (s\<lparr>freelist := 0x80023000, mem := m\<rparr>) = (Ret 0, s\<lparr>freelist := 0, mem := m3\<rparr>)"
    using mappages_one [OF w1] lm2(1) by (simp add: PGROUNDDOWN_def m3_def)
  moreover obtain t where "mappages 0x80022000 TRAPFRAME PGSIZE (p_trapframe (procs s p)) (PTE_R OR PTE_W) (s\<lparr>freelist := 0, mem := m3\<rparr>) = (Ret 0, t)"
    using mappages_one [OF w2] lm2(4) by (simp add: PGROUNDDOWN_def)
  ultimately show ?thesis using u unfolding m_def [symmetric] by (simp add: proc_pagetable_def)
qed

lemma allocproc_runs: "fst (allocproc ptable0) = Ret None" "\<exists>s'. allocproc ptable2 = (Ret (Some 2), s')"
proof -
  show "fst (allocproc ptable0) = Ret None" by code_simp
  have np: "no_plock ptable2" by (simp add: no_plock_def ptable2_def ptable0_def)
  have "find (\<lambda>i. p_state (procs ptable2 i) = UNUSED) [0..<NPROC] = Some 2" by code_simp
  then have f: "allocproc ptable2 = allocproc_found 2 (ptable2\<lparr>held := [ProcLock 2]\<rparr>)"
    using allocproc_find_spec [OF np, of "[0..<NPROC]"] by (simp add: allocproc_def) (simp add: ptable2_def ptable0_def)
  have l: "load64 (mem ptable2) 0x80021000 = 0x80022000" by (simp add: ptable2_def load64_store64_sep sep_def)
  have e: "freelist ptable2 = 0x80021000" "held ptable2 = []" by (simp_all add: ptable2_def ptable0_def)
  define t where "t = setp 2 (\<lambda>q. q\<lparr>p_pid := nextpid ptable2, p_state := USED, p_trapframe := 0x80021000\<rparr>) (ptable2\<lparr>held := [ProcLock 2],
    nextpid := nextpid ptable2 + 1, freelist := 0x80022000, mem := memset (mem ptable2) 0x80021000 5 4096\<rparr>)"
  have "allocproc_found 2 (ptable2\<lparr>held := [ProcLock 2]\<rparr>) = allocproc_pagetable 2 t"
    using l e by (simp add: allocproc_found_def allocpid_spec kalloc_pop setp_def t_def Let_def)
  moreover obtain s' where "proc_pagetable 2 t = (Ret 0x80022000, s')"
    using proc_pagetable2 [of t 2] by (auto simp: t_def setp_def)
  ultimately show "\<exists>s'. allocproc ptable2 = (Ret (Some 2), s')" unfolding f by (simp add: allocproc_pagetable_def Let_def)
qed

theorem allocproc_fresh_witness:
  "\<exists>s0 s2. allocproc ptable0 = (Ret None, s0) \<and> allocproc ptable2 = (Ret (Some 2), s2) \<and> pid_ok s0 \<and> pid_ok s2 \<and>
     held s0 = [] \<and> p_pid (procs s0 1) = 2 \<and> p_state (procs s2 2) = USED \<and> p_pid (procs s2 2) = 3 \<and>
     c_ra (p_context (procs s2 2)) = 0x80001234 \<and> c_sp (p_context (procs s2 2)) = 4096 \<and> procs s2 1 = procs ptable2 1"
proof -
  have i: "pid_ok ptable0" "no_plock ptable0" "PidLock \<notin> set (held ptable0)" "sint (nextpid ptable0) < 2 ^ 31 - 1"
    "pid_ok ptable2" "no_plock ptable2" "PidLock \<notin> set (held ptable2)" "sint (nextpid ptable2) < 2 ^ 31 - 1"
    by (auto simp: pid_ok_def live_def no_plock_def ptable0_def ptable2_def proc0_def less_Suc_eq numeral_2_eq_2)
  obtain s0 where s0: "allocproc ptable0 = (Ret None, s0)" using allocproc_runs(1) by (cases "allocproc ptable0") simp
  obtain s2 where s2: "allocproc ptable2 = (Ret (Some 2), s2)" using allocproc_runs(2) by blast
  have l: "live ptable0 1" "p_pid (procs ptable0 1) = 2" by (simp_all add: live_def ptable0_def proc0_def)
  have "pid_ok s0" "held s0 = []" "procs s0 1 = procs ptable0 1"
    using allocproc_fresh [OF i(1-4) s0] l(1) by (auto simp: ptable0_def)
  moreover have "pid_ok s2" "p_state (procs s2 2) = USED" "p_pid (procs s2 2) = 3" "c_ra (p_context (procs s2 2)) = 0x80001234"
      "c_sp (p_context (procs s2 2)) = 4096" "procs s2 1 = procs ptable2 1"
    using allocproc_fresh [OF i(5-8) s2] by (auto simp: ptable2_def ptable0_def proc0_def)
  ultimately show ?thesis using s0 s2 l(2) by simp
qed

text \<open>
  C24. \<^verbatim>\<open>wakeup\<close> makes runnable exactly the processes other than the caller that sleep on the
  channel and changes nothing else; \<^verbatim>\<open>kill\<close> marks the first process with the identifier,
  making it runnable if it sleeps, and returns 0, or returns -1 and changes nothing if there is
  none. Neither panics when no process lock is held.
\<close>

theorem wakeup_kill_exact:
  assumes "no_plock s"
  shows "wakeup ch s = (Ret (), s\<lparr>procs := (\<lambda>i. if i < NPROC \<and> curproc s \<noteq> Some i \<and>
             p_state (procs s i) = SLEEPING \<and> p_chan (procs s i) = ch
           then (procs s i)\<lparr>p_state := RUNNABLE\<rparr> else procs s i)\<rparr>) \<and>
         kill pid s = (case find (\<lambda>i. p_pid (procs s i) = pid) [0..<NPROC] of
             None \<Rightarrow> (Ret (- 1), s)
           | Some i \<Rightarrow> (Ret 0, s\<lparr>procs := (procs s)(i := (procs s i)\<lparr>p_killed := 1,
               p_state := (if p_state (procs s i) = SLEEPING then RUNNABLE else p_state (procs s i))\<rparr>)\<rparr>))"
proof
  have "(\<lambda>i. if i < NPROC then woken ch (curproc s) (procs s i) i else procs s i) =
      (\<lambda>i. if i < NPROC \<and> curproc s \<noteq> Some i \<and> p_state (procs s i) = SLEEPING \<and> p_chan (procs s i) = ch
           then (procs s i)\<lparr>p_state := RUNNABLE\<rparr> else procs s i)"
    by (auto simp: woken_def fun_eq_iff)
  then show "wakeup ch s = (Ret (), s\<lparr>procs := (\<lambda>i. if i < NPROC \<and> curproc s \<noteq> Some i \<and>
             p_state (procs s i) = SLEEPING \<and> p_chan (procs s i) = ch
           then (procs s i)\<lparr>p_state := RUNNABLE\<rparr> else procs s i)\<rparr>)"
    by (simp only: wakeup_spec [OF assms])
  show "kill pid s = (case find (\<lambda>i. p_pid (procs s i) = pid) [0..<NPROC] of
             None \<Rightarrow> (Ret (- 1), s)
           | Some i \<Rightarrow> (Ret 0, s\<lparr>procs := (procs s)(i := (procs s i)\<lparr>p_killed := 1,
               p_state := (if p_state (procs s i) = SLEEPING then RUNNABLE else p_state (procs s i))\<rparr>)\<rparr>))"
    unfolding kill_spec [OF assms] setp_def struck_def by (rule refl)
qed

definition ptable1 :: ptable where
  "ptable1 = ptable0\<lparr>procs := (\<lambda>i. if i = 3 then proc0\<lparr>p_state := SLEEPING, p_chan := ChTicks, p_pid := 7\<rparr>
     else proc0), curproc := Some 0\<rparr>"

theorem wakeup_kill_exact_witness:
  "p_state (procs (snd (wakeup ChTicks ptable1)) 3) = RUNNABLE \<and>
   p_state (procs (snd (wakeup ChLog ptable1)) 3) = SLEEPING \<and>
   fst (kill 7 ptable1) = Ret 0 \<and> p_killed (procs (snd (kill 7 ptable1)) 3) = 1 \<and> fst (kill 8 ptable1) = Ret (- 1)"
proof -
  have np: "no_plock ptable1" by (simp add: no_plock_def ptable1_def ptable0_def)
  have f7: "find (\<lambda>i. p_pid (procs ptable1 i) = 7) [0..<NPROC] = Some 3"
    and f8: "find (\<lambda>i. p_pid (procs ptable1 i) = 8) [0..<NPROC] = None"
    by code_simp+
  show ?thesis
    using wakeup_kill_exact [OF np, of ChTicks 7] wakeup_kill_exact [OF np, of ChLog 8] f7 f8
    by (simp add: ptable1_def)
qed

end
