(* ===== verification/Sleeplock.thy ===== *)
theory Sleeplock
  imports Sched
begin

text \<open>
  Sleep-locks, \<^verbatim>\<open>kernel/sleeplock.c\<close>: long-term locks that a process waits for by sleeping.
  They are kept in one table, by the object they belong to.
\<close>

section \<open>Definitions\<close>

record sleeplock =
  sl_locked :: bool
  sl_pid :: i32

record slstate = ptable +
  slocks :: "slid \<Rightarrow> sleeplock"

definition set_sl :: "slid \<Rightarrow> sleeplock \<Rightarrow> 'z slstate_scheme \<Rightarrow> 'z slstate_scheme" where
  "set_sl l v s = s\<lparr>slocks := (slocks s)(l := v)\<rparr>"

definition initsleeplock :: "slid \<Rightarrow> 'z slstate_scheme \<Rightarrow> 'z slstate_scheme" where
  "initsleeplock l s = set_sl l \<lparr>sl_locked = False, sl_pid = 0\<rparr> s"

text \<open>The loop of \<^verbatim>\<open>acquiresleep\<close>, entered with the spinlock held: at the call and after every
  \<^verbatim>\<open>sleep\<close>.\<close>

definition acquiresleep_round :: "slid \<Rightarrow> 'z slstate_scheme \<Rightarrow> unit res \<times> 'z slstate_scheme" where
  "acquiresleep_round l s =
     (if sl_locked (slocks s l) then bnd (sleep (ChSL l) (SlLock l) s) (\<lambda>_ s. (Swtch, s))
      else myproc (\<lambda>p s.
        release (SlLock l) (set_sl l \<lparr>sl_locked = True, sl_pid = p_pid (procs s p)\<rparr> s)) s)"

definition acquiresleep :: "slid \<Rightarrow> 'z slstate_scheme \<Rightarrow> unit res \<times> 'z slstate_scheme" where
  "acquiresleep l s = bnd (acquire (SlLock l) s) (\<lambda>_ s. acquiresleep_round l s)"

definition releasesleep :: "slid \<Rightarrow> 'z slstate_scheme \<Rightarrow> unit res \<times> 'z slstate_scheme" where
  "releasesleep l s =
     bnd (acquire (SlLock l) s) (\<lambda>_ s.
     let s = set_sl l \<lparr>sl_locked = False, sl_pid = 0\<rparr> s in
     bnd (wakeup (ChSL l) s) (\<lambda>_ s.
     release (SlLock l) s))"

definition holdingsleep :: "slid \<Rightarrow> 'z slstate_scheme \<Rightarrow> bool res \<times> 'z slstate_scheme" where
  "holdingsleep l s =
     bnd (acquire (SlLock l) s) (\<lambda>_ s.
     bnd (if sl_locked (slocks s l)
          then myproc (\<lambda>p s. (Ret (sl_pid (slocks s l) = p_pid (procs s p)), s)) s
          else (Ret False, s)) (\<lambda>r s.
     bnd (release (SlLock l) s) (\<lambda>_ s. (Ret r, s))))"

section \<open>The operations in closed form\<close>

text \<open>A process that is running and holds no process lock.\<close>

definition running :: "'z ptable_scheme \<Rightarrow> bool" where
  "running s \<longleftrightarrow> curproc s \<noteq> None \<and> no_plock s"

definition mypid :: "'z ptable_scheme \<Rightarrow> i32" where
  "mypid s = p_pid (procs s (the (curproc s)))"

lemma myproc_running: "running s \<Longrightarrow> myproc f s = f (the (curproc s)) s"
  by (auto simp: running_def myproc_def)

lemma acquiresleep_free:
  assumes "running s" and "SlLock l \<notin> set (held s)" and "\<not> sl_locked (slocks s l)"
  shows "acquiresleep l s = (Ret (), set_sl l \<lparr>sl_locked = True, sl_pid = mypid s\<rparr> s)"
  using assms by (auto simp: acquiresleep_def acquiresleep_round_def myproc_def running_def set_sl_def mypid_def)

lemma acquiresleep_busy:
  assumes "running s" and "held s = []" and "sl_locked (slocks s l)" and "curproc s = Some p"
  shows "acquiresleep l s = (Swtch, setp p (put_asleep (ChSL l)) (s\<lparr>held := [ProcLock p]\<rparr>))"
  using assms sleep_spec [of "s\<lparr>held := [SlLock l]\<rparr>" p "SlLock l" "[]" "ChSL l"]
  by (simp add: acquiresleep_def acquiresleep_round_def)

lemma holdingsleep_spec:
  assumes "running s" and "SlLock l \<notin> set (held s)"
  shows "holdingsleep l s = (Ret (sl_locked (slocks s l) \<and> sl_pid (slocks s l) = mypid s), s)"
  using assms by (auto simp: holdingsleep_def myproc_def running_def mypid_def)

text \<open>The process table after a wakeup on a channel.\<close>

definition woken_all :: "chan \<Rightarrow> nat option \<Rightarrow> (nat \<Rightarrow> proc) \<Rightarrow> nat \<Rightarrow> proc" where
  "woken_all ch me ps = (\<lambda>i. if i < NPROC then woken ch me (ps i) i else ps i)"

definition wake_all :: "chan \<Rightarrow> 'z ptable_scheme \<Rightarrow> 'z ptable_scheme" where
  "wake_all ch s = s\<lparr>procs := woken_all ch (curproc s) (procs s)\<rparr>"

lemma wakeup_wake_all: "no_plock s \<Longrightarrow> wakeup ch s = (Ret (), wake_all ch s)"
  by (simp add: wakeup_spec wake_all_def woken_all_def)

lemma releasesleep_spec:
  assumes "running s" and "SlLock l \<notin> set (held s)"
  shows "releasesleep l s = (Ret (), wake_all (ChSL l) (set_sl l \<lparr>sl_locked = False, sl_pid = 0\<rparr> s))"
proof -
  let ?s = "set_sl l \<lparr>sl_locked = False, sl_pid = 0\<rparr> (s\<lparr>held := SlLock l # held s\<rparr>)"
  have "no_plock ?s" using assms(1) by (simp add: running_def no_plock_def set_sl_def)
  from wakeup_wake_all [OF this] assms(2) show ?thesis
    by (simp add: releasesleep_def Let_def wake_all_def set_sl_def)
qed

lemma wake_all_mypid [simp]: "mypid (wake_all ch s) = mypid s"
  by (simp add: mypid_def wake_all_def woken_all_def woken_def)

lemma wake_all_running [simp]: "running (wake_all ch s) = running s"
  by (simp add: running_def wake_all_def no_plock_def)

end
