(* ===== verification/Bio.thy ===== *)
theory Bio
  imports Sleeplock
begin

text \<open>
  The buffer cache, \<^verbatim>\<open>kernel/bio.c\<close>. The buffers are linked into a circular list in the
  order of their last use by their \<^verbatim>\<open>prev\<close> and \<^verbatim>\<open>next\<close> pointers; index \<open>NBUF\<close> is the list
  head. A disk request is modelled by its effect, the transfer of one block, complete when
  \<^verbatim>\<open>virtio_disk_rw\<close> returns. The driver itself is modelled in theory \<open>Virtio\<close>; that it has this effect is
  assumed here and not proved. It computes the sector from the block number in 32 bits, so that
  the effect is right only for block numbers below 2^31.
\<close>

section \<open>Definitions\<close>

abbreviation NBUF :: nat where "NBUF \<equiv> 30"
abbreviation BSIZE :: nat where "BSIZE \<equiv> 1024"

record buf =
  b_valid :: bool
  b_dev :: u32
  b_blockno :: u32
  b_refcnt :: u32
  b_prev :: nat
  b_next :: nat
  b_data :: "u8 list"

text \<open>\<open>disk\<close> is the contents of the disk by block number; \<open>dwrites\<close> records the block writes
  in the order they reach the disk.\<close>

record bstate = slstate +
  bufs :: "nat \<Rightarrow> buf"
  disk :: "u32 \<Rightarrow> u8 list"
  dwrites :: "(u32 \<times> u8 list) list"

definition setb :: "nat \<Rightarrow> (buf \<Rightarrow> buf) \<Rightarrow> 'z bstate_scheme \<Rightarrow> 'z bstate_scheme" where
  "setb b f s = s\<lparr>bufs := (bufs s)(b := f (bufs s b))\<rparr>"

definition disk_rw :: "nat \<Rightarrow> bool \<Rightarrow> 'z bstate_scheme \<Rightarrow> unit res \<times> 'z bstate_scheme" where
  "disk_rw b write s =
     (let bno = b_blockno (bufs s b) in
      if write then (Ret (), s\<lparr>disk := (disk s)(bno := b_data (bufs s b)),
                               dwrites := dwrites s @ [(bno, b_data (bufs s b))]\<rparr>)
      else (Ret (), setb b (\<lambda>q. q\<lparr>b_data := disk s bno\<rparr>) s))"

text \<open>Put buffer \<open>b\<close> in front of the list: the four assignments that \<^verbatim>\<open>binit\<close> and \<^verbatim>\<open>brelse\<close>
  share.\<close>

definition blink :: "nat \<Rightarrow> (nat \<Rightarrow> buf) \<Rightarrow> nat \<Rightarrow> buf" where
  "blink b bs =
     (let bs = bs(b := (bs b)\<lparr>b_next := b_next (bs NBUF)\<rparr>);
          bs = bs(b := (bs b)\<lparr>b_prev := NBUF\<rparr>);
          n = b_next (bs NBUF);
          bs = bs(n := (bs n)\<lparr>b_prev := b\<rparr>)
      in bs(NBUF := (bs NBUF)\<lparr>b_next := b\<rparr>))"

definition bunlink :: "nat \<Rightarrow> (nat \<Rightarrow> buf) \<Rightarrow> nat \<Rightarrow> buf" where
  "bunlink b bs =
     (let n = b_next (bs b);
          bs = bs(n := (bs n)\<lparr>b_prev := b_prev (bs b)\<rparr>);
          p = b_prev (bs b)
      in bs(p := (bs p)\<lparr>b_next := b_next (bs b)\<rparr>))"

primrec binit_loop :: "nat list \<Rightarrow> 'z bstate_scheme \<Rightarrow> 'z bstate_scheme" where
  "binit_loop [] s = s"
| "binit_loop (b # bs) s =
     binit_loop bs ((initsleeplock (BufSL b) s)\<lparr>bufs := blink b (bufs s)\<rparr>)"

definition binit :: "'z bstate_scheme \<Rightarrow> unit res \<times> 'z bstate_scheme" where
  "binit s =
     (let s = setb NBUF (\<lambda>h. h\<lparr>b_prev := NBUF, b_next := NBUF\<rparr>) s
      in (Ret (), binit_loop [0..<NBUF] s))"

text \<open>The two searches of \<^verbatim>\<open>bget\<close>. The list has \<open>NBUF\<close> buffers, so the fuel is enough on a
  well-formed list; \<open>Lost\<close> is a walk that does not come back to the head.\<close>

datatype search = Found nat | NotFound | Lost

primrec bget_cached :: "nat \<Rightarrow> nat \<Rightarrow> u32 \<Rightarrow> u32 \<Rightarrow> (nat \<Rightarrow> buf) \<Rightarrow> search" where
  "bget_cached 0 b dev blockno bs = Lost"
| "bget_cached (Suc fuel) b dev blockno bs =
     (if b = NBUF then NotFound
      else if b_dev (bs b) = dev \<and> b_blockno (bs b) = blockno then Found b
      else bget_cached fuel (b_next (bs b)) dev blockno bs)"

primrec bget_free :: "nat \<Rightarrow> nat \<Rightarrow> (nat \<Rightarrow> buf) \<Rightarrow> search" where
  "bget_free 0 b bs = Lost"
| "bget_free (Suc fuel) b bs =
     (if b = NBUF then NotFound
      else if b_refcnt (bs b) = 0 then Found b
      else bget_free fuel (b_prev (bs b)) bs)"

definition bget :: "u32 \<Rightarrow> u32 \<Rightarrow> 'z bstate_scheme \<Rightarrow> nat res \<times> 'z bstate_scheme" where
  "bget dev blockno s =
     bnd (acquire BcacheLock s) (\<lambda>_ s.
     case bget_cached (Suc NBUF) (b_next (bufs s NBUF)) dev blockno (bufs s) of
       Found b \<Rightarrow>
         let s = setb b (\<lambda>q. q\<lparr>b_refcnt := b_refcnt q + 1\<rparr>) s in
         bnd (release BcacheLock s) (\<lambda>_ s.
         bnd (acquiresleep (BufSL b) s) (\<lambda>_ s. (Ret b, s)))
     | Lost \<Rightarrow> (Hang, s)
     | NotFound \<Rightarrow> (case bget_free (Suc NBUF) (b_prev (bufs s NBUF)) (bufs s) of
           Found b \<Rightarrow>
             let s = setb b (\<lambda>q. q\<lparr>b_dev := dev, b_blockno := blockno, b_valid := False, b_refcnt := 1\<rparr>) s in
             bnd (release BcacheLock s) (\<lambda>_ s.
             bnd (acquiresleep (BufSL b) s) (\<lambda>_ s. (Ret b, s)))
         | Lost \<Rightarrow> (Hang, s)
         | NotFound \<Rightarrow> (Panic ''bget: no buffers'', s)))"

definition bread :: "u32 \<Rightarrow> u32 \<Rightarrow> 'z bstate_scheme \<Rightarrow> nat res \<times> 'z bstate_scheme" where
  "bread dev blockno s =
     bnd (bget dev blockno s) (\<lambda>b s.
     if \<not> b_valid (bufs s b) then
       bnd (disk_rw b False s) (\<lambda>_ s. (Ret b, setb b (\<lambda>q. q\<lparr>b_valid := True\<rparr>) s))
     else (Ret b, s))"

definition bwrite :: "nat \<Rightarrow> 'z bstate_scheme \<Rightarrow> unit res \<times> 'z bstate_scheme" where
  "bwrite b s =
     bnd (holdingsleep (BufSL b) s) (\<lambda>h s.
     if \<not> h then (Panic ''bwrite'', s) else disk_rw b True s)"

definition brelse :: "nat \<Rightarrow> 'z bstate_scheme \<Rightarrow> unit res \<times> 'z bstate_scheme" where
  "brelse b s =
     bnd (holdingsleep (BufSL b) s) (\<lambda>h s.
     if \<not> h then (Panic ''brelse'', s)
     else bnd (releasesleep (BufSL b) s) (\<lambda>_ s.
       bnd (acquire BcacheLock s) (\<lambda>_ s.
       let s = setb b (\<lambda>q. q\<lparr>b_refcnt := b_refcnt q - 1\<rparr>) s;
           s = (if b_refcnt (bufs s b) = 0 then s\<lparr>bufs := blink b (bunlink b (bufs s))\<rparr> else s)
       in release BcacheLock s)))"

definition bpin :: "nat \<Rightarrow> 'z bstate_scheme \<Rightarrow> unit res \<times> 'z bstate_scheme" where
  "bpin b s =
     bnd (acquire BcacheLock s) (\<lambda>_ s.
     release BcacheLock (setb b (\<lambda>q. q\<lparr>b_refcnt := b_refcnt q + 1\<rparr>) s))"

definition bunpin :: "nat \<Rightarrow> 'z bstate_scheme \<Rightarrow> unit res \<times> 'z bstate_scheme" where
  "bunpin b s =
     bnd (acquire BcacheLock s) (\<lambda>_ s.
     release BcacheLock (setb b (\<lambda>q. q\<lparr>b_refcnt := b_refcnt q - 1\<rparr>) s))"

section \<open>The list\<close>

fun linked :: "(nat \<Rightarrow> buf) \<Rightarrow> nat list \<Rightarrow> bool" where
  "linked bs (x # y # ys) \<longleftrightarrow> b_next (bs x) = y \<and> b_prev (bs y) = x \<and> linked bs (y # ys)"
| "linked bs _ \<longleftrightarrow> True"

text \<open>The buffers are on the circular list exactly once, in the order \<open>xs\<close>, the last used
  first.\<close>

definition ring :: "(nat \<Rightarrow> buf) \<Rightarrow> nat list \<Rightarrow> bool" where
  "ring bs xs \<longleftrightarrow> distinct (NBUF # xs) \<and> linked bs (NBUF # xs @ [NBUF])"

lemma linked_append: "linked bs (xs @ y # ys) \<longleftrightarrow> linked bs (xs @ [y]) \<and> linked bs (y # ys)"
  by (induction xs rule: induct_list012) auto

lemma linked_cong:
  "(\<And>x. x \<in> set (butlast xs) \<Longrightarrow> b_next (bs x) = b_next (bs' x)) \<Longrightarrow>
   (\<And>x. x \<in> set (tl xs) \<Longrightarrow> b_prev (bs x) = b_prev (bs' x)) \<Longrightarrow>
   linked bs xs = linked bs' xs"
  by (induction xs rule: induct_list012) auto

lemma append_shift: "x # xs = us @ [p] \<Longrightarrow> x # xs @ ys = us @ p # ys"
  by (metis append.assoc append_Cons append_Nil)

lemma bget_cached_find:
  "linked bs (zs @ [NBUF]) \<Longrightarrow> NBUF \<notin> set zs \<Longrightarrow> length zs < fuel \<Longrightarrow>
   bget_cached fuel (hd (zs @ [NBUF])) dev bno bs =
     (case find (\<lambda>b. b_dev (bs b) = dev \<and> b_blockno (bs b) = bno) zs of
        None \<Rightarrow> NotFound | Some b \<Rightarrow> Found b)"
proof (induction zs arbitrary: fuel)
  case Nil
  then show ?case by (cases fuel) auto
next
  case (Cons z zs)
  then obtain f where f: "fuel = Suc f" by (cases fuel) auto
  have "b_next (bs z) = hd (zs @ [NBUF]) \<and> linked bs (zs @ [NBUF])"
    using Cons.prems(1) by (cases zs) auto
  then show ?case using Cons f by auto
qed

lemma bget_free_find:
  "linked bs (NBUF # zs) \<Longrightarrow> NBUF \<notin> set zs \<Longrightarrow> length zs < fuel \<Longrightarrow>
   bget_free fuel (last (NBUF # zs)) bs =
     (case find (\<lambda>b. b_refcnt (bs b) = 0) (rev zs) of None \<Rightarrow> NotFound | Some b \<Rightarrow> Found b)"
proof (induction zs arbitrary: fuel rule: rev_induct)
  case Nil
  then show ?case by (cases fuel) auto
next
  case (snoc z zs)
  then obtain f where f: "fuel = Suc f" by (cases fuel) auto
  obtain us p where us: "NBUF # zs = us @ [p]" by (metis list.discI rev_exhaust)
  have "b_prev (bs z) = p \<and> linked bs (NBUF # zs)"
    using snoc.prems(1) linked_append [of bs us p "[z]"] us by (simp add: append_shift [OF us])
  moreover have "p = last (NBUF # zs)" using us by (metis last_snoc)
  ultimately show ?case using snoc f by auto
qed

lemma ring_cached:
  "ring bs xs \<Longrightarrow> length xs \<le> NBUF \<Longrightarrow> bget_cached (Suc NBUF) (b_next (bs NBUF)) dev bno bs =
     (case find (\<lambda>b. b_dev (bs b) = dev \<and> b_blockno (bs b) = bno) xs of
        None \<Rightarrow> NotFound | Some b \<Rightarrow> Found b)"
  using bget_cached_find [of bs xs "Suc NBUF" dev bno]
  by (cases xs) (auto simp: ring_def simp del: bget_cached.simps)

lemma ring_free:
  assumes "ring bs xs" and "length xs \<le> NBUF"
  shows "bget_free (Suc NBUF) (b_prev (bs NBUF)) bs =
     (case find (\<lambda>b. b_refcnt (bs b) = 0) (rev xs) of None \<Rightarrow> NotFound | Some b \<Rightarrow> Found b)"
proof -
  obtain us p where us: "NBUF # xs = us @ [p]" by (metis list.discI rev_exhaust)
  have "linked bs (NBUF # xs) \<and> b_prev (bs NBUF) = p"
    using assms(1) linked_append [of bs us p "[NBUF]"] us by (simp add: ring_def append_shift [OF us])
  moreover have "p = last (NBUF # xs)" using us by (metis last_snoc)
  ultimately show ?thesis
    using bget_free_find [of bs xs "Suc NBUF"] assms by (auto simp: ring_def simp del: bget_free.simps)
qed

lemma ring_bunlink:
  assumes "ring bs (ys @ b # zs)"
  shows "ring (bunlink b bs) (ys @ zs)"
proof -
  obtain us p where us: "NBUF # ys = us @ [p]" by (metis list.discI rev_exhaust)
  obtain n vs where vs: "zs @ [NBUF] = n # vs" by (cases zs) auto
  have "distinct ((NBUF # ys) @ b # zs)" using assms by (simp add: ring_def)
  then have d: "distinct (us @ [p] @ b # zs)" unfolding us by simp
  have d': "NBUF \<notin> set zs" "NBUF \<notin> set ys" using assms by (auto simp: ring_def)
  have l: "linked bs (us @ [p])" "b_next (bs p) = b" "b_prev (bs b) = p" "b_next (bs b) = n"
      "linked bs (n # vs)"
    using assms linked_append [of bs us p "b # n # vs"] vs
    by (simp_all add: ring_def append_shift [OF us])
  have bl: "butlast (n # vs) = zs" using vs by (metis butlast_snoc)
  have dv: "distinct (n # vs)" using d d' by (simp flip: vs)
  have n: "n = NBUF \<or> n \<in> set zs" using vs by (cases zs) auto
  have b: "b \<noteq> NBUF" "b \<notin> set zs" "set ys \<inter> set zs = {}" using assms by (auto simp: ring_def)
  have np: "p \<notin> set us" "b \<noteq> p" "b \<noteq> n" "p \<notin> set zs" using d b n by auto
  have nn: "n \<notin> set ys" using n d' b by auto
  have e: "bunlink b bs = (bs(n := (bs n)\<lparr>b_prev := p\<rparr>))(p := ((bs(n := (bs n)\<lparr>b_prev := p\<rparr>)) p)\<lparr>b_next := n\<rparr>)"
    using l np by (simp add: bunlink_def Let_def)
  have "linked (bunlink b bs) (us @ [p]) = linked bs (us @ [p])"
  proof (rule linked_cong)
    show "b_next (bunlink b bs x) = b_next (bs x)" if "x \<in> set (butlast (us @ [p]))" for x
      using that np by (auto simp: e)
    show "b_prev (bunlink b bs x) = b_prev (bs x)" if "x \<in> set (tl (us @ [p]))" for x
      using that nn by (auto simp: e simp flip: us)
  qed
  moreover have "linked (bunlink b bs) (n # vs) = linked bs (n # vs)"
  proof (rule linked_cong)
    show "b_next (bunlink b bs x) = b_next (bs x)" if "x \<in> set (butlast (n # vs))" for x
      using that np unfolding bl by (auto simp: e)
    show "b_prev (bunlink b bs x) = b_prev (bs x)" if "x \<in> set (tl (n # vs))" for x
      using that dv by (auto simp: e)
  qed
  ultimately have "linked (bunlink b bs) (us @ p # n # vs)"
    using l e linked_append [of "bunlink b bs" us p "n # vs"] by auto
  then show ?thesis using assms vs by (simp add: ring_def append_shift [OF us])
qed

lemma ring_blink:
  assumes "ring bs xs" and "b \<notin> set xs" and "b \<noteq> NBUF"
  shows "ring (blink b bs) (b # xs)"
proof -
  obtain n vs where vs: "xs @ [NBUF] = n # vs" by (cases xs) auto
  have l: "b_next (bs NBUF) = n" "linked bs (n # vs)"
    using assms(1) vs by (auto simp: ring_def)
  have bl: "butlast (n # vs) = xs" using vs by (metis butlast_snoc)
  have dv: "distinct (n # vs)" using assms(1) by (simp add: ring_def flip: vs)
  have sv: "set (n # vs) = insert NBUF (set xs)" by (simp flip: vs)
  have n: "n \<noteq> b" "b \<notin> set vs" "NBUF \<notin> set xs" using sv assms by (auto simp: ring_def)
  have "linked (blink b bs) (n # vs) = linked bs (n # vs)"
  proof (rule linked_cong)
    show "b_next (blink b bs x) = b_next (bs x)" if "x \<in> set (butlast (n # vs))" for x
      using that n assms(2) unfolding bl by (auto simp: blink_def Let_def)
    show "b_prev (blink b bs x) = b_prev (bs x)" if "x \<in> set (tl (n # vs))" for x
      using that dv n l by (auto simp: blink_def Let_def)
  qed
  then show ?thesis using assms vs l n by (auto simp: ring_def blink_def Let_def)
qed

end
