(* ===== verification/Bcache.thy ===== *)
theory Bcache
  imports Bio
begin

text \<open>
  What the buffer cache promises its clients. The cache is abstracted to the contents of every
  block as a reader sees it, the number of references to it and the buffer it is locked in;
  each operation of \<^verbatim>\<open>kernel/bio.c\<close> is shown to be a simple update of that abstraction.
\<close>

section \<open>The abstract cache\<close>

record acache =
  av :: "u32 \<Rightarrow> u8 list"        \<comment> \<open>contents of a block, read through the cache\<close>
  ar :: "u32 \<Rightarrow> nat"            \<comment> \<open>references to a block's buffer\<close>
  al :: "u32 \<Rightarrow> bool"           \<comment> \<open>whether a block's buffer is locked\<close>
  ad :: "u32 \<Rightarrow> u8 list"        \<comment> \<open>contents of the disk\<close>
  aw :: "(u32 \<times> u8 list) list"  \<comment> \<open>writes to the disk so far\<close>

text \<open>The operations on it: lock a block, release it, change its contents, write it to the disk,
  add or drop a reference.\<close>

definition a_take :: "u32 \<Rightarrow> acache \<Rightarrow> acache" where
  "a_take bno a = a\<lparr>ar := (ar a)(bno := ar a bno + 1), al := (al a)(bno := True)\<rparr>"

definition a_drop :: "u32 \<Rightarrow> acache \<Rightarrow> acache" where
  "a_drop bno a = a\<lparr>ar := (ar a)(bno := ar a bno - 1), al := (al a)(bno := False)\<rparr>"

definition a_put :: "u32 \<Rightarrow> u8 list \<Rightarrow> acache \<Rightarrow> acache" where
  "a_put bno d a = a\<lparr>av := (av a)(bno := d)\<rparr>"

definition a_write :: "u32 \<Rightarrow> acache \<Rightarrow> acache" where
  "a_write bno a = a\<lparr>ad := (ad a)(bno := av a bno), aw := aw a @ [(bno, av a bno)]\<rparr>"

definition a_pin :: "u32 \<Rightarrow> acache \<Rightarrow> acache" where
  "a_pin bno a = a\<lparr>ar := (ar a)(bno := ar a bno + 1)\<rparr>"

definition a_unpin :: "u32 \<Rightarrow> acache \<Rightarrow> acache" where
  "a_unpin bno a = a\<lparr>ar := (ar a)(bno := ar a bno - 1)\<rparr>"

definition cached :: "'z bstate_scheme \<Rightarrow> u32 \<Rightarrow> nat \<Rightarrow> bool" where
  "cached s bno b \<longleftrightarrow> b < NBUF \<and> b_dev (bufs s b) = 1 \<and> b_blockno (bufs s b) = bno"

definition bslot :: "'z bstate_scheme \<Rightarrow> u32 \<Rightarrow> nat option" where
  "bslot s bno = find (cached s bno) [0..<NBUF]"

definition block_view :: "'z bstate_scheme \<Rightarrow> u32 \<Rightarrow> u8 list" where
  "block_view s bno = (case bslot s bno of None \<Rightarrow> disk s bno
     | Some b \<Rightarrow> if b_valid (bufs s b) then b_data (bufs s b) else disk s bno)"

definition block_refs :: "'z bstate_scheme \<Rightarrow> u32 \<Rightarrow> nat" where
  "block_refs s bno = (case bslot s bno of None \<Rightarrow> 0 | Some b \<Rightarrow> unat (b_refcnt (bufs s b)))"

definition block_lock :: "'z bstate_scheme \<Rightarrow> u32 \<Rightarrow> nat option" where
  "block_lock s bno = (case bslot s bno of None \<Rightarrow> None
     | Some b \<Rightarrow> if sl_locked (slocks s (BufSL b)) then Some b else None)"

definition cabs :: "'z bstate_scheme \<Rightarrow> acache" where
  "cabs s = \<lparr>av = block_view s, ar = block_refs s, al = (\<lambda>n. block_lock s n \<noteq> None), ad = disk s, aw = dwrites s\<rparr>"

text \<open>The invariant of the cache as one process uses it: the list holds every buffer, no block
  has two, a free buffer agrees with the disk, and a locked one is in use, filled, and locked
  by this process.\<close>

definition buf_ok :: "'z bstate_scheme \<Rightarrow> nat \<Rightarrow> bool" where
  "buf_ok s b \<longleftrightarrow>
     (b_dev (bufs s b) = 1 \<or> \<not> b_valid (bufs s b) \<and> b_dev (bufs s b) = 0 \<and> b_refcnt (bufs s b) = 0) \<and>
     (b_valid (bufs s b) \<and> b_refcnt (bufs s b) = 0 \<longrightarrow>
        b_data (bufs s b) = disk s (b_blockno (bufs s b))) \<and>
     (sl_locked (slocks s (BufSL b)) \<longrightarrow>
        b_refcnt (bufs s b) \<noteq> 0 \<and> b_valid (bufs s b) \<and> sl_pid (slocks s (BufSL b)) = mypid s)"

definition cache_inv :: "'z bstate_scheme \<Rightarrow> bool" where
  "cache_inv s \<longleftrightarrow>
     (\<exists>xs. ring (bufs s) xs \<and> set xs = {..<NBUF}) \<and>
     (\<forall>bno b c. cached s bno b \<longrightarrow> cached s bno c \<longrightarrow> b = c) \<and>
     (\<forall>b<NBUF. buf_ok s b)"

definition calm :: "'z bstate_scheme \<Rightarrow> bool" where
  "calm s \<longleftrightarrow> running s \<and> BcacheLock \<notin> set (held s) \<and> (\<forall>l. SlLock l \<notin> set (held s))"

text \<open>What an operation of the cache leaves alone: everything but the cache, and of the
  process table all but sleepers it has woken.\<close>

definition pkept :: "'z ptable_scheme \<Rightarrow> 'y ptable_scheme \<Rightarrow> bool" where
  "pkept s s' \<longleftrightarrow> (\<forall>i. procs s' i = procs s i \<or>
     curproc s \<noteq> Some i \<and> p_state (procs s i) = SLEEPING \<and> procs s' i = (procs s i)\<lparr>p_state := RUNNABLE\<rparr>)"

definition bframe :: "'z bstate_scheme \<Rightarrow> 'z bstate_scheme \<Rightarrow> bool" where
  "bframe s s' \<longleftrightarrow>
     s'\<lparr>bufs := bufs s, disk := disk s, dwrites := dwrites s, slocks := slocks s, procs := procs s\<rparr> = s \<and>
     pkept s s' \<and> (\<forall>i. slocks s' (InodeSL i) = slocks s (InodeSL i))"

section \<open>Slots\<close>

lemma find_SomeD: "find P xs = Some x \<Longrightarrow> x \<in> set xs \<and> P x"
  by (auto simp: find_Some_iff)

lemma bslot_Some: "cache_inv s \<Longrightarrow> bslot s bno = Some b \<longleftrightarrow> cached s bno b"
proof -
  assume i: "cache_inv s"
  have "cached s bno b \<Longrightarrow> bslot s bno = Some b"
  proof -
    assume c: "cached s bno b"
    then have "b \<in> set [0..<NBUF]" by (simp add: cached_def)
    with c have "bslot s bno \<noteq> None" unfolding bslot_def find_None_iff by blast
    then obtain c where "bslot s bno = Some c" by blast
    moreover from this have "cached s bno c" by (auto simp: bslot_def find_Some_iff)
    ultimately show ?thesis using i c by (auto simp: cache_inv_def)
  qed
  then show ?thesis by (auto simp: bslot_def find_Some_iff)
qed

lemma bslot_None: "bslot s bno = None \<longleftrightarrow> (\<forall>b. \<not> cached s bno b)"
  by (auto simp: bslot_def find_None_iff cached_def)

lemma cached_uniq: "cache_inv s \<Longrightarrow> cached s bno b \<Longrightarrow> cached s bno c \<Longrightarrow> b = c"
  by (auto simp: cache_inv_def)

lemma block_lock_Some:
  "cache_inv s \<Longrightarrow> block_lock s bno = Some b \<longleftrightarrow> cached s bno b \<and> sl_locked (slocks s (BufSL b))"
  using cached_uniq [of s bno]
  by (auto simp: block_lock_def bslot_Some bslot_None split: option.splits)

lemma bframe_refl [simp]: "bframe s s"
  by (simp add: bframe_def pkept_def)

lemma bframe_more: "bframe s s' \<Longrightarrow> held s' = held s \<and> mem s' = mem s \<and> freelist s' = freelist s \<and>
   kend s' = kend s \<and> nextpid s' = nextpid s \<and> curproc s' = curproc s \<and> initproc s' = initproc s \<and>
   bstate.more s' = bstate.more s"
  unfolding bframe_def
  by (auto dest: arg_cong [where f = held] arg_cong [where f = mem] arg_cong [where f = freelist]
        arg_cong [where f = kend] arg_cong [where f = nextpid] arg_cong [where f = curproc]
        arg_cong [where f = initproc] arg_cong [where f = bstate.more])

lemma pkept_trans: "pkept s s' \<Longrightarrow> pkept s' s'' \<Longrightarrow> curproc s' = curproc s \<Longrightarrow> pkept s s''"
  unfolding pkept_def by (metis procstate.distinct proc.select_convs(1) proc.surjective proc.update_convs(1))

section \<open>A buffer is taken\<close>

definition taken :: "nat \<Rightarrow> u32 \<Rightarrow> 'z bstate_scheme \<Rightarrow> 'z bstate_scheme" where
  "taken b bno s = set_sl (BufSL b) \<lparr>sl_locked = True, sl_pid = mypid s\<rparr>
     (setb b (\<lambda>q. q\<lparr>b_dev := 1, b_blockno := bno, b_valid := True, b_refcnt := b_refcnt q + 1,
        b_data := block_view s bno\<rparr>) s)"

definition takeable :: "'z bstate_scheme \<Rightarrow> u32 \<Rightarrow> nat \<Rightarrow> bool" where
  "takeable s bno b \<longleftrightarrow> b < NBUF \<and> \<not> sl_locked (slocks s (BufSL b)) \<and>
     (cached s bno b \<or> bslot s bno = None \<and> b_refcnt (bufs s b) = 0)"

lemma taken_fields [simp]:
  "bufs (taken b bno s) c = (if c = b then (bufs s b)\<lparr>b_dev := 1, b_blockno := bno, b_valid := True,
     b_refcnt := b_refcnt (bufs s b) + 1, b_data := block_view s bno\<rparr> else bufs s c)"
  "disk (taken b bno s) = disk s" "dwrites (taken b bno s) = dwrites s"
  "slocks (taken b bno s) l = (if l = BufSL b then \<lparr>sl_locked = True, sl_pid = mypid s\<rparr> else slocks s l)"
  "mypid (taken b bno s) = mypid s"
  by (simp_all add: taken_def set_sl_def setb_def mypid_def)

lemma cached_taken: "b < NBUF \<Longrightarrow> cached (taken b bno s) n c \<longleftrightarrow> (if c = b then n = bno else cached s n c)"
  by (auto simp: cached_def)

lemma ring_cong:
  "(\<And>c. b_next (bs' c) = b_next (bs c)) \<Longrightarrow> (\<And>c. b_prev (bs' c) = b_prev (bs c)) \<Longrightarrow> ring bs' xs = ring bs xs"
  using linked_cong [of "NBUF # xs @ [NBUF]" bs' bs] by (simp add: ring_def)

lemma cache_inv_taken:
  assumes i: "cache_inv s" and t: "takeable s bno b" and w: "b_refcnt (bufs s b) + 1 \<noteq> 0"
  shows "cache_inv (taken b bno s)"
proof -
  have "ring (bufs (taken b bno s)) xs = ring (bufs s) xs" for xs
    by (rule ring_cong) auto
  moreover have "c = d" if "cached (taken b bno s) n c" "cached (taken b bno s) n d" for n c d
    using that t i cached_uniq [OF i]
    by (auto simp: takeable_def cached_taken bslot_None split: if_splits)
  moreover have "buf_ok (taken b bno s) c" if "c < NBUF" for c
    using i that w by (auto simp: cache_inv_def buf_ok_def)
  ultimately show ?thesis using i by (simp add: cache_inv_def)
qed

lemma bslot_taken:
  assumes i: "cache_inv s" and t: "takeable s bno b" and w: "b_refcnt (bufs s b) + 1 \<noteq> 0"
  shows "bslot (taken b bno s) n = (if n = bno then Some b else if bslot s n = Some b then None else bslot s n)"
proof -
  note j = cache_inv_taken [OF assms]
  have b: "b < NBUF" using t by (simp add: takeable_def)
  show ?thesis
  proof (cases "n = bno")
    case True
    then show ?thesis by (simp add: bslot_Some [OF j] cached_taken [OF b])
  next
    case n: False
    show ?thesis
    proof (cases "bslot s n = None \<or> bslot s n = Some b")
      case True
      then have "\<not> cached (taken b bno s) n c" for c
        using n b cached_uniq [OF i] by (auto simp: cached_taken bslot_None bslot_Some [OF i])
      then have "bslot (taken b bno s) n = None" by (simp add: bslot_None)
      then show ?thesis using n True by auto
    next
      case False
      then obtain c where "bslot s n = Some c" "c \<noteq> b" by auto
      moreover from this have "bslot (taken b bno s) n = Some c"
        using n b by (simp add: bslot_Some [OF i] bslot_Some [OF j] cached_taken)
      ultimately show ?thesis using n by simp
    qed
  qed
qed

lemma taken_old:
  assumes i: "cache_inv s" and t: "takeable s bno b" and "n \<noteq> bno" and "bslot s n = Some b"
  shows "block_view s n = disk s n" "block_refs s n = 0" "block_lock s n = None"
proof -
  have c: "cached s n b" using assms by (simp add: bslot_Some)
  then have "\<not> cached s bno b" using assms(3) by (auto simp: cached_def)
  then have r: "b_refcnt (bufs s b) = 0" "b < NBUF" "\<not> sl_locked (slocks s (BufSL b))"
    using t by (auto simp: takeable_def)
  moreover have "buf_ok s b" using i r by (simp add: cache_inv_def)
  ultimately show "block_view s n = disk s n" "block_refs s n = 0" "block_lock s n = None"
    using c assms(4) by (auto simp: block_view_def block_refs_def block_lock_def buf_ok_def cached_def)
qed

lemma taken_refs0:
  assumes i: "cache_inv s" and t: "takeable s bno b"
  shows "unat (b_refcnt (bufs s b)) = block_refs s bno" "block_lock s bno = None"
  using t bslot_Some [OF i, of bno b]
  by (auto simp: takeable_def block_refs_def block_lock_def split: option.splits)

lemma cabs_taken:
  assumes i: "cache_inv s" and t: "takeable s bno b" and w: "b_refcnt (bufs s b) + 1 \<noteq> 0"
  shows "cabs (taken b bno s) = a_take bno (cabs s)" and "block_lock (taken b bno s) = (block_lock s)(bno \<mapsto> b)"
proof -
  note sl = bslot_taken [OF assms] and old = taken_old [OF i t]
  have u: "unat (b_refcnt (bufs s b) + 1) = Suc (unat (b_refcnt (bufs s b)))"
    using w unatSuc [of "b_refcnt (bufs s b)"] by (simp add: add.commute)
  have "block_view (taken b bno s) n = block_view s n" for n
    using sl [of n] old [of n] by (auto simp: block_view_def split: option.splits if_splits)
  moreover have "block_refs (taken b bno s) n = ((block_refs s)(bno := Suc (block_refs s bno))) n" for n
    using sl [of n] old [of n] taken_refs0 [OF i t] u
    by (auto simp: block_refs_def split: option.splits if_splits)
  moreover have "block_lock (taken b bno s) n = ((block_lock s)(bno \<mapsto> b)) n" for n
    using sl [of n] old [of n] by (auto simp: block_lock_def split: option.splits if_splits)
  ultimately show "cabs (taken b bno s) = a_take bno (cabs s)" and "block_lock (taken b bno s) = (block_lock s)(bno \<mapsto> b)"
    by (auto simp: cabs_def fun_eq_iff a_take_def)
qed

section \<open>The operations\<close>

lemma calm_release: "calm s \<Longrightarrow> calm (s\<lparr>bufs := B\<rparr>)"
  by (simp add: calm_def running_def no_plock_def)

lemma acquiresleep_buf:
  "calm s \<Longrightarrow> \<not> sl_locked (slocks s (BufSL b)) \<Longrightarrow>
   acquiresleep (BufSL b) s = (Ret (), set_sl (BufSL b) \<lparr>sl_locked = True, sl_pid = mypid s\<rparr> s)"
  by (simp add: acquiresleep_free calm_def)

lemma bget_hit:
  assumes "calm s" and "bget_cached (Suc NBUF) (b_next (bufs s NBUF)) 1 bno (bufs s) = Found b"
    and "\<not> sl_locked (slocks s (BufSL b))"
  shows "bget 1 bno s = (Ret b, set_sl (BufSL b) \<lparr>sl_locked = True, sl_pid = mypid s\<rparr>
     (setb b (\<lambda>q. q\<lparr>b_refcnt := b_refcnt q + 1\<rparr>) s))"
  using assms acquiresleep_buf [of "setb b (\<lambda>q. q\<lparr>b_refcnt := b_refcnt q + 1\<rparr>) s" b]
  by (simp add: bget_def calm_def setb_def running_def no_plock_def mypid_def del: bget_cached.simps)

lemma bget_miss:
  assumes "calm s" and "bget_cached (Suc NBUF) (b_next (bufs s NBUF)) 1 bno (bufs s) = NotFound"
    and "bget_free (Suc NBUF) (b_prev (bufs s NBUF)) (bufs s) = Found b"
    and "\<not> sl_locked (slocks s (BufSL b))"
  shows "bget 1 bno s = (Ret b, set_sl (BufSL b) \<lparr>sl_locked = True, sl_pid = mypid s\<rparr>
     (setb b (\<lambda>q. q\<lparr>b_dev := 1, b_blockno := bno, b_valid := False, b_refcnt := 1\<rparr>) s))"
  using assms acquiresleep_buf [of "setb b (\<lambda>q. q\<lparr>b_dev := 1, b_blockno := bno, b_valid := False, b_refcnt := 1\<rparr>) s" b]
  by (simp add: bget_def calm_def setb_def running_def no_plock_def mypid_def
      del: bget_cached.simps bget_free.simps)

lemma cache_ring:
  assumes "cache_inv s"
  obtains xs where "ring (bufs s) xs" and "set xs = {..<NBUF}" and "length xs = NBUF"
proof -
  obtain xs where x: "ring (bufs s) xs" "set xs = {..<NBUF}" using assms by (auto simp: cache_inv_def)
  then have "length xs = NBUF" using distinct_card [of xs] by (simp add: ring_def)
  then show ?thesis using x that by simp
qed

lemma bread_taken_hit:
  assumes i: "cache_inv s" and "calm s" and c: "cached s bno b" and l: "\<not> sl_locked (slocks s (BufSL b))"
  shows "bread 1 bno s = (Ret b, taken b bno s)"
proof -
  obtain xs where xs: "ring (bufs s) xs" "set xs = {..<NBUF}" "length xs = NBUF"
    using cache_ring [OF i] .
  have "find (\<lambda>b. b_dev (bufs s b) = 1 \<and> b_blockno (bufs s b) = bno) xs = Some b"
  proof (cases "find (\<lambda>b. b_dev (bufs s b) = 1 \<and> b_blockno (bufs s b) = bno) xs")
    case None
    then show ?thesis using c xs(2) by (auto simp: find_None_iff cached_def)
  next
    case (Some a)
    then have "a \<in> set xs" "b_dev (bufs s a) = 1 \<and> b_blockno (bufs s a) = bno"
      by (auto simp: find_Some_iff)
    then have "cached s bno a" using xs(2) by (auto simp: cached_def)
    then show ?thesis using cached_uniq [OF i c] Some by blast
  qed
  then have "bget_cached (Suc NBUF) (b_next (bufs s NBUF)) 1 bno (bufs s) = Found b"
    using ring_cached [OF xs(1)] xs(3) by simp
  from bget_hit [OF assms(2) this l] show ?thesis
    using c bslot_Some [OF i, of bno b]
    by (auto simp: bread_def disk_rw_def taken_def setb_def set_sl_def block_view_def cached_def
        mypid_def fun_eq_iff)
qed

lemma bread_taken_miss:
  assumes i: "cache_inv s" and "calm s" and c: "bslot s bno = None" and r: "\<exists>b<NBUF. b_refcnt (bufs s b) = 0"
  shows "\<exists>b. takeable s bno b \<and> bread 1 bno s = (Ret b, taken b bno s)"
proof -
  obtain xs where xs: "ring (bufs s) xs" "set xs = {..<NBUF}" "length xs = NBUF"
    using cache_ring [OF i] .
  have n: "find (\<lambda>b. b_dev (bufs s b) = 1 \<and> b_blockno (bufs s b) = bno) xs = None"
    using c xs(2) by (auto simp: find_None_iff bslot_None cached_def)
  obtain b where b: "find (\<lambda>b. b_refcnt (bufs s b) = 0) (rev xs) = Some b"
    using r xs(2) by (cases "find (\<lambda>b. b_refcnt (bufs s b) = 0) (rev xs)") (auto simp: find_None_iff)
  then have m: "b \<in> set (rev xs)" and z: "b_refcnt (bufs s b) = 0"
    using find_SomeD [OF b] by simp_all
  have lt: "b < NBUF" using m xs(2) by auto
  then have l: "\<not> sl_locked (slocks s (BufSL b))" using i z by (auto simp: cache_inv_def buf_ok_def)
  have "bget_cached (Suc NBUF) (b_next (bufs s NBUF)) 1 bno (bufs s) = NotFound"
    "bget_free (Suc NBUF) (b_prev (bufs s NBUF)) (bufs s) = Found b"
    using ring_cached [OF xs(1)] ring_free [OF xs(1)] xs(3) n b by simp_all
  from bget_miss [OF assms(2) this l] have "bread 1 bno s = (Ret b, taken b bno s)"
    using z c by (auto simp: bread_def disk_rw_def taken_def setb_def set_sl_def block_view_def
        mypid_def fun_eq_iff)
  then show ?thesis using l lt c z by (auto simp: takeable_def)
qed

text \<open>The other operations keep every buffer's block.\<close>

definition same_keys :: "'z bstate_scheme \<Rightarrow> 'z bstate_scheme \<Rightarrow> bool" where
  "same_keys s s' \<longleftrightarrow> (\<forall>c. b_dev (bufs s' c) = b_dev (bufs s c) \<and> b_blockno (bufs s' c) = b_blockno (bufs s c))"

lemma same_keys_cached: "same_keys s s' \<Longrightarrow> cached s' = cached s"
  by (auto simp: same_keys_def cached_def fun_eq_iff)

lemma same_keys_bslot: "same_keys s s' \<Longrightarrow> bslot s' = bslot s"
  by (simp add: bslot_def same_keys_cached fun_eq_iff)

lemma same_keys_inv:
  assumes "cache_inv s" and k: "same_keys s s'" and "ring (bufs s') xs" and "set xs = {..<NBUF}"
    and "\<And>c. c < NBUF \<Longrightarrow> buf_ok s' c"
  shows "cache_inv s'"
  using assms by (auto simp: cache_inv_def same_keys_cached [OF k])

lemma bslot_neq: "cache_inv s \<Longrightarrow> cached s bno b \<Longrightarrow> n \<noteq> bno \<Longrightarrow> bslot s n \<noteq> Some b"
  by (auto simp: bslot_Some cached_def)

text \<open>The buffers after \<^verbatim>\<open>brelse\<close>.\<close>

definition put_back :: "nat \<Rightarrow> (nat \<Rightarrow> buf) \<Rightarrow> nat \<Rightarrow> buf" where
  "put_back b bs =
     (let bs = bs(b := (bs b)\<lparr>b_refcnt := b_refcnt (bs b) - 1\<rparr>)
      in if b_refcnt (bs b) = 0 then blink b (bunlink b bs) else bs)"

definition dropped :: "nat \<Rightarrow> 'z bstate_scheme \<Rightarrow> 'z bstate_scheme" where
  "dropped b s = wake_all (ChSL (BufSL b)) (set_sl (BufSL b) \<lparr>sl_locked = False, sl_pid = 0\<rparr>
     (s\<lparr>bufs := put_back b (bufs s)\<rparr>))"

lemma link_fields:
  "b_dev ((bs(x := (bs x)\<lparr>b_next := v\<rparr>)) c) = b_dev (bs c)" "b_dev ((bs(x := (bs x)\<lparr>b_prev := v\<rparr>)) c) = b_dev (bs c)"
  "b_blockno ((bs(x := (bs x)\<lparr>b_next := v\<rparr>)) c) = b_blockno (bs c)" "b_blockno ((bs(x := (bs x)\<lparr>b_prev := v\<rparr>)) c) = b_blockno (bs c)"
  "b_valid ((bs(x := (bs x)\<lparr>b_next := v\<rparr>)) c) = b_valid (bs c)" "b_valid ((bs(x := (bs x)\<lparr>b_prev := v\<rparr>)) c) = b_valid (bs c)"
  "b_data ((bs(x := (bs x)\<lparr>b_next := v\<rparr>)) c) = b_data (bs c)" "b_data ((bs(x := (bs x)\<lparr>b_prev := v\<rparr>)) c) = b_data (bs c)"
  "b_refcnt ((bs(x := (bs x)\<lparr>b_next := v\<rparr>)) c) = b_refcnt (bs c)" "b_refcnt ((bs(x := (bs x)\<lparr>b_prev := v\<rparr>)) c) = b_refcnt (bs c)"
  by simp_all

lemma blink_fields [simp]:
  "b_dev (blink b bs c) = b_dev (bs c)" "b_blockno (blink b bs c) = b_blockno (bs c)"
  "b_valid (blink b bs c) = b_valid (bs c)" "b_data (blink b bs c) = b_data (bs c)"
  "b_refcnt (blink b bs c) = b_refcnt (bs c)"
  unfolding blink_def Let_def link_fields by (rule refl)+

lemma bunlink_fields [simp]:
  "b_dev (bunlink b bs c) = b_dev (bs c)" "b_blockno (bunlink b bs c) = b_blockno (bs c)"
  "b_valid (bunlink b bs c) = b_valid (bs c)" "b_data (bunlink b bs c) = b_data (bs c)"
  "b_refcnt (bunlink b bs c) = b_refcnt (bs c)"
  unfolding bunlink_def Let_def link_fields by (rule refl)+

lemma put_back_fields [simp]:
  "b_dev (put_back b bs c) = b_dev (bs c)" "b_blockno (put_back b bs c) = b_blockno (bs c)"
  "b_valid (put_back b bs c) = b_valid (bs c)" "b_data (put_back b bs c) = b_data (bs c)"
  "b_refcnt (put_back b bs c) = (if c = b then b_refcnt (bs b) - 1 else b_refcnt (bs c))"
  by (simp_all add: put_back_def Let_def)

lemma ring_put_back:
  assumes "ring bs xs" and "b \<in> set xs"
  shows "\<exists>ys. ring (put_back b bs) ys \<and> set ys = set xs"
proof -
  let ?bs = "bs(b := (bs b)\<lparr>b_refcnt := b_refcnt (bs b) - 1\<rparr>)"
  have r: "ring ?bs xs" using assms(1) ring_cong [of ?bs bs xs] by simp
  obtain ys zs where x: "xs = ys @ b # zs" using assms(2) by (meson split_list)
  have n: "b \<notin> set (ys @ zs)" "b \<noteq> NBUF" using assms(1) x by (auto simp: ring_def)
  have "ring (blink b (bunlink b ?bs)) (b # ys @ zs)"
    using ring_blink [OF ring_bunlink n] r x by simp
  moreover have "set (b # ys @ zs) = set xs" using x by auto
  moreover have "put_back b bs = blink b (bunlink b ?bs) \<or> put_back b bs = ?bs"
    by (simp add: put_back_def Let_def)
  ultimately show ?thesis using r by (elim disjE) (simp only:, blast)+
qed

lemma block_lock_facts:
  assumes "cache_inv s" and "block_lock s bno = Some b"
  shows "b < NBUF" "cached s bno b" "sl_locked (slocks s (BufSL b))" "sl_pid (slocks s (BufSL b)) = mypid s"
    "b_valid (bufs s b)" "b_refcnt (bufs s b) \<noteq> 0" "block_view s bno = b_data (bufs s b)"
    "block_refs s bno = unat (b_refcnt (bufs s b))" "b_blockno (bufs s b) = bno" "bslot s bno = Some b"
proof -
  show c: "cached s bno b" and l: "sl_locked (slocks s (BufSL b))"
    using assms by (simp_all add: block_lock_Some)
  then show b: "b < NBUF" and "b_blockno (bufs s b) = bno" by (auto simp: cached_def)
  then have ok: "buf_ok s b" using assms by (auto simp: cache_inv_def)
  then show v: "b_valid (bufs s b)" "b_refcnt (bufs s b) \<noteq> 0" "sl_pid (slocks s (BufSL b)) = mypid s"
    using l by (simp_all add: buf_ok_def)
  show s: "bslot s bno = Some b" using assms c by (simp add: bslot_Some)
  show "block_view s bno = b_data (bufs s b)" "block_refs s bno = unat (b_refcnt (bufs s b))"
    using s v by (simp_all add: block_view_def block_refs_def)
qed

lemma brelse_dropped:
  assumes "cache_inv s" and "calm s" and "block_lock s bno = Some b"
  shows "brelse b s = (Ret (), dropped b s)"
proof -
  note f = block_lock_facts [OF assms(1,3)]
  have "SlLock (BufSL b) \<notin> set (held s)" "running s" using assms(2) by (auto simp: calm_def)
  then show ?thesis using f assms(2)
    by (auto simp: brelse_def holdingsleep_spec releasesleep_spec wake_all_def set_sl_def calm_def setb_def
        dropped_def put_back_def Let_def)
qed

lemma cache_inv_dropped:
  assumes i: "cache_inv s" and l: "block_lock s bno = Some b"
    and c: "block_refs s bno = 1 \<Longrightarrow> block_view s bno = disk s bno"
  shows "cache_inv (dropped b s)"
proof -
  note f = block_lock_facts [OF i l]
  obtain xs where "ring (bufs s) xs" "set xs = {..<NBUF}" using i by (auto simp: cache_inv_def)
  then obtain ys where ys: "ring (put_back b (bufs s)) ys" "set ys = {..<NBUF}"
    using ring_put_back [of "bufs s" xs b] f(1) by auto
  have "same_keys s (dropped b s)" by (simp add: same_keys_def dropped_def wake_all_def set_sl_def)
  moreover have "buf_ok (dropped b s) d" if "d < NBUF" for d
  proof -
    have "buf_ok s d" using i that by (simp add: cache_inv_def)
    moreover have "mypid (dropped b s) = mypid s"
      by (simp add: dropped_def) (simp add: mypid_def set_sl_def)
    moreover have "b_refcnt (bufs s b) - 1 = 0 \<Longrightarrow> b_data (bufs s b) = disk s bno"
      using c f by simp
    ultimately show ?thesis
      using f by (auto simp: buf_ok_def dropped_def wake_all_def set_sl_def cached_def)
  qed
  ultimately show ?thesis
    using same_keys_inv [OF i] ys by (simp add: dropped_def wake_all_def set_sl_def)
qed

lemma cabs_dropped:
  assumes i: "cache_inv s" and l: "block_lock s bno = Some b"
  shows "cabs (dropped b s) = a_drop bno (cabs s)" and "block_lock (dropped b s) = (block_lock s)(bno := None)"
proof -
  note f = block_lock_facts [OF i l] and u = bslot_neq [OF i block_lock_facts(2) [OF i l]]
  have s: "bslot (dropped b s) = bslot s"
    by (rule same_keys_bslot) (simp add: same_keys_def dropped_def wake_all_def set_sl_def)
  have fs: "bufs (dropped b s) = put_back b (bufs s)" "disk (dropped b s) = disk s" "dwrites (dropped b s) = dwrites s"
      "slocks (dropped b s) = (slocks s)(BufSL b := \<lparr>sl_locked = False, sl_pid = 0\<rparr>)"
    by (simp_all add: dropped_def wake_all_def set_sl_def)
  have "block_view (dropped b s) n = block_view s n" for n
    using s by (simp add: block_view_def fs split: option.splits)
  moreover have "block_refs (dropped b s) n = ((block_refs s)(bno := block_refs s bno - 1)) n" for n
    using s f u by (auto simp: block_refs_def fs unat_minus_one split: option.splits)
  moreover have "block_lock (dropped b s) n = ((block_lock s)(bno := None)) n" for n
    using s f u by (auto simp: block_lock_def fs split: option.splits)
  ultimately show "cabs (dropped b s) = a_drop bno (cabs s)" and "block_lock (dropped b s) = (block_lock s)(bno := None)"
    by (auto simp: cabs_def fun_eq_iff fs a_drop_def)
qed

text \<open>A change of the data or the reference count of a locked buffer, and a write to the disk.\<close>

lemma cabs_setb:
  assumes i: "cache_inv s" and l: "block_lock s bno = Some b"
    and f: "f (bufs s b) = (bufs s b)\<lparr>b_data := d, b_refcnt := r\<rparr>" and r: "r \<noteq> 0"
  shows "cache_inv (setb b f s) \<and> block_lock (setb b f s) = block_lock s \<and>
     cabs (setb b f s) = (cabs s)\<lparr>av := (block_view s)(bno := d), ar := (block_refs s)(bno := unat r)\<rparr>"
proof -
  note lf = block_lock_facts [OF i l] and u = bslot_neq [OF i block_lock_facts(2) [OF i l]]
  have k: "same_keys s (setb b f s)" by (simp add: same_keys_def setb_def f)
  note s = same_keys_bslot [OF k]
  have bs: "bufs (setb b f s) = (bufs s)(b := (bufs s b)\<lparr>b_data := d, b_refcnt := r\<rparr>)"
    by (simp add: setb_def f)
  obtain xs where xs: "ring (bufs s) xs" "set xs = {..<NBUF}" using i by (auto simp: cache_inv_def)
  have "ring (bufs (setb b f s)) xs" using xs(1) ring_cong [of "bufs (setb b f s)" "bufs s"] by (simp add: bs)
  moreover have "buf_ok (setb b f s) c" if "c < NBUF" for c
    using i that r lf(5) by (auto simp: cache_inv_def buf_ok_def bs) (auto simp: setb_def mypid_def)
  ultimately have "cache_inv (setb b f s)" using same_keys_inv [OF i k] xs by blast
  moreover have "block_view (setb b f s) n = ((block_view s)(bno := d)) n" for n
    using s lf u by (auto simp: block_view_def bs split: option.splits) (simp_all add: setb_def)
  moreover have "block_refs (setb b f s) n = ((block_refs s)(bno := unat r)) n" for n
    using s lf u by (auto simp: block_refs_def bs split: option.splits)
  moreover have "block_lock (setb b f s) n = block_lock s n" for n
    using s by (simp add: block_lock_def setb_def split: option.splits)
  ultimately show ?thesis by (simp add: cabs_def fun_eq_iff) (simp add: setb_def)
qed

lemma disk_write:
  assumes i: "cache_inv s" and l: "block_lock s bno = Some b"
  shows "\<exists>s'. disk_rw b True s = (Ret (), s') \<and> cache_inv s' \<and> bframe s s' \<and>
    cabs s' = a_write bno (cabs s) \<and> block_lock s' = block_lock s"
proof -
  note lf = block_lock_facts [OF i l] and u = bslot_neq [OF i block_lock_facts(2) [OF i l]]
  let ?s = "s\<lparr>disk := (disk s)(bno := block_view s bno), dwrites := dwrites s @ [(bno, block_view s bno)]\<rparr>"
  have e: "disk_rw b True s = (Ret (), ?s)" using lf by (simp add: disk_rw_def Let_def)
  have k: "same_keys s ?s" by (simp add: same_keys_def)
  note sl = same_keys_bslot [OF k]
  obtain xs where xs: "ring (bufs s) xs" "set xs = {..<NBUF}" using i by (auto simp: cache_inv_def)
  have "buf_ok ?s c" if c: "c < NBUF" for c
  proof -
    have "buf_ok s c" using i c by (simp add: cache_inv_def)
    moreover have "b_dev (bufs s c) = 1 \<Longrightarrow> b_blockno (bufs s c) = bno \<Longrightarrow> c = b"
      using cached_uniq [OF i lf(2)] c by (auto simp: cached_def)
    ultimately show ?thesis using lf by (auto simp: buf_ok_def mypid_def)
  qed
  then have "cache_inv ?s" using same_keys_inv [OF i k] xs by simp
  moreover have "block_view ?s n = block_view s n" for n
    using sl lf u by (auto simp: block_view_def split: option.splits)
  moreover have "block_refs ?s n = block_refs s n" "block_lock ?s n = block_lock s n" for n
    using sl by (simp_all add: block_refs_def block_lock_def split: option.splits)
  ultimately show ?thesis using e by (simp add: cabs_def a_write_def fun_eq_iff bframe_def pkept_def)
qed

lemma pkept_wake_all: "pkept s (wake_all ch s)"
  by (simp add: pkept_def wake_all_def woken_all_def woken_def)

lemma bframe_trans: "bframe s s' \<Longrightarrow> bframe s' s'' \<Longrightarrow> bframe s s''"
proof -
  assume f: "bframe s s'" "bframe s' s''"
  have "s''\<lparr>bufs := bufs s, disk := disk s, dwrites := dwrites s, slocks := slocks s, procs := procs s\<rparr> =
    (s''\<lparr>bufs := bufs s', disk := disk s', dwrites := dwrites s', slocks := slocks s', procs := procs s'\<rparr>)
      \<lparr>bufs := bufs s, disk := disk s, dwrites := dwrites s, slocks := slocks s, procs := procs s\<rparr>"
    by simp
  also have "\<dots> = s" using f by (simp only: bframe_def)
  finally show ?thesis
    using f pkept_trans [of s s' s''] bframe_more [OF f(1)] by (simp add: bframe_def)
qed

lemma bframe_mypid: "bframe s s' \<Longrightarrow> mypid s' = mypid s"
  using bframe_more [of s s'] unfolding bframe_def pkept_def mypid_def by (metis proc.surjective proc.update_convs proc.select_convs)

lemma bframe_calm: "bframe s s' \<Longrightarrow> calm s' = calm s"
  using bframe_more [of s s'] by (simp add: calm_def running_def no_plock_def)

lemma bframe_steps:
  "bframe s (taken b bno s)" "bframe s (dropped b s)" "bframe s (setb b f s)"
  using pkept_wake_all [of s "ChSL (BufSL b)"]
  by (simp_all add: bframe_def taken_def dropped_def setb_def set_sl_def wake_all_def pkept_def)

lemma bwrite_rw:
  assumes "cache_inv s" and "calm s" and "block_lock s bno = Some b"
  shows "bwrite b s = disk_rw b True s"
  using block_lock_facts [OF assms(1,3)] assms(2)
  by (simp add: bwrite_def holdingsleep_spec calm_def)

lemma bpin_setb: "calm s \<Longrightarrow> bpin b s = (Ret (), setb b (\<lambda>q. q\<lparr>b_refcnt := b_refcnt q + 1\<rparr>) s)"
  by (simp add: bpin_def calm_def setb_def)

lemma bunpin_setb: "calm s \<Longrightarrow> bunpin b s = (Ret (), setb b (\<lambda>q. q\<lparr>b_refcnt := b_refcnt q - 1\<rparr>) s)"
  by (simp add: bunpin_def calm_def setb_def)

section \<open>The contract\<close>

text \<open>There is a buffer for a block: it is cached in use, or fewer than \<open>NBUF\<close> blocks are in use;
  and one more reference does not wrap the counter.\<close>

definition has_room :: "acache \<Rightarrow> u32 \<Rightarrow> bool" where
  "has_room a bno \<longleftrightarrow> ar a bno < 4294967295 \<and>
     (ar a bno \<noteq> 0 \<or> (\<exists>U. finite U \<and> card U < NBUF \<and> (\<forall>n. n \<notin> U \<longrightarrow> ar a n = 0)))"

lemma room_buffer:
  assumes i: "cache_inv s" and "bslot s bno = None" and "has_room (cabs s) bno"
  shows "\<exists>b<NBUF. b_refcnt (bufs s b) = 0"
proof (rule ccontr)
  assume "\<not> ?thesis"
  then have r: "b_refcnt (bufs s b) \<noteq> 0" if "b < NBUF" for b using that by blast
  have c: "cached s (b_blockno (bufs s b)) b" if "b < NBUF" for b
    using i r [OF that] that by (auto simp: cache_inv_def buf_ok_def cached_def)
  have "block_refs s bno = 0" using assms(2) by (simp add: block_refs_def)
  then obtain U where U: "finite U" "card U < NBUF" "\<And>n. n \<notin> U \<Longrightarrow> block_refs s n = 0"
    using assms(3) by (auto simp: has_room_def cabs_def)
  have "block_refs s (b_blockno (bufs s b)) \<noteq> 0" if "b < NBUF" for b
  proof -
    have "bslot s (b_blockno (bufs s b)) = Some b" using c [OF that] i by (simp add: bslot_Some)
    then show ?thesis using r [OF that] by (simp add: block_refs_def unat_eq_0)
  qed
  then have "(\<lambda>b. b_blockno (bufs s b)) ` {..<NBUF} \<subseteq> U"
    using U(3) by (metis image_subset_iff lessThan_iff)
  moreover have "inj_on (\<lambda>b. b_blockno (bufs s b)) {..<NBUF}"
    using c cached_uniq [OF i] by (auto simp: inj_on_def) (metis)
  ultimately have "card {..<NBUF} \<le> card U" using U(1) by (metis card_image card_mono)
  then show False using U(2) by simp
qed

locale block_cache =
  fixes rd :: "u32 \<Rightarrow> 's \<Rightarrow> nat res \<times> 's" and wr rel pin unpin :: "nat \<Rightarrow> 's \<Rightarrow> unit res \<times> 's"
    and get :: "'s \<Rightarrow> nat \<Rightarrow> u8 list" and put :: "nat \<Rightarrow> u8 list \<Rightarrow> 's \<Rightarrow> 's"
    and inv :: "'s \<Rightarrow> bool" and abs :: "'s \<Rightarrow> acache" and lk :: "'s \<Rightarrow> u32 \<Rightarrow> nat option"
    and fr :: "'s \<Rightarrow> 's \<Rightarrow> bool"
  assumes rd_law: "inv s \<Longrightarrow> lk s bno = None \<Longrightarrow> has_room (abs s) bno \<Longrightarrow>
      \<exists>b s'. rd bno s = (Ret b, s') \<and> inv s' \<and> fr s s' \<and> abs s' = a_take bno (abs s) \<and> lk s' = (lk s)(bno \<mapsto> b)"
    and get_law: "inv s \<Longrightarrow> lk s bno = Some b \<Longrightarrow> get s b = av (abs s) bno"
    and put_law: "inv s \<Longrightarrow> lk s bno = Some b \<Longrightarrow>
      inv (put b d s) \<and> fr s (put b d s) \<and> abs (put b d s) = a_put bno d (abs s) \<and> lk (put b d s) = lk s"
    and wr_law: "inv s \<Longrightarrow> lk s bno = Some b \<Longrightarrow>
      \<exists>s'. wr b s = (Ret (), s') \<and> inv s' \<and> fr s s' \<and> abs s' = a_write bno (abs s) \<and> lk s' = lk s"
    and rel_law: "inv s \<Longrightarrow> lk s bno = Some b \<Longrightarrow>
      (ar (abs s) bno = 1 \<longrightarrow> av (abs s) bno = ad (abs s) bno) \<Longrightarrow>
      \<exists>s'. rel b s = (Ret (), s') \<and> inv s' \<and> fr s s' \<and> abs s' = a_drop bno (abs s) \<and> lk s' = (lk s)(bno := None)"
    and pin_law: "inv s \<Longrightarrow> lk s bno = Some b \<Longrightarrow> ar (abs s) bno < 4294967295 \<Longrightarrow>
      \<exists>s'. pin b s = (Ret (), s') \<and> inv s' \<and> fr s s' \<and> abs s' = a_pin bno (abs s) \<and> lk s' = lk s"
    and unpin_law: "inv s \<Longrightarrow> lk s bno = Some b \<Longrightarrow> ar (abs s) bno > 1 \<Longrightarrow>
      \<exists>s'. unpin b s = (Ret (), s') \<and> inv s' \<and> fr s s' \<and> abs s' = a_unpin bno (abs s) \<and> lk s' = lk s"
    and lk_refs: "inv s \<Longrightarrow> lk s bno = Some b \<Longrightarrow> ar (abs s) bno > 0"
    and lk_al: "inv s \<Longrightarrow> al (abs s) bno \<longleftrightarrow> lk s bno \<noteq> None"
    and fr_refl: "fr s s" and fr_trans: "fr s s' \<Longrightarrow> fr s' s'' \<Longrightarrow> fr s s''"
begin

text \<open>Reading a block and releasing it changes nothing but the order of the buffers.\<close>

lemma peek:
  assumes "inv s" and "lk s bno = None" and "has_room (abs s) bno"
    and "ar (abs s) bno = 0 \<longrightarrow> av (abs s) bno = ad (abs s) bno"
  shows "\<exists>s'. bnd (rd bno s) (\<lambda>b s. let d = get s b in bnd (rel b s) (\<lambda>_ s. (Ret d, s))) =
      (Ret (av (abs s) bno), s') \<and> inv s' \<and> fr s s' \<and> abs s' = abs s \<and> lk s' = lk s"
proof -
  obtain b t where t: "rd bno s = (Ret b, t)" "inv t" "fr s t" "abs t = a_take bno (abs s)" "lk t = (lk s)(bno \<mapsto> b)"
    using rd_law [OF assms(1-3)] by blast
  obtain u where u: "rel b t = (Ret (), u)" "inv u" "fr t u" "abs u = a_drop bno (abs t)" "lk u = (lk t)(bno := None)"
    using rel_law [of t bno b] t assms(4) by (auto simp: a_take_def)
  have "abs u = abs s" using t u lk_al [OF assms(1), of bno] assms(2) by (simp add: a_take_def a_drop_def fun_upd_idem)
  moreover have "lk u = lk s" using t u assms(2) by (simp add: fun_upd_idem)
  moreover have "get t b = av (abs s) bno" using get_law [of t bno b] t by (simp add: a_take_def)
  ultimately show ?thesis using t u fr_trans by (auto simp: Let_def)
qed

end

lemma u32_no_wrap: "unat x < 4294967295 \<Longrightarrow> x + 1 \<noteq> 0" for x :: u32
proof -
  assume "unat x < 4294967295"
  then have "unat (x + 1) = (unat x + 1) mod 4294967296" by (simp add: unat_word_ariths)
  then have "unat (x + 1) \<noteq> 0" using \<open>unat x < 4294967295\<close> by simp
  then show ?thesis by auto
qed

definition buf_put :: "nat \<Rightarrow> u8 list \<Rightarrow> 'z bstate_scheme \<Rightarrow> 'z bstate_scheme" where
  "buf_put b d s = setb b (\<lambda>q. q\<lparr>b_data := d\<rparr>) s"

definition cache_ok :: "'z bstate_scheme \<Rightarrow> bool" where
  "cache_ok s \<longleftrightarrow> cache_inv s \<and> calm s"

lemma bread_ok:
  assumes "cache_ok s" and l: "block_lock s bno = None" and r: "has_room (cabs s) bno"
  shows "\<exists>b s'. bread 1 bno s = (Ret b, s') \<and> cache_ok s' \<and> bframe s s' \<and>
     cabs s' = a_take bno (cabs s) \<and> block_lock s' = (block_lock s)(bno \<mapsto> b)"
proof -
  have i: "cache_inv s" and c: "calm s" using assms by (simp_all add: cache_ok_def)
  obtain b where b: "takeable s bno b" "bread 1 bno s = (Ret b, taken b bno s)"
  proof (cases "bslot s bno")
    case None
    then show ?thesis using bread_taken_miss [OF i c None room_buffer [OF i None r]] that by blast
  next
    case (Some b)
    then have "\<not> sl_locked (slocks s (BufSL b))" using l by (auto simp: block_lock_def split: if_splits)
    moreover have "cached s bno b" using i Some by (simp add: bslot_Some)
    ultimately show ?thesis using bread_taken_hit [OF i c] that [of b] by (auto simp: takeable_def cached_def)
  qed
  have "unat (b_refcnt (bufs s b)) < 4294967295"
    using r taken_refs0 [OF i b(1)] by (simp add: has_room_def cabs_def)
  then have w: "b_refcnt (bufs s b) + 1 \<noteq> 0"
    using u32_no_wrap by blast
  show ?thesis
    using b cache_inv_taken [OF i b(1) w] cabs_taken [OF i b(1) w] bframe_steps(1) [of s b bno]
      bframe_calm [OF bframe_steps(1) [of s b bno]] c by (auto simp: cache_ok_def)
qed

lemma brelse_ok:
  assumes "cache_ok s" and l: "block_lock s bno = Some b"
    and "ar (cabs s) bno = 1 \<longrightarrow> av (cabs s) bno = ad (cabs s) bno"
  shows "\<exists>s'. brelse b s = (Ret (), s') \<and> cache_ok s' \<and> bframe s s' \<and>
     cabs s' = a_drop bno (cabs s) \<and> block_lock s' = (block_lock s)(bno := None)"
proof -
  have i: "cache_inv s" and c: "calm s" using assms by (simp_all add: cache_ok_def)
  have "cache_inv (dropped b s)" using cache_inv_dropped [OF i l] assms(3) by (simp add: cabs_def)
  then show ?thesis
    using brelse_dropped [OF i c l] cabs_dropped [OF i l] bframe_steps(2) [of s b]
      bframe_calm [OF bframe_steps(2) [of s b]] c by (auto simp: cache_ok_def)
qed

lemma setb_ok:
  assumes "cache_ok s" and l: "block_lock s bno = Some b"
    and "f (bufs s b) = (bufs s b)\<lparr>b_data := d, b_refcnt := r\<rparr>" and "r \<noteq> 0"
  shows "cache_ok (setb b f s) \<and> bframe s (setb b f s) \<and> block_lock (setb b f s) = block_lock s \<and>
     cabs (setb b f s) = (cabs s)\<lparr>av := (block_view s)(bno := d), ar := (block_refs s)(bno := unat r)\<rparr>"
  using cabs_setb [of s bno b f r d] assms bframe_steps(3) [of s b f] bframe_calm [OF bframe_steps(3) [of s b f]]
  by (simp add: cache_ok_def)

interpretation bcache: block_cache "bread 1" bwrite brelse bpin bunpin "\<lambda>s b. b_data (bufs s b)" buf_put
  cache_ok cabs block_lock bframe
proof (unfold_locales, goal_cases)
  case (1 s bno)
  then show ?case by (rule bread_ok)
next
  case (2 s bno b)
  then show ?case using block_lock_facts(7) [of s bno b] by (simp add: cabs_def cache_ok_def)
next
  case (3 s bno b d)
  then have "b_refcnt (bufs s b) \<noteq> 0" "block_refs s bno = unat (b_refcnt (bufs s b))"
    using block_lock_facts [of s bno b] by (simp_all add: cache_ok_def)
  then show ?case using setb_ok [OF 3, where f = "\<lambda>q. q\<lparr>b_data := d\<rparr>" and d = d and r = "b_refcnt (bufs s b)"]
    by (simp add: buf_put_def a_put_def fun_upd_idem) (simp add: cabs_def)
next
  case (4 s bno b)
  then have "cache_inv s" "calm s" by (simp_all add: cache_ok_def)
  then show ?case using disk_write [of s bno b] 4 bwrite_rw [of s bno b] bframe_calm by (auto simp: cache_ok_def)
next
  case (5 s bno b)
  then show ?case by (rule brelse_ok)
next
  case (6 s bno b)
  then have f: "block_refs s bno = unat (b_refcnt (bufs s b))" "block_view s bno = b_data (bufs s b)"
    using block_lock_facts [of s bno b] by (simp_all add: cache_ok_def)
  then have "b_refcnt (bufs s b) + 1 \<noteq> 0" using 6(3) u32_no_wrap [of "b_refcnt (bufs s b)"] by (simp add: cabs_def)
  moreover from this have "unat (b_refcnt (bufs s b) + 1) = Suc (block_refs s bno)"
    using unatSuc [of "b_refcnt (bufs s b)"] f by (simp add: add.commute)
  ultimately show ?case using 6 f bpin_setb [of s b]
      setb_ok [OF 6(1,2), where f = "\<lambda>q. q\<lparr>b_refcnt := b_refcnt q + 1\<rparr>" and d = "b_data (bufs s b)" and r = "b_refcnt (bufs s b) + 1"]
    by (auto simp: cache_ok_def cabs_def a_pin_def fun_upd_idem)
next
  case (7 s bno b)
  then have f: "block_refs s bno = unat (b_refcnt (bufs s b))" "block_view s bno = b_data (bufs s b)" "b_refcnt (bufs s b) \<noteq> 0"
    using block_lock_facts [of s bno b] by (simp_all add: cache_ok_def)
  then have "b_refcnt (bufs s b) - 1 \<noteq> 0" using 7(3) by (auto simp: cabs_def)
  then show ?case using 7 f bunpin_setb [of s b] unat_minus_one [of "b_refcnt (bufs s b)"]
      setb_ok [OF 7(1,2), where f = "\<lambda>q. q\<lparr>b_refcnt := b_refcnt q - 1\<rparr>" and d = "b_data (bufs s b)" and r = "b_refcnt (bufs s b) - 1"]
    by (auto simp: cache_ok_def cabs_def a_unpin_def fun_upd_idem)
next
  case (8 s bno b)
  then show ?case using block_lock_facts [of s bno b] by (simp add: cabs_def cache_ok_def unat_gt_0)
qed (auto simp: cabs_def intro: bframe_trans)

section \<open>Runs of a client\<close>

text \<open>A client reads and locks blocks, changes their contents, writes them back, and drops or
  keeps references; it names a buffer it has locked by the block in it.\<close>

datatype cop = CRead u32 | CPut u32 "u8 list" | CWrite u32 | CRel u32 | CPin u32 | CUnpin u32

definition on_buf :: "u32 \<Rightarrow> (nat \<Rightarrow> 'z bstate_scheme \<Rightarrow> unit res \<times> 'z bstate_scheme) \<Rightarrow>
    'z bstate_scheme \<Rightarrow> u8 list res \<times> 'z bstate_scheme" where
  "on_buf bno f s = (case block_lock s bno of None \<Rightarrow> (Hang, s) | Some b \<Rightarrow> bnd (f b s) (\<lambda>_ s. (Ret [], s)))"

primrec c_step :: "cop \<Rightarrow> 'z bstate_scheme \<Rightarrow> u8 list res \<times> 'z bstate_scheme" where
  "c_step (CRead bno) s = bnd (bread 1 bno s) (\<lambda>b s. (Ret (b_data (bufs s b)), s))"
| "c_step (CPut bno d) s = on_buf bno (\<lambda>b s. (Ret (), buf_put b d s)) s"
| "c_step (CWrite bno) s = on_buf bno bwrite s"
| "c_step (CRel bno) s = on_buf bno brelse s"
| "c_step (CPin bno) s = on_buf bno bpin s"
| "c_step (CUnpin bno) s = on_buf bno bunpin s"

primrec c_run :: "cop list \<Rightarrow> 'z bstate_scheme \<Rightarrow> u8 list list res \<times> 'z bstate_scheme" where
  "c_run [] s = (Ret [], s)"
| "c_run (c # cs) s = bnd (c_step c s) (\<lambda>d s. bnd (c_run cs s) (\<lambda>ds s. (Ret (d # ds), s)))"

primrec a_step :: "cop \<Rightarrow> acache \<Rightarrow> acache" where
  "a_step (CRead bno) = a_take bno"
| "a_step (CPut bno d) = a_put bno d"
| "a_step (CWrite bno) = a_write bno"
| "a_step (CRel bno) = a_drop bno"
| "a_step (CPin bno) = a_pin bno"
| "a_step (CUnpin bno) = a_unpin bno"

primrec a_out :: "cop \<Rightarrow> acache \<Rightarrow> u8 list" where
  "a_out (CRead bno) a = av a bno"
| "a_out (CPut bno d) a = []"
| "a_out (CWrite bno) a = []"
| "a_out (CRel bno) a = []"
| "a_out (CPin bno) a = []"
| "a_out (CUnpin bno) a = []"

text \<open>The client's side of the contract: it locks a block once and only while buffers are left,
  uses only blocks it has locked, and drops the last reference only to a block it has written
  back.\<close>

primrec a_legal :: "cop \<Rightarrow> acache \<Rightarrow> bool" where
  "a_legal (CRead bno) a \<longleftrightarrow> \<not> al a bno \<and> has_room a bno"
| "a_legal (CPut bno d) a \<longleftrightarrow> al a bno"
| "a_legal (CWrite bno) a \<longleftrightarrow> al a bno"
| "a_legal (CRel bno) a \<longleftrightarrow> al a bno \<and> (ar a bno = 1 \<longrightarrow> av a bno = ad a bno)"
| "a_legal (CPin bno) a \<longleftrightarrow> al a bno \<and> ar a bno < 4294967295"
| "a_legal (CUnpin bno) a \<longleftrightarrow> al a bno \<and> ar a bno > 1"

primrec a_legal_run :: "cop list \<Rightarrow> acache \<Rightarrow> bool" where
  "a_legal_run [] a \<longleftrightarrow> True"
| "a_legal_run (c # cs) a \<longleftrightarrow> a_legal c a \<and> a_legal_run cs (a_step c a)"

primrec a_run :: "cop list \<Rightarrow> acache \<Rightarrow> acache" where
  "a_run [] a = a"
| "a_run (c # cs) a = a_run cs (a_step c a)"

primrec a_outs :: "cop list \<Rightarrow> acache \<Rightarrow> u8 list list" where
  "a_outs [] a = []"
| "a_outs (c # cs) a = a_out c a # a_outs cs (a_step c a)"

lemma al_lock: "cache_ok s \<Longrightarrow> al (cabs s) bno \<Longrightarrow> \<exists>b. block_lock s bno = Some b"
  by (simp add: cabs_def)

lemma c_step_refines:
  assumes "cache_ok s" and "a_legal c (cabs s)"
  shows "\<exists>s'. c_step c s = (Ret (a_out c (cabs s)), s') \<and> cache_ok s' \<and> cabs s' = a_step c (cabs s)"
proof (cases c)
  case (CRead bno)
  then obtain b s' where s': "bread 1 bno s = (Ret b, s')" "cache_ok s'" "cabs s' = a_take bno (cabs s)"
      "block_lock s' = (block_lock s)(bno \<mapsto> b)"
    using bcache.rd_law [of s bno] assms by (auto simp: cabs_def)
  then have "b_data (bufs s' b) = av (cabs s) bno" using bcache.get_law [of s' bno b] by (simp add: a_take_def)
  then show ?thesis using CRead s' by simp
next
  case (CPut bno d)
  then obtain b where "block_lock s bno = Some b" using assms al_lock by fastforce
  then show ?thesis using CPut bcache.put_law assms by (auto simp: on_buf_def)
next
  case (CWrite bno)
  then obtain b where "block_lock s bno = Some b" using assms al_lock by fastforce
  then show ?thesis using CWrite bcache.wr_law [of s bno b] assms by (auto simp: on_buf_def)
next
  case (CRel bno)
  then obtain b where "block_lock s bno = Some b" using assms al_lock by fastforce
  then show ?thesis using CRel bcache.rel_law [of s bno b] assms by (auto simp: on_buf_def)
next
  case (CPin bno)
  then obtain b where "block_lock s bno = Some b" using assms al_lock by fastforce
  then show ?thesis using CPin bcache.pin_law [of s bno b] assms by (auto simp: on_buf_def)
next
  case (CUnpin bno)
  then obtain b where "block_lock s bno = Some b" using assms al_lock by fastforce
  then show ?thesis using CUnpin bcache.unpin_law [of s bno b] assms by (auto simp: on_buf_def)
qed

lemma c_run_refines:
  "cache_ok s \<Longrightarrow> a_legal_run cs (cabs s) \<Longrightarrow>
   \<exists>s'. c_run cs s = (Ret (a_outs cs (cabs s)), s') \<and> cache_ok s' \<and> cabs s' = a_run cs (cabs s)"
proof (induction cs arbitrary: s)
  case (Cons c cs)
  then obtain s1 where s1: "c_step c s = (Ret (a_out c (cabs s)), s1)" "cache_ok s1" "cabs s1 = a_step c (cabs s)"
    using c_step_refines [of s c] by auto
  then obtain s2 where "c_run cs s1 = (Ret (a_outs cs (cabs s1)), s2)" "cache_ok s2" "cabs s2 = a_run cs (cabs s1)"
    using Cons.IH [of s1] Cons.prems by auto
  then show ?case using s1 by simp
qed simp

section \<open>Initialisation\<close>

definition blank_buf :: "buf \<Rightarrow> bool" where
  "blank_buf q \<longleftrightarrow> \<not> b_valid q \<and> b_dev q = 0 \<and> b_refcnt q = 0"

lemma binit_loop_ring:
  "ring (bufs s) xs \<Longrightarrow> distinct bs \<Longrightarrow> set bs \<inter> set xs = {} \<Longrightarrow> NBUF \<notin> set bs \<Longrightarrow>
   ring (bufs (binit_loop bs s)) (rev bs @ xs)"
proof (induction bs arbitrary: s xs)
  case (Cons b bs)
  let ?s = "(initsleeplock (BufSL b) s)\<lparr>bufs := blink b (bufs s)\<rparr>"
  have "ring (bufs ?s) (b # xs)" using Cons.prems by (simp add: ring_blink)
  then show ?case using Cons.IH [of ?s "b # xs"] Cons.prems by simp
qed simp

lemma binit_loop_fields:
  "b_dev (bufs (binit_loop bs s) c) = b_dev (bufs s c) \<and> b_valid (bufs (binit_loop bs s) c) = b_valid (bufs s c) \<and>
   b_refcnt (bufs (binit_loop bs s) c) = b_refcnt (bufs s c)"
  by (induction bs arbitrary: s) auto

lemma binit_loop_frame:
  "disk (binit_loop bs s) = disk s \<and> dwrites (binit_loop bs s) = dwrites s \<and> held (binit_loop bs s) = held s \<and>
   curproc (binit_loop bs s) = curproc s \<and>
   (\<forall>b. sl_locked (slocks (binit_loop bs s) (BufSL b)) \<longleftrightarrow> b \<notin> set bs \<and> sl_locked (slocks s (BufSL b)))"
  by (induction bs arbitrary: s) (auto simp: initsleeplock_def set_sl_def)

lemma binit_ok:
  assumes "calm s" and "\<forall>b<NBUF. blank_buf (bufs s b)"
  shows "\<exists>s0. binit s = (Ret (), s0) \<and> cache_ok s0 \<and>
    cabs s0 = \<lparr>av = disk s, ar = (\<lambda>_. 0), al = (\<lambda>_. False), ad = disk s, aw = dwrites s\<rparr>"
proof -
  let ?h = "setb NBUF (\<lambda>h. h\<lparr>b_prev := NBUF, b_next := NBUF\<rparr>) s"
  let ?s = "binit_loop [0..<NBUF] ?h"
  have b: "blank_buf (bufs ?s b)" if "b < NBUF" for b
    using assms(2) that binit_loop_fields [of "[0..<NBUF]" ?h b] by (simp add: blank_buf_def setb_def)
  have r: "ring (bufs ?s) (rev [0..<NBUF] @ [])"
    by (rule binit_loop_ring) (auto simp: ring_def setb_def)
  have fr: "disk ?s = disk s" "dwrites ?s = dwrites s" "calm ?s"
      "\<And>b. b < NBUF \<Longrightarrow> \<not> sl_locked (slocks ?s (BufSL b))"
    using binit_loop_frame [of "[0..<NBUF]" ?h] assms(1)
    by (simp_all add: setb_def calm_def running_def no_plock_def del: upt_Suc)
  have c: "\<not> cached ?s bno b" for bno b using b by (auto simp: cached_def blank_buf_def)
  have "buf_ok ?s b" if "b < NBUF" for b using b fr(4) that by (auto simp: buf_ok_def blank_buf_def)
  then have i: "cache_inv ?s"
    using r c unfolding cache_inv_def by (metis append_Nil2 atLeast_upt set_rev)
  have "bslot ?s n = None" for n using c by (simp add: bslot_None)
  then show ?thesis
    using i fr(1-3) by (simp add: binit_def Let_def cache_ok_def cabs_def block_view_def block_refs_def block_lock_def
        fun_eq_iff del: upt_Suc binit_loop.simps)
qed

text \<open>
  C4. The buffer cache implements its abstract specification. From \<^verbatim>\<open>binit\<close> on, along every
  sequence of operations in which the client keeps its side of the contract, every operation
  returns (no panic, no wait, and the walks along the list end), every read returns the last
  contents put into the block, or else what the disk held, whatever other blocks were cached,
  recycled or written back in between, and the disk holds exactly the blocks that were
  written, in that order.
\<close>

theorem bcache_refines:
  assumes "calm s" and "\<forall>b<NBUF. blank_buf (bufs s b)"
    and "a_legal_run cs \<lparr>av = disk s, ar = (\<lambda>_. 0), al = (\<lambda>_. False), ad = disk s, aw = dwrites s\<rparr>"
  shows "\<exists>s0 s'. binit s = (Ret (), s0) \<and>
    c_run cs s0 = (Ret (a_outs cs \<lparr>av = disk s, ar = (\<lambda>_. 0), al = (\<lambda>_. False), ad = disk s, aw = dwrites s\<rparr>), s') \<and>
    cabs s' = a_run cs \<lparr>av = disk s, ar = (\<lambda>_. 0), al = (\<lambda>_. False), ad = disk s, aw = dwrites s\<rparr>"
  using binit_ok [OF assms(1,2)] c_run_refines assms(3) by metis

text \<open>A running process on a machine with an empty cache; every block of the disk holds its number.\<close>

definition bstate0 :: bstate where
  "bstate0 = \<lparr>held = [], mem = (\<lambda>_. 0), freelist = 0, kend = 0x80020000,
     procs = (\<lambda>i. if i = 0 then proc0\<lparr>p_state := RUNNING, p_pid := 1\<rparr> else proc0),
     nextpid = 2, curproc = Some 0, initproc = Some 0, kernel_pagetable = 0, etext = 0x80010000,
     trampoline = 0x8000f000, forkret_addr = 0x80001234,
     slocks = (\<lambda>_. \<lparr>sl_locked = False, sl_pid = 0\<rparr>),
     bufs = (\<lambda>_. \<lparr>b_valid = False, b_dev = 0, b_blockno = 0, b_refcnt = 0, b_prev = 0, b_next = 0, b_data = []\<rparr>),
     disk = (\<lambda>n. [ucast n]), dwrites = []\<rparr>"

definition cops0 :: "cop list" where
  "cops0 = [CRead 5, CPut 5 [42], CRead 6, CPin 5, CRel 6, CRel 5, CRead 5, CWrite 5, CUnpin 5, CRel 5, CRead 5]"

lemma has_room_few:
  "finite U \<Longrightarrow> card U < NBUF \<Longrightarrow> (\<forall>n. n \<notin> U \<longrightarrow> ar a n = 0) \<Longrightarrow> ar a bno < 4294967295 \<Longrightarrow> has_room a bno"
  by (auto simp: has_room_def)

lemma bstate0_calm: "calm bstate0 \<and> (\<forall>b<NBUF. blank_buf (bufs bstate0 b))"
  by (simp add: bstate0_def calm_def running_def no_plock_def blank_buf_def)

lemma cops0_legal:
  "a_legal_run cops0 \<lparr>av = disk bstate0, ar = (\<lambda>_. 0), al = (\<lambda>_. False), ad = disk bstate0, aw = dwrites bstate0\<rparr>"
  by (simp add: cops0_def bstate0_def a_take_def a_put_def a_drop_def a_pin_def a_unpin_def a_write_def
      has_room_few [of "{5, 6}"])

theorem bcache_refines_witness:
  "\<exists>s0 s'. binit bstate0 = (Ret (), s0) \<and>
     c_run cops0 s0 = (Ret [[5], [], [6], [], [], [], [42], [], [], [], [42]], s') \<and>
     disk s' 5 = [42] \<and> dwrites s' = [(5, [42])]"
proof -
  obtain s0 s' where s: "binit bstate0 = (Ret (), s0)"
    "c_run cops0 s0 = (Ret (a_outs cops0 \<lparr>av = disk bstate0, ar = (\<lambda>_. 0), al = (\<lambda>_. False), ad = disk bstate0,
        aw = dwrites bstate0\<rparr>), s')"
    "cabs s' = a_run cops0 \<lparr>av = disk bstate0, ar = (\<lambda>_. 0), al = (\<lambda>_. False), ad = disk bstate0, aw = dwrites bstate0\<rparr>"
    using bcache_refines [of bstate0 cops0] bstate0_calm cops0_legal by blast
  have "ad (cabs s') 5 = [42] \<and> aw (cabs s') = [(5, [42])]"
    unfolding s(3) by (simp add: cops0_def bstate0_def a_take_def a_put_def a_drop_def a_pin_def a_unpin_def a_write_def)
  then have "disk s' 5 = [42] \<and> dwrites s' = [(5, [42])]" by (simp add: cabs_def)
  then show ?thesis using s(1,2)
    by (simp add: cops0_def bstate0_def a_take_def a_put_def a_drop_def a_pin_def a_unpin_def a_write_def)
qed

end
