(* ===== verification/Log.thy ===== *)
theory Log
  imports Bcache
begin

text \<open>
  The write-ahead log, \<^verbatim>\<open>kernel/log.c\<close>. Integers of the C code are 32-bit words, compared as
  signed numbers where the C type is \<^verbatim>\<open>int\<close>. An access outside the array \<^verbatim>\<open>log.lh.block\<close>,
  which is undefined in C, is the failure \<open>Panic ''undefined''\<close>.
\<close>

section \<open>Definitions\<close>

abbreviation LOGSIZE :: nat where "LOGSIZE \<equiv> 30"
abbreviation MAXOPBLOCKS :: i32 where "MAXOPBLOCKS \<equiv> 10"

record logheader =
  lh_n :: i32
  lh_block :: "u32 list"

record logdata =
  lg_start :: i32
  lg_size :: i32
  lg_outstanding :: i32
  lg_committing :: bool
  lg_dev :: u32
  lg_lh :: logheader

record logstate = bstate +
  lg :: logdata

definition set_lg :: "(logdata \<Rightarrow> logdata) \<Rightarrow> 'z logstate_scheme \<Rightarrow> 'z logstate_scheme" where
  "set_lg f s = s\<lparr>lg := f (lg s)\<rparr>"

definition set_lh :: "(logheader \<Rightarrow> logheader) \<Rightarrow> 'z logstate_scheme \<Rightarrow> 'z logstate_scheme" where
  "set_lh f s = set_lg (\<lambda>g. g\<lparr>lg_lh := f (lg_lh g)\<rparr>) s"

text \<open>The indices \<open>0 \<le> i < log.lh.n\<close>.\<close>

definition lh_range :: "i32 \<Rightarrow> nat list" where
  "lh_range n = [0..<nat (sint n)]"

definition lh_nth :: "nat \<Rightarrow> 'z logstate_scheme \<Rightarrow> u32 res" where
  "lh_nth i s = (if i < length (lh_block (lg_lh (lg s))) then Ret (lh_block (lg_lh (lg s)) ! i)
     else Panic ''undefined'')"

primrec install_loop :: "bool \<Rightarrow> nat list \<Rightarrow> 'z logstate_scheme \<Rightarrow> unit res \<times> 'z logstate_scheme" where
  "install_loop recovering [] s = (Ret (), s)"
| "install_loop recovering (tail # tails) s =
     bnd (bread (lg_dev (lg s)) (lg_start (lg s) + of_nat tail + 1) s) (\<lambda>lbuf s.
     bnd (lh_nth tail s, s) (\<lambda>blk s.
     bnd (bread (lg_dev (lg s)) blk s) (\<lambda>dbuf s.
     let s = setb dbuf (\<lambda>q. q\<lparr>b_data := b_data (bufs s lbuf)\<rparr>) s in
     bnd (bwrite dbuf s) (\<lambda>_ s.
     bnd (if \<not> recovering then bunpin dbuf s else (Ret (), s)) (\<lambda>_ s.
     bnd (brelse lbuf s) (\<lambda>_ s.
     bnd (brelse dbuf s) (\<lambda>_ s.
     install_loop recovering tails s)))))))"

definition install_trans :: "bool \<Rightarrow> 'z logstate_scheme \<Rightarrow> unit res \<times> 'z logstate_scheme" where
  "install_trans recovering s = install_loop recovering (lh_range (lh_n (lg_lh (lg s)))) s"

text \<open>The loops that copy the block numbers from and to the header block: word 0 of it is
  \<^verbatim>\<open>n\<close>, word \<open>i + 1\<close> is \<^verbatim>\<open>block[i]\<close>.\<close>

primrec read_head_loop :: "u8 list \<Rightarrow> nat list \<Rightarrow> 'z logstate_scheme \<Rightarrow> unit res \<times> 'z logstate_scheme" where
  "read_head_loop d [] s = (Ret (), s)"
| "read_head_loop d (i # is) s =
     (if i < length (lh_block (lg_lh (lg s)))
      then read_head_loop d is (set_lh (\<lambda>h. h\<lparr>lh_block := (lh_block h)[i := getw d (Suc i)]\<rparr>) s)
      else (Panic ''undefined'', s))"

definition read_head :: "'z logstate_scheme \<Rightarrow> unit res \<times> 'z logstate_scheme" where
  "read_head s =
     bnd (bread (lg_dev (lg s)) (lg_start (lg s)) s) (\<lambda>b s.
     let d = b_data (bufs s b);
         s = set_lh (\<lambda>h. h\<lparr>lh_n := getw d 0\<rparr>) s
     in bnd (read_head_loop d (lh_range (lh_n (lg_lh (lg s)))) s) (\<lambda>_ s.
     brelse b s))"

primrec write_head_loop :: "nat \<Rightarrow> nat list \<Rightarrow> 'z logstate_scheme \<Rightarrow> unit res \<times> 'z logstate_scheme" where
  "write_head_loop b [] s = (Ret (), s)"
| "write_head_loop b (i # is) s =
     bnd (lh_nth i s, s) (\<lambda>v s.
     write_head_loop b is (setb b (\<lambda>q. q\<lparr>b_data := setw (b_data q) (Suc i) v\<rparr>) s))"

definition write_head :: "'z logstate_scheme \<Rightarrow> unit res \<times> 'z logstate_scheme" where
  "write_head s =
     bnd (bread (lg_dev (lg s)) (lg_start (lg s)) s) (\<lambda>b s.
     let s = setb b (\<lambda>q. q\<lparr>b_data := setw (b_data q) 0 (lh_n (lg_lh (lg s)))\<rparr>) s in
     bnd (write_head_loop b (lh_range (lh_n (lg_lh (lg s)))) s) (\<lambda>_ s.
     bnd (bwrite b s) (\<lambda>_ s.
     brelse b s)))"

definition recover_from_log :: "'z logstate_scheme \<Rightarrow> unit res \<times> 'z logstate_scheme" where
  "recover_from_log s =
     bnd (read_head s) (\<lambda>_ s.
     bnd (install_trans True s) (\<lambda>_ s.
     write_head (set_lh (\<lambda>h. h\<lparr>lh_n := 0\<rparr>) s)))"

definition initlog :: "u32 \<Rightarrow> u32 \<Rightarrow> u32 \<Rightarrow> 'z logstate_scheme \<Rightarrow> unit res \<times> 'z logstate_scheme" where
  "initlog dev logstart nlog s =
     (if 4 * Suc LOGSIZE \<ge> BSIZE then (Panic ''initlog: too big logheader'', s)
      else recover_from_log (set_lg (\<lambda>g. g\<lparr>lg_start := logstart, lg_size := nlog, lg_dev := dev\<rparr>) s))"

text \<open>One round of the loop of \<^verbatim>\<open>begin_op\<close>, with \<^verbatim>\<open>log.lock\<close> held.\<close>

definition begin_op_round :: "'z logstate_scheme \<Rightarrow> unit res \<times> 'z logstate_scheme" where
  "begin_op_round s =
     (if lg_committing (lg s) then bnd (sleep ChLog LogLock s) (\<lambda>_ s. (Swtch, s))
      else if sint (lh_n (lg_lh (lg s)) + (lg_outstanding (lg s) + 1) * MAXOPBLOCKS) > int LOGSIZE
      then bnd (sleep ChLog LogLock s) (\<lambda>_ s. (Swtch, s))
      else release LogLock (set_lg (\<lambda>g. g\<lparr>lg_outstanding := lg_outstanding g + 1\<rparr>) s))"

definition begin_op :: "'z logstate_scheme \<Rightarrow> unit res \<times> 'z logstate_scheme" where
  "begin_op s = bnd (acquire LogLock s) (\<lambda>_ s. begin_op_round s)"

primrec write_log_loop :: "nat list \<Rightarrow> 'z logstate_scheme \<Rightarrow> unit res \<times> 'z logstate_scheme" where
  "write_log_loop [] s = (Ret (), s)"
| "write_log_loop (tail # tails) s =
     bnd (bread (lg_dev (lg s)) (lg_start (lg s) + of_nat tail + 1) s) (\<lambda>to s.
     bnd (lh_nth tail s, s) (\<lambda>blk s.
     bnd (bread (lg_dev (lg s)) blk s) (\<lambda>frm s.
     let s = setb to (\<lambda>q. q\<lparr>b_data := b_data (bufs s frm)\<rparr>) s in
     bnd (bwrite to s) (\<lambda>_ s.
     bnd (brelse frm s) (\<lambda>_ s.
     bnd (brelse to s) (\<lambda>_ s.
     write_log_loop tails s))))))"

definition write_log :: "'z logstate_scheme \<Rightarrow> unit res \<times> 'z logstate_scheme" where
  "write_log s = write_log_loop (lh_range (lh_n (lg_lh (lg s)))) s"

definition commit :: "'z logstate_scheme \<Rightarrow> unit res \<times> 'z logstate_scheme" where
  "commit s =
     (if sint (lh_n (lg_lh (lg s))) > 0 then
        bnd (write_log s) (\<lambda>_ s.
        bnd (write_head s) (\<lambda>_ s.
        bnd (install_trans False s) (\<lambda>_ s.
        write_head (set_lh (\<lambda>h. h\<lparr>lh_n := 0\<rparr>) s))))
      else (Ret (), s))"

definition end_op :: "'z logstate_scheme \<Rightarrow> unit res \<times> 'z logstate_scheme" where
  "end_op s =
     bnd (acquire LogLock s) (\<lambda>_ s.
     let s = set_lg (\<lambda>g. g\<lparr>lg_outstanding := lg_outstanding g - 1\<rparr>) s in
     if lg_committing (lg s) then (Panic ''log.committing'', s)
     else let do_commit = (lg_outstanding (lg s) = 0) in
       bnd (if do_commit then (Ret (), set_lg (\<lambda>g. g\<lparr>lg_committing := True\<rparr>) s)
            else wakeup ChLog s) (\<lambda>_ s.
       bnd (release LogLock s) (\<lambda>_ s.
       if do_commit then
         bnd (commit s) (\<lambda>_ s.
         bnd (acquire LogLock s) (\<lambda>_ s.
         bnd (wakeup ChLog (set_lg (\<lambda>g. g\<lparr>lg_committing := False\<rparr>) s)) (\<lambda>_ s.
         release LogLock s)))
       else (Ret (), s))))"

text \<open>The search loop of \<^verbatim>\<open>log_write\<close>: the first index below \<open>n\<close> that holds the block, or \<open>n\<close>.\<close>

definition log_find :: "u32 \<Rightarrow> logheader \<Rightarrow> nat" where
  "log_find bno h = (case find (\<lambda>i. lh_block h ! i = bno) (lh_range (lh_n h)) of
     Some i \<Rightarrow> i | None \<Rightarrow> nat (sint (lh_n h)))"

definition log_write :: "nat \<Rightarrow> 'z logstate_scheme \<Rightarrow> unit res \<times> 'z logstate_scheme" where
  "log_write b s =
     bnd (acquire LogLock s) (\<lambda>_ s.
     if sint (lh_n (lg_lh (lg s))) \<ge> int LOGSIZE \<or> sint (lh_n (lg_lh (lg s))) \<ge> sint (lg_size (lg s) - 1)
     then (Panic ''too big a transaction'', s)
     else if sint (lg_outstanding (lg s)) < 1 then (Panic ''log_write outside of trans'', s)
     else
       let bno = b_blockno (bufs s b);
           i = log_find bno (lg_lh (lg s));
           s = set_lh (\<lambda>h. h\<lparr>lh_block := (lh_block h)[i := bno]\<rparr>) s
       in bnd (if int i = sint (lh_n (lg_lh (lg s)))
               then bnd (bpin b s) (\<lambda>_ s. (Ret (), set_lh (\<lambda>h. h\<lparr>lh_n := lh_n h + 1\<rparr>) s))
               else (Ret (), s)) (\<lambda>_ s.
          release LogLock s))"

section \<open>Copying a block through the cache\<close>

text \<open>Contents after a list of block writes.\<close>

definition wr_all :: "(u32 \<times> 'a) list \<Rightarrow> (u32 \<Rightarrow> 'a) \<Rightarrow> u32 \<Rightarrow> 'a" where
  "wr_all ws f = foldl (\<lambda>f (b, d). f(b := d)) f ws"

definition a_copy :: "u32 \<Rightarrow> u8 list \<Rightarrow> acache \<Rightarrow> acache" where
  "a_copy bno d a = a\<lparr>av := (av a)(bno := d), ad := (ad a)(bno := d), aw := aw a @ [(bno, d)]\<rparr>"

lemma wr_all_simps [simp]:
  "wr_all [] f = f" "wr_all ((b, d) # ws) f = wr_all ws (f(b := d))"
  "wr_all (ws @ vs) f = wr_all vs (wr_all ws f)"
  by (simp_all add: wr_all_def)

context block_cache
begin

text \<open>The sequence of \<^verbatim>\<open>write_log\<close>: the destination is read first.\<close>

lemma copy_to:
  assumes i: "inv s" and l: "lk s dst = None" "lk s src = None" and n: "dst \<noteq> src"
    and r: "has_room (abs s) dst" "has_room (a_take dst (abs s)) src"
    and c: "ar (abs s) src = 0 \<longrightarrow> av (abs s) src = ad (abs s) src"
  shows "\<exists>b s1 c s2 s3 s4 s5. rd dst s = (Ret b, s1) \<and> rd src s1 = (Ret c, s2) \<and>
    wr b (put b (get s2 c) s2) = (Ret (), s3) \<and> rel c s3 = (Ret (), s4) \<and> rel b s4 = (Ret (), s5) \<and>
    fr s s1 \<and> fr s s2 \<and> fr s (put b (get s2 c) s2) \<and> fr s s3 \<and> fr s s4 \<and> fr s s5 \<and>
    inv s5 \<and> lk s5 = lk s \<and> abs s5 = a_copy dst (av (abs s) src) (abs s)"
proof -
  obtain b s1 where s1: "rd dst s = (Ret b, s1)" "inv s1" "fr s s1" "abs s1 = a_take dst (abs s)" "lk s1 = (lk s)(dst \<mapsto> b)"
    using rd_law [OF i l(1) r(1)] by blast
  obtain c s2 where s2: "rd src s1 = (Ret c, s2)" "inv s2" "fr s1 s2" "abs s2 = a_take src (abs s1)" "lk s2 = (lk s1)(src \<mapsto> c)"
    using rd_law [of s1 src] s1 l n r(2) by auto
  let ?p = "put b (get s2 c) s2"
  have g: "get s2 c = av (abs s) src" using get_law [of s2 src c] s1 s2 by (simp add: a_take_def)
  have p: "inv ?p" "fr s2 ?p" "abs ?p = a_put dst (av (abs s) src) (abs s2)" "lk ?p = lk s2"
    using put_law [of s2 dst b] s1 s2 n g by auto
  obtain s3 where s3: "wr b ?p = (Ret (), s3)" "inv s3" "fr ?p s3" "abs s3 = a_write dst (abs ?p)" "lk s3 = lk ?p"
    using wr_law [of ?p dst b] p s1 s2 n by auto
  have a3: "abs s3 = a_write dst (a_put dst (av (abs s) src) (a_take src (a_take dst (abs s))))"
    using s3 p s2 s1 by simp
  obtain s4 where s4: "rel c s3 = (Ret (), s4)" "inv s4" "fr s3 s4" "abs s4 = a_drop src (abs s3)" "lk s4 = (lk s3)(src := None)"
    using rel_law [of s3 src c] s3 p s2 c n unfolding a3
    by (auto simp: a_take_def a_put_def a_write_def)
  obtain s5 where s5: "rel b s4 = (Ret (), s5)" "inv s5" "fr s4 s5" "abs s5 = a_drop dst (abs s4)" "lk s5 = (lk s4)(dst := None)"
    using rel_law [of s4 dst b] s4 s3 p s2 s1 n unfolding s4(4) a3
    by (auto simp: a_take_def a_put_def a_write_def a_drop_def)
  have "\<not> al (abs s) dst" "\<not> al (abs s) src" using lk_al [OF i] l by auto
  then have "abs s5 = a_copy dst (av (abs s) src) (abs s)"
    unfolding s5(4) s4(4) a3 a_take_def a_put_def a_write_def a_drop_def a_copy_def
    using n by (intro acache.equality) (auto simp: fun_eq_iff)
  moreover have "lk s5 = lk s" using s5 s4 s3 p s2 s1 l n by (auto simp: fun_eq_iff)
  moreover have "fr s s2" "fr s ?p" "fr s s3" "fr s s4" "fr s s5"
    using s1 s2 p s3 s4 s5 fr_trans by blast+
  ultimately show ?thesis using s1(1,3) s2(1) s3(1) s4(1) s5(1,2) by blast
qed

text \<open>The sequence of \<^verbatim>\<open>install_trans\<close>: the source is read first, and the destination may be
  unpinned.\<close>

lemma copy_from:
  assumes i: "inv s" and l: "lk s dst = None" "lk s src = None" and n: "dst \<noteq> src"
    and r: "has_room (abs s) src" "has_room (a_take src (abs s)) dst"
    and c: "ar (abs s) src = 0 \<longrightarrow> av (abs s) src = ad (abs s) src"
    and u: "unp \<longrightarrow> ar (abs s) dst > 0"
  shows "\<exists>b s1 c s2 s3 s3' s4 s5. rd src s = (Ret b, s1) \<and> rd dst s1 = (Ret c, s2) \<and>
    wr c (put c (get s2 b) s2) = (Ret (), s3) \<and> (if unp then unpin c s3 else (Ret (), s3)) = (Ret (), s3') \<and>
    rel b s3' = (Ret (), s4) \<and> rel c s4 = (Ret (), s5) \<and>
    fr s s1 \<and> fr s s2 \<and> fr s (put c (get s2 b) s2) \<and> fr s s3 \<and> fr s s3' \<and> fr s s4 \<and> fr s s5 \<and>
    inv s5 \<and> lk s5 = lk s \<and>
    abs s5 = (let a = a_copy dst (av (abs s) src) (abs s) in if unp then a_unpin dst a else a)"
proof -
  obtain b s1 where s1: "rd src s = (Ret b, s1)" "inv s1" "fr s s1" "abs s1 = a_take src (abs s)" "lk s1 = (lk s)(src \<mapsto> b)"
    using rd_law [OF i l(2) r(1)] by blast
  obtain c s2 where s2: "rd dst s1 = (Ret c, s2)" "inv s2" "fr s1 s2" "abs s2 = a_take dst (abs s1)" "lk s2 = (lk s1)(dst \<mapsto> c)"
    using rd_law [of s1 dst] s1 l n r(2) by auto
  let ?p = "put c (get s2 b) s2"
  have g: "get s2 b = av (abs s) src" using get_law [of s2 src b] s1 s2 n by (simp add: a_take_def)
  have p: "inv ?p" "fr s2 ?p" "abs ?p = a_put dst (av (abs s) src) (abs s2)" "lk ?p = lk s2"
    using put_law [of s2 dst c] s1 s2 n g by auto
  obtain s3 where s3: "wr c ?p = (Ret (), s3)" "inv s3" "fr ?p s3" "abs s3 = a_write dst (abs ?p)" "lk s3 = lk ?p"
    using wr_law [of ?p dst c] p s1 s2 n by auto
  have a3: "abs s3 = a_write dst (a_put dst (av (abs s) src) (a_take dst (a_take src (abs s))))"
    using s3 p s2 s1 by simp
  obtain s3' where s3': "(if unp then unpin c s3 else (Ret (), s3)) = (Ret (), s3')" "inv s3'" "fr s3 s3'"
      "abs s3' = (if unp then a_unpin dst (abs s3) else abs s3)" "lk s3' = lk s3"
  proof (cases unp)
    case True
    have "lk s3 dst = Some c" using s3 p s2 by simp
    moreover have "ar (abs s3) dst > 1"
      unfolding a3 using u True n by (simp add: a_take_def a_put_def a_write_def)
    ultimately show ?thesis using unpin_law [OF s3(2)] True that by auto
  next
    case False
    then show ?thesis using that [of s3] s3(2) fr_refl by simp
  qed
  have k: "lk s3' src = Some b" "lk s3' dst = Some c" using s3' s3 p s2 s1 n by simp_all
  have "ar (abs s3') src = 1 \<longrightarrow> av (abs s3') src = ad (abs s3') src"
    unfolding s3'(4) a3 using c n by (simp add: a_take_def a_put_def a_write_def a_unpin_def)
  from rel_law [OF s3'(2) k(1) this]
  obtain s4 where s4: "rel b s3' = (Ret (), s4)" "inv s4" "fr s3' s4" "abs s4 = a_drop src (abs s3')" "lk s4 = (lk s3')(src := None)"
    by blast
  have "lk s4 dst = Some c" using s4 k n by simp
  moreover have "ar (abs s4) dst = 1 \<longrightarrow> av (abs s4) dst = ad (abs s4) dst"
    unfolding s4(4) s3'(4) a3 using n by (simp add: a_take_def a_put_def a_write_def a_unpin_def a_drop_def)
  ultimately obtain s5 where s5: "rel c s4 = (Ret (), s5)" "inv s5" "fr s4 s5" "abs s5 = a_drop dst (abs s4)" "lk s5 = (lk s4)(dst := None)"
    using rel_law [OF s4(2)] by blast
  have "\<not> al (abs s) dst" "\<not> al (abs s) src" using lk_al [OF i] l by auto
  then have "abs s5 = (let a = a_copy dst (av (abs s) src) (abs s) in if unp then a_unpin dst a else a)"
    unfolding s5(4) s4(4) s3'(4) a3 a_take_def a_put_def a_write_def a_drop_def a_copy_def a_unpin_def Let_def
    using n by (intro acache.equality) (auto simp: fun_eq_iff)
  moreover have "lk s5 = lk s" using s5 s4 s3' s3 p s2 s1 l n by (auto simp: fun_eq_iff)
  moreover have "fr s s2" "fr s ?p" "fr s s3" "fr s s3'" "fr s s4" "fr s s5"
    using s1 s2 p s3 s3' s4 s5 fr_trans by blast+
  ultimately show ?thesis using s1(1,3) s2(1) s3(1) s3'(1) s4(1) s5(1,2) by blast
qed

text \<open>A block is read, given new contents, written and released.\<close>

lemma rewrite:
  assumes i: "inv s" and l: "lk s bno = None" and r: "has_room (abs s) bno"
  shows "\<exists>b s1 s2 s3. rd bno s = (Ret b, s1) \<and> get s1 b = av (abs s) bno \<and> wr b (put b d s1) = (Ret (), s2) \<and>
    rel b s2 = (Ret (), s3) \<and> fr s s1 \<and> fr s (put b d s1) \<and> fr s s2 \<and> fr s s3 \<and> inv s3 \<and> lk s3 = lk s \<and>
    abs s3 = a_copy bno d (abs s)"
proof -
  obtain b s1 where s1: "rd bno s = (Ret b, s1)" "inv s1" "fr s s1" "abs s1 = a_take bno (abs s)" "lk s1 = (lk s)(bno \<mapsto> b)"
    using rd_law [OF i l r] by blast
  have g: "get s1 b = av (abs s) bno" using get_law [of s1 bno b] s1 by (simp add: a_take_def)
  let ?p = "put b d s1"
  have p: "inv ?p" "fr s1 ?p" "abs ?p = a_put bno d (abs s1)" "lk ?p = lk s1"
    using put_law [of s1 bno b] s1 by auto
  have "lk ?p bno = Some b" using p s1 by simp
  then obtain s2 where s2: "wr b ?p = (Ret (), s2)" "inv s2" "fr ?p s2" "abs s2 = a_write bno (abs ?p)" "lk s2 = lk ?p"
    using wr_law [OF p(1)] by blast
  have "lk s2 bno = Some b" using s2 p s1 by simp
  moreover have "ar (abs s2) bno = 1 \<longrightarrow> av (abs s2) bno = ad (abs s2) bno"
    unfolding s2(4) by (simp add: a_write_def)
  ultimately obtain s3 where s3: "rel b s2 = (Ret (), s3)" "inv s3" "fr s2 s3" "abs s3 = a_drop bno (abs s2)" "lk s3 = (lk s2)(bno := None)"
    using rel_law [OF s2(2)] by blast
  have "\<not> al (abs s) bno" using lk_al [OF i] l by auto
  then have "abs s3 = a_copy bno d (abs s)"
    unfolding s3(4) s2(4) p(3) s1(4) a_take_def a_put_def a_write_def a_drop_def a_copy_def
    by (intro acache.equality) (auto simp: fun_eq_iff)
  moreover have "lk s3 = lk s" using s3 s2 p s1 l by (auto simp: fun_eq_iff)
  moreover have "fr s ?p" "fr s s2" "fr s s3" using s1 s2 p s3 fr_trans by blast+
  ultimately show ?thesis using s1(1,3) g s2(1) s3(1,2) by blast
qed

end

end
