(* ===== verification/Logops.thy ===== *)
theory Logops
  imports Log
begin

text \<open>
  What the operations of the log do to the disk: the loops of \<^verbatim>\<open>kernel/log.c\<close>, and with them
  recovery and commit, are each a list of block writes, given here in closed form.
\<close>

section \<open>The log and the cache\<close>

lemma bframe_lg: "bframe s s' \<Longrightarrow> lg s' = lg s"
  unfolding bframe_def by (auto dest: arg_cong [where f = lg])

text \<open>The blocks of the transaction, and the blocks of the log on disk.\<close>

definition lcount :: "'z logstate_scheme \<Rightarrow> nat" where
  "lcount s = nat (sint (lh_n (lg_lh (lg s))))"

definition logged :: "'z logstate_scheme \<Rightarrow> u32 list" where
  "logged s = take (lcount s) (lh_block (lg_lh (lg s)))"

definition log_block :: "'z logstate_scheme \<Rightarrow> nat \<Rightarrow> u32" where
  "log_block s i = lg_start (lg s) + of_nat i + 1"

text \<open>Of the \<^verbatim>\<open>LOGSIZE\<close> blocks of the log the first is the header, which leaves \<open>LOGDATA\<close> for copies; \<^verbatim>\<open>log_write\<close>
  panics when \<^verbatim>\<open>lh.n\<close> is \<^verbatim>\<open>log.size - 1\<close>.\<close>

abbreviation LOGDATA :: nat where "LOGDATA \<equiv> 29"

definition log_area :: "u32 \<Rightarrow> u32 set" where
  "log_area start = insert start ((\<lambda>i. start + of_nat i + 1) ` {..<LOGDATA})"

text \<open>What \<^verbatim>\<open>initlog\<close> sets up: the log is on the root device, the array has its size, the log
  area does not wrap around, and blocks of the transaction are not blocks of the log.\<close>

definition log_wf :: "'z logstate_scheme \<Rightarrow> bool" where
  "log_wf s \<longleftrightarrow> lg_dev (lg s) = 1 \<and> length (lh_block (lg_lh (lg s))) = LOGSIZE \<and>
     unat (lg_start (lg s)) + LOGSIZE < 4294967295 \<and> lcount s \<le> LOGDATA \<and>
     set (logged s) \<inter> log_area (lg_start (lg s)) = {}"

text \<open>The writes that copy the transaction to the log, and from the log to its home.\<close>

definition to_log :: "'z logstate_scheme \<Rightarrow> (u32 \<Rightarrow> u8 list) \<Rightarrow> nat list \<Rightarrow> (u32 \<times> u8 list) list" where
  "to_log s f is = map (\<lambda>i. (log_block s i, f (logged s ! i))) is"

definition to_home :: "'z logstate_scheme \<Rightarrow> (u32 \<Rightarrow> u8 list) \<Rightarrow> nat list \<Rightarrow> (u32 \<times> u8 list) list" where
  "to_home s f is = map (\<lambda>i. (logged s ! i, f (log_block s i))) is"

text \<open>The effect of operations that write the blocks \<open>ws\<close> through to the disk.\<close>

definition wrote :: "(u32 \<times> u8 list) list \<Rightarrow> 'z logstate_scheme \<Rightarrow> 'z logstate_scheme \<Rightarrow> bool" where
  "wrote ws s s' \<longleftrightarrow> av (cabs s') = wr_all ws (av (cabs s)) \<and> ad (cabs s') = wr_all ws (ad (cabs s)) \<and>
     aw (cabs s') = aw (cabs s) @ ws \<and> held s' = held s \<and> curproc s' = curproc s"

lemma wrote_refl [simp]: "wrote [] s s"
  by (simp add: wrote_def)

lemma wrote_trans: "wrote ws s s' \<Longrightarrow> wrote vs s' s'' \<Longrightarrow> wrote (ws @ vs) s s''"
  by (simp add: wrote_def)

lemma to_log_Cons: "to_log s f (i # is) = (log_block s i, f (logged s ! i)) # to_log s f is"
  by (simp add: to_log_def)

lemma to_home_Cons: "to_home s f (i # is) = (logged s ! i, f (log_block s i)) # to_home s f is"
  by (simp add: to_home_def)

lemma same_lg_facts:
  assumes "lg s' = lg s"
  shows "lcount s' = lcount s" "logged s' = logged s" "log_block s' = log_block s" "log_wf s' = log_wf s"
    "to_log s' = to_log s" "to_home s' = to_home s"
  using assms by (simp_all add: lcount_def logged_def log_block_def log_wf_def to_log_def to_home_def fun_eq_iff)

lemma log_block_area: "i < LOGDATA \<Longrightarrow> log_block s i \<in> log_area (lg_start (lg s))"
  by (simp add: log_block_def log_area_def)

lemma length_logged [simp]: "log_wf s \<Longrightarrow> length (logged s) = lcount s"
  by (simp add: log_wf_def logged_def)

lemma logged_mem: "log_wf s \<Longrightarrow> i < lcount s \<Longrightarrow> logged s ! i \<in> set (logged s)"
  by (simp add: nth_mem)

lemma logged_outside: "log_wf s \<Longrightarrow> i < lcount s \<Longrightarrow> logged s ! i \<notin> log_area (lg_start (lg s))"
  by (meson disjoint_iff log_wf_def logged_mem)

lemma lh_nth_logged: "log_wf s \<Longrightarrow> i < lcount s \<Longrightarrow> lh_nth i s = Ret (logged s ! i)"
  by (simp add: log_wf_def lh_nth_def logged_def)

lemma log_block_inj:
  assumes "log_wf s" and "i < LOGSIZE" and "j < LOGSIZE" and "log_block s i = log_block s j"
  shows "i = j"
proof -
  have "of_nat i = (of_nat j :: u32)" using assms(4) by (simp add: log_block_def)
  then have "unat (of_nat i :: u32) = unat (of_nat j :: u32)" by simp
  then show ?thesis using assms(2,3) by (simp add: unat_of_nat take_bit_nat_eq_self)
qed

lemma log_block_start: "log_wf s \<Longrightarrow> i < LOGSIZE \<Longrightarrow> log_block s i \<noteq> lg_start (lg s)"
proof
  assume w: "log_wf s" "i < LOGSIZE" and e: "log_block s i = lg_start (lg s)"
  then have "of_nat (Suc i) = (0 :: u32)" by (simp add: log_block_def algebra_simps)
  then have "unat (of_nat (Suc i) :: u32) = 0" by simp
  then show False using w by (simp add: unat_of_nat take_bit_nat_eq_self del: of_nat_Suc)
qed

text \<open>The state of the cache between operations of the log: nothing is locked, and exactly the
  blocks \<open>P\<close> are pinned, once each.\<close>

definition pinned :: "u32 set \<Rightarrow> 'z logstate_scheme \<Rightarrow> bool" where
  "pinned P s \<longleftrightarrow> cache_ok s \<and> block_lock s = (\<lambda>_. None) \<and> finite P \<and>
     ar (cabs s) = (\<lambda>b. if b \<in> P then 1 else 0)"

lemma clean_unref: "cache_ok s \<Longrightarrow> ar (cabs s) bno = 0 \<Longrightarrow> av (cabs s) bno = ad (cabs s) bno"
proof -
  assume i: "cache_ok s" and r: "ar (cabs s) bno = 0"
  show ?thesis
  proof (cases "bslot s bno")
    case (Some b)
    then have "cached s bno b" using i by (simp add: cache_ok_def bslot_Some)
    then have "buf_ok s b" "b_blockno (bufs s b) = bno" using i by (auto simp: cached_def cache_ok_def cache_inv_def)
    then show ?thesis using r Some by (auto simp: cabs_def block_refs_def block_view_def buf_ok_def unat_eq_0)
  qed (simp add: cabs_def block_view_def)
qed

lemma pinned_room:
  assumes "pinned P s" and "card P < NBUF"
  shows "has_room (cabs s) bno"
  using assms by (auto simp: pinned_def has_room_def)

lemma pinned_room2:
  assumes "pinned P s" and "card P < NBUF" and "b \<noteq> c" and "c \<in> P \<or> Suc (card P) < NBUF"
  shows "has_room (a_take b (cabs s)) c"
proof -
  have "finite (insert b P)" "c \<in> P \<or> card (insert b P) < NBUF"
    using assms card_insert_if [of P b] by (auto simp: pinned_def)
  then show ?thesis
    using assms unfolding has_room_def a_take_def pinned_def
    by (auto intro: exI [of _ "insert b P"])
qed

lemma wrote_Cons: "wrote [w] s s' \<Longrightarrow> wrote ws s' s'' \<Longrightarrow> wrote (w # ws) s s''"
  using wrote_trans [of "[w]"] by simp

section \<open>The loops\<close>

lemma write_log_loop_ok:
  "pinned P s \<Longrightarrow> log_wf s \<Longrightarrow> card P < NBUF \<Longrightarrow> set (logged s) \<subseteq> P \<Longrightarrow> P \<inter> log_area (lg_start (lg s)) = {} \<Longrightarrow>
   \<forall>i\<in>set is. i < lcount s \<Longrightarrow>
   \<exists>s'. write_log_loop is s = (Ret (), s') \<and> lg s' = lg s \<and> pinned P s' \<and> wrote (to_log s (av (cabs s)) is) s s'"
proof (induction "is" arbitrary: s)
  case Nil
  then show ?case by (simp add: to_log_def)
next
  case (Cons i "is")
  let ?d = "log_block s i" and ?b = "logged s ! i"
  have i: "i < lcount s" "i < LOGDATA" "i < LOGSIZE" using Cons.prems by (auto simp: log_wf_def)
  have bP: "?b \<in> P" using Cons.prems(4) logged_mem [OF Cons.prems(2) i(1)] by auto
  have dP: "?d \<notin> P" using log_block_area [OF i(2), of s] Cons.prems(5) by auto
  then have n: "?d \<noteq> ?b" using bP by auto
  have ok: "cache_ok s" "block_lock s ?d = None" "block_lock s ?b = None" and r: "ar (cabs s) ?b = 1"
    using Cons.prems(1) bP by (simp_all add: pinned_def)
  obtain b s1 c s2 s3 s4 s5 where w: "bread 1 ?d s = (Ret b, s1)" "bread 1 ?b s1 = (Ret c, s2)"
    "bwrite b (buf_put b (b_data (bufs s2 c)) s2) = (Ret (), s3)" "brelse c s3 = (Ret (), s4)" "brelse b s4 = (Ret (), s5)"
    "bframe s s1" "bframe s s2" "bframe s (buf_put b (b_data (bufs s2 c)) s2)" "bframe s s3" "bframe s s4" "bframe s s5"
    "cache_ok s5" "block_lock s5 = block_lock s" "cabs s5 = a_copy ?d (av (cabs s) ?b) (cabs s)"
    using bcache.copy_to [OF ok n pinned_room [OF Cons.prems(1,3)] pinned_room2 [OF Cons.prems(1,3) n disjI1 [OF bP]]] r
    by auto
  note lgs = w(6-11) [THEN bframe_lg]
  have l5: "lg s5 = lg s" by (rule lgs)
  note sf = same_lg_facts [OF l5]
  have p5: "pinned P s5" using Cons.prems(1) w(12-14) by (simp add: pinned_def a_copy_def)
  obtain s6 where s6: "write_log_loop is s5 = (Ret (), s6)" "lg s6 = lg s5" "pinned P s6"
      "wrote (to_log s5 (av (cabs s5)) is) s5 s6"
    using Cons.IH [OF p5] Cons.prems sf l5 by auto
  have "logged s ! j \<noteq> ?d" if "j \<in> set is" for j
    using that Cons.prems(6) logged_outside [OF Cons.prems(2), of j] log_block_area [OF i(2), of s] by auto
  then have "to_log s5 (av (cabs s5)) is = to_log s (av (cabs s)) is"
    by (simp add: to_log_def sf w(14) a_copy_def)
  moreover have "wrote [(?d, av (cabs s) ?b)] s s5"
    using w(14) bframe_more [OF w(11)] by (simp add: wrote_def a_copy_def)
  ultimately have "wrote (to_log s (av (cabs s)) (i # is)) s s6"
    using wrote_Cons s6(4) by (simp add: to_log_Cons)
  moreover have "write_log_loop (i # is) s = (Ret (), s6)"
    using w s6(1) lgs lh_nth_logged [of s1 i] same_lg_facts [OF lgs(1)] Cons.prems(2) i
    by (simp add: buf_put_def log_wf_def log_block_def)
  ultimately show ?case using s6 l5 by auto
qed

lemma install_loop_ok:
  "pinned P s \<Longrightarrow> log_wf s \<Longrightarrow> (if recovering then P = {} else P = (\<lambda>i. logged s ! i) ` set is \<and> card P < NBUF) \<Longrightarrow>
   distinct (map (\<lambda>i. logged s ! i) is) \<or> recovering \<Longrightarrow> P \<inter> log_area (lg_start (lg s)) = {} \<Longrightarrow>
   \<forall>i\<in>set is. i < lcount s \<Longrightarrow>
   \<exists>s'. install_loop recovering is s = (Ret (), s') \<and> lg s' = lg s \<and> pinned {} s' \<and>
     wrote (to_home s (av (cabs s)) is) s s'"
proof (induction "is" arbitrary: s P)
  case Nil
  then show ?case by (auto simp: to_home_def split: if_splits)
next
  case (Cons i "is")
  let ?l = "log_block s i" and ?b = "logged s ! i" and ?Q = "P - {logged s ! i}"
  have i: "i < lcount s" "i < LOGDATA" "i < LOGSIZE" using Cons.prems by (auto simp: log_wf_def)
  have lP: "?l \<notin> P" using log_block_area [OF i(2), of s] Cons.prems(5) by auto
  have n: "?b \<noteq> ?l" using log_block_area [OF i(2), of s] logged_outside [OF Cons.prems(2) i(1)] by auto
  have cP: "card P < NBUF" "?b \<in> P \<or> Suc (card P) < NBUF" using Cons.prems(3) by (auto split: if_splits)
  have ok: "cache_ok s" "block_lock s ?b = None" "block_lock s ?l = None"
    "ar (cabs s) ?l = 0 \<longrightarrow> av (cabs s) ?l = ad (cabs s) ?l" "\<not> recovering \<longrightarrow> ar (cabs s) ?b > 0"
    using Cons.prems(1,3) clean_unref [of s ?l] by (auto simp: pinned_def split: if_splits)
  obtain b s1 c s2 s3 s3' s4 s5 where w: "bread 1 ?l s = (Ret b, s1)" "bread 1 ?b s1 = (Ret c, s2)"
    "bwrite c (buf_put c (b_data (bufs s2 b)) s2) = (Ret (), s3)"
    "(if \<not> recovering then bunpin c s3 else (Ret (), s3)) = (Ret (), s3')" "brelse b s3' = (Ret (), s4)" "brelse c s4 = (Ret (), s5)"
    "bframe s s1" "bframe s s2" "bframe s (buf_put c (b_data (bufs s2 b)) s2)" "bframe s s3" "bframe s s3'" "bframe s s4" "bframe s s5"
    "cache_ok s5" "block_lock s5 = block_lock s"
    "cabs s5 = (let a = a_copy ?b (av (cabs s) ?l) (cabs s) in if \<not> recovering then a_unpin ?b a else a)"
    using bcache.copy_from [OF ok(1-3) n pinned_room [OF Cons.prems(1) cP(1)]
        pinned_room2 [OF Cons.prems(1) cP(1) n [symmetric] cP(2)] ok(4,5)] by blast
  note lgs = w(7-13) [THEN bframe_lg]
  have l5: "lg s5 = lg s" by (rule lgs)
  note sf = same_lg_facts [OF l5]
  have p5: "pinned ?Q s5" using Cons.prems(1,3) w(14-16)
    by (auto simp: pinned_def a_copy_def a_unpin_def Let_def fun_eq_iff split: if_splits)
  have "card ?Q < NBUF" using cP(1) card_Diff1_le [of P ?b] by linarith
  moreover have "if recovering then ?Q = {} else ?Q = (\<lambda>i. logged s ! i) ` set is"
    using Cons.prems(3,4) by (auto split: if_splits)
  moreover have "?Q \<inter> log_area (lg_start (lg s)) = {}" using Cons.prems(5) by blast
  ultimately obtain s6 where s6: "install_loop recovering is s5 = (Ret (), s6)" "lg s6 = lg s5" "pinned {} s6"
      "wrote (to_home s5 (av (cabs s5)) is) s5 s6"
    using Cons.IH [OF p5] Cons.prems(2,4,5,6) sf l5 by (auto split: if_splits)
  have "log_block s j \<noteq> ?b" if "j \<in> set is" for j
    using that Cons.prems(2,6) logged_outside [OF Cons.prems(2) i(1)] log_block_area [of j s] by (auto simp: log_wf_def)
  then have "to_home s5 (av (cabs s5)) is = to_home s (av (cabs s)) is"
    by (simp add: to_home_def sf w(16) a_copy_def a_unpin_def Let_def)
  moreover have "wrote [(?b, av (cabs s) ?l)] s s5"
    using w(16) bframe_more [OF w(13)] by (simp add: wrote_def a_copy_def a_unpin_def Let_def)
  ultimately have "wrote (to_home s (av (cabs s)) (i # is)) s s6"
    using wrote_Cons s6(4) by (simp add: to_home_Cons)
  moreover have "install_loop recovering (i # is) s = (Ret (), s6)"
    using w(1-6) s6(1) lgs lh_nth_logged [of s1 i] same_lg_facts [OF lgs(1)] Cons.prems(2) i
    by (simp add: buf_put_def log_wf_def log_block_def)
  ultimately show ?case using s6 l5 by auto
qed

text \<open>The header block that \<^verbatim>\<open>write_head\<close> composes from the old one \<open>d\<close>.\<close>

definition new_head :: "'z logstate_scheme \<Rightarrow> u8 list \<Rightarrow> u8 list" where
  "new_head s d = foldl (\<lambda>d i. setw d (Suc i) (logged s ! i)) (setw d 0 (lh_n (lg_lh (lg s)))) [0..<lcount s]"

lemma setb_setb: "setb b f (setb b g s) = setb b (\<lambda>q. f (g q)) s"
  by (simp add: setb_def)

lemma setb_lg [simp]: "lg (setb b f s) = lg s"
  by (simp add: setb_def)

lemma write_head_loop_eq:
  "log_wf s \<Longrightarrow> \<forall>i\<in>set is. i < lcount s \<Longrightarrow>
   write_head_loop b is s = (Ret (), buf_put b (foldl (\<lambda>d i. setw d (Suc i) (logged s ! i)) (b_data (bufs s b)) is) s)"
proof (induction "is" arbitrary: s)
  case Nil
  then show ?case by (simp add: buf_put_def setb_def)
next
  case (Cons i "is")
  let ?s = "setb b (\<lambda>q. q\<lparr>b_data := setw (b_data q) (Suc i) (logged s ! i)\<rparr>) s"
  note sf = same_lg_facts [of ?s s, simplified]
  have "bufs ?s b = (bufs s b)\<lparr>b_data := setw (b_data (bufs s b)) (Suc i) (logged s ! i)\<rparr>" by (simp add: setb_def)
  then show ?case using Cons.IH [of ?s] Cons.prems lh_nth_logged [of s i] sf
    by (simp add: buf_put_def setb_setb)
qed

lemma write_head_ok:
  assumes "pinned P s" and "log_wf s" and "card P < NBUF"
  shows "\<exists>s'. write_head s = (Ret (), s') \<and> lg s' = lg s \<and> pinned P s' \<and>
    wrote [(lg_start (lg s), new_head s (av (cabs s) (lg_start (lg s))))] s s'"
proof -
  let ?st = "lg_start (lg s)" and ?d = "new_head s (av (cabs s) (lg_start (lg s)))"
  have ok: "cache_ok s" "block_lock s ?st = None" using assms(1) by (simp_all add: pinned_def)
  obtain b s1 s2 s3 where w: "bread 1 ?st s = (Ret b, s1)" "b_data (bufs s1 b) = av (cabs s) ?st"
    "bwrite b (buf_put b ?d s1) = (Ret (), s2)" "brelse b s2 = (Ret (), s3)" "bframe s s1" "bframe s (buf_put b ?d s1)"
    "bframe s s2" "bframe s s3" "cache_ok s3" "block_lock s3 = block_lock s" "cabs s3 = a_copy ?st ?d (cabs s)"
    using bcache.rewrite [OF ok pinned_room [OF assms(1,3)], of ?d] by blast
  note lgs = w(5-8) [THEN bframe_lg]
  note sf = same_lg_facts [OF lgs(1)]
  let ?t = "setb b (\<lambda>q. q\<lparr>b_data := setw (b_data q) 0 (lh_n (lg_lh (lg s)))\<rparr>) s1"
  have lt: "lg ?t = lg s" using lgs by simp
  have "write_head_loop b (lh_range (lh_n (lg_lh (lg ?t)))) ?t = (Ret (), buf_put b ?d s1)"
    using write_head_loop_eq [of ?t "lh_range (lh_n (lg_lh (lg ?t)))" b] assms(2) same_lg_facts [OF lt] w(2)
    by (simp add: lt lh_range_def lcount_def new_head_def buf_put_def setb_def)
  then have "write_head s = (Ret (), s3)"
    using w lgs assms(2) by (simp add: write_head_def log_wf_def)
  moreover have "pinned P s3" using assms(1) w by (simp add: pinned_def a_copy_def)
  moreover have "wrote [(?st, ?d)] s s3" using w(11) bframe_more [OF w(8)] by (simp add: wrote_def a_copy_def)
  ultimately show ?thesis using lgs by blast
qed

section \<open>Headers\<close>

lemma wr_all_other: "b \<notin> fst ` set ws \<Longrightarrow> wr_all ws f b = f b"
  by (induction ws arbitrary: f) auto

lemma wr_all_fun: "wr_all (map (\<lambda>i. (g i, h (g i))) is) f b = (if b \<in> g ` set is then h b else f b)"
  by (induction "is" arbitrary: f) auto

lemma wr_all_inj:
  "inj_on g (set is) \<Longrightarrow> distinct is \<Longrightarrow> j \<in> set is \<Longrightarrow> wr_all (map (\<lambda>i. (g i, h i)) is) f (g j) = h j"
proof (induction "is" arbitrary: f)
  case (Cons i "is")
  show ?case
  proof (cases "j = i")
    case True
    then have "g j \<notin> fst ` set (map (\<lambda>i. (g i, h i)) is)" using Cons.prems by (auto simp: inj_on_def image_iff)
    then show ?thesis using True by (simp add: wr_all_other)
  next
    case False
    then show ?thesis using Cons by auto
  qed
qed simp

lemma fold_setw:
  "n \<le> LOGSIZE \<Longrightarrow> length d = BSIZE \<Longrightarrow>
   length (foldl (\<lambda>d i. setw d (Suc i) (f i)) d [0..<n]) = BSIZE \<and>
   (\<forall>j\<le>LOGSIZE. getw (foldl (\<lambda>d i. setw d (Suc i) (f i)) d [0..<n]) j =
      (if 0 < j \<and> j \<le> n then f (j - 1) else getw d j))"
  by (induction n) (auto simp: le_Suc_eq)

definition head_list :: "u8 list \<Rightarrow> u32 list" where
  "head_list d = map (\<lambda>i. getw d (Suc i)) [0..<nat (sint (getw d 0))]"

lemma new_head_facts:
  assumes "log_wf s" and "length d = BSIZE"
  shows "length (new_head s d) = BSIZE" "head_list (new_head s d) = logged s"
proof -
  have n: "lcount s \<le> LOGSIZE" using assms by (simp add: log_wf_def)
  have d: "length (setw d 0 (lh_n (lg_lh (lg s)))) = BSIZE" using assms by simp
  note f = fold_setw [OF n d, of "\<lambda>i. logged s ! i", folded new_head_def]
  show "length (new_head s d) = BSIZE" using f by simp
  have "getw (new_head s d) 0 = lh_n (lg_lh (lg s))" using f assms by simp
  moreover have "getw (new_head s d) (Suc i) = logged s ! i" if "i < lcount s" for i
    using f that n by simp
  ultimately show "head_list (new_head s d) = logged s"
    using assms by (intro nth_equalityI) (simp_all add: head_list_def lcount_def)
qed

lemma head_list_zero: "length d = BSIZE \<Longrightarrow> head_list (setw d 0 0) = []"
  by (simp add: head_list_def)

lemma set_lg_simps [simp]:
  "cabs (set_lg f s) = cabs s" "block_lock (set_lg f s) = block_lock s" "cache_ok (set_lg f s) = cache_ok s"
  "lg (set_lg f s) = f (lg s)" "bufs (set_lg f s) = bufs s" "pinned P (set_lg f s) = pinned P s"
  "disk (set_lg f s) = disk s" "held (set_lg f s) = held s" "curproc (set_lg f s) = curproc s"
proof -
  have c: "cached (set_lg f s) = cached s" by (simp add: cached_def set_lg_def fun_eq_iff)
  have b: "bslot (set_lg f s) = bslot s" by (rule ext) (simp add: bslot_def c)
  show k: "block_lock (set_lg f s) = block_lock s"
    using b by (simp add: block_lock_def fun_eq_iff set_lg_def split: option.splits)
  show a: "cabs (set_lg f s) = cabs s"
    unfolding cabs_def k using b
    by (simp add: block_view_def block_refs_def fun_eq_iff set_lg_def split: option.splits)
  have "buf_ok (set_lg f s) i = buf_ok s i" for i by (simp add: buf_ok_def set_lg_def mypid_def)
  then show o: "cache_ok (set_lg f s) = cache_ok s"
    using c by (simp add: cache_ok_def cache_inv_def calm_def running_def no_plock_def) (simp add: set_lg_def)
  show "pinned P (set_lg f s) = pinned P s" by (simp add: pinned_def a k o)
qed (simp_all add: set_lg_def)

lemma set_lh_lg [simp]: "lg (set_lh f s) = (lg s)\<lparr>lg_lh := f (lg_lh (lg s))\<rparr>"
  by (simp add: set_lh_def)

lemma read_head_loop_eq:
  "\<forall>i\<in>set is. i < LOGSIZE \<Longrightarrow> length (lh_block (lg_lh (lg s))) = LOGSIZE \<Longrightarrow>
   read_head_loop d is s = (Ret (), set_lh (\<lambda>h. h\<lparr>lh_block := foldl (\<lambda>b i. b[i := getw d (Suc i)]) (lh_block h) is\<rparr>) s)"
proof (induction "is" arbitrary: s)
  case Nil
  then show ?case by (simp add: set_lh_def set_lg_def)
next
  case (Cons i "is")
  let ?s = "set_lh (\<lambda>h. h\<lparr>lh_block := (lh_block h)[i := getw d (Suc i)]\<rparr>) s"
  show ?case using Cons.IH [of ?s] Cons.prems by (simp add: set_lh_def) (simp add: set_lg_def)
qed

lemma fold_upds:
  "n \<le> length b \<Longrightarrow> foldl (\<lambda>b i. b[i := f i]) b [0..<n] = map f [0..<n] @ drop n b"
  by (induction n) (auto simp: list_update_append Cons_nth_drop_Suc [symmetric])

lemma drop_take: "\<not> al a b \<Longrightarrow> a_drop b (a_take b a) = a"
  by (simp add: a_drop_def a_take_def fun_upd_idem)

lemma read_head_ok:
  assumes p: "pinned {} s" and "lg_dev (lg s) = 1" and "length (lh_block (lg_lh (lg s))) = LOGSIZE"
    and "length (head_list (av (cabs s) (lg_start (lg s)))) \<le> LOGSIZE"
  shows "\<exists>s' h. read_head s = (Ret (), s') \<and> pinned {} s' \<and> wrote [] s s' \<and> lg s' = (lg s)\<lparr>lg_lh := h\<rparr> \<and>
    length (lh_block h) = LOGSIZE \<and> logged s' = head_list (av (cabs s) (lg_start (lg s))) \<and>
    lcount s' = length (logged s')"
proof -
  let ?st = "lg_start (lg s)" and ?d = "av (cabs s) (lg_start (lg s))"
  obtain b s1 where s1: "bread 1 ?st s = (Ret b, s1)" "cache_ok s1" "bframe s s1" "cabs s1 = a_take ?st (cabs s)"
      "block_lock s1 = (block_lock s)(?st \<mapsto> b)"
    using bcache.rd_law [of s ?st] p pinned_room [OF p, of ?st] by (auto simp: pinned_def)
  have d: "b_data (bufs s1 b) = ?d" using bcache.get_law [of s1 ?st b] s1 by (simp add: a_take_def)
  have l1: "lg s1 = lg s" using bframe_lg s1(3) by blast
  define h where "h = (lg_lh (lg s))\<lparr>lh_n := getw ?d 0,
     lh_block := foldl (\<lambda>b i. b[i := getw ?d (Suc i)]) (lh_block (lg_lh (lg s))) (lh_range (getw ?d 0))\<rparr>"
  let ?s2 = "set_lg (\<lambda>g. g\<lparr>lg_lh := h\<rparr>) s1"
  have n: "nat (sint (getw ?d 0)) \<le> LOGSIZE" using assms(4) by (simp add: head_list_def)
  have "ar (cabs ?s2) ?st = 1 \<longrightarrow> av (cabs ?s2) ?st = ad (cabs ?s2) ?st" "block_lock ?s2 ?st = Some b" "cache_ok ?s2"
    using s1 p clean_unref [of s ?st] by (auto simp: a_take_def pinned_def)
  then obtain s3 where s3: "brelse b ?s2 = (Ret (), s3)" "cache_ok s3" "bframe ?s2 s3" "cabs s3 = a_drop ?st (cabs ?s2)"
      "block_lock s3 = (block_lock ?s2)(?st := None)"
    using bcache.rel_law [of ?s2 ?st b] by blast
  have r: "read_head s = (Ret (), s3)"
  proof -
    let ?t = "set_lh (\<lambda>h. h\<lparr>lh_n := getw ?d 0\<rparr>) s1"
    have "read_head_loop ?d (lh_range (getw ?d 0)) ?t = (Ret (), ?s2)"
      using read_head_loop_eq [of "lh_range (getw ?d 0)" ?t ?d] n assms(3) l1
      by (simp add: lh_range_def h_def set_lh_def) (simp add: set_lg_def lh_range_def)
    then show ?thesis using s1 s3(1) assms(2) d by (simp add: read_head_def Let_def)
  qed
  have c3: "cabs s3 = cabs s"
    using s3(4) s1(4) p bcache.lk_al [of s ?st] by (simp add: drop_take pinned_def)
  have l3: "lg s3 = (lg s)\<lparr>lg_lh := h\<rparr>" using bframe_lg [OF s3(3)] l1 by simp
  have "length (lh_block h) = LOGSIZE" using n assms(3) by (simp add: h_def lh_range_def fold_upds)
  moreover have "logged s3 = head_list ?d"
    using n assms(3) by (simp add: logged_def lcount_def l3 h_def lh_range_def fold_upds head_list_def)
  moreover have "pinned {} s3" using p s3 s1 c3 by (auto simp: pinned_def fun_eq_iff)
  moreover have "wrote [] s s3" using c3 bframe_more [OF s3(3)] bframe_more [OF s1(3)] by (simp add: wrote_def)
  moreover have "lcount s3 = length (head_list ?d)" by (simp add: lcount_def l3 h_def head_list_def)
  ultimately show ?thesis using r l3 by auto
qed

section \<open>Recovery and commit\<close>

definition redo_writes :: "u32 \<Rightarrow> (u32 \<Rightarrow> u8 list) \<Rightarrow> (u32 \<times> u8 list) list" where
  "redo_writes start D = map (\<lambda>i. (head_list (D start) ! i, D (start + of_nat i + 1))) [0..<length (head_list (D start))]"

lemma redo_fst: "fst ` set (redo_writes st D) = set (head_list (D st))"
  by (force simp: redo_writes_def set_conv_nth image_iff)

text \<open>A machine that has just booted, and a disk whose log header names blocks outside the log.\<close>

definition booted :: "'z logstate_scheme \<Rightarrow> bool" where
  "booted s \<longleftrightarrow> pinned {} s \<and> lg_dev (lg s) = 1 \<and> length (lh_block (lg_lh (lg s))) = LOGSIZE \<and>
     unat (lg_start (lg s)) + LOGSIZE < 4294967295"

definition disk_log_ok :: "u32 \<Rightarrow> (u32 \<Rightarrow> u8 list) \<Rightarrow> bool" where
  "disk_log_ok start D \<longleftrightarrow> length (D start) = BSIZE \<and> length (head_list (D start)) \<le> LOGDATA \<and>
     set (head_list (D start)) \<inter> log_area start = {}"

lemma ad_disk [simp]: "ad (cabs s) = disk s" and aw_dwrites [simp]: "aw (cabs s) = dwrites s"
  by (simp_all add: cabs_def)

lemma pinned_clean: "pinned P s \<Longrightarrow> b \<notin> P \<Longrightarrow> av (cabs s) b = disk s b"
  using clean_unref [of s b] by (simp add: pinned_def)

lemma recover_ok:
  assumes b: "booted s" and d: "disk_log_ok (lg_start (lg s)) (disk s)"
  shows "\<exists>s'. recover_from_log s = (Ret (), s') \<and> pinned {} s' \<and>
    wrote (redo_writes (lg_start (lg s)) (disk s) @ [(lg_start (lg s), setw (disk s (lg_start (lg s))) 0 0)]) s s' \<and>
    lg_start (lg s') = lg_start (lg s) \<and> logged s' = []"
proof -
  let ?st = "lg_start (lg s)" and ?L = "head_list (disk s (lg_start (lg s)))"
  have p: "pinned {} s" using b by (simp add: booted_def)
  have v: "av (cabs s) = disk s" using pinned_clean [OF p] by auto
  obtain s1 h where s1: "read_head s = (Ret (), s1)" "pinned {} s1" "wrote [] s s1" "lg s1 = (lg s)\<lparr>lg_lh := h\<rparr>"
      "length (lh_block h) = LOGSIZE" "logged s1 = ?L" "lcount s1 = length ?L"
    using read_head_ok [OF p] b d by (auto simp: booted_def disk_log_ok_def v)
  have w1: "log_wf s1" using s1 b d by (simp add: log_wf_def booted_def disk_log_ok_def)
  have v1: "av (cabs s1) = disk s" using s1(3) v by (simp add: wrote_def)
  have W: "to_home s1 (av (cabs s1)) [0..<lcount s1] = redo_writes ?st (disk s)"
    by (simp add: to_home_def redo_writes_def s1(4,6,7) v1 log_block_def)
  obtain s2 where s2: "install_loop True [0..<lcount s1] s1 = (Ret (), s2)" "lg s2 = lg s1" "pinned {} s2"
      "wrote (redo_writes ?st (disk s)) s1 s2"
    using install_loop_ok [OF s1(2) w1, of True "[0..<lcount s1]"] by (auto simp: W)
  let ?s3 = "set_lh (\<lambda>h. h\<lparr>lh_n := 0\<rparr>) s2"
  have w3: "log_wf ?s3" "lcount ?s3 = 0" "logged ?s3 = []"
    using w1 s2(2) by (simp_all add: log_wf_def lcount_def logged_def)
  have p3: "pinned {} ?s3" using s2(3) by (simp add: set_lh_def)
  obtain s4 where s4: "write_head ?s3 = (Ret (), s4)" "lg s4 = lg ?s3" "pinned {} s4"
      "wrote [(?st, new_head ?s3 (av (cabs ?s3) ?st))] ?s3 s4"
    using write_head_ok [OF p3 w3(1)] s2(2) s1(4) by auto
  have "?st \<notin> fst ` set (redo_writes ?st (disk s))"
    using d by (auto simp: redo_fst disk_log_ok_def log_area_def)
  then have "av (cabs ?s3) ?st = disk s ?st"
    using s2(4) v1 wr_all_other [of ?st "redo_writes ?st (disk s)"] by (simp add: set_lh_def wrote_def)
  then have h: "new_head ?s3 (av (cabs ?s3) ?st) = setw (disk s ?st) 0 0" by (simp add: new_head_def w3(2))
  have "wrote [(?st, setw (disk s ?st) 0 0)] s2 s4" using s4(4) unfolding h by (simp add: wrote_def set_lh_def)
  then have "wrote (redo_writes ?st (disk s) @ [(?st, setw (disk s ?st) 0 0)]) s s4"
    using wrote_trans [OF s1(3)] wrote_trans [OF s2(4)] by simp
  moreover have "recover_from_log s = (Ret (), s4)"
    using s1(1) s2(1) s4(1) by (simp add: recover_from_log_def install_trans_def lh_range_def lcount_def)
  ultimately show ?thesis
    using s4(2,3) s2(2) s1(4) w3(2,3) same_lg_facts [OF s4(2)] by auto
qed

text \<open>The file system between transactions and commits: the blocks of the transaction are pinned
  in the cache, there is room for the log block that the commit reads beside them, and the log on
  disk is empty.\<close>

definition commit_ready :: "'z logstate_scheme \<Rightarrow> bool" where
  "commit_ready s \<longleftrightarrow> log_wf s \<and> pinned (set (logged s)) s \<and> distinct (logged s) \<and> lcount s < NBUF \<and>
     length (disk s (lg_start (lg s))) = BSIZE \<and> getw (disk s (lg_start (lg s))) 0 = 0"

definition commit_writes :: "'z logstate_scheme \<Rightarrow> (u32 \<times> u8 list) list" where
  "commit_writes s =
     (let st = lg_start (lg s); h = new_head s (disk s st) in
      if lcount s = 0 then [] else
        to_log s (block_view s) [0..<lcount s] @ [(st, h)] @
        map (\<lambda>i. (logged s ! i, block_view s (logged s ! i))) [0..<lcount s] @ [(st, setw h 0 0)])"

lemma log_block_inj_on: "log_wf s \<Longrightarrow> inj_on (log_block s) {0..<lcount s}"
  using log_block_inj by (fastforce simp: inj_on_def log_wf_def)

lemma start_not_logged: "log_wf s \<Longrightarrow> lg_start (lg s) \<notin> fst ` set (to_log s f [0..<lcount s])"
proof -
  assume w: "log_wf s"
  then have "lcount s \<le> LOGSIZE" by (simp add: log_wf_def)
  then have "log_block s i \<noteq> lg_start (lg s)" if "i < lcount s" for i using log_block_start [OF w, of i] that by simp
  then show ?thesis by (force simp: to_log_def)
qed

lemma commit_ok:
  assumes r: "commit_ready s"
  shows "\<exists>s'. commit s = (Ret (), s') \<and> pinned {} s' \<and> wrote (commit_writes s) s s' \<and>
    lg_start (lg s') = lg_start (lg s) \<and> logged s' = []"
proof (cases "lcount s = 0")
  case True
  then have "logged s = []" by (simp add: logged_def)
  then show ?thesis using True r by (auto simp: commit_def lcount_def commit_writes_def commit_ready_def)
next
  case False
  let ?st = "lg_start (lg s)" and ?v = "block_view s" and ?P = "set (logged s)" and ?n = "[0..<lcount s]"
  have w: "log_wf s" and p: "pinned ?P s" and di: "distinct (logged s)" and n: "lcount s < NBUF"
    using r by (simp_all add: commit_ready_def)
  have av: "av (cabs s) = ?v" by (simp add: cabs_def)
  have a: "?P \<inter> log_area ?st = {}" using w by (simp add: log_wf_def)
  have c: "card ?P < NBUF" using di n w by (simp add: distinct_card)
  obtain s1 where s1: "write_log_loop ?n s = (Ret (), s1)" "lg s1 = lg s" "pinned ?P s1" "wrote (to_log s ?v ?n) s s1"
    using write_log_loop_ok [OF p w c _ a, of ?n] by (auto simp: av)
  note f1 = same_lg_facts [OF s1(2)]
  have w1: "log_wf s1" using w f1 by simp
  obtain s2 where s2: "write_head s1 = (Ret (), s2)" "lg s2 = lg s1" "pinned ?P s2"
      "wrote [(?st, new_head s1 (av (cabs s1) ?st))] s1 s2"
    using write_head_ok [OF s1(3) w1 c] s1(2) by auto
  have st: "?st \<notin> ?P" using a by (auto simp: log_area_def)
  have "av (cabs s1) ?st = disk s ?st"
    using s1(4) wr_all_other [OF start_not_logged [OF w]] pinned_clean [OF p st] av by (simp add: wrote_def)
  then have h: "new_head s1 (av (cabs s1) ?st) = new_head s (disk s ?st)"
    by (simp add: new_head_def f1 s1(2))
  note f2 = same_lg_facts [OF s2(2)]
  have w2: "log_wf s2" using w1 f2 by simp
  have m: "map (\<lambda>i. logged s2 ! i) ?n = logged s" using f1 f2 w by (intro nth_equalityI) auto
  have "?P = (\<lambda>i. logged s2 ! i) ` set ?n" using arg_cong [OF m, of set] by simp
  with m obtain s3 where s3: "install_loop False ?n s2 = (Ret (), s3)" "lg s3 = lg s2" "pinned {} s3"
      "wrote (to_home s2 (av (cabs s2)) ?n) s2 s3"
    using install_loop_ok [OF s2(3) w2, of False ?n] di c a f1 f2 s1(2) s2(2) by auto
  have "av (cabs s2) (log_block s i) = ?v (logged s ! i)" if "i < lcount s" for i
    using s2(4) s1(4) that wr_all_inj [OF _ _, of "log_block s" ?n i "\<lambda>i. ?v (logged s ! i)" "?v"]
      log_block_inj_on [OF w] log_block_start [OF w, of i] w av
    by (simp add: wrote_def to_log_def log_wf_def)
  then have W: "to_home s2 (av (cabs s2)) ?n = map (\<lambda>i. (logged s ! i, ?v (logged s ! i))) ?n"
    by (simp add: to_home_def f1 f2)
  let ?t = "set_lh (\<lambda>h. h\<lparr>lh_n := 0\<rparr>) s3"
  have wt: "log_wf ?t" "lcount ?t = 0" "logged ?t = []"
    using w2 s3(2) by (simp_all add: log_wf_def lcount_def logged_def)
  have pt: "pinned {} ?t" using s3(3) by (simp add: set_lh_def)
  obtain s4 where s4: "write_head ?t = (Ret (), s4)" "lg s4 = lg ?t" "pinned {} s4"
      "wrote [(?st, new_head ?t (av (cabs ?t) ?st))] ?t s4"
    using write_head_ok [OF pt wt(1)] s3(2) s2(2) s1(2) by auto
  have "?st \<notin> fst ` set (map (\<lambda>i. (logged s ! i, ?v (logged s ! i))) ?n)"
    using st w by (auto simp: logged_mem)
  then have "av (cabs ?t) ?st = new_head s (disk s ?st)"
    using s3(4) s2(4) wr_all_other [of ?st "map (\<lambda>i. (logged s ! i, ?v (logged s ! i))) ?n"]
    by (simp add: set_lh_def wrote_def W h)
  then have "new_head ?t (av (cabs ?t) ?st) = setw (new_head s (disk s ?st)) 0 0"
    by (simp add: new_head_def [of ?t] wt(2))
  then have "wrote [(?st, setw (new_head s (disk s ?st)) 0 0)] s3 s4" using s4(4) by (simp add: wrote_def set_lh_def)
  then have "wrote (commit_writes s) s s4"
    using wrote_trans [OF s1(4) wrote_trans [OF s2(4) wrote_trans [OF s3(4)]]] False
    by (simp add: commit_writes_def Let_def W h)
  moreover have "commit s = (Ret (), s4)"
  proof -
    have "sint (lh_n (lg_lh (lg s))) > 0" using False by (simp add: lcount_def)
    then show ?thesis using s1(1) s2(1) s3(1) s4(1) f1 f2
      by (simp add: commit_def write_log_def install_trans_def lh_range_def lcount_def)
  qed
  ultimately show ?thesis using s4(2,3) s3(2) s2(2) s1(2) wt same_lg_facts [OF s4(2)] by auto
qed

end
