(* ===== verification/Tx.thy ===== *)
theory Tx
  imports Logops
begin

text \<open>
  What a file system operation may rely on inside a transaction: it reads and changes blocks
  through the cache and hands the changed ones to \<^verbatim>\<open>log_write\<close>; nothing reaches the disk before
  the commit, and at the end the state is one that \<^verbatim>\<open>commit\<close> accepts.
\<close>

section \<open>The invariant\<close>

definition in_use :: "'z logstate_scheme \<Rightarrow> u32 set" where
  "in_use s = set (logged s) \<union> {b. block_lock s b \<noteq> None}"

definition tx :: "'z logstate_scheme \<Rightarrow> bool" where
  "tx s \<longleftrightarrow> log_wf s \<and> cache_ok s \<and> distinct (logged s) \<and> finite {b. block_lock s b \<noteq> None} \<and>
     ar (cabs s) = (\<lambda>b. (if b \<in> set (logged s) then 1 else 0) + (if block_lock s b \<noteq> None then 1 else 0)) \<and>
     length (disk s (lg_start (lg s))) = BSIZE \<and> getw (disk s (lg_start (lg s))) 0 = 0"

text \<open>The contents of the blocks as the transaction sees them.\<close>

definition blocks :: "'z logstate_scheme \<Rightarrow> u32 \<Rightarrow> u8 list" where
  "blocks s = av (cabs s)"

text \<open>What an operation inside a transaction keeps.\<close>

definition tx_frame :: "'z logstate_scheme \<Rightarrow> 'z logstate_scheme \<Rightarrow> bool" where
  "tx_frame s s' \<longleftrightarrow> disk s' = disk s \<and> dwrites s' = dwrites s \<and> held s' = held s \<and> curproc s' = curproc s \<and>
     mem s' = mem s \<and> (lg s')\<lparr>lg_lh := lg_lh (lg s)\<rparr> = lg s \<and> logstate.more s' = logstate.more s \<and>
     (\<forall>i. slocks s' (InodeSL i) = slocks s (InodeSL i)) \<and> kend s' = kend s \<and>
     (\<forall>i. (procs s' i)\<lparr>p_state := UNUSED\<rparr> = (procs s i)\<lparr>p_state := UNUSED\<rparr>)"

lemma tx_frame_refl [simp]: "tx_frame s s"
  by (simp add: tx_frame_def)

lemma tx_frame_trans: "tx_frame s s' \<Longrightarrow> tx_frame s' s'' \<Longrightarrow> tx_frame s s''"
  by (auto simp: tx_frame_def) (metis logdata.surjective logdata.update_convs(6) logdata.ext_inject)

lemma tx_frame_lg:
  "tx_frame s s' \<Longrightarrow> lg_start (lg s') = lg_start (lg s) \<and> lg_size (lg s') = lg_size (lg s) \<and> lg_dev (lg s') = lg_dev (lg s) \<and>
     lg_outstanding (lg s') = lg_outstanding (lg s) \<and> lg_committing (lg s') = lg_committing (lg s)"
  unfolding tx_frame_def
  by (auto dest: arg_cong [where f = lg_start] arg_cong [where f = lg_size] arg_cong [where f = lg_dev]
      arg_cong [where f = lg_outstanding] arg_cong [where f = lg_committing])

lemma bframe_log_more: "bframe s s' \<Longrightarrow> logstate.more s' = logstate.more s"
  unfolding bframe_def by (auto dest: arg_cong [where f = logstate.more])

lemma tx_frame_procs:
  assumes "tx_frame s s'" shows "p_pagetable (procs s' i) = p_pagetable (procs s i)" and "p_pid (procs s' i) = p_pid (procs s i)"
    and "mypid s' = mypid s"
proof -
  have e: "(procs s' j)\<lparr>p_state := UNUSED\<rparr> = (procs s j)\<lparr>p_state := UNUSED\<rparr>" for j using assms by (simp add: tx_frame_def)
  show "p_pagetable (procs s' i) = p_pagetable (procs s i)" using arg_cong [OF e, of p_pagetable] by simp
  show p: "p_pid (procs s' i) = p_pid (procs s i)" for i using arg_cong [OF e, of p_pid] by simp
  have "curproc s' = curproc s" using assms by (simp add: tx_frame_def)
  then show "mypid s' = mypid s" by (simp add: mypid_def p)
qed

lemma bframe_procs: "bframe s s' \<Longrightarrow> kend s' = kend s \<and> (procs s' i)\<lparr>p_state := UNUSED\<rparr> = (procs s i)\<lparr>p_state := UNUSED\<rparr>"
proof -
  assume f: "bframe s s'"
  then have "kend s' = kend s" unfolding bframe_def by (auto dest: arg_cong [where f = kend])
  moreover have "procs s' i = procs s i \<or> procs s' i = (procs s i)\<lparr>p_state := RUNNABLE\<rparr>" using f by (auto simp: bframe_def pkept_def)
  ultimately show ?thesis by auto
qed

lemma bframe_tx_frame: "bframe s s' \<Longrightarrow> disk s' = disk s \<Longrightarrow> dwrites s' = dwrites s \<Longrightarrow> tx_frame s s'"
  using bframe_more [of s s'] bframe_lg [of s s'] bframe_log_more [of s s'] bframe_procs [of s s']
  by (simp add: tx_frame_def bframe_def)

lemma tx_commit_ready: "tx s \<Longrightarrow> block_lock s = (\<lambda>_. None) \<Longrightarrow> lcount s < NBUF \<Longrightarrow> commit_ready s"
  by (simp add: tx_def commit_ready_def pinned_def)

lemma tx_finite: "tx s \<Longrightarrow> finite (in_use s)"
  by (simp add: tx_def in_use_def)

section \<open>The operations\<close>

lemma tx_bread:
  assumes t: "tx s" and l: "block_lock s bno = None" and r: "bno \<in> in_use s \<or> card (in_use s) < NBUF"
  shows "\<exists>b s'. bread 1 bno s = (Ret b, s') \<and> tx s' \<and> tx_frame s s' \<and> lg s' = lg s \<and> blocks s' = blocks s \<and>
    block_lock s' = (block_lock s)(bno \<mapsto> b) \<and> b_data (bufs s' b) = blocks s bno"
proof -
  have u: "ar (cabs s) n = 0" if "n \<notin> in_use s" for n using t that by (simp add: tx_def in_use_def)
  have "has_room (cabs s) bno"
    using t r u tx_finite [OF t] unfolding has_room_def by (auto simp: tx_def in_use_def split: if_splits)
  then obtain b s' where s': "bread 1 bno s = (Ret b, s')" "cache_ok s'" "bframe s s'" "cabs s' = a_take bno (cabs s)"
      "block_lock s' = (block_lock s)(bno \<mapsto> b)"
    using bcache.rd_law [of s bno] t l by (auto simp: tx_def)
  have d: "disk s' = disk s" "dwrites s' = dwrites s"
    using arg_cong [OF s'(4), of ad] arg_cong [OF s'(4), of aw] by (simp_all add: a_take_def)
  have g: "lg s' = lg s" using s'(3) by (rule bframe_lg)
  note sf = same_lg_facts [OF g]
  have "finite {n. block_lock s' n \<noteq> None}"
    using t s'(5) by (auto simp: tx_def intro: finite_subset [of _ "insert bno {n. block_lock s n \<noteq> None}"])
  then have "tx s'" using t s' d g sf l by (auto simp: tx_def a_take_def fun_eq_iff)
  moreover have "blocks s' = blocks s" using s'(4) by (simp add: blocks_def a_take_def)
  moreover have "b_data (bufs s' b) = blocks s bno"
    using bcache.get_law [of s' bno b] s' by (simp add: blocks_def a_take_def)
  ultimately show ?thesis using s' g bframe_tx_frame [OF s'(3) d] by blast
qed

lemma tx_put:
  assumes t: "tx s" and l: "block_lock s bno = Some b"
  shows "tx (buf_put b d s) \<and> tx_frame s (buf_put b d s) \<and> lg (buf_put b d s) = lg s \<and>
    blocks (buf_put b d s) = (blocks s)(bno := d) \<and> block_lock (buf_put b d s) = block_lock s"
proof -
  have p: "cache_ok (buf_put b d s)" "bframe s (buf_put b d s)" "cabs (buf_put b d s) = a_put bno d (cabs s)"
      "block_lock (buf_put b d s) = block_lock s"
    using bcache.put_law [of s bno b d] t l by (auto simp: tx_def)
  have e: "disk (buf_put b d s) = disk s" "dwrites (buf_put b d s) = dwrites s" "lg (buf_put b d s) = lg s"
    by (simp_all add: buf_put_def setb_def)
  note sf = same_lg_facts [OF e(3)]
  have "tx (buf_put b d s)" using t p e sf by (simp add: tx_def a_put_def)
  then show ?thesis using p e bframe_tx_frame [OF p(2) e(1,2)] by (simp add: blocks_def a_put_def)
qed

lemma tx_brelse:
  assumes t: "tx s" and l: "block_lock s bno = Some b" and c: "bno \<in> set (logged s) \<or> blocks s bno = disk s bno"
  shows "\<exists>s'. brelse b s = (Ret (), s') \<and> tx s' \<and> tx_frame s s' \<and> lg s' = lg s \<and> blocks s' = blocks s \<and>
    block_lock s' = (block_lock s)(bno := None)"
proof -
  have "ar (cabs s) bno = 1 \<longrightarrow> av (cabs s) bno = ad (cabs s) bno"
    using t l c by (auto simp: tx_def blocks_def)
  then obtain s' where s': "brelse b s = (Ret (), s')" "cache_ok s'" "bframe s s'" "cabs s' = a_drop bno (cabs s)"
      "block_lock s' = (block_lock s)(bno := None)"
    using bcache.rel_law [of s bno b] t l by (auto simp: tx_def)
  have d: "disk s' = disk s" "dwrites s' = dwrites s"
    using arg_cong [OF s'(4), of ad] arg_cong [OF s'(4), of aw] by (simp_all add: a_drop_def)
  have g: "lg s' = lg s" using s'(3) by (rule bframe_lg)
  note sf = same_lg_facts [OF g]
  have "finite {n. block_lock s' n \<noteq> None}"
    using t s'(5) by (auto simp: tx_def intro: finite_subset [of _ "{n. block_lock s n \<noteq> None}"])
  then have "tx s'" using t s' d g sf l by (auto simp: tx_def a_drop_def fun_eq_iff)
  moreover have "blocks s' = blocks s" using s'(4) by (simp add: blocks_def a_drop_def)
  ultimately show ?thesis using s' g bframe_tx_frame [OF s'(3) d] by blast
qed

lemma cache_cong:
  assumes "bufs s' = bufs s" and "disk s' = disk s" and "dwrites s' = dwrites s" and "slocks s' = slocks s"
    and "procs s' = procs s" and "curproc s' = curproc s"
  shows "cabs s' = cabs s" "block_lock s' = block_lock s" "cache_inv s' = cache_inv s"
proof -
  have c: "cached s' = cached s" using assms by (simp add: cached_def fun_eq_iff)
  have b: "bslot s' = bslot s" by (rule ext) (simp add: bslot_def c)
  show k: "block_lock s' = block_lock s"
    using b assms by (simp add: block_lock_def fun_eq_iff split: option.splits)
  show "cabs s' = cabs s"
    unfolding cabs_def k using b assms
    by (simp add: block_view_def block_refs_def fun_eq_iff split: option.splits)
  have "buf_ok s' i = buf_ok s i" for i using assms by (simp add: buf_ok_def mypid_def)
  then show "cache_inv s' = cache_inv s" using c assms by (simp add: cache_inv_def)
qed

lemma log_find_logged:
  assumes "log_wf s"
  shows "bno \<in> set (logged s) \<Longrightarrow> log_find bno (lg_lh (lg s)) < lcount s \<and> logged s ! log_find bno (lg_lh (lg s)) = bno"
    and "bno \<notin> set (logged s) \<Longrightarrow> log_find bno (lg_lh (lg s)) = lcount s"
proof -
  let ?h = "lg_lh (lg s)"
  have n: "lh_block ?h ! i = logged s ! i" if "i < lcount s" for i using that by (simp add: logged_def)
  have r: "set (lh_range (lh_n ?h)) = {..<lcount s}" by (auto simp: lh_range_def lcount_def)
  show "bno \<in> set (logged s) \<Longrightarrow> log_find bno ?h < lcount s \<and> logged s ! log_find bno ?h = bno"
  proof -
    assume "bno \<in> set (logged s)"
    then obtain j where j: "j < lcount s" "logged s ! j = bno" using assms by (auto simp: in_set_conv_nth)
    then obtain i where i: "find (\<lambda>i. lh_block ?h ! i = bno) (lh_range (lh_n ?h)) = Some i"
      using n r by (cases "find (\<lambda>i. lh_block ?h ! i = bno) (lh_range (lh_n ?h))") (auto simp: find_None_iff)
    then have "i < lcount s" "lh_block ?h ! i = bno" using find_SomeD [OF i] r by auto
    then show ?thesis using i n by (simp add: log_find_def)
  qed
  show "bno \<notin> set (logged s) \<Longrightarrow> log_find bno ?h = lcount s"
  proof -
    assume a: "bno \<notin> set (logged s)"
    have "lh_block ?h ! i \<noteq> bno" if "i < lcount s" for i using a n [OF that] logged_mem [OF assms that] by auto
    then have "find (\<lambda>i. lh_block ?h ! i = bno) (lh_range (lh_n ?h)) = None" using r by (auto simp: find_None_iff)
    then show ?thesis by (simp add: log_find_def lcount_def)
  qed
qed

lemma sint_Suc: "0 \<le> sint w \<Longrightarrow> sint w < 2147483647 \<Longrightarrow> sint (w + 1) = sint w + 1" for w :: i32
  by (simp add: sint_word_ariths signed_take_bit_int_eq_self)

text \<open>The room that \<^verbatim>\<open>log_write\<close> checks for, inside an operation.\<close>

definition log_room :: "'z logstate_scheme \<Rightarrow> bool" where
  "log_room s \<longleftrightarrow> LogLock \<notin> set (held s) \<and> sint (lg_outstanding (lg s)) \<ge> 1 \<and>
     0 \<le> sint (lh_n (lg_lh (lg s))) \<and> lcount s < LOGSIZE - 1 \<and> lg_size (lg s) = of_nat LOGSIZE"

lemma log_write_absorb:
  assumes t: "tx s" and l: "block_lock s bno = Some b" and r: "log_room s" and m: "bno \<in> set (logged s)"
  shows "log_write b s = (Ret (), s)"
proof -
  let ?h = "lg_lh (lg s)" and ?i = "log_find bno (lg_lh (lg s))"
  have w: "log_wf s" using t by (simp add: tx_def)
  have f: "?i < lcount s" "logged s ! ?i = bno" using log_find_logged(1) [OF w m] by auto
  have bn: "b_blockno (bufs s b) = bno" using block_lock_facts(9) [of s bno b] t l by (simp add: tx_def cache_ok_def)
  have z: "int (lcount s) = sint (lh_n ?h)" using r by (simp add: log_room_def lcount_def)
  have "(lh_block ?h)[?i := bno] = lh_block ?h"
    using f by (metis list_update_id nth_take logged_def)
  then have "set_lh (\<lambda>h. h\<lparr>lh_block := (lh_block h)[?i := bno]\<rparr>) (s\<lparr>held := LogLock # held s\<rparr>) = s\<lparr>held := LogLock # held s\<rparr>"
    by (simp add: set_lh_def set_lg_def)
  then show ?thesis using f r z bn
    by (simp add: log_write_def log_room_def)
qed

lemma log_write_fresh:
  assumes t: "tx s" and l: "block_lock s bno = Some b" and r: "log_room s" and m: "bno \<notin> set (logged s)"
    and a: "bno \<notin> log_area (lg_start (lg s))"
  shows "\<exists>s'. log_write b s = (Ret (), s') \<and> tx s' \<and> tx_frame s s' \<and> blocks s' = blocks s \<and>
    block_lock s' = block_lock s \<and> logged s' = logged s @ [bno] \<and> sint (lh_n (lg_lh (lg s'))) = int (lcount s) + 1"
proof -
  let ?h = "lg_lh (lg s)" and ?n = "lcount s"
  have w: "log_wf s" and i: "cache_inv s" and c: "calm s" using t by (simp_all add: tx_def cache_ok_def)
  have bn: "b_blockno (bufs s b) = bno" using block_lock_facts(9) [OF i l] .
  have f: "log_find bno ?h = ?n" using log_find_logged(2) [OF w m] .
  have z: "sint (lh_n ?h) = int ?n" "?n < 29" using r by (simp_all add: log_room_def lcount_def)
  let ?s1 = "set_lh (\<lambda>h. h\<lparr>lh_block := (lh_block h)[?n := bno]\<rparr>) (s\<lparr>held := LogLock # held s\<rparr>)"
  have eq: "bufs ?s1 = bufs s" "disk ?s1 = disk s" "dwrites ?s1 = dwrites s" "slocks ?s1 = slocks s" "procs ?s1 = procs s"
     "curproc ?s1 = curproc s" "held ?s1 = LogLock # held s" "mem ?s1 = mem s" "logstate.more ?s1 = logstate.more s" by (simp_all add: set_lh_def set_lg_def)
  note cc = cache_cong [OF eq(1-6)]
  have ok1: "cache_ok ?s1" using i c by (simp add: cache_ok_def cc) (simp add: calm_def running_def no_plock_def set_lh_def set_lg_def)
  have ar: "ar (cabs s) bno = 1" using t l m by (simp add: tx_def)
  obtain s2 where s2: "bpin b ?s1 = (Ret (), s2)" "cache_ok s2" "bframe ?s1 s2" "cabs s2 = a_pin bno (cabs s)" "block_lock s2 = block_lock s"
    using bcache.pin_law [OF ok1, of bno b] l ar by (auto simp: cc)
  have h2: "held s2 = LogLock # held s" "lg s2 = lg ?s1" using bframe_more [OF s2(3)] bframe_lg [OF s2(3)] by (simp_all add: eq)
  define s4 where "s4 = (set_lh (\<lambda>h. h\<lparr>lh_n := lh_n h + 1\<rparr>) s2)\<lparr>held := held s\<rparr>"
  have eq4: "bufs s4 = bufs s2" "disk s4 = disk s2" "dwrites s4 = dwrites s2" "slocks s4 = slocks s2" "procs s4 = procs s2"
     "curproc s4 = curproc s2" "held s4 = held s" "mem s4 = mem s2" "logstate.more s4 = logstate.more s2"
    by (simp_all add: s4_def set_lh_def set_lg_def)
  note c4 = cache_cong [OF eq4(1-6)]
  have lw: "log_write b s = (Ret (), s4)"
  proof -
    have "sint (of_nat LOGSIZE - 1 :: i32) = 29" by simp
    then show ?thesis using r z f bn s2(1) h2 by (simp add: log_write_def log_room_def set_lh_def set_lg_def s4_def)
  qed
  have n1: "sint (lh_n ?h + 1) = int ?n + 1" using sint_Suc [of "lh_n ?h"] z by simp
  have g4: "lg s4 = (lg s)\<lparr>lg_lh := ?h\<lparr>lh_block := (lh_block ?h)[?n := bno], lh_n := lh_n ?h + 1\<rparr>\<rparr>"
    using h2 by (simp add: s4_def set_lh_def set_lg_def)
  have lc: "lcount s4 = Suc ?n" by (simp add: lcount_def [of s4] g4 n1)
  have lo: "logged s4 = logged s @ [bno]"
    unfolding logged_def lc g4 using w z by (simp add: log_wf_def take_Suc_conv_app_nth)
  have w4: "log_wf s4" using w z a unfolding log_wf_def lo lc g4 by auto
  have d4: "disk s4 = disk s" "dwrites s4 = dwrites s"
    using arg_cong [OF s2(4), of ad] arg_cong [OF s2(4), of aw] eq4 by (simp_all add: a_pin_def)
  have ok4: "cache_ok s4"
    using s2(2) c bframe_more [OF s2(3)] eq(6) eq4(6,7)
    by (simp add: cache_ok_def c4) (simp add: calm_def running_def no_plock_def)
  have bl4: "block_lock s4 = block_lock s" by (simp only: c4 s2(5))
  have ar4: "ar (cabs s4) = (\<lambda>x. (if x \<in> set (logged s4) then 1 else 0) + (if block_lock s4 x \<noteq> None then 1 else 0))"
    unfolding c4 s2(4,5) lo using t m l by (simp add: a_pin_def tx_def fun_eq_iff)
  have "distinct (logged s4)" "finite {b. block_lock s4 b \<noteq> None}" "length (disk s4 (lg_start (lg s4))) = BSIZE"
      "getw (disk s4 (lg_start (lg s4))) 0 = 0"
    using t m unfolding lo bl4 d4 g4 by (simp_all add: tx_def)
  with w4 ok4 ar4 have "tx s4" unfolding tx_def by (intro conjI)
  moreover have "tx_frame s s4"
  proof -
    have "curproc s4 = curproc s" "mem s4 = mem s" "logstate.more s4 = logstate.more s"
      using bframe_more [OF s2(3)] bframe_log_more [OF s2(3)] eq eq4 by simp_all
    moreover have "slocks s4 (InodeSL i) = slocks s (InodeSL i)" for i using s2(3) eq(4) eq4(4) by (simp add: bframe_def)
    moreover have "(lg s4)\<lparr>lg_lh := lg_lh (lg s)\<rparr> = lg s" unfolding g4 by simp
    moreover have "kend s4 = kend s" "(procs s4 i)\<lparr>p_state := UNUSED\<rparr> = (procs s i)\<lparr>p_state := UNUSED\<rparr>" for i
      using bframe_procs [OF s2(3), of i] eq(5) eq4(5) by (simp_all add: s4_def set_lh_def set_lg_def)
    ultimately show ?thesis using d4 eq4(7) by (simp add: tx_frame_def)
  qed
  moreover have "blocks s4 = blocks s" using s2(4) by (simp add: blocks_def c4 a_pin_def)
  moreover have "sint (lh_n (lg_lh (lg s4))) = int ?n + 1" by (simp add: g4 n1)
  ultimately show ?thesis using lw bl4 lo by blast
qed

lemma tx_log_write:
  assumes "tx s" and "block_lock s bno = Some b" and "log_room s" and "bno \<notin> log_area (lg_start (lg s))"
  shows "\<exists>s'. log_write b s = (Ret (), s') \<and> tx s' \<and> tx_frame s s' \<and> blocks s' = blocks s \<and>
    block_lock s' = block_lock s \<and> logged s' = (if bno \<in> set (logged s) then logged s else logged s @ [bno]) \<and>
    0 \<le> sint (lh_n (lg_lh (lg s')))"
proof (cases "bno \<in> set (logged s)")
  case True
  then show ?thesis using log_write_absorb [OF assms(1-3)] assms(1,3) by (auto simp: log_room_def)
next
  case False
  then show ?thesis using log_write_fresh [OF assms(1-3) False assms(4)] by auto
qed

section \<open>A state to start from\<close>

text \<open>A running process, an empty cache, and a disk of zeros whose log starts at block 2.\<close>

definition buf0 :: "nat \<Rightarrow> buf" where
  "buf0 i = \<lparr>b_valid = False, b_dev = 0, b_blockno = 0, b_refcnt = 0,
     b_prev = (if i = 0 then NBUF else i - 1), b_next = (if i = NBUF then 0 else i + 1), b_data = []\<rparr>"

definition logstate0 :: "(u32 \<Rightarrow> u8 list) \<Rightarrow> logstate" where
  "logstate0 D = \<lparr>held = [], mem = (\<lambda>_. 0), freelist = 0, kend = 0x80020000,
     procs = (\<lambda>i. if i = 0 then proc0\<lparr>p_state := RUNNING, p_pid := 1\<rparr> else proc0),
     nextpid = 2, curproc = Some 0, initproc = Some 0, kernel_pagetable = 0, etext = 0x80010000,
     trampoline = 0x8000f000, forkret_addr = 0x80001234,
     slocks = (\<lambda>_. \<lparr>sl_locked = False, sl_pid = 0\<rparr>), bufs = buf0, disk = D, dwrites = [],
     lg = \<lparr>lg_start = 2, lg_size = 30, lg_outstanding = 1, lg_committing = False, lg_dev = 1,
       lg_lh = \<lparr>lh_n = 0, lh_block = replicate LOGSIZE 0\<rparr>\<rparr>\<rparr>"

lemma logstate0_fields [simp]:
  "bufs (logstate0 D) = buf0" "disk (logstate0 D) = D" "dwrites (logstate0 D) = []" "held (logstate0 D) = []"
  "slocks (logstate0 D) l = \<lparr>sl_locked = False, sl_pid = 0\<rparr>" "lg_start (lg (logstate0 D)) = 2"
  "lg_dev (lg (logstate0 D)) = 1" "lg_lh (lg (logstate0 D)) = \<lparr>lh_n = 0, lh_block = replicate LOGSIZE 0\<rparr>"
  "lcount (logstate0 D) = 0" "logged (logstate0 D) = []" "lg_outstanding (lg (logstate0 D)) = 1"
  "lg_size (lg (logstate0 D)) = 30"
  by (simp_all add: logstate0_def lcount_def logged_def)

lemma buf0_ring: "ring buf0 [0..<NBUF]"
proof -
  have "linked buf0 (NBUF # [0..<NBUF] @ [NBUF])" by code_simp
  then show ?thesis by (simp add: ring_def del: upt_rec_numeral)
qed

lemma logstate0_cache:
  "cache_ok (logstate0 D)" "block_lock (logstate0 D) = (\<lambda>_. None)" "ar (cabs (logstate0 D)) = (\<lambda>_. 0)" "blocks (logstate0 D) = D"
proof -
  have c: "\<not> cached (logstate0 D) n b" for n b by (simp add: cached_def buf0_def)
  have "calm (logstate0 D)" by (simp add: calm_def running_def no_plock_def) (simp add: logstate0_def)
  moreover have "buf_ok (logstate0 D) b" for b by (simp add: buf_ok_def buf0_def)
  moreover have "set [0..<NBUF] = {..<NBUF}" by auto
  ultimately show "cache_ok (logstate0 D)"
    using c buf0_ring unfolding cache_ok_def cache_inv_def by auto
  have "bslot (logstate0 D) n = None" for n using c by (simp add: bslot_None)
  then show "block_lock (logstate0 D) = (\<lambda>_. None)" "ar (cabs (logstate0 D)) = (\<lambda>_. 0)" "blocks (logstate0 D) = D"
    by (simp_all add: block_lock_def cabs_def block_refs_def block_view_def blocks_def fun_eq_iff)
qed

lemma logstate0_tx:
  assumes "length (D 2) = BSIZE" and "getw (D 2) 0 = 0"
  shows "tx (logstate0 D)"
  using assms logstate0_cache [of D] by (simp add: tx_def log_wf_def)

lemma logstate0_booted: "booted (logstate0 D)"
  using logstate0_cache [of D] by (simp add: booted_def pinned_def)

text \<open>A transaction that changes one block.\<close>

lemma one_block_tx:
  assumes "length (D 2) = BSIZE" and "getw (D 2) 0 = 0" and a: "bno \<notin> log_area 2"
  shows "\<exists>s :: logstate. commit_ready s \<and> logged s = [bno] \<and> lg_start (lg s) = 2 \<and> disk s = D \<and> block_view s = D(bno := d)"
proof -
  let ?s = "logstate0 D"
  have t0: "tx ?s" using assms by (simp add: logstate0_tx)
  obtain b s1 where s1: "bread 1 bno ?s = (Ret b, s1)" "tx s1" "tx_frame ?s s1" "lg s1 = lg ?s" "blocks s1 = blocks ?s"
      "block_lock s1 = (block_lock ?s)(bno \<mapsto> b)"
    using tx_bread [OF t0, of bno] by (auto simp: logstate0_cache in_use_def)
  let ?p = "buf_put b d s1"
  have p: "tx ?p" "tx_frame s1 ?p" "lg ?p = lg s1" "blocks ?p = (blocks s1)(bno := d)" "block_lock ?p = block_lock s1"
    using tx_put [OF s1(2), of bno b d] s1(6) by auto
  have "log_room ?p" using p s1 by (simp add: log_room_def tx_frame_def same_lg_facts [of ?p ?s])
  then obtain s2 where s2: "tx s2" "tx_frame ?p s2" "blocks s2 = blocks ?p" "block_lock s2 = block_lock ?p" "logged s2 = [bno]"
    using tx_log_write [OF p(1), of bno b] a p s1 by (auto simp: same_lg_facts [of ?p ?s])
  obtain s3 where s3: "tx s3" "tx_frame s2 s3" "lg s3 = lg s2" "blocks s3 = blocks s2" "block_lock s3 = (block_lock s2)(bno := None)"
    using tx_brelse [OF s2(1), of bno b] s2 p s1 by auto
  have lo: "logged s3 = [bno]" using same_lg_facts [OF s3(3)] s2(5) by simp
  have bl: "block_lock s3 = (\<lambda>_. None)" using s3(5) s2(4) p(5) s1(6) by (simp add: logstate0_cache fun_eq_iff)
  have "lcount s3 = length (logged s3)" using s3(1) by (simp add: tx_def)
  then have "commit_ready s3" using tx_commit_ready [OF s3(1) bl] lo by simp
  moreover have "disk s3 = D" "lg_start (lg s3) = 2"
    using s3(2) s2(2) p(2) s1(3) tx_frame_lg [OF s3(2)] tx_frame_lg [OF s2(2)] p(3) s1(4) by (auto simp: tx_frame_def)
  moreover have "block_view s3 = D(bno := d)"
    using s3(4) s2(3) p(4) s1(5) logstate0_cache(4) [of D] by (simp add: blocks_def cabs_def)
  ultimately show ?thesis using lo by blast
qed

end
