(* ===== verification/Crash.thy ===== *)
theory Crash
  imports Tx
begin

text \<open>
  The log keeps the disk consistent: a commit is a list of block writes such that, wherever
  it is cut short, recovery brings the file system to the state before the transaction or to
  the state after it.
\<close>

section \<open>Crashes\<close>

lemma wr_all_map_of: "wr_all ws f b = (case map_of (rev ws) b of None \<Rightarrow> f b | Some d \<Rightarrow> d)"
proof (induction ws arbitrary: f)
  case (Cons w ws)
  obtain c d where "w = (c, d)" by fastforce
  then show ?case using Cons by (simp add: map_add_def split: option.splits)
qed simp

lemma wr_all_absorb:
  assumes "fst ` set vs \<subseteq> fst ` set ws"
  shows "wr_all ws (wr_all vs f) b = wr_all ws f b"
proof (cases "b \<in> fst ` set ws")
  case True
  then have "b \<in> fst ` set (rev ws)" by simp
  then obtain d where "map_of (rev ws) b = Some d" by (metis map_of_eq_None_iff not_None_eq)
  then show ?thesis by (simp add: wr_all_map_of)
next
  case False
  then have "b \<notin> fst ` set vs" using assms by blast
  then show ?thesis using False by (simp add: wr_all_other)
qed

lemma recover_view:
  assumes "booted r" and "disk_log_ok (lg_start (lg r)) (disk r)"
  shows "\<exists>r'. recover_from_log r = (Ret (), r') \<and>
    (\<forall>b. b \<notin> log_area (lg_start (lg r)) \<longrightarrow> disk r' b = wr_all (redo_writes (lg_start (lg r)) (disk r)) (disk r) b)"
  using recover_ok [OF assms] by (auto simp: wrote_def log_area_def)

text \<open>The three parts of a commit: before, between and after the writes of the header.\<close>

lemma crash_before:
  assumes r: "commit_ready s" and k: "k \<le> lcount s" and D: "D = wr_all (take k (commit_writes s)) (disk s)"
  shows "disk_log_ok (lg_start (lg s)) D \<and> redo_writes (lg_start (lg s)) D = [] \<and>
    (\<forall>b. b \<notin> log_area (lg_start (lg s)) \<longrightarrow> D b = disk s b)"
proof -
  let ?W = "to_log s (block_view s) [0..<lcount s]"
  have w: "log_wf s" using r by (simp add: commit_ready_def)
  have "take k (commit_writes s) = take k ?W"
    using k by (auto simp: commit_writes_def to_log_def Let_def)
  then have D': "D = wr_all (take k ?W) (disk s)" using D by simp
  have sub: "fst ` set (take k ?W) \<subseteq> fst ` set ?W" by (meson image_mono set_take_subset)
  have st: "D (lg_start (lg s)) = disk s (lg_start (lg s))"
    unfolding D' using start_not_logged [OF w, of "block_view s"] sub by (intro wr_all_other) auto
  have "fst ` set ?W \<subseteq> log_area (lg_start (lg s))"
    using w log_block_area [of _ s] by (auto simp: to_log_def log_wf_def)
  then have "D b = disk s b" if "b \<notin> log_area (lg_start (lg s))" for b
    unfolding D' using that sub by (intro wr_all_other) blast
  moreover have "head_list (disk s (lg_start (lg s))) = []" using r by (simp add: commit_ready_def head_list_def)
  ultimately show ?thesis using r st by (simp add: disk_log_ok_def redo_writes_def commit_ready_def)
qed

definition installing :: "'z logstate_scheme \<Rightarrow> nat \<Rightarrow> u32 \<Rightarrow> u8 list" where
  "installing s j = wr_all (take j (map (\<lambda>i. (logged s ! i, block_view s (logged s ! i))) [0..<lcount s]))
     ((wr_all (to_log s (block_view s) [0..<lcount s]) (disk s))(lg_start (lg s) := new_head s (disk s (lg_start (lg s)))))"

lemma installing_at:
  assumes "j \<le> lcount s"
  shows "installing s j b = (if b \<in> (\<lambda>i. logged s ! i) ` {0..<j} then block_view s b
    else ((wr_all (to_log s (block_view s) [0..<lcount s]) (disk s))(lg_start (lg s) := new_head s (disk s (lg_start (lg s))))) b)"
proof -
  have "take j (map (\<lambda>i. (logged s ! i, block_view s (logged s ! i))) [0..<lcount s]) =
      map (\<lambda>i. (logged s ! i, block_view s (logged s ! i))) [0..<j]"
    using assms by (simp add: take_map)
  then show ?thesis
    unfolding installing_def using wr_all_fun [of "\<lambda>i. logged s ! i" "block_view s" "[0..<j]"] by simp
qed

lemma unlogged_view: "commit_ready s \<Longrightarrow> b \<notin> set (logged s) \<Longrightarrow> block_view s b = disk s b"
  using pinned_clean [of "set (logged s)" s b] by (simp add: commit_ready_def cabs_def)

lemma installing_home:
  assumes r: "commit_ready s" and j: "j \<le> lcount s" and b: "b \<notin> log_area (lg_start (lg s))"
  shows "installing s j b = (if b \<in> (\<lambda>i. logged s ! i) ` {0..<j} then block_view s b else disk s b)"
proof -
  have "b \<notin> fst ` set (to_log s (block_view s) [0..<lcount s])"
    using b log_block_area [of _ s] r by (auto simp: to_log_def log_wf_def commit_ready_def)
  then show ?thesis using b by (auto simp: installing_at [OF j] wr_all_other log_area_def)
qed

lemma installing_log:
  assumes r: "commit_ready s" and j: "j \<le> lcount s"
  shows "installing s j (lg_start (lg s)) = new_head s (disk s (lg_start (lg s)))"
    "i < lcount s \<Longrightarrow> installing s j (log_block s i) = block_view s (logged s ! i)"
proof -
  have w: "log_wf s" using r by (simp add: commit_ready_def)
  have out: "(\<lambda>i. logged s ! i) ` {0..<j} \<inter> log_area (lg_start (lg s)) = {}" using logged_outside [OF w] j by auto
  then show "installing s j (lg_start (lg s)) = new_head s (disk s (lg_start (lg s)))"
    by (auto simp: installing_at [OF j] log_area_def)
  show "installing s j (log_block s i) = block_view s (logged s ! i)" if i: "i < lcount s"
  proof -
    have "i < LOGDATA" using i w by (simp add: log_wf_def)
    then have "log_block s i \<notin> (\<lambda>i. logged s ! i) ` {0..<j}" "log_block s i \<noteq> lg_start (lg s)"
      using out log_block_area [of i s] log_block_start [OF w] by auto
    moreover have "wr_all (to_log s (block_view s) [0..<lcount s]) (disk s) (log_block s i) = block_view s (logged s ! i)"
      unfolding to_log_def using log_block_inj_on [OF w] i
      by (intro wr_all_inj [where g = "log_block s" and h = "\<lambda>i. block_view s (logged s ! i)"]) auto
    ultimately show ?thesis by (simp add: installing_at [OF j])
  qed
qed

lemma logged_image: "log_wf s \<Longrightarrow> (\<lambda>i. logged s ! i) ` {0..<lcount s} = set (logged s)"
  using nth_image [of "lcount s" "logged s"] by (simp add: atLeast0LessThan lessThan_def)

lemma crash_between:
  assumes r: "commit_ready s" and j: "j \<le> lcount s"
  shows "disk_log_ok (lg_start (lg s)) (installing s j) \<and>
    (\<forall>b. b \<notin> log_area (lg_start (lg s)) \<longrightarrow>
       wr_all (redo_writes (lg_start (lg s)) (installing s j)) (installing s j) b = block_view s b)"
proof -
  let ?st = "lg_start (lg s)" and ?v = "block_view s" and ?L = "logged s"
  have w: "log_wf s" and d: "length (disk s ?st) = BSIZE" using r by (simp_all add: commit_ready_def)
  have h: "head_list (installing s j ?st) = ?L" "length (installing s j ?st) = BSIZE"
    using new_head_facts [OF w d] installing_log(1) [OF r j] by simp_all
  have rw: "redo_writes ?st (installing s j) = map (\<lambda>i. (?L ! i, ?v (?L ! i))) [0..<lcount s]"
    using h installing_log(2) [OF r j] w by (simp add: redo_writes_def log_block_def)
  have "wr_all (redo_writes ?st (installing s j)) (installing s j) b = ?v b" if b: "b \<notin> log_area ?st" for b
  proof (cases "b \<in> set ?L")
    case True
    then show ?thesis unfolding rw using wr_all_fun [of "\<lambda>i. ?L ! i" ?v "[0..<lcount s]"] logged_image [OF w] by simp
  next
    case False
    then have "b \<notin> (\<lambda>i. ?L ! i) ` {0..<j}" using logged_image [OF w] j by (auto simp: subset_iff)
    then have "installing s j b = ?v b" using installing_home [OF r j b] unlogged_view [OF r False] by simp
    then show ?thesis unfolding rw
      using False wr_all_fun [of "\<lambda>i. ?L ! i" ?v "[0..<lcount s]"] logged_image [OF w] by simp
  qed
  then show ?thesis using h w by (simp add: disk_log_ok_def log_wf_def)
qed

lemma crash_after:
  assumes r: "commit_ready s" and D: "D = wr_all (commit_writes s) (disk s)"
  shows "disk_log_ok (lg_start (lg s)) D \<and> redo_writes (lg_start (lg s)) D = [] \<and>
    (\<forall>b. b \<notin> log_area (lg_start (lg s)) \<longrightarrow> D b = block_view s b)"
proof (cases "lcount s = 0")
  case True
  then have "block_view s b = disk s b" for b using unlogged_view [OF r, of b] by (simp add: logged_def)
  then show ?thesis using crash_before [OF r, of 0 D] True D by (simp add: commit_writes_def)
next
  case False
  let ?st = "lg_start (lg s)" and ?h = "new_head s (disk s (lg_start (lg s)))"
  have DE: "D = (installing s (lcount s))(?st := setw ?h 0 0)"
    using D False by (simp add: commit_writes_def Let_def installing_def)
  have w: "log_wf s" and d: "length (disk s ?st) = BSIZE" using r by (simp_all add: commit_ready_def)
  have "D b = block_view s b" if b: "b \<notin> log_area ?st" for b
    using installing_home [OF r order.refl b] unlogged_view [OF r, of b] logged_image [OF w] b
    by (auto simp: DE log_area_def)
  moreover have "head_list (D ?st) = []" "length (D ?st) = BSIZE"
    using new_head_facts [OF w d] by (simp_all add: DE head_list_zero)
  ultimately show ?thesis by (simp add: disk_log_ok_def redo_writes_def)
qed

lemma take_commit_writes:
  assumes "lcount s < k" and "k < length (commit_writes s)"
  shows "\<exists>j\<le>lcount s. wr_all (take k (commit_writes s)) (disk s) = installing s j"
proof -
  have n: "lcount s \<noteq> 0" "k \<le> Suc (lcount s + lcount s)"
    using assms by (auto simp: commit_writes_def Let_def to_log_def split: if_splits)
  let ?j = "k - Suc (lcount s)"
  have "wr_all (take k (commit_writes s)) (disk s) = installing s ?j"
    using n assms(1) by (simp add: commit_writes_def Let_def installing_def to_log_def take_Cons' Suc_diff_Suc)
  then show ?thesis using n by (intro exI [of _ ?j]) auto
qed

lemma recover_crashed:
  assumes r: "commit_ready s" and b: "booted r" and st: "lg_start (lg r) = lg_start (lg s)"
    and D: "disk r = wr_all (take k (commit_writes s)) (disk s)"
  shows "\<exists>r'. recover_from_log r = (Ret (), r') \<and>
    (\<forall>b. b \<notin> log_area (lg_start (lg s)) \<longrightarrow> disk r' b = (if k \<le> lcount s then disk s b else block_view s b))"
proof (cases "k \<le> lcount s")
  case True
  then show ?thesis using crash_before [OF r True D] recover_view [OF b] st by auto
next
  case k: False
  show ?thesis
  proof (cases "k < length (commit_writes s)")
    case True
    then obtain j where "j \<le> lcount s" "disk r = installing s j"
      using take_commit_writes [of s k] k D by auto
    then show ?thesis using crash_between [OF r, of j] recover_view [OF b] st k by auto
  next
    case False
    then have "disk r = wr_all (commit_writes s) (disk s)" using D by simp
    then show ?thesis using crash_after [OF r] recover_view [OF b] st k by auto
  qed
qed

text \<open>
  C1. The log makes a transaction atomic. A commit returns, and what it does to the disk is a
  list of block writes; if the machine stops after any number of them and boots with the disk
  as it then is, recovery returns, and every block outside the log is as it was before the
  transaction if the header had not been written yet, and as the transaction left it, in the
  cache, if it had. Without a crash, all blocks are on the disk at the end, and the log is
  empty again.
\<close>

theorem log_crash_safe:
  assumes "commit_ready s"
  shows "\<exists>s'. commit s = (Ret (), s') \<and> dwrites s' = dwrites s @ commit_writes s \<and> logged s' = [] \<and>
    (\<forall>b. b \<notin> log_area (lg_start (lg s)) \<longrightarrow> disk s' b = block_view s b) \<and>
    (\<forall>k r. booted r \<and> lg_start (lg r) = lg_start (lg s) \<and> disk r = wr_all (take k (commit_writes s)) (disk s) \<longrightarrow>
      (\<exists>r'. recover_from_log r = (Ret (), r') \<and>
        (\<forall>b. b \<notin> log_area (lg_start (lg s)) \<longrightarrow> disk r' b = (if k \<le> lcount s then disk s b else block_view s b))))"
proof -
  obtain s' where s': "commit s = (Ret (), s')" "wrote (commit_writes s) s s'" "logged s' = []"
    using commit_ok [OF assms] by blast
  then have "disk s' = wr_all (commit_writes s) (disk s)" "dwrites s' = dwrites s @ commit_writes s"
    by (simp_all add: wrote_def)
  then show ?thesis using s' crash_after [OF assms] recover_crashed [OF assms] by blast
qed

theorem log_crash_safe_witness:
  "\<exists>(s :: logstate) s'. commit_ready s \<and> block_view s 50 = [7] \<and> disk s 50 = replicate BSIZE 0 \<and>
     commit s = (Ret (), s') \<and> disk s' 50 = [7] \<and>
     (\<exists>(r1 :: logstate) (r2 :: logstate). disk r1 = wr_all (take 1 (commit_writes s)) (disk s) \<and>
        disk r2 = wr_all (take 2 (commit_writes s)) (disk s) \<and>
        (\<exists>r1' r2'. recover_from_log r1 = (Ret (), r1') \<and> disk r1' 50 = replicate BSIZE 0 \<and>
           recover_from_log r2 = (Ret (), r2') \<and> disk r2' 50 = [7]))"
proof -
  have a: "50 \<notin> log_area 2" by code_simp
  have "getw (replicate BSIZE 0) 0 = 0" by code_simp
  then obtain s :: logstate where s: "commit_ready s" "logged s = [50]" "lg_start (lg s) = 2" "disk s = (\<lambda>_. replicate BSIZE 0)"
      "block_view s = (\<lambda>_. replicate BSIZE 0)(50 := [7])"
    using one_block_tx [of "\<lambda>_. replicate BSIZE 0" 50 "[7]"] a by auto
  have n: "lcount s = 1" using s(1,2) length_logged [of s] by (simp add: commit_ready_def)
  note th = log_crash_safe [OF s(1), unfolded s(3) n]
  let ?r = "\<lambda>k. logstate0 (wr_all (take k (commit_writes s)) (disk s))"
  have r: "booted (?r k)" "lg_start (lg (?r k)) = 2" "disk (?r k) = wr_all (take k (commit_writes s)) (disk s)" for k
    by (simp_all add: logstate0_booted)
  have v: "block_view s 50 = [7]" "disk s 50 = replicate BSIZE 0" by (simp_all only: s(4,5) fun_upd_same)
  have R: "\<exists>r'. recover_from_log (?r k) = (Ret (), r') \<and>
      (\<forall>b. b \<notin> log_area 2 \<longrightarrow> disk r' b = (if k \<le> 1 then disk s b else block_view s b))" for k
    using th r [of k] by blast
  obtain r1 where r1: "recover_from_log (?r 1) = (Ret (), r1)" "disk r1 50 = replicate BSIZE 0"
    using R [of 1] a v by auto
  obtain r2 where r2: "recover_from_log (?r 2) = (Ret (), r2)" "disk r2 50 = [7]"
    using R [of 2] a v by auto
  obtain s' where "commit s = (Ret (), s')" "disk s' 50 = [7]" using th a v by auto
  moreover have "\<exists>(q1 :: logstate) (q2 :: logstate). disk q1 = wr_all (take 1 (commit_writes s)) (disk s) \<and>
        disk q2 = wr_all (take 2 (commit_writes s)) (disk s) \<and>
        (\<exists>r1 r2. recover_from_log q1 = (Ret (), r1) \<and> disk r1 50 = replicate BSIZE 0 \<and>
           recover_from_log q2 = (Ret (), r2) \<and> disk r2 50 = [7])"
    using r(3) [of 1] r(3) [of 2] r1 r2 by blast
  ultimately show ?thesis using v s(1) by blast
qed

end
