(* ===== verification/Uart.thy ===== *)
theory Uart
  imports Tx
begin

text \<open>
  The UART driver, \<^verbatim>\<open>kernel/uart.c\<close>. The device is a parameter: \<open>uart_lsr\<close> holds the values
  that the next reads of the line status register return and \<open>uart_rhr\<close> the bytes that the next
  reads of the receive register return, \<open>uart_out\<close> records the writes to its registers.
\<close>

section \<open>Definitions\<close>

abbreviation UART_TX_BUF_SIZE :: nat where "UART_TX_BUF_SIZE \<equiv> 32"

record uart_state = logstate +
  uart_tx_buf :: "u8 list"
  uart_tx_w :: u64
  uart_tx_r :: u64
  uart_lsr :: "u8 list"
  uart_rhr :: "u8 list"
  uart_out :: "(nat \<times> u8) list"
  panicked :: bool
  pr_locking :: bool

definition WriteReg :: "nat \<Rightarrow> u8 \<Rightarrow> 'z uart_state_scheme \<Rightarrow> 'z uart_state_scheme" where
  "WriteReg reg v s = s\<lparr>uart_out := uart_out s @ [(reg, v)]\<rparr>"

definition ReadLSR :: "'z uart_state_scheme \<Rightarrow> u8 \<times> 'z uart_state_scheme" where
  "ReadLSR s = (case uart_lsr s of [] \<Rightarrow> (0, s) | v # vs \<Rightarrow> (v, s\<lparr>uart_lsr := vs\<rparr>))"

definition ReadRHR :: "'z uart_state_scheme \<Rightarrow> u8 \<times> 'z uart_state_scheme" where
  "ReadRHR s = (case uart_rhr s of [] \<Rightarrow> (0, s) | v # vs \<Rightarrow> (v, s\<lparr>uart_rhr := vs\<rparr>))"

definition uartinit :: "'z uart_state_scheme \<Rightarrow> unit res \<times> 'z uart_state_scheme" where
  "uartinit s =
     (let s = WriteReg 1 0x00 s; s = WriteReg 3 0x80 s; s = WriteReg 0 0x03 s; s = WriteReg 1 0x00 s;
          s = WriteReg 3 0x03 s; s = WriteReg 2 0x07 s; s = WriteReg 1 0x03 s
      in (Ret (), s))"

text \<open>The spin of \<^verbatim>\<open>uartputc_sync\<close> on the status register, \<open>None\<close> when it stays busy.\<close>

primrec wait_idle :: "u8 list \<Rightarrow> u8 list option" where
  "wait_idle [] = None"
| "wait_idle (v # vs) = (if v AND 0x20 = 0 then wait_idle vs else Some vs)"

definition uartputc_sync :: "u8 \<Rightarrow> 'z uart_state_scheme \<Rightarrow> unit res \<times> 'z uart_state_scheme" where
  "uartputc_sync c s =
     (if panicked s then (Hang, s)
      else case wait_idle (uart_lsr s) of
        None \<Rightarrow> (Hang, s)
      | Some vs \<Rightarrow> (Ret (), WriteReg 0 c (s\<lparr>uart_lsr := vs\<rparr>)))"

text \<open>The loop of \<^verbatim>\<open>uartstart\<close>; every round sends one byte, so the fuel that \<open>uartstart\<close> gives is
  enough.\<close>

primrec uartstart_loop :: "nat \<Rightarrow> 'z uart_state_scheme \<Rightarrow> unit res \<times> 'z uart_state_scheme" where
  "uartstart_loop 0 s = (Hang, s)"
| "uartstart_loop (Suc fuel) s =
     (if uart_tx_w s = uart_tx_r s then (Ret (), s)
      else case ReadLSR s of (v, s) \<Rightarrow>
        if v AND 0x20 = 0 then (Ret (), s)
        else let c = uart_tx_buf s ! (unat (uart_tx_r s) mod UART_TX_BUF_SIZE);
                 s = s\<lparr>uart_tx_r := uart_tx_r s + 1\<rparr>
             in bnd (wakeup ChUartR s) (\<lambda>_ s. uartstart_loop fuel (WriteReg 0 c s)))"

definition uartstart :: "'z uart_state_scheme \<Rightarrow> unit res \<times> 'z uart_state_scheme" where
  "uartstart s = uartstart_loop (Suc (unat (uart_tx_w s - uart_tx_r s))) s"

text \<open>\<^verbatim>\<open>uartputc\<close> from the test of its loop on, at the call and after every \<^verbatim>\<open>sleep\<close>.\<close>

definition uartputc_round :: "u8 \<Rightarrow> 'z uart_state_scheme \<Rightarrow> unit res \<times> 'z uart_state_scheme" where
  "uartputc_round c s =
     (if uart_tx_w s = uart_tx_r s + of_nat UART_TX_BUF_SIZE
      then bnd (sleep ChUartR UartLock s) (\<lambda>_ s. (Swtch, s))
      else
        let s = s\<lparr>uart_tx_buf := (uart_tx_buf s)[unat (uart_tx_w s) mod UART_TX_BUF_SIZE := c],
                  uart_tx_w := uart_tx_w s + 1\<rparr>
        in bnd (uartstart s) (\<lambda>_ s. release UartLock s))"

definition uartputc :: "u8 \<Rightarrow> 'z uart_state_scheme \<Rightarrow> unit res \<times> 'z uart_state_scheme" where
  "uartputc c s =
     bnd (acquire UartLock s) (\<lambda>_ s.
     if panicked s then (Hang, s) else uartputc_round c s)"

text \<open>\<open>None\<close> stands for the result -1.\<close>

definition uartgetc :: "'z uart_state_scheme \<Rightarrow> u8 option \<times> 'z uart_state_scheme" where
  "uartgetc s = (case ReadLSR s of (v, s) \<Rightarrow>
     if v AND 0x01 \<noteq> 0 then (case ReadRHR s of (c, s) \<Rightarrow> (Some c, s)) else (None, s))"

end
