(* ===== verification/Printf.thy ===== *)
theory Printf
  imports Uart
begin

text \<open>
  Formatted output, \<^verbatim>\<open>kernel/printf.c\<close>, and \<^verbatim>\<open>consputc\<close> of \<^verbatim>\<open>kernel/console.c\<close>, through which it
  goes. A call whose arguments do not fit its format, undefined in C, fails with
  \<open>Panic ''undefined''\<close>.
\<close>

section \<open>Definitions\<close>

definition cstr :: "string \<Rightarrow> u8 list" where
  "cstr t = map of_char t"

text \<open>The character codes of \<^verbatim>\<open>consputc\<close>: a byte, or \<^verbatim>\<open>BACKSPACE\<close>.\<close>

datatype conschar = Byte u8 | Backspace

definition consputc :: "conschar \<Rightarrow> 'z uart_state_scheme \<Rightarrow> unit res \<times> 'z uart_state_scheme" where
  "consputc c s = (case c of
     Backspace \<Rightarrow>
       bnd (uartputc_sync 8 s) (\<lambda>_ s.
       bnd (uartputc_sync 32 s) (\<lambda>_ s.
       uartputc_sync 8 s))
   | Byte c \<Rightarrow> uartputc_sync c s)"

primrec consputs :: "u8 list \<Rightarrow> 'z uart_state_scheme \<Rightarrow> unit res \<times> 'z uart_state_scheme" where
  "consputs [] s = (Ret (), s)"
| "consputs (c # cs) s = bnd (consputc (Byte c) s) (\<lambda>_ s. consputs cs s)"

definition digit :: "nat \<Rightarrow> u8" where
  "digit d = cstr ''0123456789abcdef'' ! d"

text \<open>The digits of a number, the least significant first, as the loop of \<^verbatim>\<open>printint\<close> stores them;
  the base is 10 or 16.\<close>

function int_digits :: "nat \<Rightarrow> nat \<Rightarrow> u8 list" where
  "int_digits b x = digit (x mod b) # (if 2 \<le> b \<and> x div b \<noteq> 0 then int_digits b (x div b) else [])"
  by auto
termination
  by (relation "measure snd") (auto intro!: div_less_dividend gr0I)

declare int_digits.simps [simp del]

definition printint_text :: "i32 \<Rightarrow> nat \<Rightarrow> bool \<Rightarrow> u8 list" where
  "printint_text xx base sign =
     (let neg = (sign \<and> sint xx < 0);
          x = (if neg then - xx else xx);
          buf = int_digits base (unat x);
          buf = (if neg then buf @ [45] else buf)
      in rev buf)"

definition printint :: "i32 \<Rightarrow> nat \<Rightarrow> bool \<Rightarrow> 'z uart_state_scheme \<Rightarrow> unit res \<times> 'z uart_state_scheme" where
  "printint xx base sign s = consputs (printint_text xx base sign) s"

definition printptr_text :: "u64 \<Rightarrow> u8 list" where
  "printptr_text x = [48, 120] @ map (\<lambda>i. digit (unat (drop_bit 60 (push_bit (4 * i) x)))) [0..<16]"

definition printptr :: "u64 \<Rightarrow> 'z uart_state_scheme \<Rightarrow> unit res \<times> 'z uart_state_scheme" where
  "printptr x s = consputs (printptr_text x) s"

text \<open>The arguments of \<^verbatim>\<open>printf\<close>; \<open>PStr None\<close> is a null pointer.\<close>

datatype parg = PInt i32 | PPtr u64 | PStr "u8 list option"

text \<open>The loop of \<^verbatim>\<open>printf\<close> over the format.\<close>

fun printf_loop :: "u8 list \<Rightarrow> parg list \<Rightarrow> 'z uart_state_scheme \<Rightarrow> unit res \<times> 'z uart_state_scheme" where
  "printf_loop [] args s = (Ret (), s)"
| "printf_loop [c] args s = (if c \<noteq> 37 then consputc (Byte c) s else (Ret (), s))"
| "printf_loop (c # d # cs) args s =
     (if c \<noteq> 37 then bnd (consputc (Byte c) s) (\<lambda>_ s. printf_loop (d # cs) args s)
      else if d = 100 then (case args of
          PInt x # args \<Rightarrow> bnd (printint x 10 True s) (\<lambda>_ s. printf_loop cs args s)
        | _ \<Rightarrow> (Panic ''undefined'', s))
      else if d = 120 then (case args of
          PInt x # args \<Rightarrow> bnd (printint x 16 True s) (\<lambda>_ s. printf_loop cs args s)
        | _ \<Rightarrow> (Panic ''undefined'', s))
      else if d = 112 then (case args of
          PPtr x # args \<Rightarrow> bnd (printptr x s) (\<lambda>_ s. printf_loop cs args s)
        | _ \<Rightarrow> (Panic ''undefined'', s))
      else if d = 115 then (case args of
          PStr t # args \<Rightarrow>
            bnd (consputs (case t of None \<Rightarrow> cstr ''(null)'' | Some t \<Rightarrow> t) s) (\<lambda>_ s. printf_loop cs args s)
        | _ \<Rightarrow> (Panic ''undefined'', s))
      else if d = 37 then bnd (consputc (Byte 37) s) (\<lambda>_ s. printf_loop cs args s)
      else bnd (consputc (Byte 37) s) (\<lambda>_ s. bnd (consputc (Byte d) s) (\<lambda>_ s. printf_loop cs args s)))"

definition printf :: "u8 list \<Rightarrow> parg list \<Rightarrow> 'z uart_state_scheme \<Rightarrow> unit res \<times> 'z uart_state_scheme" where
  "printf fmt args s =
     (let locking = pr_locking s in
      bnd (if locking then acquire PrLock s else (Ret (), s)) (\<lambda>_ s.
      bnd (printf_loop fmt args s) (\<lambda>_ s.
      if locking then release PrLock s else (Ret (), s))))"

text \<open>\<^verbatim>\<open>panic\<close> prints its message and stops the machine.\<close>

definition panic :: "string \<Rightarrow> 'z uart_state_scheme \<Rightarrow> 'a res \<times> 'z uart_state_scheme" where
  "panic m s =
     bnd (printf (cstr ''panic: '') [] (s\<lparr>pr_locking := False\<rparr>)) (\<lambda>_ s.
     bnd (printf (cstr m) [] s) (\<lambda>_ s.
     bnd (printf (cstr ''\<newline>'') [] s) (\<lambda>_ s.
     (Panic m, s\<lparr>panicked := True\<rparr>))))"

definition printfinit :: "'z uart_state_scheme \<Rightarrow> unit res \<times> 'z uart_state_scheme" where
  "printfinit s = (Ret (), s\<lparr>pr_locking := True\<rparr>)"

text \<open>A process listing, \<^verbatim>\<open>procdump\<close> of \<^verbatim>\<open>kernel/proc.c\<close>.\<close>

primrec state_text :: "procstate \<Rightarrow> string" where
  "state_text UNUSED = ''unused''"
| "state_text USED = ''used''"
| "state_text SLEEPING = ''sleep ''"
| "state_text RUNNABLE = ''runble''"
| "state_text RUNNING = ''run   ''"
| "state_text ZOMBIE = ''zombie''"

primrec procdump_loop :: "nat list \<Rightarrow> 'z uart_state_scheme \<Rightarrow> unit res \<times> 'z uart_state_scheme" where
  "procdump_loop [] s = (Ret (), s)"
| "procdump_loop (p # ps) s =
     (let q = procs s p in
      if p_state q = UNUSED then procdump_loop ps s
      else
        bnd (printf (cstr ''%d %s %s'') [PInt (p_pid q), PStr (Some (cstr (state_text (p_state q)))),
               PStr (Some (takeWhile (\<lambda>c. c \<noteq> 0) (p_name q)))] s) (\<lambda>_ s.
        bnd (printf (cstr ''\<newline>'') [] s) (\<lambda>_ s. procdump_loop ps s)))"

definition procdump :: "'z uart_state_scheme \<Rightarrow> unit res \<times> 'z uart_state_scheme" where
  "procdump s = bnd (printf (cstr ''\<newline>'') [] s) (\<lambda>_ s. procdump_loop [0..<NPROC] s)"

end
