(* ===== verification/Fs.thy ===== *)
theory Fs
  imports Printf
begin

text \<open>
  The file system, \<^verbatim>\<open>kernel/fs.c\<close>: the allocation of blocks, inodes and their contents,
  directories and path names. The loops over the disk run over the list of their indices,
  which does not depend on the state. A name is the bytes of its array; a C string that is
  only read is its bytes without the terminating zero.
\<close>

section \<open>Data\<close>

abbreviation NINODE :: nat where "NINODE \<equiv> 50"
abbreviation NDIRECT :: nat where "NDIRECT \<equiv> 12"
abbreviation NINDIRECT :: nat where "NINDIRECT \<equiv> 256"
abbreviation MAXFILE :: nat where "MAXFILE \<equiv> 268"
abbreviation IPB :: nat where "IPB \<equiv> 16"
abbreviation BPB :: nat where "BPB \<equiv> 8192"
abbreviation DIRSIZ :: nat where "DIRSIZ \<equiv> 14"
abbreviation FSMAGIC :: u32 where "FSMAGIC \<equiv> 0x10203040"
abbreviation T_DIR :: u16 where "T_DIR \<equiv> 1"
abbreviation T_FILE :: u16 where "T_FILE \<equiv> 2"
abbreviation T_DEVICE :: u16 where "T_DEVICE \<equiv> 3"

record superblock =
  sb_magic :: u32
  sb_size :: u32
  sb_nblocks :: u32
  sb_ninodes :: u32
  sb_nlog :: u32
  sb_logstart :: u32
  sb_inodestart :: u32
  sb_bmapstart :: u32

record dinode =
  d_type :: u16
  d_major :: u16
  d_minor :: u16
  d_nlink :: u16
  d_size :: u32
  d_addrs :: "u32 list"

record inode =
  i_dev :: u32
  i_inum :: u32
  i_ref :: i32
  i_valid :: bool
  i_type :: u16
  i_major :: u16
  i_minor :: u16
  i_nlink :: u16
  i_size :: u32
  i_addrs :: "u32 list"

record dirent =
  de_inum :: u16
  de_name :: "u8 list"

text \<open>\<open>junk\<close> is what a local variable holds before it is assigned.\<close>

record fsstate = uart_state +
  sb :: superblock
  itable :: "nat \<Rightarrow> inode"
  junk :: "nat \<Rightarrow> u8"

definition seti :: "nat \<Rightarrow> (inode \<Rightarrow> inode) \<Rightarrow> 'z fsstate_scheme \<Rightarrow> 'z fsstate_scheme" where
  "seti ip f s = s\<lparr>itable := (itable s)(ip := f (itable s ip))\<rparr>"

definition get16 :: "u8 list \<Rightarrow> nat \<Rightarrow> u16" where
  "get16 d off = le_word (bslice d off 2)"

text \<open>The structures as they lie in a block: 32-bit words for the super block, 64 bytes for an
  inode, 16 for a directory entry.\<close>

definition superblock_of :: "u8 list \<Rightarrow> superblock" where
  "superblock_of d = \<lparr>sb_magic = getw d 0, sb_size = getw d 1, sb_nblocks = getw d 2, sb_ninodes = getw d 3,
     sb_nlog = getw d 4, sb_logstart = getw d 5, sb_inodestart = getw d 6, sb_bmapstart = getw d 7\<rparr>"

definition dinode_of :: "u8 list \<Rightarrow> dinode" where
  "dinode_of d = \<lparr>d_type = get16 d 0, d_major = get16 d 2, d_minor = get16 d 4, d_nlink = get16 d 6,
     d_size = getw d 2, d_addrs = map (\<lambda>i. getw d (3 + i)) [0..<NDIRECT + 1]\<rparr>"

definition dinode_bytes :: "dinode \<Rightarrow> u8 list" where
  "dinode_bytes i = le_bytes 2 (d_type i) @ le_bytes 2 (d_major i) @ le_bytes 2 (d_minor i) @ le_bytes 2 (d_nlink i) @
     le_bytes 4 (d_size i) @ concat (map (le_bytes 4) (d_addrs i))"

definition dinode_get :: "u8 list \<Rightarrow> nat \<Rightarrow> dinode" where
  "dinode_get d k = dinode_of (bslice d (64 * k) 64)"

definition dinode_put :: "u8 list \<Rightarrow> nat \<Rightarrow> dinode \<Rightarrow> u8 list" where
  "dinode_put d k i = bsplice d (64 * k) (dinode_bytes i)"

definition dirent_of :: "u8 list \<Rightarrow> dirent" where
  "dirent_of d = \<lparr>de_inum = get16 d 0, de_name = bslice d 2 DIRSIZ\<rparr>"

definition dirent_bytes :: "dirent \<Rightarrow> u8 list" where
  "dirent_bytes de = le_bytes 2 (de_inum de) @ de_name de"

definition IBLOCK :: "u32 \<Rightarrow> superblock \<Rightarrow> u32" where
  "IBLOCK i b = i div 16 + sb_inodestart b"

definition BBLOCK :: "u32 \<Rightarrow> superblock \<Rightarrow> u32" where
  "BBLOCK i b = i div 8192 + sb_bmapstart b"

section \<open>Blocks\<close>

definition readsb :: "u32 \<Rightarrow> 'z fsstate_scheme \<Rightarrow> unit res \<times> 'z fsstate_scheme" where
  "readsb dev s =
     bnd (bread dev 1 s) (\<lambda>bp s.
     let s = s\<lparr>sb := superblock_of (b_data (bufs s bp))\<rparr> in brelse bp s)"

definition fsinit :: "u32 \<Rightarrow> 'z fsstate_scheme \<Rightarrow> unit res \<times> 'z fsstate_scheme" where
  "fsinit dev s =
     bnd (readsb dev s) (\<lambda>_ s.
     if sb_magic (sb s) \<noteq> FSMAGIC then (Panic ''invalid file system'', s)
     else initlog dev (sb_logstart (sb s)) (sb_nlog (sb s)) s)"

definition bzero :: "u32 \<Rightarrow> u32 \<Rightarrow> 'z fsstate_scheme \<Rightarrow> unit res \<times> 'z fsstate_scheme" where
  "bzero dev bno s =
     bnd (bread dev bno s) (\<lambda>bp s.
     let s = buf_put bp (replicate BSIZE 0) s in
     bnd (log_write bp s) (\<lambda>_ s. brelse bp s))"

text \<open>Bit \<open>bi\<close> of a block of the free map; the search and update of \<^verbatim>\<open>balloc\<close> and \<^verbatim>\<open>bfree\<close>.\<close>

definition bmap_mask :: "nat \<Rightarrow> u8" where
  "bmap_mask bi = push_bit (bi mod 8) 1"

definition bmap_free :: "u8 list \<Rightarrow> nat \<Rightarrow> bool" where
  "bmap_free d bi \<longleftrightarrow> (d ! (bi div 8)) AND bmap_mask bi = 0"

definition bmap_set :: "u8 list \<Rightarrow> nat \<Rightarrow> u8 list" where
  "bmap_set d bi = d[bi div 8 := (d ! (bi div 8)) OR bmap_mask bi]"

definition bmap_clear :: "u8 list \<Rightarrow> nat \<Rightarrow> u8 list" where
  "bmap_clear d bi = d[bi div 8 := (d ! (bi div 8)) AND NOT (bmap_mask bi)]"

definition balloc_scan :: "u8 list \<Rightarrow> nat \<Rightarrow> nat \<Rightarrow> nat option" where
  "balloc_scan d b sz = find (bmap_free d) [0..<min BPB (sz - b)]"

primrec balloc_loop :: "u32 \<Rightarrow> nat list \<Rightarrow> 'z fsstate_scheme \<Rightarrow> u32 res \<times> 'z fsstate_scheme" where
  "balloc_loop dev [] s = bnd (printf (cstr ''balloc: out of blocks\<newline>'') [] s) (\<lambda>_ s. (Ret 0, s))"
| "balloc_loop dev (b # bs) s =
     bnd (bread dev (BBLOCK (of_nat b) (sb s)) s) (\<lambda>bp s.
     case balloc_scan (b_data (bufs s bp)) b (unat (sb_size (sb s))) of
       Some bi \<Rightarrow>
         let s = buf_put bp (bmap_set (b_data (bufs s bp)) bi) s in
         bnd (log_write bp s) (\<lambda>_ s.
         bnd (brelse bp s) (\<lambda>_ s.
         bnd (bzero dev (of_nat (b + bi)) s) (\<lambda>_ s.
         (Ret (of_nat (b + bi)), s))))
     | None \<Rightarrow> bnd (brelse bp s) (\<lambda>_ s. balloc_loop dev bs s))"

definition balloc :: "u32 \<Rightarrow> 'z fsstate_scheme \<Rightarrow> u32 res \<times> 'z fsstate_scheme" where
  "balloc dev s = balloc_loop dev (map (\<lambda>k. k * BPB) [0..<(unat (sb_size (sb s)) + (BPB - 1)) div BPB]) s"

definition bfree :: "u32 \<Rightarrow> u32 \<Rightarrow> 'z fsstate_scheme \<Rightarrow> unit res \<times> 'z fsstate_scheme" where
  "bfree dev b s =
     bnd (bread dev (BBLOCK b (sb s)) s) (\<lambda>bp s.
     let bi = unat b mod BPB in
     if bmap_free (b_data (bufs s bp)) bi then (Panic ''freeing free block'', s)
     else
       let s = buf_put bp (bmap_clear (b_data (bufs s bp)) bi) s in
       bnd (log_write bp s) (\<lambda>_ s. brelse bp s))"

section \<open>Inodes\<close>

definition iinit :: "'z fsstate_scheme \<Rightarrow> unit res \<times> 'z fsstate_scheme" where
  "iinit s = (Ret (), foldl (\<lambda>s i. initsleeplock (InodeSL i) s) s [0..<NINODE])"

text \<open>The scan of \<^verbatim>\<open>iget\<close>: the entry for the inode, or the first empty one.\<close>

primrec iget_scan :: "u32 \<Rightarrow> u32 \<Rightarrow> nat option \<Rightarrow> nat list \<Rightarrow> (nat \<Rightarrow> inode) \<Rightarrow> nat option \<times> nat option" where
  "iget_scan dev inum emp [] it = (None, emp)"
| "iget_scan dev inum emp (ip # ips) it =
     (if sint (i_ref (it ip)) > 0 \<and> i_dev (it ip) = dev \<and> i_inum (it ip) = inum then (Some ip, emp)
      else iget_scan dev inum (if emp = None \<and> i_ref (it ip) = 0 then Some ip else emp) ips it)"

definition iget :: "u32 \<Rightarrow> u32 \<Rightarrow> 'z fsstate_scheme \<Rightarrow> nat res \<times> 'z fsstate_scheme" where
  "iget dev inum s =
     bnd (acquire ItableLock s) (\<lambda>_ s.
     case iget_scan dev inum None [0..<NINODE] (itable s) of
       (Some ip, _) \<Rightarrow>
         bnd (release ItableLock (seti ip (\<lambda>q. q\<lparr>i_ref := i_ref q + 1\<rparr>) s)) (\<lambda>_ s. (Ret ip, s))
     | (None, None) \<Rightarrow> (Panic ''iget: no inodes'', s)
     | (None, Some ip) \<Rightarrow>
         bnd (release ItableLock (seti ip (\<lambda>q. q\<lparr>i_dev := dev, i_inum := inum, i_ref := 1, i_valid := False\<rparr>) s)) (\<lambda>_ s.
         (Ret ip, s)))"

definition zero_dinode :: "u16 \<Rightarrow> dinode" where
  "zero_dinode t = \<lparr>d_type = t, d_major = 0, d_minor = 0, d_nlink = 0, d_size = 0, d_addrs = replicate (NDIRECT + 1) 0\<rparr>"

primrec ialloc_loop :: "u32 \<Rightarrow> u16 \<Rightarrow> nat list \<Rightarrow> 'z fsstate_scheme \<Rightarrow> nat option res \<times> 'z fsstate_scheme" where
  "ialloc_loop dev ty [] s = bnd (printf (cstr ''ialloc: no inodes\<newline>'') [] s) (\<lambda>_ s. (Ret None, s))"
| "ialloc_loop dev ty (inum # inums) s =
     bnd (bread dev (IBLOCK (of_nat inum) (sb s)) s) (\<lambda>bp s.
     if d_type (dinode_get (b_data (bufs s bp)) (inum mod IPB)) = 0 then
       let s = buf_put bp (dinode_put (b_data (bufs s bp)) (inum mod IPB) (zero_dinode ty)) s in
       bnd (log_write bp s) (\<lambda>_ s.
       bnd (brelse bp s) (\<lambda>_ s.
       bnd (iget dev (of_nat inum) s) (\<lambda>ip s. (Ret (Some ip), s))))
     else bnd (brelse bp s) (\<lambda>_ s. ialloc_loop dev ty inums s))"

definition ialloc :: "u32 \<Rightarrow> u16 \<Rightarrow> 'z fsstate_scheme \<Rightarrow> nat option res \<times> 'z fsstate_scheme" where
  "ialloc dev ty s = ialloc_loop dev ty [1..<unat (sb_ninodes (sb s))] s"

definition dinode_of_inode :: "inode \<Rightarrow> dinode" where
  "dinode_of_inode q = \<lparr>d_type = i_type q, d_major = i_major q, d_minor = i_minor q, d_nlink = i_nlink q,
     d_size = i_size q, d_addrs = i_addrs q\<rparr>"

definition iupdate :: "nat \<Rightarrow> 'z fsstate_scheme \<Rightarrow> unit res \<times> 'z fsstate_scheme" where
  "iupdate ip s =
     bnd (bread (i_dev (itable s ip)) (IBLOCK (i_inum (itable s ip)) (sb s)) s) (\<lambda>bp s.
     let q = itable s ip;
         s = buf_put bp (dinode_put (b_data (bufs s bp)) (unat (i_inum q) mod IPB) (dinode_of_inode q)) s in
     bnd (log_write bp s) (\<lambda>_ s. brelse bp s))"

definition idup :: "nat \<Rightarrow> 'z fsstate_scheme \<Rightarrow> nat res \<times> 'z fsstate_scheme" where
  "idup ip s =
     bnd (acquire ItableLock s) (\<lambda>_ s.
     bnd (release ItableLock (seti ip (\<lambda>q. q\<lparr>i_ref := i_ref q + 1\<rparr>) s)) (\<lambda>_ s. (Ret ip, s)))"

definition load_dinode :: "dinode \<Rightarrow> inode \<Rightarrow> inode" where
  "load_dinode d q = q\<lparr>i_type := d_type d, i_major := d_major d, i_minor := d_minor d, i_nlink := d_nlink d,
     i_size := d_size d, i_addrs := d_addrs d\<rparr>"

definition ilock :: "nat option \<Rightarrow> 'z fsstate_scheme \<Rightarrow> unit res \<times> 'z fsstate_scheme" where
  "ilock ipo s = (case ipo of None \<Rightarrow> (Panic ''ilock'', s) | Some ip \<Rightarrow>
     if sint (i_ref (itable s ip)) < 1 then (Panic ''ilock'', s)
     else
       bnd (acquiresleep (InodeSL ip) s) (\<lambda>_ s.
       if \<not> i_valid (itable s ip) then
         bnd (bread (i_dev (itable s ip)) (IBLOCK (i_inum (itable s ip)) (sb s)) s) (\<lambda>bp s.
         let d = dinode_get (b_data (bufs s bp)) (unat (i_inum (itable s ip)) mod IPB);
             s = seti ip (load_dinode d) s in
         bnd (brelse bp s) (\<lambda>_ s.
         let s = seti ip (\<lambda>q. q\<lparr>i_valid := True\<rparr>) s in
         if i_type (itable s ip) = 0 then (Panic ''ilock: no type'', s) else (Ret (), s)))
       else (Ret (), s)))"

definition iunlock :: "nat option \<Rightarrow> 'z fsstate_scheme \<Rightarrow> unit res \<times> 'z fsstate_scheme" where
  "iunlock ipo s = (case ipo of None \<Rightarrow> (Panic ''iunlock'', s) | Some ip \<Rightarrow>
     bnd (holdingsleep (InodeSL ip) s) (\<lambda>h s.
     if \<not> h \<or> sint (i_ref (itable s ip)) < 1 then (Panic ''iunlock'', s)
     else releasesleep (InodeSL ip) s))"

section \<open>Contents of an inode\<close>

definition bmap_direct :: "nat \<Rightarrow> nat \<Rightarrow> 'z fsstate_scheme \<Rightarrow> u32 res \<times> 'z fsstate_scheme" where
  "bmap_direct ip k s =
     (let addr = i_addrs (itable s ip) ! k in
      if addr = 0 then
        bnd (balloc (i_dev (itable s ip)) s) (\<lambda>addr s.
        if addr = 0 then (Ret 0, s)
        else (Ret addr, seti ip (\<lambda>q. q\<lparr>i_addrs := (i_addrs q)[k := addr]\<rparr>) s))
      else (Ret addr, s))"

definition bmap :: "nat \<Rightarrow> nat \<Rightarrow> 'z fsstate_scheme \<Rightarrow> u32 res \<times> 'z fsstate_scheme" where
  "bmap ip bn s =
     (if bn < NDIRECT then bmap_direct ip bn s
      else let bn = bn - NDIRECT in
      if bn < NINDIRECT then
        bnd (bmap_direct ip NDIRECT s) (\<lambda>addr s.
        if addr = 0 then (Ret 0, s)
        else
          bnd (bread (i_dev (itable s ip)) addr s) (\<lambda>bp s.
          let addr = getw (b_data (bufs s bp)) bn in
          bnd (if addr = 0 then
                 bnd (balloc (i_dev (itable s ip)) s) (\<lambda>addr s.
                 if addr \<noteq> 0 then
                   let s = buf_put bp (setw (b_data (bufs s bp)) bn addr) s in
                   bnd (log_write bp s) (\<lambda>_ s. (Ret addr, s))
                 else (Ret 0, s))
               else (Ret addr, s)) (\<lambda>addr s.
          bnd (brelse bp s) (\<lambda>_ s. (Ret addr, s)))))
      else (Panic ''bmap: out of range'', s))"

primrec itrunc_direct :: "nat \<Rightarrow> nat list \<Rightarrow> 'z fsstate_scheme \<Rightarrow> unit res \<times> 'z fsstate_scheme" where
  "itrunc_direct ip [] s = (Ret (), s)"
| "itrunc_direct ip (i # is) s =
     (if i_addrs (itable s ip) ! i \<noteq> 0 then
        bnd (bfree (i_dev (itable s ip)) (i_addrs (itable s ip) ! i) s) (\<lambda>_ s.
        itrunc_direct ip is (seti ip (\<lambda>q. q\<lparr>i_addrs := (i_addrs q)[i := 0]\<rparr>) s))
      else itrunc_direct ip is s)"

primrec itrunc_indirect :: "u32 \<Rightarrow> nat \<Rightarrow> nat list \<Rightarrow> 'z fsstate_scheme \<Rightarrow> unit res \<times> 'z fsstate_scheme" where
  "itrunc_indirect dev bp [] s = (Ret (), s)"
| "itrunc_indirect dev bp (j # js) s =
     (let a = getw (b_data (bufs s bp)) j in
      if a \<noteq> 0 then bnd (bfree dev a s) (\<lambda>_ s. itrunc_indirect dev bp js s)
      else itrunc_indirect dev bp js s)"

definition itrunc :: "nat \<Rightarrow> 'z fsstate_scheme \<Rightarrow> unit res \<times> 'z fsstate_scheme" where
  "itrunc ip s =
     bnd (itrunc_direct ip [0..<NDIRECT] s) (\<lambda>_ s.
     bnd (if i_addrs (itable s ip) ! NDIRECT \<noteq> 0 then
            bnd (bread (i_dev (itable s ip)) (i_addrs (itable s ip) ! NDIRECT) s) (\<lambda>bp s.
            bnd (itrunc_indirect (i_dev (itable s ip)) bp [0..<NINDIRECT] s) (\<lambda>_ s.
            bnd (brelse bp s) (\<lambda>_ s.
            bnd (bfree (i_dev (itable s ip)) (i_addrs (itable s ip) ! NDIRECT) s) (\<lambda>_ s.
            (Ret (), seti ip (\<lambda>q. q\<lparr>i_addrs := (i_addrs q)[NDIRECT := 0]\<rparr>) s)))))
          else (Ret (), s)) (\<lambda>_ s.
     iupdate ip (seti ip (\<lambda>q. q\<lparr>i_size := 0\<rparr>) s)))"

definition iput :: "nat \<Rightarrow> 'z fsstate_scheme \<Rightarrow> unit res \<times> 'z fsstate_scheme" where
  "iput ip s =
     bnd (acquire ItableLock s) (\<lambda>_ s.
     bnd (if i_ref (itable s ip) = 1 \<and> i_valid (itable s ip) \<and> i_nlink (itable s ip) = 0 then
            bnd (acquiresleep (InodeSL ip) s) (\<lambda>_ s.
            bnd (release ItableLock s) (\<lambda>_ s.
            bnd (itrunc ip s) (\<lambda>_ s.
            bnd (iupdate ip (seti ip (\<lambda>q. q\<lparr>i_type := 0\<rparr>) s)) (\<lambda>_ s.
            bnd (releasesleep (InodeSL ip) (seti ip (\<lambda>q. q\<lparr>i_valid := False\<rparr>) s)) (\<lambda>_ s.
            acquire ItableLock s)))))
          else (Ret (), s)) (\<lambda>_ s.
     release ItableLock (seti ip (\<lambda>q. q\<lparr>i_ref := i_ref q - 1\<rparr>) s)))"

definition iunlockput :: "nat \<Rightarrow> 'z fsstate_scheme \<Rightarrow> unit res \<times> 'z fsstate_scheme" where
  "iunlockput ip s = bnd (iunlock (Some ip) s) (\<lambda>_ s. iput ip s)"

text \<open>The part of a transfer of \<open>n\<close> bytes at offset \<open>off\<close> that lies in each block: the values of
  \<^verbatim>\<open>off\<close> and \<^verbatim>\<open>m\<close> in the rounds of the loops of \<^verbatim>\<open>readi\<close> and \<^verbatim>\<open>writei\<close>.\<close>

function rw_chunks :: "nat \<Rightarrow> nat \<Rightarrow> (nat \<times> nat) list" where
  "rw_chunks off n =
     (if n = 0 then []
      else let m = min n (BSIZE - off mod BSIZE) in (off, m) # rw_chunks (off + m) (n - m))"
  by auto
termination
  by (relation "measure snd") auto

declare rw_chunks.simps [simp del]

definition xdst_add :: "xdst \<Rightarrow> nat \<Rightarrow> xdst" where
  "xdst_add d m = (case d of UserDst a \<Rightarrow> UserDst (a + of_nat m) | KernDst a \<Rightarrow> KernDst (a + of_nat m) | LocalDst \<Rightarrow> LocalDst)"

definition xsrc_add :: "xsrc \<Rightarrow> nat \<Rightarrow> xsrc" where
  "xsrc_add d m = (case d of UserSrc a \<Rightarrow> UserSrc (a + of_nat m) | KernSrc a \<Rightarrow> KernSrc (a + of_nat m)
     | LocalSrc bs \<Rightarrow> LocalSrc (drop m bs))"

definition stati :: "nat \<Rightarrow> 'z fsstate_scheme \<Rightarrow> u8 list" where
  "stati ip s =
     (let q = itable s ip in
      le_bytes 4 (i_dev q) @ le_bytes 4 (i_inum q) @ le_bytes 2 (i_type q) @ le_bytes 2 (i_nlink q) @
      map (junk s) [12..<16] @ le_bytes 8 (ucast (i_size q) :: u64))"

text \<open>\<^verbatim>\<open>readi\<close> returns its C result and the bytes it has handed to \<^verbatim>\<open>either_copyout\<close>.\<close>

primrec readi_loop :: "nat \<Rightarrow> xdst \<Rightarrow> (nat \<times> nat) list \<Rightarrow> u32 \<Rightarrow> u8 list \<Rightarrow> 'z fsstate_scheme \<Rightarrow>
    (u32 \<times> u8 list) res \<times> 'z fsstate_scheme" where
  "readi_loop ip dst [] tot acc s = (Ret (tot, acc), s)"
| "readi_loop ip dst (c # cs) tot acc s =
     bnd (bmap ip (fst c div BSIZE) s) (\<lambda>addr s.
     if addr = 0 then (Ret (tot, acc), s)
     else
       bnd (bread (i_dev (itable s ip)) addr s) (\<lambda>bp s.
       let bs = bslice (b_data (bufs s bp)) (fst c mod BSIZE) (snd c) in
       bnd (either_copyout dst bs s) (\<lambda>r s.
       if r = - 1 then bnd (brelse bp s) (\<lambda>_ s. (Ret (- 1, acc), s))
       else bnd (brelse bp s) (\<lambda>_ s.
         readi_loop ip (xdst_add dst (snd c)) cs (tot + of_nat (snd c)) (acc @ bs) s))))"

definition readi :: "nat \<Rightarrow> xdst \<Rightarrow> u32 \<Rightarrow> u32 \<Rightarrow> 'z fsstate_scheme \<Rightarrow> (u32 \<times> u8 list) res \<times> 'z fsstate_scheme" where
  "readi ip dst off n s =
     (if off > i_size (itable s ip) \<or> off + n < off then (Ret (0, []), s)
      else let n = (if off + n > i_size (itable s ip) then i_size (itable s ip) - off else n)
      in readi_loop ip dst (rw_chunks (unat off) (unat n)) 0 [] s)"

text \<open>The loop of \<^verbatim>\<open>writei\<close> returns \<^verbatim>\<open>tot\<close>; \<^verbatim>\<open>either_copyin\<close> may have stored a part of the bytes
  in the buffer when it fails.\<close>

primrec writei_loop :: "nat \<Rightarrow> xsrc \<Rightarrow> (nat \<times> nat) list \<Rightarrow> u32 \<Rightarrow> 'z fsstate_scheme \<Rightarrow> u32 res \<times> 'z fsstate_scheme" where
  "writei_loop ip src [] tot s = (Ret tot, s)"
| "writei_loop ip src (c # cs) tot s =
     bnd (bmap ip (fst c div BSIZE) s) (\<lambda>addr s.
     if addr = 0 then (Ret tot, s)
     else
       bnd (bread (i_dev (itable s ip)) addr s) (\<lambda>bp s.
       bnd (either_copyin src (snd c) s) (\<lambda>r s.
       let s = buf_put bp (bsplice (b_data (bufs s bp)) (fst c mod BSIZE) (snd r)) s in
       if fst r = - 1 then bnd (brelse bp s) (\<lambda>_ s. (Ret tot, s))
       else
         bnd (log_write bp s) (\<lambda>_ s.
         bnd (brelse bp s) (\<lambda>_ s.
         writei_loop ip (xsrc_add src (snd c)) cs (tot + of_nat (snd c)) s)))))"

definition writei :: "nat \<Rightarrow> xsrc \<Rightarrow> u32 \<Rightarrow> u32 \<Rightarrow> 'z fsstate_scheme \<Rightarrow> u32 res \<times> 'z fsstate_scheme" where
  "writei ip src off n s =
     (if off > i_size (itable s ip) \<or> off + n < off then (Ret (- 1), s)
      else if unat (off + n) > MAXFILE * BSIZE then (Ret (- 1), s)
      else
        bnd (writei_loop ip src (rw_chunks (unat off) (unat n)) 0 s) (\<lambda>tot s.
        let s = (if off + tot > i_size (itable s ip) then seti ip (\<lambda>q. q\<lparr>i_size := off + tot\<rparr>) s else s) in
        bnd (iupdate ip s) (\<lambda>_ s. (Ret tot, s))))"

section \<open>Directories\<close>

text \<open>\<^verbatim>\<open>strncmp\<close> and \<^verbatim>\<open>strncpy\<close> on the bytes of two arrays; a byte past the end of a C string is its
  terminating zero.\<close>

primrec bytes_ncmp :: "u8 list \<Rightarrow> u8 list \<Rightarrow> nat \<Rightarrow> int" where
  "bytes_ncmp p q 0 = 0"
| "bytes_ncmp p q (Suc n) =
     (let a = (case p of [] \<Rightarrow> 0 | x # _ \<Rightarrow> x); b = (case q of [] \<Rightarrow> 0 | x # _ \<Rightarrow> x) in
      if a \<noteq> 0 \<and> a = b then bytes_ncmp (tl p) (tl q) n else uint a - uint b)"

definition bytes_ncpy :: "nat \<Rightarrow> u8 list \<Rightarrow> u8 list" where
  "bytes_ncpy n t = nul_pad (take n (t @ replicate n 0))"

definition namecmp :: "u8 list \<Rightarrow> u8 list \<Rightarrow> int" where
  "namecmp x y = bytes_ncmp x y DIRSIZ"

text \<open>The offsets of the entries of a directory of \<open>n\<close> bytes.\<close>

definition dir_offsets :: "u32 \<Rightarrow> u32 list" where
  "dir_offsets n = map (\<lambda>k. of_nat (16 * k)) [0..<(unat n + 15) div 16]"

primrec dirlookup_loop :: "nat \<Rightarrow> u8 list \<Rightarrow> u32 list \<Rightarrow> 'z fsstate_scheme \<Rightarrow> (nat \<times> u32) option res \<times> 'z fsstate_scheme" where
  "dirlookup_loop dp name [] s = (Ret None, s)"
| "dirlookup_loop dp name (off # offs) s =
     bnd (readi dp LocalDst off 16 s) (\<lambda>r s.
     if fst r \<noteq> 16 then (Panic ''dirlookup read'', s)
     else let de = dirent_of (snd r) in
       if de_inum de = 0 then dirlookup_loop dp name offs s
       else if namecmp name (de_name de) = 0 then
         bnd (iget (i_dev (itable s dp)) (ucast (de_inum de)) s) (\<lambda>ip s. (Ret (Some (ip, off)), s))
       else dirlookup_loop dp name offs s)"

definition dirlookup :: "nat \<Rightarrow> u8 list \<Rightarrow> 'z fsstate_scheme \<Rightarrow> (nat \<times> u32) option res \<times> 'z fsstate_scheme" where
  "dirlookup dp name s =
     (if i_type (itable s dp) \<noteq> T_DIR then (Panic ''dirlookup not DIR'', s)
      else dirlookup_loop dp name (dir_offsets (i_size (itable s dp))) s)"

text \<open>The search of \<^verbatim>\<open>dirlink\<close> for an empty entry: its offset, or the first one past the end of
  the directory.\<close>

primrec dirlink_loop :: "nat \<Rightarrow> u32 list \<Rightarrow> 'z fsstate_scheme \<Rightarrow> u32 res \<times> 'z fsstate_scheme" where
  "dirlink_loop dp [] s = (Ret (of_nat (16 * ((unat (i_size (itable s dp)) + 15) div 16))), s)"
| "dirlink_loop dp (off # offs) s =
     bnd (readi dp LocalDst off 16 s) (\<lambda>r s.
     if fst r \<noteq> 16 then (Panic ''dirlink read'', s)
     else if de_inum (dirent_of (snd r)) = 0 then (Ret off, s)
     else dirlink_loop dp offs s)"

definition dirlink :: "nat \<Rightarrow> u8 list \<Rightarrow> u32 \<Rightarrow> 'z fsstate_scheme \<Rightarrow> int res \<times> 'z fsstate_scheme" where
  "dirlink dp name inum s =
     bnd (dirlookup dp name s) (\<lambda>r s. case r of
       Some (ip, _) \<Rightarrow> bnd (iput ip s) (\<lambda>_ s. (Ret (- 1), s))
     | None \<Rightarrow>
         bnd (dirlink_loop dp (dir_offsets (i_size (itable s dp))) s) (\<lambda>off s.
         let de = \<lparr>de_inum = ucast inum, de_name = bytes_ncpy DIRSIZ name\<rparr> in
         bnd (writei dp (LocalSrc (dirent_bytes de)) off 16 s) (\<lambda>r s.
         if r \<noteq> 16 then (Ret (- 1), s) else (Ret 0, s))))"

section \<open>Path names\<close>

abbreviation slash :: u8 where "slash \<equiv> 47"

definition skipelem :: "u8 list \<Rightarrow> u8 list \<Rightarrow> (u8 list \<times> u8 list) option" where
  "skipelem pth name =
     (let pth = dropWhile (\<lambda>c. c = slash) pth in
      if pth = [] then None
      else let el = takeWhile (\<lambda>c. c \<noteq> slash) pth;
               rest = dropWhile (\<lambda>c. c \<noteq> slash) pth;
               name = (if length el \<ge> DIRSIZ then bsplice name 0 (take DIRSIZ el) else bsplice name 0 (el @ [0]))
           in Some (dropWhile (\<lambda>c. c = slash) rest, name))"

lemma skipelem_shorter: "skipelem pth name = Some (pth', name') \<Longrightarrow> length pth' < length pth"
proof -
  assume a: "skipelem pth name = Some (pth', name')"
  let ?p = "dropWhile (\<lambda>c. c = slash) pth"
  have p: "?p \<noteq> []" "pth' = dropWhile (\<lambda>c. c = slash) (dropWhile (\<lambda>c. c \<noteq> slash) ?p)"
    using a by (auto simp: skipelem_def Let_def split: if_splits)
  have "length (dropWhile (\<lambda>c. c \<noteq> slash) ?p) < length ?p"
    using p(1) hd_dropWhile [OF p(1)] length_dropWhile_le [of "\<lambda>c. c \<noteq> slash" "tl ?p"]
    by (cases ?p) auto
  then show ?thesis
    using p(2) length_dropWhile_le [of "\<lambda>c. c = slash" "dropWhile (\<lambda>c. c \<noteq> slash) ?p"]
      length_dropWhile_le [of "\<lambda>c. c = slash" pth] by simp
qed

text \<open>The loop of \<^verbatim>\<open>namex\<close>; \<open>None\<close> is the null pointer, and the last path element is returned in
  the array \<open>name\<close>.\<close>

function namex_loop :: "nat \<Rightarrow> u8 list \<Rightarrow> bool \<Rightarrow> u8 list \<Rightarrow> 'z fsstate_scheme \<Rightarrow>
    (nat option \<times> u8 list) res \<times> 'z fsstate_scheme" where
  "namex_loop ip pth parent name s =
     (case skipelem pth name of
        None \<Rightarrow> if parent then bnd (iput ip s) (\<lambda>_ s. (Ret (None, name), s)) else (Ret (Some ip, name), s)
      | Some (pth', name') \<Rightarrow>
          bnd (ilock (Some ip) s) (\<lambda>_ s.
          if i_type (itable s ip) \<noteq> T_DIR then bnd (iunlockput ip s) (\<lambda>_ s. (Ret (None, name'), s))
          else if parent \<and> pth' = [] then bnd (iunlock (Some ip) s) (\<lambda>_ s. (Ret (Some ip, name'), s))
          else
            bnd (dirlookup ip name' s) (\<lambda>r s. case r of
              None \<Rightarrow> bnd (iunlockput ip s) (\<lambda>_ s. (Ret (None, name'), s))
            | Some (nxt, _) \<Rightarrow> bnd (iunlockput ip s) (\<lambda>_ s. namex_loop nxt pth' parent name' s))))"
  by pat_completeness auto
termination
  by (relation "measure (\<lambda>(ip, pth, parent, name, s). length pth)") (auto intro: skipelem_shorter)

declare namex_loop.simps [simp del]

definition namex :: "u8 list \<Rightarrow> bool \<Rightarrow> u8 list \<Rightarrow> 'z fsstate_scheme \<Rightarrow> (nat option \<times> u8 list) res \<times> 'z fsstate_scheme" where
  "namex pth parent name s =
     bnd (if pth \<noteq> [] \<and> hd pth = slash then iget 1 1 s
          else myproc (\<lambda>p s. case p_cwd (procs s p) of
            None \<Rightarrow> (Panic ''kerneltrap'', s) | Some c \<Rightarrow> idup c s) s) (\<lambda>ip s.
     namex_loop ip pth parent name s)"

definition namei :: "u8 list \<Rightarrow> 'z fsstate_scheme \<Rightarrow> nat option res \<times> 'z fsstate_scheme" where
  "namei pth s = bnd (namex pth False (map (junk s) [0..<DIRSIZ]) s) (\<lambda>r s. (Ret (fst r), s))"

definition nameiparent :: "u8 list \<Rightarrow> u8 list \<Rightarrow> 'z fsstate_scheme \<Rightarrow> (nat option \<times> u8 list) res \<times> 'z fsstate_scheme" where
  "nameiparent pth name s = namex pth True name s"

end
