(* ===== verification/Console.thy ===== *)
theory Console
  imports Fs
begin

text \<open>
  The console, \<^verbatim>\<open>kernel/console.c\<close>: line editing of the input in the interrupt handler, and the
  device's read and write.
\<close>

section \<open>Definitions\<close>

abbreviation INPUT_BUF_SIZE :: nat where "INPUT_BUF_SIZE \<equiv> 128"

record consdata =
  c_buf :: "u8 list"
  c_r :: u32
  c_w :: u32
  c_e :: u32

text \<open>The entries of \<^verbatim>\<open>devsw\<close>: the console is the only device that registers itself.\<close>

datatype devfun = ConsoleDev

record cons_state = fsstate +
  cons :: consdata
  devsw :: "nat \<Rightarrow> devfun option"

definition set_cons :: "(consdata \<Rightarrow> consdata) \<Rightarrow> 'z cons_state_scheme \<Rightarrow> 'z cons_state_scheme" where
  "set_cons f s = s\<lparr>cons := f (cons s)\<rparr>"

text \<open>The rounds of \<^verbatim>\<open>consolewrite\<close>: \<open>k\<close> bytes are left, \<open>i\<close> are written.\<close>

primrec consolewrite_loop :: "xsrc \<Rightarrow> i32 \<Rightarrow> nat \<Rightarrow> 'z cons_state_scheme \<Rightarrow> i32 res \<times> 'z cons_state_scheme" where
  "consolewrite_loop src i 0 s = (Ret i, s)"
| "consolewrite_loop src i (Suc k) s =
     bnd (either_copyin (xsrc_add src (unat i)) 1 s) (\<lambda>r s.
     if fst r = - 1 then (Ret i, s)
     else bnd (uartputc (hd (snd r)) s) (\<lambda>_ s. consolewrite_loop src (i + 1) k s))"

definition consolewrite :: "xsrc \<Rightarrow> i32 \<Rightarrow> 'z cons_state_scheme \<Rightarrow> i32 res \<times> 'z cons_state_scheme" where
  "consolewrite src n s = consolewrite_loop src 0 (nat (sint n)) s"

text \<open>The loop of \<^verbatim>\<open>consoleread\<close> with the lock held and \<open>n\<close> bytes left to read; the result is the \<open>n\<close>
  at its end, or \<open>None\<close> when the process was killed and the lock is released. It is entered
  again after a \<^verbatim>\<open>sleep\<close>.\<close>

primrec consoleread_loop :: "u32 \<Rightarrow> xdst \<Rightarrow> nat \<Rightarrow> 'z cons_state_scheme \<Rightarrow> nat option res \<times> 'z cons_state_scheme" where
  "consoleread_loop target dst 0 s = (Ret (Some 0), s)"
| "consoleread_loop target dst (Suc n) s =
     (if c_r (cons s) = c_w (cons s) then
        myproc (\<lambda>p s.
          bnd (killed p s) (\<lambda>k s.
          if k \<noteq> 0 then bnd (release ConsLock s) (\<lambda>_ s. (Ret None, s))
          else bnd (sleep ChConsR ConsLock s) (\<lambda>_ s. (Swtch, s)))) s
      else
        let c = c_buf (cons s) ! (unat (c_r (cons s)) mod INPUT_BUF_SIZE);
            s = set_cons (\<lambda>q. q\<lparr>c_r := c_r q + 1\<rparr>) s in
        if c = 4 then
          (if of_nat (Suc n) < target
           then (Ret (Some (Suc n)), set_cons (\<lambda>q. q\<lparr>c_r := c_r q - 1\<rparr>) s)
           else (Ret (Some (Suc n)), s))
        else
          bnd (either_copyout dst [c] s) (\<lambda>r s.
          if r = - 1 then (Ret (Some (Suc n)), s)
          else if c = 10 then (Ret (Some n), s)
          else consoleread_loop target (xdst_add dst 1) n s))"

definition consoleread :: "xdst \<Rightarrow> i32 \<Rightarrow> 'z cons_state_scheme \<Rightarrow> i32 res \<times> 'z cons_state_scheme" where
  "consoleread dst n s =
     bnd (acquire ConsLock s) (\<lambda>_ s.
     if sint n \<le> 0 then bnd (release ConsLock s) (\<lambda>_ s. (Ret 0, s))
     else bnd (consoleread_loop n dst (nat (sint n)) s) (\<lambda>r s. case r of
         None \<Rightarrow> (Ret (- 1), s)
       | Some m \<Rightarrow> bnd (release ConsLock s) (\<lambda>_ s. (Ret (n - of_nat m), s))))"

text \<open>The loop of control-U: every round moves \<^verbatim>\<open>cons.e\<close> one back towards \<^verbatim>\<open>cons.w\<close>.\<close>

primrec kill_line :: "nat \<Rightarrow> 'z cons_state_scheme \<Rightarrow> unit res \<times> 'z cons_state_scheme" where
  "kill_line 0 s = (Hang, s)"
| "kill_line (Suc fuel) s =
     (if c_e (cons s) \<noteq> c_w (cons s) \<and> c_buf (cons s) ! (unat (c_e (cons s) - 1) mod INPUT_BUF_SIZE) \<noteq> 10
      then bnd (consputc Backspace (set_cons (\<lambda>q. q\<lparr>c_e := c_e q - 1\<rparr>) s)) (\<lambda>_ s. kill_line fuel s)
      else (Ret (), s))"

definition consoleintr_store :: "u8 \<Rightarrow> 'z cons_state_scheme \<Rightarrow> unit res \<times> 'z cons_state_scheme" where
  "consoleintr_store c s =
     (if c \<noteq> 0 \<and> c_e (cons s) - c_r (cons s) < of_nat INPUT_BUF_SIZE then
        let c = (if c = 13 then 10 else c) in
        bnd (consputc (Byte c) s) (\<lambda>_ s.
        let s = set_cons (\<lambda>q. q\<lparr>c_buf := (c_buf q)[unat (c_e q) mod INPUT_BUF_SIZE := c], c_e := c_e q + 1\<rparr>) s in
        if c = 10 \<or> c = 4 \<or> c_e (cons s) - c_r (cons s) = of_nat INPUT_BUF_SIZE
        then wakeup ChConsR (set_cons (\<lambda>q. q\<lparr>c_w := c_e q\<rparr>) s)
        else (Ret (), s))
      else (Ret (), s))"

definition consoleintr :: "u8 \<Rightarrow> 'z cons_state_scheme \<Rightarrow> unit res \<times> 'z cons_state_scheme" where
  "consoleintr c s =
     bnd (acquire ConsLock s) (\<lambda>_ s.
     bnd (if c = 16 then procdump s
          else if c = 21 then kill_line (Suc (unat (c_e (cons s) - c_w (cons s)))) s
          else if c = 8 \<or> c = 127 then
            (if c_e (cons s) \<noteq> c_w (cons s)
             then consputc Backspace (set_cons (\<lambda>q. q\<lparr>c_e := c_e q - 1\<rparr>) s)
             else (Ret (), s))
          else consoleintr_store c s) (\<lambda>_ s.
     release ConsLock s))"

text \<open>The input loop of \<^verbatim>\<open>uartintr\<close>: it ends when the device has no more input.\<close>

primrec uartintr_loop :: "nat \<Rightarrow> 'z cons_state_scheme \<Rightarrow> unit res \<times> 'z cons_state_scheme" where
  "uartintr_loop 0 s = (Hang, s)"
| "uartintr_loop (Suc fuel) s =
     (case uartgetc s of
        (None, s) \<Rightarrow> (Ret (), s)
      | (Some c, s) \<Rightarrow> bnd (consoleintr c s) (\<lambda>_ s. uartintr_loop fuel s))"

definition uartintr :: "'z cons_state_scheme \<Rightarrow> unit res \<times> 'z cons_state_scheme" where
  "uartintr s =
     bnd (uartintr_loop (Suc (length (uart_lsr s))) s) (\<lambda>_ s.
     bnd (acquire UartLock s) (\<lambda>_ s.
     bnd (uartstart s) (\<lambda>_ s.
     release UartLock s)))"

definition consoleinit :: "'z cons_state_scheme \<Rightarrow> unit res \<times> 'z cons_state_scheme" where
  "consoleinit s = bnd (uartinit s) (\<lambda>_ s. (Ret (), s\<lparr>devsw := (devsw s)(1 := Some ConsoleDev)\<rparr>))"

end
