(* ===== verification/Pipe.thy ===== *)
theory Pipe
  imports Console
begin

text \<open>
  Pipes, \<^verbatim>\<open>kernel/pipe.c\<close>. A pipe lives in a page of its own; its fields are kept in a table by the
  address of that page.
\<close>

section \<open>Definitions\<close>

abbreviation PIPESIZE :: nat where "PIPESIZE \<equiv> 512"

record pipe =
  pi_data :: "u8 list"
  pi_nread :: u32
  pi_nwrite :: u32
  pi_readopen :: bool
  pi_writeopen :: bool

record pipe_state = cons_state +
  pipes :: "u64 \<Rightarrow> pipe"

definition setpi :: "u64 \<Rightarrow> (pipe \<Rightarrow> pipe) \<Rightarrow> 'z pipe_state_scheme \<Rightarrow> 'z pipe_state_scheme" where
  "setpi a f s = s\<lparr>pipes := (pipes s)(a := f (pipes s a))\<rparr>"

definition pipeclose :: "u64 \<Rightarrow> bool \<Rightarrow> 'z pipe_state_scheme \<Rightarrow> unit res \<times> 'z pipe_state_scheme" where
  "pipeclose a writable s =
     bnd (acquire (PipeLock a) s) (\<lambda>_ s.
     bnd (if writable then wakeup (ChPipeR a) (setpi a (\<lambda>q. q\<lparr>pi_writeopen := False\<rparr>) s)
          else wakeup (ChPipeW a) (setpi a (\<lambda>q. q\<lparr>pi_readopen := False\<rparr>) s)) (\<lambda>_ s.
     if \<not> pi_readopen (pipes s a) \<and> \<not> pi_writeopen (pipes s a)
     then bnd (release (PipeLock a) s) (\<lambda>_ s. kfree a s)
     else release (PipeLock a) s))"

text \<open>The stores and loads of one byte.\<close>

definition pipe_put :: "u8 \<Rightarrow> pipe \<Rightarrow> pipe" where
  "pipe_put ch q = q\<lparr>pi_data := (pi_data q)[unat (pi_nwrite q) mod PIPESIZE := ch], pi_nwrite := pi_nwrite q + 1\<rparr>"

definition pipe_get :: "pipe \<Rightarrow> u8" where
  "pipe_get q = pi_data q ! (unat (pi_nread q) mod PIPESIZE)"

definition pipe_full :: "pipe \<Rightarrow> bool" where
  "pipe_full q \<longleftrightarrow> pi_nwrite q = pi_nread q + of_nat PIPESIZE"

definition pipe_empty :: "pipe \<Rightarrow> bool" where
  "pipe_empty q \<longleftrightarrow> pi_nread q = pi_nwrite q"

text \<open>The loop of \<^verbatim>\<open>pipewrite\<close>, with the lock held, \<open>i\<close> bytes written and \<open>k\<close> left; it is entered
  again after a \<^verbatim>\<open>sleep\<close>. \<open>None\<close> is the return from inside the loop.\<close>

primrec pipewrite_loop :: "nat \<Rightarrow> u64 \<Rightarrow> u64 \<Rightarrow> i32 \<Rightarrow> nat \<Rightarrow> 'z pipe_state_scheme \<Rightarrow> i32 option res \<times> 'z pipe_state_scheme" where
  "pipewrite_loop p a addr i 0 s = (Ret (Some i), s)"
| "pipewrite_loop p a addr i (Suc k) s =
     bnd (if \<not> pi_readopen (pipes s a) then (Ret 1, s) else killed p s) (\<lambda>dead s.
     if dead \<noteq> 0 then bnd (release (PipeLock a) s) (\<lambda>_ s. (Ret None, s))
     else if pipe_full (pipes s a) then
       bnd (wakeup (ChPipeR a) s) (\<lambda>_ s.
       bnd (sleep (ChPipeW a) (PipeLock a) s) (\<lambda>_ s. (Swtch, s)))
     else
       bnd (copyin (p_pagetable (procs s p)) (addr + ucast i) 1 s) (\<lambda>r s.
       if fst r = - 1 then (Ret (Some i), s)
       else pipewrite_loop p a addr (i + 1) k (setpi a (pipe_put (hd (snd r))) s)))"

definition pipewrite :: "u64 \<Rightarrow> u64 \<Rightarrow> i32 \<Rightarrow> 'z pipe_state_scheme \<Rightarrow> i32 res \<times> 'z pipe_state_scheme" where
  "pipewrite a addr n = myproc (\<lambda>p s.
     bnd (acquire (PipeLock a) s) (\<lambda>_ s.
     bnd (pipewrite_loop p a addr 0 (nat (sint n)) s) (\<lambda>r s. case r of
       None \<Rightarrow> (Ret (- 1), s)
     | Some i \<Rightarrow>
         bnd (wakeup (ChPipeR a) s) (\<lambda>_ s.
         bnd (release (PipeLock a) s) (\<lambda>_ s. (Ret i, s))))))"

primrec piperead_loop :: "nat \<Rightarrow> u64 \<Rightarrow> u64 \<Rightarrow> i32 \<Rightarrow> nat \<Rightarrow> 'z pipe_state_scheme \<Rightarrow> i32 res \<times> 'z pipe_state_scheme" where
  "piperead_loop p a addr i 0 s = (Ret i, s)"
| "piperead_loop p a addr i (Suc k) s =
     (if pipe_empty (pipes s a) then (Ret i, s)
      else
        let ch = pipe_get (pipes s a);
            s = setpi a (\<lambda>q. q\<lparr>pi_nread := pi_nread q + 1\<rparr>) s in
        bnd (copyout (p_pagetable (procs s p)) (addr + ucast i) [ch] s) (\<lambda>r s.
        if r = - 1 then (Ret i, s) else piperead_loop p a addr (i + 1) k s))"

text \<open>\<^verbatim>\<open>piperead\<close> from the test of its first loop on.\<close>

definition piperead_round :: "u64 \<Rightarrow> u64 \<Rightarrow> i32 \<Rightarrow> 'z pipe_state_scheme \<Rightarrow> i32 res \<times> 'z pipe_state_scheme" where
  "piperead_round a addr n = myproc (\<lambda>p s.
     if pipe_empty (pipes s a) \<and> pi_writeopen (pipes s a) then
       bnd (killed p s) (\<lambda>k s.
       if k \<noteq> 0 then bnd (release (PipeLock a) s) (\<lambda>_ s. (Ret (- 1), s))
       else bnd (sleep (ChPipeR a) (PipeLock a) s) (\<lambda>_ s. (Swtch, s)))
     else
       bnd (piperead_loop p a addr 0 (nat (sint n)) s) (\<lambda>i s.
       bnd (wakeup (ChPipeW a) s) (\<lambda>_ s.
       bnd (release (PipeLock a) s) (\<lambda>_ s. (Ret i, s)))))"

definition piperead :: "u64 \<Rightarrow> u64 \<Rightarrow> i32 \<Rightarrow> 'z pipe_state_scheme \<Rightarrow> i32 res \<times> 'z pipe_state_scheme" where
  "piperead a addr n s = bnd (acquire (PipeLock a) s) (\<lambda>_ s. piperead_round a addr n s)"

end
