(* ===== verification/File.thy ===== *)
theory File
  imports Pipe
begin

text \<open>
  Open files, \<^verbatim>\<open>kernel/file.c\<close>, and \<^verbatim>\<open>pipealloc\<close> of \<^verbatim>\<open>kernel/pipe.c\<close>, which allocates the two files of
  a pipe.
\<close>

section \<open>Definitions\<close>

abbreviation NFILE :: nat where "NFILE \<equiv> 100"
abbreviation NDEV :: nat where "NDEV \<equiv> 10"
abbreviation NOFILE :: nat where "NOFILE \<equiv> 16"

datatype ftype = FD_NONE | FD_PIPE | FD_INODE | FD_DEVICE

record kfile =
  f_type :: ftype
  f_ref :: i32
  f_readable :: bool
  f_writable :: bool
  f_pipe :: u64
  f_ip :: "nat option"
  f_off :: u32
  f_major :: u16

record file_state = pipe_state +
  ftable :: "nat \<Rightarrow> kfile"

definition setf :: "nat \<Rightarrow> (kfile \<Rightarrow> kfile) \<Rightarrow> 'z file_state_scheme \<Rightarrow> 'z file_state_scheme" where
  "setf f g s = s\<lparr>ftable := (ftable s)(f := g (ftable s f))\<rparr>"

definition fileinit :: "'z file_state_scheme \<Rightarrow> unit res \<times> 'z file_state_scheme" where
  "fileinit s = (Ret (), s)"

definition filealloc :: "'z file_state_scheme \<Rightarrow> nat option res \<times> 'z file_state_scheme" where
  "filealloc s =
     bnd (acquire FtableLock s) (\<lambda>_ s.
     case find (\<lambda>f. f_ref (ftable s f) = 0) [0..<NFILE] of
       Some f \<Rightarrow> bnd (release FtableLock (setf f (\<lambda>q. q\<lparr>f_ref := 1\<rparr>) s)) (\<lambda>_ s. (Ret (Some f), s))
     | None \<Rightarrow> bnd (release FtableLock s) (\<lambda>_ s. (Ret None, s)))"

definition filedup :: "nat \<Rightarrow> 'z file_state_scheme \<Rightarrow> nat res \<times> 'z file_state_scheme" where
  "filedup f s =
     bnd (acquire FtableLock s) (\<lambda>_ s.
     if sint (f_ref (ftable s f)) < 1 then (Panic ''filedup'', s)
     else bnd (release FtableLock (setf f (\<lambda>q. q\<lparr>f_ref := f_ref q + 1\<rparr>) s)) (\<lambda>_ s. (Ret f, s)))"

text \<open>A null inode pointer is dereferenced by \<^verbatim>\<open>iput\<close>, which is a kernel fault.\<close>

definition iput_ptr :: "nat option \<Rightarrow> 'z fsstate_scheme \<Rightarrow> unit res \<times> 'z fsstate_scheme" where
  "iput_ptr ipo s = (case ipo of None \<Rightarrow> (Panic ''kerneltrap'', s) | Some ip \<Rightarrow> iput ip s)"

definition fileclose :: "nat \<Rightarrow> 'z file_state_scheme \<Rightarrow> unit res \<times> 'z file_state_scheme" where
  "fileclose f s =
     bnd (acquire FtableLock s) (\<lambda>_ s.
     if sint (f_ref (ftable s f)) < 1 then (Panic ''fileclose'', s)
     else
       let s = setf f (\<lambda>q. q\<lparr>f_ref := f_ref q - 1\<rparr>) s in
       if sint (f_ref (ftable s f)) > 0 then release FtableLock s
       else
         let ff = ftable s f;
             s = setf f (\<lambda>q. q\<lparr>f_ref := 0, f_type := FD_NONE\<rparr>) s in
         bnd (release FtableLock s) (\<lambda>_ s.
         if f_type ff = FD_PIPE then pipeclose (f_pipe ff) (f_writable ff) s
         else if f_type ff = FD_INODE \<or> f_type ff = FD_DEVICE then
           bnd (begin_op s) (\<lambda>_ s.
           bnd (iput_ptr (f_ip ff) s) (\<lambda>_ s.
           end_op s))
         else (Ret (), s)))"

definition filestat :: "nat \<Rightarrow> u64 \<Rightarrow> 'z file_state_scheme \<Rightarrow> int res \<times> 'z file_state_scheme" where
  "filestat f addr = myproc (\<lambda>p s.
     if f_type (ftable s f) = FD_INODE \<or> f_type (ftable s f) = FD_DEVICE then
       bnd (ilock (f_ip (ftable s f)) s) (\<lambda>_ s.
       let st = stati (the (f_ip (ftable s f))) s in
       bnd (iunlock (f_ip (ftable s f)) s) (\<lambda>_ s.
       bnd (copyout (p_pagetable (procs s p)) addr st s) (\<lambda>r s.
       if r < 0 then (Ret (- 1), s) else (Ret 0, s))))
     else (Ret (- 1), s))"

definition dev_bad :: "u16 \<Rightarrow> 'z cons_state_scheme \<Rightarrow> bool" where
  "dev_bad m s \<longleftrightarrow> sint m < 0 \<or> sint m \<ge> int NDEV \<or> devsw s (nat (sint m)) = None"

definition fileread :: "nat \<Rightarrow> u64 \<Rightarrow> i32 \<Rightarrow> 'z file_state_scheme \<Rightarrow> i32 res \<times> 'z file_state_scheme" where
  "fileread f addr n s =
     (if \<not> f_readable (ftable s f) then (Ret (- 1), s)
      else case f_type (ftable s f) of
        FD_PIPE \<Rightarrow> piperead (f_pipe (ftable s f)) addr n s
      | FD_DEVICE \<Rightarrow>
          if dev_bad (f_major (ftable s f)) s then (Ret (- 1), s)
          else consoleread (UserDst addr) n s
      | FD_INODE \<Rightarrow>
          bnd (ilock (f_ip (ftable s f)) s) (\<lambda>_ s.
          bnd (readi (the (f_ip (ftable s f))) (UserDst addr) (f_off (ftable s f)) n s) (\<lambda>r s.
          let s = (if sint (fst r) > 0 then setf f (\<lambda>q. q\<lparr>f_off := f_off q + fst r\<rparr>) s else s) in
          bnd (iunlock (f_ip (ftable s f)) s) (\<lambda>_ s. (Ret (fst r), s))))
      | FD_NONE \<Rightarrow> (Panic ''fileread'', s))"

text \<open>The rounds of \<^verbatim>\<open>filewrite\<close> on a file, with \<open>i\<close> bytes written and \<open>k\<close> left; \<^verbatim>\<open>max\<close> is 3072. The result
  is the \<open>i\<close> at the end.\<close>

function filewrite_loop :: "nat \<Rightarrow> u64 \<Rightarrow> nat \<Rightarrow> nat \<Rightarrow> 'z file_state_scheme \<Rightarrow> nat res \<times> 'z file_state_scheme" where
  "filewrite_loop f addr i k s =
     (if k = 0 then (Ret i, s)
      else let n1 = min k 3072 in
        bnd (begin_op s) (\<lambda>_ s.
        bnd (ilock (f_ip (ftable s f)) s) (\<lambda>_ s.
        bnd (writei (the (f_ip (ftable s f))) (UserSrc (addr + of_nat i)) (f_off (ftable s f)) (of_nat n1) s) (\<lambda>r s.
        let s = (if sint r > 0 then setf f (\<lambda>q. q\<lparr>f_off := f_off q + r\<rparr>) s else s) in
        bnd (iunlock (f_ip (ftable s f)) s) (\<lambda>_ s.
        bnd (end_op s) (\<lambda>_ s.
        if sint r \<noteq> int n1 then (Ret i, s) else filewrite_loop f addr (i + n1) (k - n1) s))))))"
  by pat_completeness auto
termination
  by (relation "measure (\<lambda>(f, addr, i, k, s). k)") auto

declare filewrite_loop.simps [simp del]

definition filewrite :: "nat \<Rightarrow> u64 \<Rightarrow> i32 \<Rightarrow> 'z file_state_scheme \<Rightarrow> i32 res \<times> 'z file_state_scheme" where
  "filewrite f addr n s =
     (if \<not> f_writable (ftable s f) then (Ret (- 1), s)
      else case f_type (ftable s f) of
        FD_PIPE \<Rightarrow> pipewrite (f_pipe (ftable s f)) addr n s
      | FD_DEVICE \<Rightarrow>
          if dev_bad (f_major (ftable s f)) s then (Ret (- 1), s)
          else consolewrite (UserSrc addr) n s
      | FD_INODE \<Rightarrow>
          bnd (filewrite_loop f addr 0 (nat (sint n)) s) (\<lambda>i s.
          (Ret (if int i = sint n then n else - 1), s))
      | FD_NONE \<Rightarrow> (Panic ''filewrite'', s))"

definition pipe_file :: "bool \<Rightarrow> u64 \<Rightarrow> kfile \<Rightarrow> kfile" where
  "pipe_file w pi q = q\<lparr>f_type := FD_PIPE, f_readable := \<not> w, f_writable := w, f_pipe := pi\<rparr>"

definition close_opt :: "nat option \<Rightarrow> 'z file_state_scheme \<Rightarrow> unit res \<times> 'z file_state_scheme" where
  "close_opt fo s = (case fo of None \<Rightarrow> (Ret (), s) | Some f \<Rightarrow> fileclose f s)"

text \<open>The label \<^verbatim>\<open>bad\<close> of \<^verbatim>\<open>pipealloc\<close>; no page is left to free there.\<close>

definition pipealloc_bad :: "nat option \<Rightarrow> nat option \<Rightarrow> 'z file_state_scheme \<Rightarrow> (nat \<times> nat) option res \<times> 'z file_state_scheme" where
  "pipealloc_bad f0 f1 s =
     bnd (close_opt f0 s) (\<lambda>_ s. bnd (close_opt f1 s) (\<lambda>_ s. (Ret None, s)))"

definition pipealloc :: "'z file_state_scheme \<Rightarrow> (nat \<times> nat) option res \<times> 'z file_state_scheme" where
  "pipealloc s =
     bnd (filealloc s) (\<lambda>f0 s. case f0 of None \<Rightarrow> pipealloc_bad None None s | Some a \<Rightarrow>
     bnd (filealloc s) (\<lambda>f1 s. case f1 of None \<Rightarrow> pipealloc_bad f0 None s | Some b \<Rightarrow>
     bnd (kalloc s) (\<lambda>pi s.
     if pi = 0 then pipealloc_bad f0 f1 s
     else
       let s = setpi pi (\<lambda>q. q\<lparr>pi_data := loadb (mem s) (pi + 24) PIPESIZE, pi_readopen := True, pi_writeopen := True,
                              pi_nwrite := 0, pi_nread := 0\<rparr>) s;
           s = setf a (pipe_file False pi) s;
           s = setf b (pipe_file True pi) s
       in (Ret (Some (a, b)), s))))"

end
