(* ===== verification/Procfs.thy ===== *)
theory Procfs
  imports File
begin

text \<open>
  The operations of \<^verbatim>\<open>kernel/proc.c\<close> that need open files and inodes: \<^verbatim>\<open>userinit\<close>, \<^verbatim>\<open>fork\<close> and \<^verbatim>\<open>exit\<close>;
  and the accesses to a trapframe, which lies in the page \<^verbatim>\<open>p->trapframe\<close> of physical memory.
\<close>

section \<open>Definitions\<close>

text \<open>The fields of \<^verbatim>\<open>struct trapframe\<close>, by their byte offset.\<close>

abbreviation TF_kernel_satp :: u64 where "TF_kernel_satp \<equiv> 0"
abbreviation TF_kernel_sp :: u64 where "TF_kernel_sp \<equiv> 8"
abbreviation TF_kernel_trap :: u64 where "TF_kernel_trap \<equiv> 16"
abbreviation TF_epc :: u64 where "TF_epc \<equiv> 24"
abbreviation TF_kernel_hartid :: u64 where "TF_kernel_hartid \<equiv> 32"
abbreviation TF_sp :: u64 where "TF_sp \<equiv> 48"
abbreviation TF_a0 :: u64 where "TF_a0 \<equiv> 112"
abbreviation TF_a1 :: u64 where "TF_a1 \<equiv> 120"
abbreviation TF_a7 :: u64 where "TF_a7 \<equiv> 168"
abbreviation TF_bytes :: nat where "TF_bytes \<equiv> 288"

definition tf_get :: "nat \<Rightarrow> u64 \<Rightarrow> 'z ptable_scheme \<Rightarrow> u64" where
  "tf_get p off s = load64 (mem s) (p_trapframe (procs s p) + off)"

definition tf_set :: "nat \<Rightarrow> u64 \<Rightarrow> u64 \<Rightarrow> 'z ptable_scheme \<Rightarrow> 'z ptable_scheme" where
  "tf_set p off v s = s\<lparr>mem := store64 (mem s) (p_trapframe (procs s p) + off) v\<rparr>"

text \<open>\<^verbatim>\<open>safestrcpy\<close> into the array \<open>d\<close> of size \<open>n\<close>; \<open>t\<close> holds the source up to its terminating zero.
  The zero is stored twice when the source is short.\<close>

definition bytes_safestrcpy :: "u8 list \<Rightarrow> u8 list \<Rightarrow> nat \<Rightarrow> u8 list" where
  "bytes_safestrcpy d t n =
     (if n = 0 then d
      else let el = takeWhile (\<lambda>c. c \<noteq> 0) t in
        if length el < n - 1 then bsplice d 0 (el @ [0, 0]) else bsplice d 0 (take (n - 1) el @ [0]))"

definition initcode :: "u8 list" where
  "initcode =
    [0x17, 0x05, 0x00, 0x00, 0x13, 0x05, 0x45, 0x02,
     0x97, 0x05, 0x00, 0x00, 0x93, 0x85, 0x35, 0x02,
     0x93, 0x08, 0x70, 0x00, 0x73, 0x00, 0x00, 0x00,
     0x93, 0x08, 0x20, 0x00, 0x73, 0x00, 0x00, 0x00,
     0xef, 0xf0, 0x9f, 0xff, 0x2f, 0x69, 0x6e, 0x69,
     0x74, 0x00, 0x00, 0x24, 0x00, 0x00, 0x00, 0x00,
     0x00, 0x00, 0x00, 0x00]"

definition userinit :: "'z file_state_scheme \<Rightarrow> unit res \<times> 'z file_state_scheme" where
  "userinit s =
     bnd (allocproc s) (\<lambda>po s.
     let s = s\<lparr>initproc := po\<rparr> in
     case po of None \<Rightarrow> (Panic ''kerneltrap'', s) | Some p \<Rightarrow>
     bnd (uvmfirst (p_pagetable (procs s p)) initcode s) (\<lambda>_ s.
     let s = setp p (\<lambda>q. q\<lparr>p_sz := PGSIZE\<rparr>) s;
         s = tf_set p TF_epc 0 s;
         s = tf_set p TF_sp PGSIZE s;
         s = setp p (\<lambda>q. q\<lparr>p_name := bytes_safestrcpy (p_name q) (cstr ''initcode'') 16\<rparr>) s in
     bnd (namei (cstr ''/'') s) (\<lambda>ip s.
     let s = setp p (\<lambda>q. q\<lparr>p_cwd := ip, p_state := RUNNABLE\<rparr>) s in
     release (ProcLock p) s)))"

primrec fork_files :: "nat \<Rightarrow> nat \<Rightarrow> nat list \<Rightarrow> 'z file_state_scheme \<Rightarrow> unit res \<times> 'z file_state_scheme" where
  "fork_files p np [] s = (Ret (), s)"
| "fork_files p np (i # is) s = (case p_ofile (procs s p) ! i of
      None \<Rightarrow> fork_files p np is s
    | Some f \<Rightarrow> bnd (filedup f s) (\<lambda>f s.
        fork_files p np is (setp np (\<lambda>q. q\<lparr>p_ofile := (p_ofile q)[i := Some f]\<rparr>) s)))"

definition idup_ptr :: "nat option \<Rightarrow> 'z fsstate_scheme \<Rightarrow> nat res \<times> 'z fsstate_scheme" where
  "idup_ptr ipo s = (case ipo of None \<Rightarrow> (Panic ''kerneltrap'', s) | Some ip \<Rightarrow> idup ip s)"

text \<open>\<^verbatim>\<open>fork\<close> from the point where the memory of the parent has been copied.\<close>

definition fork_child :: "nat \<Rightarrow> nat \<Rightarrow> 'z file_state_scheme \<Rightarrow> i32 res \<times> 'z file_state_scheme" where
  "fork_child p np s =
     (let s = setp np (\<lambda>q. q\<lparr>p_sz := p_sz (procs s p)\<rparr>) s;
          s = s\<lparr>mem := storeb (mem s) (p_trapframe (procs s np)) (loadb (mem s) (p_trapframe (procs s p)) TF_bytes)\<rparr>;
          s = tf_set np TF_a0 0 s in
      bnd (fork_files p np [0..<NOFILE] s) (\<lambda>_ s.
      bnd (idup_ptr (p_cwd (procs s p)) s) (\<lambda>ip s.
      let s = setp np (\<lambda>q. q\<lparr>p_cwd := Some ip, p_name := bytes_safestrcpy (p_name q) (p_name (procs s p)) 16\<rparr>) s;
          pid = p_pid (procs s np) in
      bnd (release (ProcLock np) s) (\<lambda>_ s.
      bnd (acquire WaitLock s) (\<lambda>_ s.
      let s = setp np (\<lambda>q. q\<lparr>p_parent := Some p\<rparr>) s in
      bnd (release WaitLock s) (\<lambda>_ s.
      bnd (acquire (ProcLock np) s) (\<lambda>_ s.
      let s = setp np (\<lambda>q. q\<lparr>p_state := RUNNABLE\<rparr>) s in
      bnd (release (ProcLock np) s) (\<lambda>_ s.
      (Ret pid, s)))))))))"

definition fork :: "'z file_state_scheme \<Rightarrow> i32 res \<times> 'z file_state_scheme" where
  "fork = myproc (\<lambda>p s.
     bnd (allocproc s) (\<lambda>npo s. case npo of None \<Rightarrow> (Ret (- 1), s) | Some np \<Rightarrow>
     bnd (uvmcopy (p_pagetable (procs s p)) (p_pagetable (procs s np)) (p_sz (procs s p)) s) (\<lambda>r s.
     if r < 0 then
       bnd (freeproc np s) (\<lambda>_ s.
       bnd (release (ProcLock np) s) (\<lambda>_ s. (Ret (- 1), s)))
     else fork_child p np s)))"

primrec exit_files :: "nat \<Rightarrow> nat list \<Rightarrow> 'z file_state_scheme \<Rightarrow> unit res \<times> 'z file_state_scheme" where
  "exit_files p [] s = (Ret (), s)"
| "exit_files p (fd # fds) s = (case p_ofile (procs s p) ! fd of
      None \<Rightarrow> exit_files p fds s
    | Some f \<Rightarrow> bnd (fileclose f s) (\<lambda>_ s.
        exit_files p fds (setp p (\<lambda>q. q\<lparr>p_ofile := (p_ofile q)[fd := None]\<rparr>) s)))"

text \<open>\<^verbatim>\<open>exit\<close> once files and directory are given back: it hands its children to \<^verbatim>\<open>init\<close>, wakes its
  parent, and leaves the CPU for good.\<close>

definition exit_zombie :: "nat \<Rightarrow> i32 \<Rightarrow> 'z file_state_scheme \<Rightarrow> 'a res \<times> 'z file_state_scheme" where
  "exit_zombie p status s =
     bnd (acquire WaitLock s) (\<lambda>_ s.
     bnd (reparent p s) (\<lambda>_ s.
     bnd (wakeup (proc_chan (p_parent (procs s p))) s) (\<lambda>_ s.
     bnd (acquire (ProcLock p) s) (\<lambda>_ s.
     let s = setp p (\<lambda>q. q\<lparr>p_xstate := status, p_state := ZOMBIE\<rparr>) s in
     bnd (release WaitLock s) (\<lambda>_ s.
     bnd (sched s) (\<lambda>_ s. (Panic ''zombie exit'', s)))))))"

definition exit :: "i32 \<Rightarrow> 'z file_state_scheme \<Rightarrow> 'a res \<times> 'z file_state_scheme" where
  "exit status = myproc (\<lambda>p s.
     if initproc s = Some p then (Panic ''init exiting'', s)
     else
       bnd (exit_files p [0..<NOFILE] s) (\<lambda>_ s.
       bnd (begin_op s) (\<lambda>_ s.
       bnd (iput_ptr (p_cwd (procs s p)) s) (\<lambda>_ s.
       bnd (end_op s) (\<lambda>_ s.
       let s = setp p (\<lambda>q. q\<lparr>p_cwd := None\<rparr>) s in
       exit_zombie p status s)))))"

end
