(* ===== verification/Sysproc.thy ===== *)
theory Sysproc
  imports Procfs
begin

text \<open>
  System call arguments (the first half of \<^verbatim>\<open>kernel/syscall.c\<close>) and the process system calls of
  \<^verbatim>\<open>kernel/sysproc.c\<close>, among them the ones this kernel adds: \<^verbatim>\<open>getppid\<close>, \<^verbatim>\<open>ps\<close> and \<^verbatim>\<open>getschedhistory\<close>.
\<close>

section \<open>Arguments\<close>

text \<open>\<^verbatim>\<open>fetchaddr\<close> returns its C result and the word it has stored, \<open>0\<close> when it has stored none.\<close>

definition fetchaddr :: "u64 \<Rightarrow> 'z ptable_scheme \<Rightarrow> (int \<times> u64) res \<times> 'z ptable_scheme" where
  "fetchaddr addr = myproc (\<lambda>p s.
     if addr \<ge> p_sz (procs s p) \<or> addr + 8 > p_sz (procs s p) then (Ret (- 1, 0), s)
     else bnd (copyin (p_pagetable (procs s p)) addr 8 s) (\<lambda>r s.
       if fst r \<noteq> 0 then (Ret (- 1, 0), s) else (Ret (0, le_word (snd r)), s)))"

text \<open>\<^verbatim>\<open>fetchstr\<close> returns its C result, the length or \<open>-1\<close>, and the bytes it has stored in the buffer;
  \<^verbatim>\<open>argstr\<close> the characters before the zero.\<close>

definition fetchstr :: "u64 \<Rightarrow> nat \<Rightarrow> 'z ptable_scheme \<Rightarrow> (int \<times> u8 list) res \<times> 'z ptable_scheme" where
  "fetchstr addr mx = myproc (\<lambda>p s.
     bnd (copyinstr (p_pagetable (procs s p)) addr mx s) (\<lambda>r s.
     if fst r < 0 then (Ret (- 1, snd r), s)
     else (Ret (int (length (takeWhile (\<lambda>c. c \<noteq> 0) (snd r))), snd r), s)))"

definition argraw :: "nat \<Rightarrow> 'z ptable_scheme \<Rightarrow> u64 res \<times> 'z ptable_scheme" where
  "argraw n = myproc (\<lambda>p s.
     if n \<le> 5 then (Ret (tf_get p (TF_a0 + 8 * of_nat n) s), s) else (Panic ''argraw'', s))"

definition argint :: "nat \<Rightarrow> 'z ptable_scheme \<Rightarrow> i32 res \<times> 'z ptable_scheme" where
  "argint n s = bnd (argraw n s) (\<lambda>v s. (Ret (ucast v), s))"

definition argaddr :: "nat \<Rightarrow> 'z ptable_scheme \<Rightarrow> u64 res \<times> 'z ptable_scheme" where
  "argaddr n s = argraw n s"

definition argstr :: "nat \<Rightarrow> nat \<Rightarrow> 'z ptable_scheme \<Rightarrow> (int \<times> u8 list) res \<times> 'z ptable_scheme" where
  "argstr n mx s = bnd (argaddr n s) (\<lambda>addr s.
     bnd (fetchstr addr mx s) (\<lambda>r s. (Ret (fst r, takeWhile (\<lambda>c. c \<noteq> 0) (snd r)), s)))"

section \<open>System calls\<close>

record tick_state = file_state +
  ticks :: u32

text \<open>A handler returns the \<^verbatim>\<open>uint64\<close> that becomes \<^verbatim>\<open>a0\<close>; a C \<^verbatim>\<open>int\<close> is sign-extended.\<close>

definition sys_exit :: "'z tick_state_scheme \<Rightarrow> u64 res \<times> 'z tick_state_scheme" where
  "sys_exit s = bnd (argint 0 s) (\<lambda>n s. exit n s)"

definition sys_getpid :: "'z tick_state_scheme \<Rightarrow> u64 res \<times> 'z tick_state_scheme" where
  "sys_getpid = myproc (\<lambda>p s. (Ret (scast (p_pid (procs s p))), s))"

definition sys_fork :: "'z tick_state_scheme \<Rightarrow> u64 res \<times> 'z tick_state_scheme" where
  "sys_fork s = bnd (fork s) (\<lambda>pid s. (Ret (scast pid), s))"

definition sys_wait :: "'z tick_state_scheme \<Rightarrow> u64 res \<times> 'z tick_state_scheme" where
  "sys_wait s = bnd (argaddr 0 s) (\<lambda>a s. bnd (wait a s) (\<lambda>pid s. (Ret (scast pid), s)))"

definition sys_sbrk :: "'z tick_state_scheme \<Rightarrow> u64 res \<times> 'z tick_state_scheme" where
  "sys_sbrk s =
     bnd (argint 0 s) (\<lambda>n.
     myproc (\<lambda>p s.
     let addr = p_sz (procs s p) in
     bnd (growproc n s) (\<lambda>r s. if r < 0 then (Ret (- 1), s) else (Ret addr, s))))"

text \<open>One round of the loop of \<^verbatim>\<open>sys_sleep\<close>, entered with \<^verbatim>\<open>tickslock\<close> held: at first, and again after
  every \<^verbatim>\<open>sleep\<close>. The comparison is unsigned.\<close>

definition sys_sleep_round :: "u32 \<Rightarrow> i32 \<Rightarrow> 'z tick_state_scheme \<Rightarrow> u64 res \<times> 'z tick_state_scheme" where
  "sys_sleep_round ticks0 n s =
     (if ticks s - ticks0 < n then
        myproc (\<lambda>p s.
        bnd (killed p s) (\<lambda>k s.
        if k \<noteq> 0 then bnd (release TicksLock s) (\<lambda>_ s. (Ret (- 1), s))
        else bnd (sleep ChTicks TicksLock s) (\<lambda>_ s. (Swtch, s)))) s
      else bnd (release TicksLock s) (\<lambda>_ s. (Ret 0, s)))"

definition sys_sleep :: "'z tick_state_scheme \<Rightarrow> u64 res \<times> 'z tick_state_scheme" where
  "sys_sleep s =
     bnd (argint 0 s) (\<lambda>n s.
     bnd (acquire TicksLock s) (\<lambda>_ s.
     sys_sleep_round (ticks s) n s))"

definition sys_kill :: "'z tick_state_scheme \<Rightarrow> u64 res \<times> 'z tick_state_scheme" where
  "sys_kill s = bnd (argint 0 s) (\<lambda>pid s. bnd (kill pid s) (\<lambda>r s. (Ret (of_int r), s)))"

definition sys_uptime :: "'z tick_state_scheme \<Rightarrow> u64 res \<times> 'z tick_state_scheme" where
  "sys_uptime s =
     bnd (acquire TicksLock s) (\<lambda>_ s.
     let xticks = ticks s in
     bnd (release TicksLock s) (\<lambda>_ s. (Ret (ucast xticks), s)))"

definition sys_getppid :: "'z tick_state_scheme \<Rightarrow> u64 res \<times> 'z tick_state_scheme" where
  "sys_getppid s = (case curproc s of
      None \<Rightarrow> (Ret (- 1), s)
    | Some p \<Rightarrow> (case p_parent (procs s p) of
        None \<Rightarrow> (Ret (- 1), s)
      | Some pp \<Rightarrow> (Ret (scast (p_pid (procs s pp))), s)))"

text \<open>\<^verbatim>\<open>strncpy\<close> of \<open>n - 1\<close> bytes and the zero after them, on an array of \<open>n\<close> bytes.\<close>

definition ps_text :: "nat \<Rightarrow> u8 list \<Rightarrow> u8 list" where
  "ps_text n t = bytes_ncpy (n - 1) (takeWhile (\<lambda>c. c \<noteq> 0) t) @ [0]"

definition ps_state_name :: "procstate \<Rightarrow> string" where
  "ps_state_name st = (case st of UNUSED \<Rightarrow> ''unused'' | USED \<Rightarrow> ''used'' | SLEEPING \<Rightarrow> ''sleep ''
     | RUNNABLE \<Rightarrow> ''runble'' | RUNNING \<Rightarrow> ''run   '' | ZOMBIE \<Rightarrow> ''zombie'')"

text \<open>One \<^verbatim>\<open>struct ps_struct\<close> as it lies in memory: 36 bytes, of which the last two are padding that
  the code never assigns; entry \<open>k\<close> of the array lies at \<open>36 * k\<close>.\<close>

definition ps_entry :: "'z fsstate_scheme \<Rightarrow> nat \<Rightarrow> nat \<Rightarrow> u8 list" where
  "ps_entry s k i =
     (let q = procs s i in
      le_bytes 4 (p_pid q) @
      le_bytes 4 (case p_parent q of None \<Rightarrow> - 1 | Some pp \<Rightarrow> p_pid (procs s pp)) @
      ps_text 10 (cstr (ps_state_name (p_state q))) @
      ps_text 16 (p_name q) @
      map (junk s) [36 * k + 34..<36 * k + 36])"

definition ps_slots :: "'z ptable_scheme \<Rightarrow> nat list" where
  "ps_slots s = filter (\<lambda>i. p_state (procs s i) \<noteq> UNUSED) [0..<NPROC]"

definition ps_bytes :: "'z fsstate_scheme \<Rightarrow> u8 list" where
  "ps_bytes s = concat (map (\<lambda>(k, i). ps_entry s k i) (enumerate 0 (ps_slots s)))"

definition sys_ps :: "'z tick_state_scheme \<Rightarrow> u64 res \<times> 'z tick_state_scheme" where
  "sys_ps s =
     (let numProc = length (ps_slots s);
          ps = ps_bytes s in
      bnd (argaddr 0 s) (\<lambda>arg_addr.
      myproc (\<lambda>p s.
      bnd (copyout (p_pagetable (procs s p)) arg_addr ps s) (\<lambda>r s.
      if r < 0 then (Ret (- 1), s) else (Ret (of_nat numProc), s)))) )"

definition sched_history :: "proc \<Rightarrow> u8 list" where
  "sched_history q =
     le_bytes 4 (runCount q) @ le_bytes 4 (systemcallCount q) @ le_bytes 4 (interruptCount q) @
     le_bytes 4 (preemptCount q) @ le_bytes 4 (trapCount q) @ le_bytes 4 (sleepCount q)"

definition sys_getschedhistory :: "'z tick_state_scheme \<Rightarrow> u64 res \<times> 'z tick_state_scheme" where
  "sys_getschedhistory s = (case curproc s of
      None \<Rightarrow> (Ret (- 1), s)
    | Some p \<Rightarrow>
        let my_history = sched_history (procs s p) in
        bnd (argaddr 0 s) (\<lambda>arg_addr s.
        bnd (copyout (p_pagetable (procs s p)) arg_addr my_history s) (\<lambda>r s.
        if r < 0 then (Ret (- 1), s) else (Ret (scast (p_pid (procs s p))), s))))"

end
