(* ===== verification/Exec.thy ===== *)
theory Exec
  imports Sysproc
begin

text \<open>
  \<^verbatim>\<open>kernel/exec.c\<close>: loading an ELF program into a new page table and building its stack.
\<close>

section \<open>Definitions\<close>

abbreviation MAXARG :: nat where "MAXARG \<equiv> 32"
abbreviation ELF_MAGIC :: u32 where "ELF_MAGIC \<equiv> 0x464C457F"
abbreviation ELF_PROG_LOAD :: u32 where "ELF_PROG_LOAD \<equiv> 1"

text \<open>The fields that \<^verbatim>\<open>exec\<close> reads of \<^verbatim>\<open>struct elfhdr\<close> (64 bytes) and \<^verbatim>\<open>struct proghdr\<close> (56 bytes).\<close>

record elfhdr =
  e_magic :: u32
  e_entry :: u64
  e_phoff :: u64
  e_phnum :: u16

record proghdr =
  ph_type :: u32
  ph_flags :: u32
  ph_off :: u64
  ph_vaddr :: u64
  ph_filesz :: u64
  ph_memsz :: u64

definition get64 :: "u8 list \<Rightarrow> nat \<Rightarrow> u64" where
  "get64 d off = le_word (bslice d off 8)"

definition elfhdr_of :: "u8 list \<Rightarrow> elfhdr" where
  "elfhdr_of d = \<lparr>e_magic = getw d 0, e_entry = get64 d 24, e_phoff = get64 d 32, e_phnum = get16 d 56\<rparr>"

definition proghdr_of :: "u8 list \<Rightarrow> proghdr" where
  "proghdr_of d = \<lparr>ph_type = getw d 0, ph_flags = getw d 1, ph_off = get64 d 8, ph_vaddr = get64 d 16,
     ph_filesz = get64 d 32, ph_memsz = get64 d 40\<rparr>"

definition flags2perm :: "u32 \<Rightarrow> u64" where
  "flags2perm flags =
     (let perm = (if flags AND 1 \<noteq> 0 then PTE_X else 0) in
      if flags AND 2 \<noteq> 0 then perm OR PTE_W else perm)"

text \<open>\<open>i\<close> runs over the page offsets below \<open>sz\<close>; \<^verbatim>\<open>uvmalloc\<close> has mapped the pages before, so that \<open>sz\<close>
  is far from the end of the range of \<^verbatim>\<open>uint\<close>.\<close>

primrec loadseg_loop :: "u64 \<Rightarrow> u64 \<Rightarrow> nat \<Rightarrow> u32 \<Rightarrow> u32 \<Rightarrow> nat list \<Rightarrow> 'z fsstate_scheme \<Rightarrow> int res \<times> 'z fsstate_scheme" where
  "loadseg_loop pagetable va ip off sz [] s = (Ret 0, s)"
| "loadseg_loop pagetable va ip off sz (i # is) s =
     bnd (walkaddr pagetable (va + of_nat i) s) (\<lambda>pa s.
     if pa = 0 then (Panic ''loadseg: address should exist'', s)
     else
       let n = (if sz - of_nat i < 4096 then sz - of_nat i else 4096) in
       bnd (readi ip (KernDst pa) (off + of_nat i) n s) (\<lambda>r s.
       if fst r \<noteq> n then (Ret (- 1), s) else loadseg_loop pagetable va ip off sz is s))"

definition loadseg :: "u64 \<Rightarrow> u64 \<Rightarrow> nat \<Rightarrow> u32 \<Rightarrow> u32 \<Rightarrow> 'z fsstate_scheme \<Rightarrow> int res \<times> 'z fsstate_scheme" where
  "loadseg pagetable va ip off sz s =
     loadseg_loop pagetable va ip off sz (map (\<lambda>k. 4096 * k) [0..<(unat sz + 4095) div 4096]) s"

text \<open>The loop over the program headers, with \<open>k\<close> of them left: \<open>(True, sz)\<close> at its end, \<open>(False, sz)\<close>
  where the code goes to \<^verbatim>\<open>bad\<close>.\<close>

primrec exec_load :: "u64 \<Rightarrow> nat \<Rightarrow> nat \<Rightarrow> u32 \<Rightarrow> u64 \<Rightarrow> 'z fsstate_scheme \<Rightarrow> (bool \<times> u64) res \<times> 'z fsstate_scheme" where
  "exec_load pagetable ip 0 off sz s = (Ret (True, sz), s)"
| "exec_load pagetable ip (Suc k) off sz s =
     bnd (readi ip LocalDst off 56 s) (\<lambda>r s.
     let ph = proghdr_of (snd r) in
     if fst r \<noteq> 56 then (Ret (False, sz), s)
     else if ph_type ph \<noteq> ELF_PROG_LOAD then exec_load pagetable ip k (off + 56) sz s
     else if ph_memsz ph < ph_filesz ph then (Ret (False, sz), s)
     else if ph_vaddr ph + ph_memsz ph < ph_vaddr ph then (Ret (False, sz), s)
     else if ph_vaddr ph mod PGSIZE \<noteq> 0 then (Ret (False, sz), s)
     else
       bnd (uvmalloc pagetable sz (ph_vaddr ph + ph_memsz ph) (flags2perm (ph_flags ph)) s) (\<lambda>sz1 s.
       if sz1 = 0 then (Ret (False, sz), s)
       else
         bnd (loadseg pagetable (ph_vaddr ph) ip (ucast (ph_off ph)) (ucast (ph_filesz ph)) s) (\<lambda>r s.
         if r < 0 then (Ret (False, sz1), s) else exec_load pagetable ip k (off + 56) sz1 s)))"

text \<open>The loop that pushes the argument strings: the stack pointer and the pointers pushed, \<open>None\<close>
  where the code goes to \<^verbatim>\<open>bad\<close>. Reading \<^verbatim>\<open>argv\<close> past its end is undefined.\<close>

primrec exec_args :: "u64 \<Rightarrow> u64 \<Rightarrow> u64 list \<Rightarrow> u64 \<Rightarrow> u64 list \<Rightarrow> 'z kmem_scheme \<Rightarrow>
    (u64 \<times> u64 list) option res \<times> 'z kmem_scheme" where
  "exec_args pagetable stackbase [] sp ustack s = (Panic ''undefined'', s)"
| "exec_args pagetable stackbase (a # argv) sp ustack s =
     (if a = 0 then (Ret (Some (sp, ustack)), s)
      else if length ustack \<ge> MAXARG then (Ret None, s)
      else case strlen (mem s) a of None \<Rightarrow> (Hang, s) | Some n \<Rightarrow>
        let sp = sp - (of_nat n + 1);
            sp = sp - sp mod 16 in
        if sp < stackbase then (Ret None, s)
        else
          bnd (copyout pagetable sp (loadb (mem s) a (n + 1)) s) (\<lambda>r s.
          if r < 0 then (Ret None, s) else exec_args pagetable stackbase argv sp (ustack @ [sp]) s))"

text \<open>The label \<^verbatim>\<open>bad\<close>.\<close>

definition exec_bad :: "u64 \<Rightarrow> u64 \<Rightarrow> nat option \<Rightarrow> 'z fsstate_scheme \<Rightarrow> int res \<times> 'z fsstate_scheme" where
  "exec_bad pagetable sz ipo s =
     bnd (if pagetable \<noteq> 0 then proc_freepagetable pagetable sz s else (Ret (), s)) (\<lambda>_ s.
     bnd (case ipo of None \<Rightarrow> (Ret (), s) | Some ip \<Rightarrow> bnd (iunlockput ip s) (\<lambda>_ s. end_op s)) (\<lambda>_ s.
     (Ret (- 1), s)))"

definition path_base :: "u8 list \<Rightarrow> u8 list" where
  "path_base pth = rev (takeWhile (\<lambda>c. c \<noteq> slash) (rev pth))"

text \<open>Committing to the new image, the last step of \<^verbatim>\<open>exec\<close>.\<close>

definition exec_commit :: "nat \<Rightarrow> u8 list \<Rightarrow> u64 \<Rightarrow> u64 \<Rightarrow> u64 \<Rightarrow> u64 \<Rightarrow> nat \<Rightarrow> 'z fsstate_scheme \<Rightarrow> int res \<times> 'z fsstate_scheme" where
  "exec_commit p pth pagetable sz sp entry argc s =
     (let oldsz = p_sz (procs s p);
          s = tf_set p TF_a1 sp s;
          s = setp p (\<lambda>q. q\<lparr>p_name := bytes_safestrcpy (p_name q) (path_base pth) 16\<rparr>) s;
          oldpagetable = p_pagetable (procs s p);
          s = setp p (\<lambda>q. q\<lparr>p_pagetable := pagetable, p_sz := sz\<rparr>) s;
          s = tf_set p TF_epc entry s;
          s = tf_set p TF_sp sp s in
      bnd (proc_freepagetable oldpagetable oldsz s) (\<lambda>_ s. (Ret (int argc), s)))"

text \<open>\<^verbatim>\<open>exec\<close> from the point where the file is closed: stack, arguments, commit.\<close>

definition exec_stack :: "nat \<Rightarrow> u8 list \<Rightarrow> u64 list \<Rightarrow> u64 \<Rightarrow> u64 \<Rightarrow> u64 \<Rightarrow> 'z fsstate_scheme \<Rightarrow> int res \<times> 'z fsstate_scheme" where
  "exec_stack p pth argv pagetable sz entry s =
     (let sz = PGROUNDUP sz in
      bnd (uvmalloc pagetable sz (sz + 2 * PGSIZE) PTE_W s) (\<lambda>sz1 s.
      if sz1 = 0 then exec_bad pagetable sz None s
      else
        let sz = sz1 in
        bnd (uvmclear pagetable (sz - 2 * PGSIZE) s) (\<lambda>_ s.
        let stackbase = sz - PGSIZE in
        bnd (exec_args pagetable stackbase argv sz [] s) (\<lambda>r s. case r of
          None \<Rightarrow> exec_bad pagetable sz None s
        | Some (sp, ustack) \<Rightarrow>
            let argc = length ustack;
                sp = sp - of_nat (argc + 1) * 8;
                sp = sp - sp mod 16 in
            if sp < stackbase then exec_bad pagetable sz None s
            else
              bnd (copyout pagetable sp (concat (map (le_bytes 8) (ustack @ [0]))) s) (\<lambda>r s.
              if r < 0 then exec_bad pagetable sz None s
              else exec_commit p pth pagetable sz sp entry argc s)))))"

definition exec :: "u8 list \<Rightarrow> u64 list \<Rightarrow> 'z fsstate_scheme \<Rightarrow> int res \<times> 'z fsstate_scheme" where
  "exec pth argv = myproc (\<lambda>p s.
     bnd (begin_op s) (\<lambda>_ s.
     bnd (namei pth s) (\<lambda>ipo s. case ipo of
       None \<Rightarrow> bnd (end_op s) (\<lambda>_ s. (Ret (- 1), s))
     | Some ip \<Rightarrow>
         bnd (ilock ipo s) (\<lambda>_ s.
         bnd (readi ip LocalDst 0 64 s) (\<lambda>r s.
         let elf = elfhdr_of (snd r) in
         if fst r \<noteq> 64 then exec_bad 0 0 ipo s
         else if e_magic elf \<noteq> ELF_MAGIC then exec_bad 0 0 ipo s
         else
           bnd (proc_pagetable p s) (\<lambda>pagetable s.
           if pagetable = 0 then exec_bad 0 0 ipo s
           else
             bnd (exec_load pagetable ip (unat (e_phnum elf)) (ucast (e_phoff elf)) 0 s) (\<lambda>r s.
             if \<not> fst r then exec_bad pagetable (snd r) ipo s
             else
               bnd (iunlockput ip s) (\<lambda>_ s.
               bnd (end_op s) (\<lambda>_ s.
               exec_stack p pth argv pagetable (snd r) (e_entry elf) s)))))))))"

end
