(* ===== verification/Sysfile.thy ===== *)
theory Sysfile
  imports Exec
begin

text \<open>
  The file system calls, \<^verbatim>\<open>kernel/sysfile.c\<close>.
\<close>

section \<open>Descriptors\<close>

abbreviation MAXPATH :: nat where "MAXPATH \<equiv> 128"
abbreviation O_RDONLY :: i32 where "O_RDONLY \<equiv> 0"
abbreviation O_WRONLY :: i32 where "O_WRONLY \<equiv> 1"
abbreviation O_RDWR :: i32 where "O_RDWR \<equiv> 2"
abbreviation O_CREATE :: i32 where "O_CREATE \<equiv> 0x200"
abbreviation O_TRUNC :: i32 where "O_TRUNC \<equiv> 0x400"

text \<open>\<^verbatim>\<open>argfd\<close>: the descriptor and the file, \<open>None\<close> for its result \<open>-1\<close>.\<close>

definition argfd :: "nat \<Rightarrow> 'z ptable_scheme \<Rightarrow> (nat \<times> nat) option res \<times> 'z ptable_scheme" where
  "argfd n s =
     bnd (argint n s) (\<lambda>fd.
     myproc (\<lambda>p s.
     if sint fd < 0 \<or> sint fd \<ge> int NOFILE then (Ret None, s)
     else case p_ofile (procs s p) ! nat (sint fd) of
       None \<Rightarrow> (Ret None, s)
     | Some f \<Rightarrow> (Ret (Some (nat (sint fd), f)), s)))"

definition fdalloc :: "nat \<Rightarrow> 'z ptable_scheme \<Rightarrow> int res \<times> 'z ptable_scheme" where
  "fdalloc f = myproc (\<lambda>p s.
     case find (\<lambda>fd. p_ofile (procs s p) ! fd = None) [0..<NOFILE] of
       None \<Rightarrow> (Ret (- 1), s)
     | Some fd \<Rightarrow> (Ret (int fd), setp p (\<lambda>q. q\<lparr>p_ofile := (p_ofile q)[fd := Some f]\<rparr>) s))"

definition sys_dup :: "'z tick_state_scheme \<Rightarrow> u64 res \<times> 'z tick_state_scheme" where
  "sys_dup s =
     bnd (argfd 0 s) (\<lambda>r s. case r of None \<Rightarrow> (Ret (- 1), s) | Some (_, f) \<Rightarrow>
     bnd (fdalloc f s) (\<lambda>fd s.
     if fd < 0 then (Ret (- 1), s)
     else bnd (filedup f s) (\<lambda>_ s. (Ret (of_int fd), s))))"

definition sys_read :: "'z tick_state_scheme \<Rightarrow> u64 res \<times> 'z tick_state_scheme" where
  "sys_read s =
     bnd (argaddr 1 s) (\<lambda>p s.
     bnd (argint 2 s) (\<lambda>n s.
     bnd (argfd 0 s) (\<lambda>r s. case r of None \<Rightarrow> (Ret (- 1), s) | Some (_, f) \<Rightarrow>
     bnd (fileread f p n s) (\<lambda>r s. (Ret (scast r), s)))))"

definition sys_write :: "'z tick_state_scheme \<Rightarrow> u64 res \<times> 'z tick_state_scheme" where
  "sys_write s =
     bnd (argaddr 1 s) (\<lambda>p s.
     bnd (argint 2 s) (\<lambda>n s.
     bnd (argfd 0 s) (\<lambda>r s. case r of None \<Rightarrow> (Ret (- 1), s) | Some (_, f) \<Rightarrow>
     bnd (filewrite f p n s) (\<lambda>r s. (Ret (scast r), s)))))"

definition sys_close :: "'z tick_state_scheme \<Rightarrow> u64 res \<times> 'z tick_state_scheme" where
  "sys_close s =
     bnd (argfd 0 s) (\<lambda>r s. case r of None \<Rightarrow> (Ret (- 1), s) | Some (fd, f) \<Rightarrow>
     myproc (\<lambda>p s.
     let s = setp p (\<lambda>q. q\<lparr>p_ofile := (p_ofile q)[fd := None]\<rparr>) s in
     bnd (fileclose f s) (\<lambda>_ s. (Ret 0, s))) s)"

definition sys_fstat :: "'z tick_state_scheme \<Rightarrow> u64 res \<times> 'z tick_state_scheme" where
  "sys_fstat s =
     bnd (argaddr 1 s) (\<lambda>st s.
     bnd (argfd 0 s) (\<lambda>r s. case r of None \<Rightarrow> (Ret (- 1), s) | Some (_, f) \<Rightarrow>
     bnd (filestat f st s) (\<lambda>r s. (Ret (of_int r), s))))"

section \<open>Names\<close>

definition nlink_add :: "nat \<Rightarrow> u16 \<Rightarrow> 'z fsstate_scheme \<Rightarrow> 'z fsstate_scheme" where
  "nlink_add ip k s = seti ip (\<lambda>q. q\<lparr>i_nlink := i_nlink q + k\<rparr>) s"

text \<open>A local array \<^verbatim>\<open>char name[DIRSIZ]\<close> before it is assigned.\<close>

definition name_array :: "'z fsstate_scheme \<Rightarrow> u8 list" where
  "name_array s = map (junk s) [0..<DIRSIZ]"

text \<open>Leaving a system call with \<open>-1\<close>: end the transaction.\<close>

definition op_fail :: "'z fsstate_scheme \<Rightarrow> u64 res \<times> 'z fsstate_scheme" where
  "op_fail s = bnd (end_op s) (\<lambda>_ s. (Ret (- 1), s))"

text \<open>The label \<^verbatim>\<open>bad\<close> of \<^verbatim>\<open>sys_link\<close>.\<close>

definition link_bad :: "nat \<Rightarrow> 'z fsstate_scheme \<Rightarrow> u64 res \<times> 'z fsstate_scheme" where
  "link_bad ip s =
     bnd (ilock (Some ip) s) (\<lambda>_ s.
     bnd (iupdate ip (nlink_add ip (- 1) s)) (\<lambda>_ s.
     bnd (iunlockput ip s) (\<lambda>_ s. op_fail s)))"

definition link_op :: "u8 list \<Rightarrow> nat \<Rightarrow> 'z fsstate_scheme \<Rightarrow> u64 res \<times> 'z fsstate_scheme" where
  "link_op new ip s =
     bnd (nameiparent new (name_array s) s) (\<lambda>r s. case fst r of None \<Rightarrow> link_bad ip s | Some dp \<Rightarrow>
     bnd (ilock (Some dp) s) (\<lambda>_ s.
     bnd (if i_dev (itable s dp) \<noteq> i_dev (itable s ip) then (Ret (- 1), s)
          else dirlink dp (snd r) (i_inum (itable s ip)) s) (\<lambda>l s.
     if l < 0 then bnd (iunlockput dp s) (\<lambda>_ s. link_bad ip s)
     else
       bnd (iunlockput dp s) (\<lambda>_ s.
       bnd (iput ip s) (\<lambda>_ s.
       bnd (end_op s) (\<lambda>_ s. (Ret 0, s)))))))"

definition sys_link :: "'z tick_state_scheme \<Rightarrow> u64 res \<times> 'z tick_state_scheme" where
  "sys_link s =
     bnd (argstr 0 MAXPATH s) (\<lambda>old s.
     if fst old < 0 then (Ret (- 1), s) else
     bnd (argstr 1 MAXPATH s) (\<lambda>new s.
     if fst new < 0 then (Ret (- 1), s) else
     bnd (begin_op s) (\<lambda>_ s.
     bnd (namei (snd old) s) (\<lambda>ipo s. case ipo of None \<Rightarrow> op_fail s | Some ip \<Rightarrow>
     bnd (ilock ipo s) (\<lambda>_ s.
     if i_type (itable s ip) = T_DIR then bnd (iunlockput ip s) (\<lambda>_ s. op_fail s)
     else
       bnd (iupdate ip (nlink_add ip 1 s)) (\<lambda>_ s.
       bnd (iunlock ipo s) (\<lambda>_ s.
       link_op (snd new) ip s)))))))"

primrec isdirempty_loop :: "nat \<Rightarrow> u32 list \<Rightarrow> 'z fsstate_scheme \<Rightarrow> bool res \<times> 'z fsstate_scheme" where
  "isdirempty_loop dp [] s = (Ret True, s)"
| "isdirempty_loop dp (off # offs) s =
     bnd (readi dp LocalDst off 16 s) (\<lambda>r s.
     if fst r \<noteq> 16 then (Panic ''isdirempty: readi'', s)
     else if de_inum (dirent_of (snd r)) \<noteq> 0 then (Ret False, s)
     else isdirempty_loop dp offs s)"

definition isdirempty :: "nat \<Rightarrow> 'z fsstate_scheme \<Rightarrow> bool res \<times> 'z fsstate_scheme" where
  "isdirempty dp s = isdirempty_loop dp (drop 2 (dir_offsets (i_size (itable s dp)))) s"

text \<open>\<^verbatim>\<open>sys_unlink\<close> once the entry at \<open>off\<close> of \<open>dp\<close> is to be cleared.\<close>

definition unlink_entry :: "nat \<Rightarrow> nat \<Rightarrow> u32 \<Rightarrow> 'z fsstate_scheme \<Rightarrow> u64 res \<times> 'z fsstate_scheme" where
  "unlink_entry dp ip off s =
     bnd (writei dp (LocalSrc (replicate 16 0)) off 16 s) (\<lambda>r s.
     if r \<noteq> 16 then (Panic ''unlink: writei'', s)
     else
       bnd (if i_type (itable s ip) = T_DIR then iupdate dp (nlink_add dp (- 1) s) else (Ret (), s)) (\<lambda>_ s.
       bnd (iunlockput dp s) (\<lambda>_ s.
       bnd (iupdate ip (nlink_add ip (- 1) s)) (\<lambda>_ s.
       bnd (iunlockput ip s) (\<lambda>_ s.
       bnd (end_op s) (\<lambda>_ s. (Ret 0, s)))))))"

definition unlink_bad :: "nat \<Rightarrow> 'z fsstate_scheme \<Rightarrow> u64 res \<times> 'z fsstate_scheme" where
  "unlink_bad dp s = bnd (iunlockput dp s) (\<lambda>_ s. op_fail s)"

definition sys_unlink :: "'z tick_state_scheme \<Rightarrow> u64 res \<times> 'z tick_state_scheme" where
  "sys_unlink s =
     bnd (argstr 0 MAXPATH s) (\<lambda>pth s.
     if fst pth < 0 then (Ret (- 1), s) else
     bnd (begin_op s) (\<lambda>_ s.
     bnd (nameiparent (snd pth) (name_array s) s) (\<lambda>r s. case fst r of None \<Rightarrow> op_fail s | Some dp \<Rightarrow>
     bnd (ilock (Some dp) s) (\<lambda>_ s.
     if namecmp (snd r) (cstr ''.'') = 0 \<or> namecmp (snd r) (cstr ''..'') = 0 then unlink_bad dp s
     else
       bnd (dirlookup dp (snd r) s) (\<lambda>l s. case l of None \<Rightarrow> unlink_bad dp s | Some (ip, off) \<Rightarrow>
       bnd (ilock (Some ip) s) (\<lambda>_ s.
       if sint (i_nlink (itable s ip)) < 1 then (Panic ''unlink: nlink < 1'', s)
       else
         bnd (if i_type (itable s ip) = T_DIR then isdirempty ip s else (Ret True, s)) (\<lambda>emp s.
         if \<not> emp then bnd (iunlockput ip s) (\<lambda>_ s. unlink_bad dp s)
         else unlink_entry dp ip off s)))))))"

section \<open>Creating and opening\<close>

text \<open>The label \<^verbatim>\<open>fail\<close> of \<^verbatim>\<open>create\<close>, and its code from \<^verbatim>\<open>ialloc\<close> on.\<close>

definition create_fail :: "nat \<Rightarrow> nat \<Rightarrow> 'z fsstate_scheme \<Rightarrow> nat option res \<times> 'z fsstate_scheme" where
  "create_fail dp ip s =
     bnd (iupdate ip (seti ip (\<lambda>q. q\<lparr>i_nlink := 0\<rparr>) s)) (\<lambda>_ s.
     bnd (iunlockput ip s) (\<lambda>_ s.
     bnd (iunlockput dp s) (\<lambda>_ s. (Ret None, s))))"

text \<open>The entries \<^verbatim>\<open>.\<close> and \<^verbatim>\<open>..\<close> of a new directory.\<close>

definition create_dots :: "nat \<Rightarrow> nat \<Rightarrow> 'z fsstate_scheme \<Rightarrow> int res \<times> 'z fsstate_scheme" where
  "create_dots dp ip s =
     bnd (dirlink ip (cstr ''.'') (i_inum (itable s ip)) s) (\<lambda>r s.
     if r < 0 then (Ret r, s) else dirlink ip (cstr ''..'') (i_inum (itable s dp)) s)"

definition create_new :: "nat \<Rightarrow> u8 list \<Rightarrow> u16 \<Rightarrow> u16 \<Rightarrow> u16 \<Rightarrow> 'z fsstate_scheme \<Rightarrow> nat option res \<times> 'z fsstate_scheme" where
  "create_new dp name ty major minor s =
     bnd (ialloc (i_dev (itable s dp)) ty s) (\<lambda>ipo s. case ipo of
       None \<Rightarrow> bnd (iunlockput dp s) (\<lambda>_ s. (Ret None, s))
     | Some ip \<Rightarrow>
         bnd (ilock ipo s) (\<lambda>_ s.
         bnd (iupdate ip (seti ip (\<lambda>q. q\<lparr>i_major := major, i_minor := minor, i_nlink := 1\<rparr>) s)) (\<lambda>_ s.
         bnd (if ty = T_DIR then create_dots dp ip s else (Ret 0, s)) (\<lambda>r s.
         if r < 0 then create_fail dp ip s
         else
           bnd (dirlink dp name (i_inum (itable s ip)) s) (\<lambda>r s.
           if r < 0 then create_fail dp ip s
           else
             bnd (if ty = T_DIR then iupdate dp (nlink_add dp 1 s) else (Ret (), s)) (\<lambda>_ s.
             bnd (iunlockput dp s) (\<lambda>_ s. (Ret ipo, s))))))))"

definition create :: "u8 list \<Rightarrow> u16 \<Rightarrow> u16 \<Rightarrow> u16 \<Rightarrow> 'z fsstate_scheme \<Rightarrow> nat option res \<times> 'z fsstate_scheme" where
  "create pth ty major minor s =
     bnd (nameiparent pth (name_array s) s) (\<lambda>r s. case fst r of None \<Rightarrow> (Ret None, s) | Some dp \<Rightarrow>
     bnd (ilock (Some dp) s) (\<lambda>_ s.
     bnd (dirlookup dp (snd r) s) (\<lambda>l s. case l of
       Some (ip, _) \<Rightarrow>
         bnd (iunlockput dp s) (\<lambda>_ s.
         bnd (ilock (Some ip) s) (\<lambda>_ s.
         if ty = T_FILE \<and> (i_type (itable s ip) = T_FILE \<or> i_type (itable s ip) = T_DEVICE)
         then (Ret (Some ip), s)
         else bnd (iunlockput ip s) (\<lambda>_ s. (Ret None, s))))
     | None \<Rightarrow> create_new dp (snd r) ty major minor s)))"

text \<open>The first half of \<^verbatim>\<open>sys_open\<close>: the inode, locked, or \<open>None\<close> after \<^verbatim>\<open>end_op\<close>.\<close>

definition open_inode :: "u8 list \<Rightarrow> i32 \<Rightarrow> 'z fsstate_scheme \<Rightarrow> nat option res \<times> 'z fsstate_scheme" where
  "open_inode pth omode s =
     (if omode AND O_CREATE \<noteq> 0 then
        bnd (create pth T_FILE 0 0 s) (\<lambda>ipo s.
        if ipo = None then bnd (end_op s) (\<lambda>_ s. (Ret None, s)) else (Ret ipo, s))
      else
        bnd (namei pth s) (\<lambda>ipo s. case ipo of
          None \<Rightarrow> bnd (end_op s) (\<lambda>_ s. (Ret None, s))
        | Some ip \<Rightarrow>
            bnd (ilock ipo s) (\<lambda>_ s.
            if i_type (itable s ip) = T_DIR \<and> omode \<noteq> O_RDONLY
            then bnd (iunlockput ip s) (\<lambda>_ s. bnd (end_op s) (\<lambda>_ s. (Ret None, s)))
            else (Ret ipo, s))))"

text \<open>The fields of the new file structure, and the code from there on.\<close>

definition open_file :: "i32 \<Rightarrow> nat \<Rightarrow> inode \<Rightarrow> kfile \<Rightarrow> kfile" where
  "open_file omode ip i q =
     (let q = (if i_type i = T_DEVICE then q\<lparr>f_type := FD_DEVICE, f_major := i_major i\<rparr>
               else q\<lparr>f_type := FD_INODE, f_off := 0\<rparr>) in
      q\<lparr>f_ip := Some ip, f_readable := (omode AND O_WRONLY = 0),
        f_writable := (omode AND O_WRONLY \<noteq> 0 \<or> omode AND O_RDWR \<noteq> 0)\<rparr>)"

definition open_finish :: "nat \<Rightarrow> int \<Rightarrow> i32 \<Rightarrow> nat \<Rightarrow> 'z file_state_scheme \<Rightarrow> u64 res \<times> 'z file_state_scheme" where
  "open_finish f fd omode ip s =
     (let s = setf f (open_file omode ip (itable s ip)) s in
      bnd (if omode AND O_TRUNC \<noteq> 0 \<and> i_type (itable s ip) = T_FILE then itrunc ip s else (Ret (), s)) (\<lambda>_ s.
      bnd (iunlock (Some ip) s) (\<lambda>_ s.
      bnd (end_op s) (\<lambda>_ s. (Ret (of_int fd), s)))))"

definition open_fail :: "nat option \<Rightarrow> nat \<Rightarrow> 'z file_state_scheme \<Rightarrow> u64 res \<times> 'z file_state_scheme" where
  "open_fail fo ip s =
     bnd (close_opt fo s) (\<lambda>_ s. bnd (iunlockput ip s) (\<lambda>_ s. op_fail s))"

definition sys_open :: "'z tick_state_scheme \<Rightarrow> u64 res \<times> 'z tick_state_scheme" where
  "sys_open s =
     bnd (argint 1 s) (\<lambda>omode s.
     bnd (argstr 0 MAXPATH s) (\<lambda>pth s.
     if fst pth < 0 then (Ret (- 1), s) else
     bnd (begin_op s) (\<lambda>_ s.
     bnd (open_inode (snd pth) omode s) (\<lambda>ipo s. case ipo of None \<Rightarrow> (Ret (- 1), s) | Some ip \<Rightarrow>
     if i_type (itable s ip) = T_DEVICE \<and> (sint (i_major (itable s ip)) < 0 \<or> sint (i_major (itable s ip)) \<ge> int NDEV)
     then bnd (iunlockput ip s) (\<lambda>_ s. op_fail s)
     else
       bnd (filealloc s) (\<lambda>fo s. case fo of None \<Rightarrow> open_fail None ip s | Some f \<Rightarrow>
       bnd (fdalloc f s) (\<lambda>fd s.
       if fd < 0 then open_fail fo ip s else open_finish f fd omode ip s))))))"

text \<open>\<^verbatim>\<open>sys_mkdir\<close> and \<^verbatim>\<open>sys_mknod\<close> after the inode is created.\<close>

definition created :: "nat option \<Rightarrow> 'z fsstate_scheme \<Rightarrow> u64 res \<times> 'z fsstate_scheme" where
  "created ipo s = (case ipo of None \<Rightarrow> op_fail s | Some ip \<Rightarrow>
     bnd (iunlockput ip s) (\<lambda>_ s. bnd (end_op s) (\<lambda>_ s. (Ret 0, s))))"

definition sys_mkdir :: "'z tick_state_scheme \<Rightarrow> u64 res \<times> 'z tick_state_scheme" where
  "sys_mkdir s =
     bnd (begin_op s) (\<lambda>_ s.
     bnd (argstr 0 MAXPATH s) (\<lambda>pth s.
     if fst pth < 0 then op_fail s
     else bnd (create (snd pth) T_DIR 0 0 s) (\<lambda>ipo s. created ipo s)))"

definition sys_mknod :: "'z tick_state_scheme \<Rightarrow> u64 res \<times> 'z tick_state_scheme" where
  "sys_mknod s =
     bnd (begin_op s) (\<lambda>_ s.
     bnd (argint 1 s) (\<lambda>major s.
     bnd (argint 2 s) (\<lambda>minor s.
     bnd (argstr 0 MAXPATH s) (\<lambda>pth s.
     if fst pth < 0 then op_fail s
     else bnd (create (snd pth) T_DEVICE (ucast major) (ucast minor) s) (\<lambda>ipo s. created ipo s)))))"

definition sys_chdir :: "'z tick_state_scheme \<Rightarrow> u64 res \<times> 'z tick_state_scheme" where
  "sys_chdir = myproc (\<lambda>p s.
     bnd (begin_op s) (\<lambda>_ s.
     bnd (argstr 0 MAXPATH s) (\<lambda>pth s.
     if fst pth < 0 then op_fail s else
     bnd (namei (snd pth) s) (\<lambda>ipo s. case ipo of None \<Rightarrow> op_fail s | Some ip \<Rightarrow>
     bnd (ilock ipo s) (\<lambda>_ s.
     if i_type (itable s ip) \<noteq> T_DIR then bnd (iunlockput ip s) (\<lambda>_ s. op_fail s)
     else
       bnd (iunlock ipo s) (\<lambda>_ s.
       bnd (iput_ptr (p_cwd (procs s p)) s) (\<lambda>_ s.
       bnd (end_op s) (\<lambda>_ s.
       (Ret 0, setp p (\<lambda>q. q\<lparr>p_cwd := ipo\<rparr>) s)))))))))"

section \<open>Programs and pipes\<close>

text \<open>The loop of \<^verbatim>\<open>sys_exec\<close> that copies the argument strings, each into a page of its own: the pages,
  and whether the terminating null pointer was met.\<close>

primrec exec_fetch :: "u64 \<Rightarrow> nat list \<Rightarrow> u64 list \<Rightarrow> 'z ptable_scheme \<Rightarrow> (bool \<times> u64 list) res \<times> 'z ptable_scheme" where
  "exec_fetch uargv [] argv s = (Ret (False, argv), s)"
| "exec_fetch uargv (i # is) argv s =
     bnd (fetchaddr (uargv + 8 * of_nat i) s) (\<lambda>r s.
     if fst r < 0 then (Ret (False, argv), s)
     else if snd r = 0 then (Ret (True, argv), s)
     else
       bnd (kalloc s) (\<lambda>pg s.
       if pg = 0 then (Ret (False, argv), s)
       else
         bnd (fetchstr (snd r) 4096 s) (\<lambda>t s.
         let s = s\<lparr>mem := storeb (mem s) pg (snd t)\<rparr> in
         if fst t < 0 then (Ret (False, argv @ [pg]), s)
         else exec_fetch uargv is (argv @ [pg]) s)))"

primrec kfree_all :: "u64 list \<Rightarrow> 'z kmem_scheme \<Rightarrow> unit res \<times> 'z kmem_scheme" where
  "kfree_all [] s = (Ret (), s)"
| "kfree_all (a # as) s = bnd (kfree a s) (\<lambda>_ s. kfree_all as s)"

definition sys_exec :: "'z tick_state_scheme \<Rightarrow> u64 res \<times> 'z tick_state_scheme" where
  "sys_exec s =
     bnd (argaddr 1 s) (\<lambda>uargv s.
     bnd (argstr 0 MAXPATH s) (\<lambda>pth s.
     if fst pth < 0 then (Ret (- 1), s)
     else
       bnd (exec_fetch uargv [0..<MAXARG] [] s) (\<lambda>r s.
       if \<not> fst r then bnd (kfree_all (snd r) s) (\<lambda>_ s. (Ret (- 1), s))
       else
         bnd (exec (snd pth) (snd r @ replicate (MAXARG - length (snd r)) 0) s) (\<lambda>ret s.
         bnd (kfree_all (snd r) s) (\<lambda>_ s. (Ret (of_int ret), s))))))"

definition clear_fd :: "nat \<Rightarrow> int \<Rightarrow> 'z ptable_scheme \<Rightarrow> 'z ptable_scheme" where
  "clear_fd p fd s = setp p (\<lambda>q. q\<lparr>p_ofile := (p_ofile q)[nat fd := None]\<rparr>) s"

definition pipe_fail :: "nat \<Rightarrow> nat \<Rightarrow> 'z file_state_scheme \<Rightarrow> u64 res \<times> 'z file_state_scheme" where
  "pipe_fail rfl wfl s =
     bnd (fileclose rfl s) (\<lambda>_ s. bnd (fileclose wfl s) (\<lambda>_ s. (Ret (- 1), s)))"

definition sys_pipe :: "'z tick_state_scheme \<Rightarrow> u64 res \<times> 'z tick_state_scheme" where
  "sys_pipe = myproc (\<lambda>p s.
     bnd (argaddr 0 s) (\<lambda>fdarray s.
     bnd (pipealloc s) (\<lambda>r s. case r of None \<Rightarrow> (Ret (- 1), s) | Some (rfl, wfl) \<Rightarrow>
     bnd (fdalloc rfl s) (\<lambda>fd0 s.
     if fd0 < 0 then pipe_fail rfl wfl s else
     bnd (fdalloc wfl s) (\<lambda>fd1 s.
     if fd1 < 0 then pipe_fail rfl wfl (clear_fd p fd0 s) else
     bnd (copyout (p_pagetable (procs s p)) fdarray (le_bytes 4 (of_int fd0 :: i32)) s) (\<lambda>r s.
     if r < 0 then pipe_fail rfl wfl (clear_fd p fd1 (clear_fd p fd0 s)) else
     bnd (copyout (p_pagetable (procs s p)) (fdarray + 4) (le_bytes 4 (of_int fd1 :: i32)) s) (\<lambda>r s.
     if r < 0 then pipe_fail rfl wfl (clear_fd p fd1 (clear_fd p fd0 s)) else
     (Ret 0, s))))))))"

end
