(* ===== verification/Syscall.thy ===== *)
theory Syscall
  imports Sysfile
begin

text \<open>
  System call dispatch, the second half of \<^verbatim>\<open>kernel/syscall.c\<close>, with the numbers of \<^verbatim>\<open>kernel/syscall.h\<close>.
\<close>

section \<open>Definitions\<close>

abbreviation NSYSCALLS :: nat where "NSYSCALLS \<equiv> 25"

definition syscalls :: "nat \<Rightarrow> ('z tick_state_scheme \<Rightarrow> u64 res \<times> 'z tick_state_scheme) option" where
  "syscalls num =
     (if num = 1 then Some sys_fork
      else if num = 2 then Some sys_exit
      else if num = 3 then Some sys_wait
      else if num = 4 then Some sys_pipe
      else if num = 5 then Some sys_read
      else if num = 6 then Some sys_kill
      else if num = 7 then Some sys_exec
      else if num = 8 then Some sys_fstat
      else if num = 9 then Some sys_chdir
      else if num = 10 then Some sys_dup
      else if num = 11 then Some sys_getpid
      else if num = 12 then Some sys_sbrk
      else if num = 13 then Some sys_sleep
      else if num = 14 then Some sys_uptime
      else if num = 15 then Some sys_open
      else if num = 16 then Some sys_write
      else if num = 17 then Some sys_mknod
      else if num = 18 then Some sys_unlink
      else if num = 19 then Some sys_link
      else if num = 20 then Some sys_mkdir
      else if num = 21 then Some sys_close
      else if num = 22 then Some sys_getppid
      else if num = 23 then Some sys_ps
      else if num = 24 then Some sys_getschedhistory
      else None)"

definition unknown_call :: "nat \<Rightarrow> i32 \<Rightarrow> 'z tick_state_scheme \<Rightarrow> unit res \<times> 'z tick_state_scheme" where
  "unknown_call p num s =
     bnd (printf (cstr ''%d %s: unknown sys call %d\<newline>'')
            [PInt (p_pid (procs s p)), PStr (Some (takeWhile (\<lambda>c. c \<noteq> 0) (p_name (procs s p)))), PInt num] s) (\<lambda>_ s.
     (Ret (), tf_set p TF_a0 (- 1) s))"

definition syscall :: "'z tick_state_scheme \<Rightarrow> unit res \<times> 'z tick_state_scheme" where
  "syscall = myproc (\<lambda>p s.
     let num = (ucast (tf_get p TF_a7 s) :: i32) in
     if sint num > 0 \<and> sint num < int NSYSCALLS then
       case syscalls (nat (sint num)) of
         Some h \<Rightarrow> bnd (h s) (\<lambda>r s. (Ret (), tf_set p TF_a0 r s))
       | None \<Rightarrow> unknown_call p num s
     else unknown_call p num s)"

end
