(* ===== verification/Virtio.thy ===== *)
theory Virtio
  imports Syscall
begin

text \<open>
  The disk driver, \<^verbatim>\<open>kernel/virtio_disk.c\<close>. Descriptors point to objects of the driver, which are named
  instead of given by their address; what the device does with a request is not part of the driver.
\<close>

section \<open>Definitions\<close>

abbreviation NUM :: nat where "NUM \<equiv> 8"
abbreviation VRING_DESC_F_NEXT :: u16 where "VRING_DESC_F_NEXT \<equiv> 1"
abbreviation VRING_DESC_F_WRITE :: u16 where "VRING_DESC_F_WRITE \<equiv> 2"

text \<open>What a descriptor points to: the request header \<^verbatim>\<open>ops[i]\<close>, the data of a buffer, or \<^verbatim>\<open>info[i].status\<close>.\<close>

datatype daddr = DNull | DOps nat | DBuf nat | DStatus nat

record virtq_desc =
  d_addr :: daddr
  d_len :: u32
  d_flags :: u16
  d_next :: u16

record virtio_blk_req =
  rq_type :: u32
  rq_reserved :: u32
  rq_sector :: u64

text \<open>\<^verbatim>\<open>struct disk\<close> with the three shared structures it points to. \<open>v_busy\<close> holds the fields \<^verbatim>\<open>b->disk\<close> of
  the buffers; \<open>v_pages\<close> the pages of the three structures; \<open>v_mmio\<close> the register writes in order.\<close>

record vdisk =
  v_desc :: "nat \<Rightarrow> virtq_desc"
  v_avail_idx :: u16
  v_avail_ring :: "nat \<Rightarrow> u16"
  v_used_idx_dev :: u16
  v_used_ring :: "nat \<Rightarrow> u32"
  v_free :: "nat \<Rightarrow> bool"
  v_used_idx :: u16
  v_info_b :: "nat \<Rightarrow> nat option"
  v_info_status :: "nat \<Rightarrow> u8"
  v_ops :: "nat \<Rightarrow> virtio_blk_req"
  v_busy :: "nat \<Rightarrow> bool"
  v_pages :: "u64 \<times> u64 \<times> u64"
  v_mmio :: "(nat \<times> u32) list"

record vd_state = tick_state +
  vd :: vdisk

definition set_vd :: "(vdisk \<Rightarrow> vdisk) \<Rightarrow> 'z vd_state_scheme \<Rightarrow> 'z vd_state_scheme" where
  "set_vd f s = s\<lparr>vd := f (vd s)\<rparr>"

definition mmio_write :: "nat \<Rightarrow> u32 \<Rightarrow> 'z vd_state_scheme \<Rightarrow> 'z vd_state_scheme" where
  "mmio_write r v = set_vd (\<lambda>d. d\<lparr>v_mmio := v_mmio d @ [(r, v)]\<rparr>)"

definition zero_desc :: virtq_desc where
  "zero_desc = \<lparr>d_addr = DNull, d_len = 0, d_flags = 0, d_next = 0\<rparr>"

text \<open>The feature bits that the driver turns off.\<close>

definition driver_features :: "u32 \<Rightarrow> u32" where
  "driver_features f = foldl (\<lambda>f b. f AND NOT (push_bit b 1)) f [5, 7, 11, 12, 27, 29, 28]"

text \<open>The memory of the queue, in \<^verbatim>\<open>virtio_disk_init\<close>: three pages, zeroed.\<close>

definition virtio_queue_pages :: "'z vd_state_scheme \<Rightarrow> unit res \<times> 'z vd_state_scheme" where
  "virtio_queue_pages s =
     bnd (kalloc s) (\<lambda>desc s.
     bnd (kalloc s) (\<lambda>avail s.
     bnd (kalloc s) (\<lambda>used s.
     if desc = 0 \<or> avail = 0 \<or> used = 0 then (Panic ''virtio disk kalloc'', s)
     else
       let s = s\<lparr>mem := memset (mem s) desc 0 4096\<rparr>;
           s = s\<lparr>mem := memset (mem s) avail 0 4096\<rparr>;
           s = s\<lparr>mem := memset (mem s) used 0 4096\<rparr>
       in (Ret (), set_vd (\<lambda>d. d\<lparr>v_pages := (desc, avail, used), v_desc := (\<lambda>_. zero_desc),
             v_avail_idx := 0, v_avail_ring := (\<lambda>_. 0), v_used_idx_dev := 0, v_used_ring := (\<lambda>_. 0)\<rparr>) s))))"

text \<open>\<open>rd r\<close> is what the device returns for register \<open>r\<close>; each is read once.\<close>

definition virtio_disk_init :: "(nat \<Rightarrow> u32) \<Rightarrow> 'z vd_state_scheme \<Rightarrow> unit res \<times> 'z vd_state_scheme" where
  "virtio_disk_init rd s =
     (if rd 0x000 \<noteq> 0x74726976 \<or> rd 0x004 \<noteq> 2 \<or> rd 0x008 \<noteq> 2 \<or> rd 0x00c \<noteq> 0x554d4551
      then (Panic ''could not find virtio disk'', s)
      else
        let s = mmio_write 0x070 0 s;
            s = mmio_write 0x070 1 s;
            s = mmio_write 0x070 (1 OR 2) s;
            s = mmio_write 0x020 (driver_features (rd 0x010)) s;
            s = mmio_write 0x070 (1 OR 2 OR 8) s;
            status = rd 0x070 in
        if status AND 8 = 0 then (Panic ''virtio disk FEATURES_OK unset'', s)
        else
          let s = mmio_write 0x030 0 s in
          if rd 0x044 \<noteq> 0 then (Panic ''virtio disk should not be ready'', s)
          else if rd 0x034 = 0 then (Panic ''virtio disk has no queue 0'', s)
          else if rd 0x034 < of_nat NUM then (Panic ''virtio disk max queue too short'', s)
          else
            bnd (virtio_queue_pages s) (\<lambda>_ s.
            let (desc, avail, used) = v_pages (vd s);
                s = mmio_write 0x038 (of_nat NUM) s;
                s = mmio_write 0x080 (ucast desc) s;
                s = mmio_write 0x084 (ucast (drop_bit 32 desc)) s;
                s = mmio_write 0x090 (ucast avail) s;
                s = mmio_write 0x094 (ucast (drop_bit 32 avail)) s;
                s = mmio_write 0x0a0 (ucast used) s;
                s = mmio_write 0x0a4 (ucast (drop_bit 32 used)) s;
                s = mmio_write 0x044 1 s;
                s = set_vd (\<lambda>d. d\<lparr>v_free := (\<lambda>i. if i < NUM then True else v_free d i)\<rparr>) s;
                s = mmio_write 0x070 (status OR 4) s
            in (Ret (), s)))"

definition alloc_desc :: "'z vd_state_scheme \<Rightarrow> int res \<times> 'z vd_state_scheme" where
  "alloc_desc s = (case find (\<lambda>i. v_free (vd s) i) [0..<NUM] of
      None \<Rightarrow> (Ret (- 1), s)
    | Some i \<Rightarrow> (Ret (int i), set_vd (\<lambda>d. d\<lparr>v_free := (v_free d)(i := False)\<rparr>) s))"

definition free_desc :: "nat \<Rightarrow> 'z vd_state_scheme \<Rightarrow> unit res \<times> 'z vd_state_scheme" where
  "free_desc i s =
     (if i \<ge> NUM then (Panic ''free_desc 1'', s)
      else if v_free (vd s) i then (Panic ''free_desc 2'', s)
      else wakeup ChDiskFree (set_vd (\<lambda>d. d\<lparr>v_desc := (v_desc d)(i := zero_desc),
             v_free := (v_free d)(i := True)\<rparr>) s))"

text \<open>\<^verbatim>\<open>free_chain\<close>; a chain has at most \<open>NUM\<close> descriptors, since freeing one a second time panics, so
  \<open>Suc NUM\<close> rounds of fuel are enough.\<close>

primrec free_chain_loop :: "nat \<Rightarrow> nat \<Rightarrow> 'z vd_state_scheme \<Rightarrow> unit res \<times> 'z vd_state_scheme" where
  "free_chain_loop 0 i s = (Hang, s)"
| "free_chain_loop (Suc k) i s =
     (let flag = d_flags (v_desc (vd s) i);
          nxt = d_next (v_desc (vd s) i) in
      bnd (free_desc i s) (\<lambda>_ s.
      if flag AND VRING_DESC_F_NEXT \<noteq> 0 then free_chain_loop k (unat nxt) s else (Ret (), s)))"

definition free_chain :: "nat \<Rightarrow> 'z vd_state_scheme \<Rightarrow> unit res \<times> 'z vd_state_scheme" where
  "free_chain i s = free_chain_loop (Suc NUM) i s"

primrec free_descs :: "nat list \<Rightarrow> 'z vd_state_scheme \<Rightarrow> unit res \<times> 'z vd_state_scheme" where
  "free_descs [] s = (Ret (), s)"
| "free_descs (i # is) s = bnd (free_desc i s) (\<lambda>_ s. free_descs is s)"

text \<open>\<^verbatim>\<open>alloc3_desc\<close> with \<open>k\<close> descriptors still to allocate and \<open>idx\<close> those it has; \<open>None\<close> is its result
  \<open>-1\<close>.\<close>

primrec alloc3_loop :: "nat \<Rightarrow> nat list \<Rightarrow> 'z vd_state_scheme \<Rightarrow> nat list option res \<times> 'z vd_state_scheme" where
  "alloc3_loop 0 idx s = (Ret (Some idx), s)"
| "alloc3_loop (Suc k) idx s =
     bnd (alloc_desc s) (\<lambda>i s.
     if i < 0 then bnd (free_descs idx s) (\<lambda>_ s. (Ret None, s))
     else alloc3_loop k (idx @ [nat i]) s)"

definition alloc3_desc :: "'z vd_state_scheme \<Rightarrow> nat list option res \<times> 'z vd_state_scheme" where
  "alloc3_desc s = alloc3_loop 3 [] s"

text \<open>Formatting the three descriptors of a request for buffer \<open>b\<close> and handing it to the device.\<close>

definition virtio_format :: "nat \<Rightarrow> u32 \<Rightarrow> bool \<Rightarrow> nat \<Rightarrow> nat \<Rightarrow> nat \<Rightarrow> vdisk \<Rightarrow> vdisk" where
  "virtio_format b blockno write i0 i1 i2 d =
     d\<lparr>v_ops := (v_ops d)(i0 := \<lparr>rq_type = (if write then 1 else 0), rq_reserved = 0, rq_sector = ucast (blockno * 2)\<rparr>),
       v_desc := (v_desc d)
         (i0 := \<lparr>d_addr = DOps i0, d_len = 16, d_flags = VRING_DESC_F_NEXT, d_next = of_nat i1\<rparr>,
          i1 := \<lparr>d_addr = DBuf b, d_len = of_nat BSIZE,
                 d_flags = (if write then 0 else VRING_DESC_F_WRITE) OR VRING_DESC_F_NEXT, d_next = of_nat i2\<rparr>,
          i2 := \<lparr>d_addr = DStatus i0, d_len = 1, d_flags = VRING_DESC_F_WRITE, d_next = 0\<rparr>),
       v_info_status := (v_info_status d)(i0 := 0xff),
       v_busy := (v_busy d)(b := True),
       v_info_b := (v_info_b d)(i0 := Some b),
       v_avail_ring := (v_avail_ring d)(unat (v_avail_idx d) mod NUM := of_nat i0),
       v_avail_idx := v_avail_idx d + 1\<rparr>"

text \<open>\<^verbatim>\<open>virtio_disk_rw\<close> in rounds that each end in \<^verbatim>\<open>sleep\<close>: \<open>rw_submit\<close> is entered with the lock held and
  entered again while descriptors are short; \<open>rw_wait\<close> waits for the request with head \<open>i0\<close>.\<close>

definition rw_wait :: "nat \<Rightarrow> nat \<Rightarrow> 'z vd_state_scheme \<Rightarrow> unit res \<times> 'z vd_state_scheme" where
  "rw_wait b i0 s =
     (if v_busy (vd s) b then bnd (sleep (ChBuf b) VdiskLock s) (\<lambda>_ s. (Swtch, s))
      else
        bnd (free_chain i0 (set_vd (\<lambda>d. d\<lparr>v_info_b := (v_info_b d)(i0 := None)\<rparr>) s)) (\<lambda>_ s.
        release VdiskLock s))"

definition rw_submit :: "nat \<Rightarrow> bool \<Rightarrow> 'z vd_state_scheme \<Rightarrow> unit res \<times> 'z vd_state_scheme" where
  "rw_submit b write s =
     bnd (alloc3_desc s) (\<lambda>r s. case r of
       None \<Rightarrow> bnd (sleep ChDiskFree VdiskLock s) (\<lambda>_ s. (Swtch, s))
     | Some idx \<Rightarrow>
         let s = set_vd (virtio_format b (b_blockno (bufs s b)) write (idx ! 0) (idx ! 1) (idx ! 2)) s;
             s = mmio_write 0x050 0 s
         in rw_wait b (idx ! 0) s)"

definition virtio_disk_rw :: "nat \<Rightarrow> bool \<Rightarrow> 'z vd_state_scheme \<Rightarrow> unit res \<times> 'z vd_state_scheme" where
  "virtio_disk_rw b write s = bnd (acquire VdiskLock s) (\<lambda>_ s. rw_submit b write s)"

text \<open>The loop of \<^verbatim>\<open>virtio_disk_intr\<close>, \<open>k\<close> entries of the used ring being new. A null or wild
  \<^verbatim>\<open>info[id].b\<close> is dereferenced by the code.\<close>

primrec intr_loop :: "nat \<Rightarrow> 'z vd_state_scheme \<Rightarrow> unit res \<times> 'z vd_state_scheme" where
  "intr_loop 0 s = (Ret (), s)"
| "intr_loop (Suc k) s =
     (let id = unat (v_used_ring (vd s) (unat (v_used_idx (vd s)) mod NUM)) in
      if id \<ge> NUM then (Panic ''undefined'', s)
      else if v_info_status (vd s) id \<noteq> 0 then (Panic ''virtio_disk_intr status'', s)
      else case v_info_b (vd s) id of
        None \<Rightarrow> (Panic ''kerneltrap'', s)
      | Some b \<Rightarrow>
          bnd (wakeup (ChBuf b) (set_vd (\<lambda>d. d\<lparr>v_busy := (v_busy d)(b := False)\<rparr>) s)) (\<lambda>_ s.
          intr_loop k (set_vd (\<lambda>d. d\<lparr>v_used_idx := v_used_idx d + 1\<rparr>) s)))"

definition virtio_disk_intr :: "u32 \<Rightarrow> 'z vd_state_scheme \<Rightarrow> unit res \<times> 'z vd_state_scheme" where
  "virtio_disk_intr interrupt_status s =
     bnd (acquire VdiskLock s) (\<lambda>_ s.
     let s = mmio_write 0x064 (interrupt_status AND 3) s in
     bnd (intr_loop (unat (v_used_idx_dev (vd s) - v_used_idx (vd s))) s) (\<lambda>_ s.
     release VdiskLock s))"

end
