(* ===== verification/Trap.thy ===== *)
theory Trap
  imports Virtio
begin

text \<open>
  Traps: \<^verbatim>\<open>kernel/trap.c\<close>, \<^verbatim>\<open>kernel/plic.c\<close>, and \<^verbatim>\<open>forkret\<close> of \<^verbatim>\<open>kernel/proc.c\<close>. The supervisor registers are
  fields of the state. \<^verbatim>\<open>usertrapret\<close> ends with a jump to \<^verbatim>\<open>userret\<close>, so its result is the address it
  jumps to with its argument.
\<close>

section \<open>Definitions\<close>

abbreviation SSTATUS_SPP :: u64 where "SSTATUS_SPP \<equiv> 0x100"
abbreviation SSTATUS_SPIE :: u64 where "SSTATUS_SPIE \<equiv> 0x20"
abbreviation SSTATUS_SIE :: u64 where "SSTATUS_SIE \<equiv> 2"
abbreviation UART0_IRQ :: i32 where "UART0_IRQ \<equiv> 10"
abbreviation VIRTIO0_IRQ :: i32 where "VIRTIO0_IRQ \<equiv> 1"
abbreviation PLIC :: u64 where "PLIC \<equiv> 0x0c000000"

text \<open>\<open>plic_in\<close> is what reads of the claim register return, \<open>plic_out\<close> what has been written to the
  registers, \<open>vd_intr\<close> the interrupt status register of the disk. The last fields are addresses of
  code.\<close>

record trap_state = vd_state +
  r_sepc :: u64
  r_scause :: u64
  r_stval :: u64
  r_sstatus :: u64
  r_stvec :: u64
  r_satp :: u64
  r_sip :: u64
  r_tp :: u64
  plic_in :: "u32 list"
  plic_out :: "(u64 \<times> u32) list"
  vd_intr :: u32
  forkret_first :: bool
  kernelvec :: u64
  uservec :: u64
  userret :: u64
  usertrap_addr :: u64

definition cpuid :: "'z trap_state_scheme \<Rightarrow> i32" where
  "cpuid s = ucast (r_tp s)"

definition intr_get :: "'z trap_state_scheme \<Rightarrow> bool" where
  "intr_get s \<longleftrightarrow> held s = [] \<and> r_sstatus s AND SSTATUS_SIE \<noteq> 0"

definition intr_on :: "'z trap_state_scheme \<Rightarrow> 'z trap_state_scheme" where
  "intr_on s = s\<lparr>r_sstatus := r_sstatus s OR SSTATUS_SIE\<rparr>"

definition intr_off :: "'z trap_state_scheme \<Rightarrow> 'z trap_state_scheme" where
  "intr_off s = s\<lparr>r_sstatus := r_sstatus s AND NOT SSTATUS_SIE\<rparr>"

definition MAKE_SATP :: "u64 \<Rightarrow> u64" where
  "MAKE_SATP pagetable = push_bit 60 8 OR drop_bit 12 pagetable"

subsection \<open>plic.c\<close>

definition plic_write :: "u64 \<Rightarrow> u32 \<Rightarrow> 'z trap_state_scheme \<Rightarrow> 'z trap_state_scheme" where
  "plic_write a v s = s\<lparr>plic_out := plic_out s @ [(a, v)]\<rparr>"

definition plicinit :: "'z trap_state_scheme \<Rightarrow> 'z trap_state_scheme" where
  "plicinit s = plic_write (PLIC + 4) 1 (plic_write (PLIC + 40) 1 s)"

definition PLIC_SCLAIM :: "i32 \<Rightarrow> u64" where
  "PLIC_SCLAIM hart = PLIC + 0x201004 + scast hart * 0x2000"

definition plicinithart :: "'z trap_state_scheme \<Rightarrow> 'z trap_state_scheme" where
  "plicinithart s =
     (let hart = cpuid s;
          s = plic_write (PLIC + 0x2080 + scast hart * 0x100) (push_bit 10 1 OR push_bit 1 1) s
      in plic_write (PLIC + 0x201000 + scast hart * 0x2000) 0 s)"

definition plic_claim :: "'z trap_state_scheme \<Rightarrow> i32 \<times> 'z trap_state_scheme" where
  "plic_claim s = (case plic_in s of [] \<Rightarrow> (0, s) | v # vs \<Rightarrow> (v, s\<lparr>plic_in := vs\<rparr>))"

definition plic_complete :: "i32 \<Rightarrow> 'z trap_state_scheme \<Rightarrow> 'z trap_state_scheme" where
  "plic_complete irq s = plic_write (PLIC_SCLAIM (cpuid s)) irq s"

subsection \<open>trap.c\<close>

definition trapinithart :: "'z trap_state_scheme \<Rightarrow> 'z trap_state_scheme" where
  "trapinithart s = s\<lparr>r_stvec := kernelvec s\<rparr>"

definition clockintr :: "'z trap_state_scheme \<Rightarrow> unit res \<times> 'z trap_state_scheme" where
  "clockintr s =
     bnd (acquire TicksLock s) (\<lambda>_ s.
     bnd (wakeup ChTicks (s\<lparr>ticks := ticks s + 1\<rparr>)) (\<lambda>_ s.
     release TicksLock s))"

definition devintr_external :: "'z trap_state_scheme \<Rightarrow> int res \<times> 'z trap_state_scheme" where
  "devintr_external s =
     (let (irq, s) = plic_claim s in
      bnd (if irq = UART0_IRQ then uartintr s
           else if irq = VIRTIO0_IRQ then virtio_disk_intr (vd_intr s) s
           else if irq \<noteq> 0 then printf (cstr ''unexpected interrupt irq=%d\<newline>'') [PInt irq] s
           else (Ret (), s)) (\<lambda>_ s.
      (Ret 1, if irq \<noteq> 0 then plic_complete irq s else s)))"

definition devintr :: "'z trap_state_scheme \<Rightarrow> int res \<times> 'z trap_state_scheme" where
  "devintr s =
     (let scause = r_scause s in
      if scause AND 0x8000000000000000 \<noteq> 0 \<and> scause AND 0xff = 9 then devintr_external s
      else if scause = 0x8000000000000001 then
        bnd (if cpuid s = 0 then clockintr s else (Ret (), s)) (\<lambda>_ s.
        (Ret 2, s\<lparr>r_sip := r_sip s AND NOT 2\<rparr>))
      else (Ret 0, s))"

definition usertrapret :: "'z trap_state_scheme \<Rightarrow> (u64 \<times> u64) res \<times> 'z trap_state_scheme" where
  "usertrapret = myproc (\<lambda>p s.
     let s = intr_off s;
         s = s\<lparr>r_stvec := TRAMPOLINE + (uservec s - trampoline s)\<rparr>;
         s = tf_set p TF_kernel_satp (r_satp s) s;
         s = tf_set p TF_kernel_sp (p_kstack (procs s p) + PGSIZE) s;
         s = tf_set p TF_kernel_trap (usertrap_addr s) s;
         s = tf_set p TF_kernel_hartid (r_tp s) s;
         x = r_sstatus s;
         x = x AND NOT SSTATUS_SPP;
         x = x OR SSTATUS_SPIE;
         s = s\<lparr>r_sstatus := x\<rparr>;
         s = s\<lparr>r_sepc := tf_get p TF_epc s\<rparr>;
         satp = MAKE_SATP (p_pagetable (procs s p))
     in (Ret (TRAMPOLINE + (userret s - trampoline s), satp), s))"

text \<open>The three causes of \<^verbatim>\<open>usertrap\<close>; the result is \<^verbatim>\<open>which_dev\<close>.\<close>

definition usertrap_syscall :: "nat \<Rightarrow> 'z trap_state_scheme \<Rightarrow> int res \<times> 'z trap_state_scheme" where
  "usertrap_syscall p s =
     (let s = setp p (\<lambda>q. q\<lparr>systemcallCount := systemcallCount q + 1\<rparr>) s in
      bnd (killed p s) (\<lambda>k s.
      bnd (if k \<noteq> 0 then exit (- 1) s else (Ret (), s)) (\<lambda>_ s.
      let s = tf_set p TF_epc (tf_get p TF_epc s + 4) s;
          s = intr_on s in
      bnd (syscall s) (\<lambda>_ s. (Ret 0, s)))))"

definition usertrap_unexpected :: "nat \<Rightarrow> 'z trap_state_scheme \<Rightarrow> int res \<times> 'z trap_state_scheme" where
  "usertrap_unexpected p s =
     bnd (printf (cstr ''usertrap(): unexpected scause %p pid=%d\<newline>'') [PPtr (r_scause s), PInt (p_pid (procs s p))] s) (\<lambda>_ s.
     bnd (printf (cstr ''            sepc=%p stval=%p\<newline>'') [PPtr (r_sepc s), PPtr (r_stval s)] s) (\<lambda>_ s.
     bnd (setkilled p s) (\<lambda>_ s. (Ret 0, s))))"

definition usertrap_cause :: "nat \<Rightarrow> 'z trap_state_scheme \<Rightarrow> int res \<times> 'z trap_state_scheme" where
  "usertrap_cause p s =
     (if r_scause s = 8 then usertrap_syscall p s
      else bnd (devintr s) (\<lambda>d s. if d \<noteq> 0 then (Ret d, s) else usertrap_unexpected p s))"

text \<open>What \<^verbatim>\<open>usertrap\<close> does after the cause is handled.\<close>

definition usertrap_end :: "nat \<Rightarrow> int \<Rightarrow> 'z trap_state_scheme \<Rightarrow> (u64 \<times> u64) res \<times> 'z trap_state_scheme" where
  "usertrap_end p which_dev s =
     bnd (killed p s) (\<lambda>k s.
     bnd (if k \<noteq> 0 then exit (- 1) s else (Ret (), s)) (\<lambda>_ s.
     bnd (if which_dev = 2
          then yield (setp p (\<lambda>q. q\<lparr>interruptCount := interruptCount q + 1\<rparr>) s)
          else (Ret (), s)) (\<lambda>_ s.
     usertrapret s)))"

text \<open>\<open>None\<close> when \<^verbatim>\<open>usertrap\<close> returns because there is no process.\<close>

definition usertrap :: "'z trap_state_scheme \<Rightarrow> (u64 \<times> u64) option res \<times> 'z trap_state_scheme" where
  "usertrap s = (case curproc s of
      None \<Rightarrow> (Ret None, s)
    | Some p \<Rightarrow>
        let s = setp p (\<lambda>q. q\<lparr>trapCount := trapCount q + 1\<rparr>) s in
        if r_sstatus s AND SSTATUS_SPP \<noteq> 0 then (Panic ''usertrap: not from user mode'', s)
        else
          let s = s\<lparr>r_stvec := kernelvec s\<rparr>;
              s = tf_set p TF_epc (r_sepc s) s in
          bnd (usertrap_cause p s) (\<lambda>which_dev s.
          bnd (usertrap_end p which_dev s) (\<lambda>r s. (Ret (Some r), s))))"

definition kerneltrap_end :: "u64 \<Rightarrow> u64 \<Rightarrow> 'z trap_state_scheme \<Rightarrow> unit res \<times> 'z trap_state_scheme" where
  "kerneltrap_end sepc sstatus s = (Ret (), s\<lparr>r_sepc := sepc, r_sstatus := sstatus\<rparr>)"

definition kerneltrap_unexpected :: "u64 \<Rightarrow> 'z trap_state_scheme \<Rightarrow> unit res \<times> 'z trap_state_scheme" where
  "kerneltrap_unexpected scause s =
     bnd (printf (cstr ''scause %p\<newline>'') [PPtr scause] s) (\<lambda>_ s.
     bnd (printf (cstr ''sepc=%p stval=%p\<newline>'') [PPtr (r_sepc s), PPtr (r_stval s)] s) (\<lambda>_ s.
     (Panic ''kerneltrap'', s)))"

definition kerneltrap :: "'z trap_state_scheme \<Rightarrow> unit res \<times> 'z trap_state_scheme" where
  "kerneltrap s =
     (let sepc = r_sepc s; sstatus = r_sstatus s; scause = r_scause s in
      if sstatus AND SSTATUS_SPP = 0 then (Panic ''kerneltrap: not from supervisor mode'', s)
      else if intr_get s then (Panic ''kerneltrap: interrupts enabled'', s)
      else
        bnd (devintr s) (\<lambda>which_dev s.
        if which_dev = 0 then kerneltrap_unexpected scause s
        else
          bnd (case curproc s of
                 Some p \<Rightarrow> if which_dev = 2 \<and> p_state (procs s p) = RUNNING then yield s else (Ret (), s)
               | None \<Rightarrow> (Ret (), s)) (\<lambda>_ s.
          kerneltrap_end sepc sstatus s)))"

definition forkret :: "'z trap_state_scheme \<Rightarrow> (u64 \<times> u64) res \<times> 'z trap_state_scheme" where
  "forkret = myproc (\<lambda>p s.
     bnd (release (ProcLock p) s) (\<lambda>_ s.
     bnd (if forkret_first s then fsinit 1 (s\<lparr>forkret_first := False\<rparr>) else (Ret (), s)) (\<lambda>_ s.
     usertrapret s)))"

end
