(* ===== verification/Boot.thy ===== *)
theory Boot
  imports Trap
begin

text \<open>
  Booting: \<^verbatim>\<open>kernel/start.c\<close> in machine mode and \<^verbatim>\<open>kernel/main.c\<close> up to the call of \<^verbatim>\<open>scheduler\<close>.
\<close>

section \<open>start.c\<close>

text \<open>The registers that \<^verbatim>\<open>start\<close> and \<^verbatim>\<open>timerinit\<close> touch, the timer of the CLINT, and \<^verbatim>\<open>timer_scratch\<close>. \<open>main_addr\<close>,
  \<open>timervec_addr\<close> and \<open>scratch_addr\<close> are addresses of code and data.\<close>

record mregs =
  m_mhartid :: u64
  m_mstatus :: u64
  m_mepc :: u64
  m_satp :: u64
  m_medeleg :: u64
  m_mideleg :: u64
  m_sie :: u64
  m_pmpaddr0 :: u64
  m_pmpcfg0 :: u64
  m_mscratch :: u64
  m_mtvec :: u64
  m_mie :: u64
  m_tp :: u64
  clint_mtime :: u64
  clint_mtimecmp :: "i32 \<Rightarrow> u64"
  timer_scratch :: "i32 \<Rightarrow> u64 list"
  main_addr :: u64
  timervec_addr :: u64
  scratch_addr :: u64

definition CLINT_MTIMECMP :: "i32 \<Rightarrow> u64" where
  "CLINT_MTIMECMP hartid = 0x2004000 + 8 * scast hartid"

abbreviation timer_interval :: u64 where "timer_interval \<equiv> 1000000"

definition timerinit :: "mregs \<Rightarrow> mregs" where
  "timerinit r =
     (let id = (ucast (m_mhartid r) :: i32);
          r = r\<lparr>clint_mtimecmp := (clint_mtimecmp r)(id := clint_mtime r + timer_interval)\<rparr>;
          r = r\<lparr>timer_scratch := (timer_scratch r)(id := (timer_scratch r id)[3 := CLINT_MTIMECMP id, 4 := timer_interval])\<rparr>;
          r = r\<lparr>m_mscratch := scratch_addr r + 40 * scast id\<rparr>;
          r = r\<lparr>m_mtvec := timervec_addr r\<rparr>;
          r = r\<lparr>m_mstatus := m_mstatus r OR 8\<rparr>
      in r\<lparr>m_mie := m_mie r OR 0x80\<rparr>)"

definition start :: "mregs \<Rightarrow> mregs" where
  "start r =
     (let r = r\<lparr>m_mstatus := (m_mstatus r AND NOT (push_bit 11 3)) OR push_bit 11 1\<rparr>;
          r = r\<lparr>m_mepc := main_addr r\<rparr>;
          r = r\<lparr>m_satp := 0\<rparr>;
          r = r\<lparr>m_medeleg := 0xffff\<rparr>;
          r = r\<lparr>m_mideleg := 0xffff\<rparr>;
          r = r\<lparr>m_sie := m_sie r OR 0x200 OR 0x20 OR 2\<rparr>;
          r = r\<lparr>m_pmpaddr0 := 0x3fffffffffffff\<rparr>;
          r = r\<lparr>m_pmpcfg0 := 0xf\<rparr>;
          r = timerinit r
      in r\<lparr>m_tp := scast (ucast (m_mhartid r) :: i32)\<rparr>)"

section \<open>main.c\<close>

record boot_state = trap_state +
  started :: bool

definition kvminithart :: "'z trap_state_scheme \<Rightarrow> 'z trap_state_scheme" where
  "kvminithart s = s\<lparr>r_satp := MAKE_SATP (kernel_pagetable s)\<rparr>"

text \<open>\<^verbatim>\<open>main\<close> on the first CPU; \<open>rd\<close> are the registers of the disk.\<close>

definition main_boot :: "(nat \<Rightarrow> u32) \<Rightarrow> 'z boot_state_scheme \<Rightarrow> unit res \<times> 'z boot_state_scheme" where
  "main_boot rd s =
     bnd (consoleinit s) (\<lambda>_ s.
     bnd (printfinit s) (\<lambda>_ s.
     bnd (printf (cstr ''\<newline>'') [] s) (\<lambda>_ s.
     bnd (printf (cstr ''xv6 kernel is booting\<newline>'') [] s) (\<lambda>_ s.
     bnd (printf (cstr ''\<newline>'') [] s) (\<lambda>_ s.
     bnd (kinit s) (\<lambda>_ s.
     bnd (kvminit s) (\<lambda>_ s.
     let s = kvminithart s in
     bnd (procinit s) (\<lambda>_ s.
     let s = trapinithart s;
         s = plicinit s;
         s = plicinithart s in
     bnd (binit s) (\<lambda>_ s.
     bnd (iinit s) (\<lambda>_ s.
     bnd (fileinit s) (\<lambda>_ s.
     bnd (virtio_disk_init rd s) (\<lambda>_ s.
     bnd (userinit s) (\<lambda>_ s.
     (Ret (), s\<lparr>started := True\<rparr>))))))))))))))"

text \<open>\<^verbatim>\<open>main\<close> on the other CPUs spins until the first one is done.\<close>

definition main :: "(nat \<Rightarrow> u32) \<Rightarrow> 'z boot_state_scheme \<Rightarrow> unit res \<times> 'z boot_state_scheme" where
  "main rd s =
     (if cpuid s = 0 then main_boot rd s
      else if \<not> started s then (Hang, s)
      else
        bnd (printf (cstr ''hart %d starting\<newline>'') [PInt (cpuid s)] s) (\<lambda>_ s.
        (Ret (), plicinithart (trapinithart (kvminithart s)))))"

end
