(* ===== verification/Tramp.thy ===== *)
theory Tramp
  imports Boot
begin

text \<open>
  The assembly code: \<^verbatim>\<open>kernel/trampoline.S\<close>, \<^verbatim>\<open>kernel/swtch.S\<close> and \<^verbatim>\<open>kernel/kernelvec.S\<close>. A run of \<^verbatim>\<open>sd\<close> or
  \<^verbatim>\<open>ld\<close> instructions with one base register is a list of registers with their offsets. \<open>tr\<close> is the
  address translation in force, which the page tables give.
\<close>

section \<open>Definitions\<close>

datatype reg = RA | SP | GP | TP | T0 | T1 | T2 | S0 | S1 | A0 | A1 | A2 | A3 | A4 | A5 | A6 | A7
  | S2 | S3 | S4 | S5 | S6 | S7 | S8 | S9 | S10 | S11 | T3 | T4 | T5 | T6

type_synonym regfile = "reg \<Rightarrow> u64"

primrec sds :: "(u64 \<Rightarrow> u64) \<Rightarrow> reg \<Rightarrow> (reg \<times> u64) list \<Rightarrow> regfile \<Rightarrow> memory \<Rightarrow> memory" where
  "sds tr b [] x m = m"
| "sds tr b (c # cs) x m = sds tr b cs x (store64 m (tr (x b + snd c)) (x (fst c)))"

primrec lds :: "(u64 \<Rightarrow> u64) \<Rightarrow> reg \<Rightarrow> (reg \<times> u64) list \<Rightarrow> memory \<Rightarrow> regfile \<Rightarrow> regfile" where
  "lds tr b [] m x = x"
| "lds tr b (c # cs) m x = lds tr b cs m (x(fst c := load64 m (tr (x b + snd c))))"

subsection \<open>trampoline.S\<close>

text \<open>The stores of \<^verbatim>\<open>uservec\<close> into the trapframe, with \<^verbatim>\<open>a0\<close> as base, and the loads of \<^verbatim>\<open>userret\<close>.\<close>

definition tf_slots :: "(reg \<times> u64) list" where
  "tf_slots =
    [(RA, 40), (SP, 48), (GP, 56), (TP, 64), (T0, 72), (T1, 80), (T2, 88), (S0, 96), (S1, 104),
     (A1, 120), (A2, 128), (A3, 136), (A4, 144), (A5, 152), (A6, 160), (A7, 168),
     (S2, 176), (S3, 184), (S4, 192), (S5, 200), (S6, 208), (S7, 216), (S8, 224), (S9, 232), (S10, 240), (S11, 248),
     (T3, 256), (T4, 264), (T5, 272), (T6, 280)]"

definition tf_loads :: "(reg \<times> u64) list" where
  "tf_loads =
    [(RA, 40), (SP, 48), (GP, 56), (TP, 64), (T0, 72), (T1, 80), (T2, 88), (S0, 96), (S1, 104),
     (A1, 120), (A2, 128), (A3, 136), (A4, 144), (A5, 152), (A6, 160), (A7, 168),
     (S2, 176), (S3, 184), (S4, 192), (S5, 200), (S6, 208), (S7, 216), (S8, 224), (S9, 232), (S10, 240), (S11, 248),
     (T3, 256), (T4, 264), (T5, 272), (T6, 280)]"

record hart =
  xregs :: regfile
  h_sscratch :: u64
  h_satp :: u64
  h_pc :: u64
  h_mem :: memory

definition uservec_code :: "(u64 \<Rightarrow> u64) \<Rightarrow> hart \<Rightarrow> hart" where
  "uservec_code tr h =
     (let h = h\<lparr>h_sscratch := xregs h A0\<rparr>;
          h = h\<lparr>xregs := (xregs h)(A0 := TRAPFRAME)\<rparr>;
          h = h\<lparr>h_mem := sds tr A0 tf_slots (xregs h) (h_mem h)\<rparr>;
          h = h\<lparr>xregs := (xregs h)(T0 := h_sscratch h)\<rparr>;
          h = h\<lparr>h_mem := sds tr A0 [(T0, 112)] (xregs h) (h_mem h)\<rparr>;
          h = h\<lparr>xregs := lds tr A0 [(SP, 8), (TP, 32), (T0, 16), (T1, 0)] (h_mem h) (xregs h)\<rparr>
      in h\<lparr>h_satp := xregs h T1, h_pc := xregs h T0\<rparr>)"

text \<open>\<^verbatim>\<open>userret\<close>, entered with the user page table in \<^verbatim>\<open>a0\<close>; \<open>sepc\<close> is the program counter that \<^verbatim>\<open>sret\<close>
  goes to.\<close>

definition userret_code :: "(u64 \<Rightarrow> u64) \<Rightarrow> u64 \<Rightarrow> hart \<Rightarrow> hart" where
  "userret_code tr sepc h =
     (let h = h\<lparr>h_satp := xregs h A0\<rparr>;
          h = h\<lparr>xregs := (xregs h)(A0 := TRAPFRAME)\<rparr>;
          h = h\<lparr>xregs := lds tr A0 tf_loads (h_mem h) (xregs h)\<rparr>;
          h = h\<lparr>xregs := lds tr A0 [(A0, 112)] (h_mem h) (xregs h)\<rparr>
      in h\<lparr>h_pc := sepc\<rparr>)"

subsection \<open>swtch.S\<close>

text \<open>The stores into the old context and the loads from the new one.\<close>

definition ctx_slots :: "(reg \<times> u64) list" where
  "ctx_slots =
    [(RA, 0), (SP, 8), (S0, 16), (S1, 24), (S2, 32), (S3, 40), (S4, 48), (S5, 56), (S6, 64), (S7, 72),
     (S8, 80), (S9, 88), (S10, 96), (S11, 104)]"

definition ctx_loads :: "(reg \<times> u64) list" where
  "ctx_loads =
    [(RA, 0), (SP, 8), (S0, 16), (S1, 24), (S2, 32), (S3, 40), (S4, 48), (S5, 56), (S6, 64), (S7, 72),
     (S8, 80), (S9, 88), (S10, 96), (S11, 104)]"

definition swtch :: "(u64 \<Rightarrow> u64) \<Rightarrow> hart \<Rightarrow> hart" where
  "swtch tr h =
     (let h = h\<lparr>h_mem := sds tr A0 ctx_slots (xregs h) (h_mem h)\<rparr>;
          h = h\<lparr>xregs := lds tr A1 ctx_loads (h_mem h) (xregs h)\<rparr>
      in h\<lparr>h_pc := xregs h RA\<rparr>)"

subsection \<open>kernelvec.S\<close>

definition kv_slots :: "(reg \<times> u64) list" where
  "kv_slots =
    [(RA, 0), (SP, 8), (GP, 16), (TP, 24), (T0, 32), (T1, 40), (T2, 48), (S0, 56), (S1, 64), (A0, 72), (A1, 80),
     (A2, 88), (A3, 96), (A4, 104), (A5, 112), (A6, 120), (A7, 128), (S2, 136), (S3, 144), (S4, 152), (S5, 160),
     (S6, 168), (S7, 176), (S8, 184), (S9, 192), (S10, 200), (S11, 208), (T3, 216), (T4, 224), (T5, 232), (T6, 240)]"

text \<open>\<^verbatim>\<open>tp\<close> is not restored.\<close>

definition kv_loads :: "(reg \<times> u64) list" where
  "kv_loads =
    [(RA, 0), (SP, 8), (GP, 16), (T0, 32), (T1, 40), (T2, 48), (S0, 56), (S1, 64), (A0, 72), (A1, 80),
     (A2, 88), (A3, 96), (A4, 104), (A5, 112), (A6, 120), (A7, 128), (S2, 136), (S3, 144), (S4, 152), (S5, 160),
     (S6, 168), (S7, 176), (S8, 184), (S9, 192), (S10, 200), (S11, 208), (T3, 216), (T4, 224), (T5, 232), (T6, 240)]"

text \<open>\<^verbatim>\<open>kernelvec\<close> before and after the call of \<^verbatim>\<open>kerneltrap\<close>.\<close>

definition kernelvec_enter :: "(u64 \<Rightarrow> u64) \<Rightarrow> hart \<Rightarrow> hart" where
  "kernelvec_enter tr h =
     (let h = h\<lparr>xregs := (xregs h)(SP := xregs h SP - 256)\<rparr>
      in h\<lparr>h_mem := sds tr SP kv_slots (xregs h) (h_mem h)\<rparr>)"

definition kernelvec_leave :: "(u64 \<Rightarrow> u64) \<Rightarrow> u64 \<Rightarrow> hart \<Rightarrow> hart" where
  "kernelvec_leave tr sepc h =
     (let h = h\<lparr>xregs := lds tr SP kv_loads (h_mem h) (xregs h)\<rparr>;
          h = h\<lparr>xregs := (xregs h)(SP := xregs h SP + 256)\<rparr>
      in h\<lparr>h_pc := sepc\<rparr>)"

text \<open>\<^verbatim>\<open>timervec\<close>, in machine mode, where addresses are physical: the registers, \<^verbatim>\<open>mscratch\<close>, \<^verbatim>\<open>sip\<close> and
  memory, in which the timer register of the CLINT lies.\<close>

definition timervec :: "regfile \<times> u64 \<times> u64 \<times> memory \<Rightarrow> regfile \<times> u64 \<times> u64 \<times> memory" where
  "timervec st =
     (let (x, mscratch, sip, m) = st;
          (x, mscratch) = (x(A0 := mscratch), x A0);
          m = sds id A0 [(A1, 0), (A2, 8), (A3, 16)] x m;
          x = lds id A0 [(A1, 24), (A2, 32)] m x;
          x = lds id A1 [(A3, 0)] m x;
          x = x(A3 := x A3 + x A2);
          m = sds id A1 [(A3, 0)] x m;
          x = x(A1 := 2);
          sip = x A1;
          x = lds id A0 [(A3, 16), (A2, 8), (A1, 0)] m x
      in (x(A0 := mscratch), x A0, sip, m))"

end
