(* ===== verification/Kexample.thy ===== *)
theory Kexample
  imports Tramp
begin

text \<open>
  A concrete kernel state, at which the hypotheses of the properties are shown to hold: one process
  runs in slot 0, with two pages of memory and a trapframe.
\<close>

definition kproc0 :: proc where
  "kproc0 = proc0\<lparr>p_state := RUNNING, p_pid := 1, p_pagetable := 0x80001000, p_sz := 8192, p_trapframe := 0x80006000,
     p_kstack := 0x3fffffd000\<rparr>"

definition kern0 :: boot_state where
  "kern0 = \<lparr>held = [], mem = mem1, freelist = 0, kend = 0x80000000,
     procs = (\<lambda>i. if i = 0 then kproc0 else proc0),
     nextpid = 2, curproc = Some 0, initproc = Some 1, kernel_pagetable = 0x80001000, etext = 0x80010000,
     trampoline = 0x8000f000, forkret_addr = 0x80001234,
     slocks = (\<lambda>_. \<lparr>sl_locked = False, sl_pid = 0\<rparr>), bufs = buf0, disk = (\<lambda>_. replicate BSIZE 0), dwrites = [],
     lg = \<lparr>lg_start = 2, lg_size = 30, lg_outstanding = 1, lg_committing = False, lg_dev = 1,
       lg_lh = \<lparr>lh_n = 0, lh_block = replicate LOGSIZE 0\<rparr>\<rparr>,
     uart_tx_buf = replicate UART_TX_BUF_SIZE 0, uart_tx_w = 0, uart_tx_r = 0, uart_lsr = [], uart_rhr = [],
     uart_out = [], panicked = False, pr_locking = True,
     sb = \<lparr>sb_magic = FSMAGIC, sb_size = 2000, sb_nblocks = 1954, sb_ninodes = 200, sb_nlog = 30, sb_logstart = 2,
       sb_inodestart = 32, sb_bmapstart = 45\<rparr>,
     itable = (\<lambda>_. \<lparr>i_dev = 0, i_inum = 0, i_ref = 0, i_valid = False, i_type = 0, i_major = 0, i_minor = 0,
       i_nlink = 0, i_size = 0, i_addrs = replicate 13 0\<rparr>),
     junk = (\<lambda>_. 0),
     cons = \<lparr>c_buf = replicate INPUT_BUF_SIZE 0, c_r = 0, c_w = 0, c_e = 0\<rparr>, devsw = (\<lambda>_. None),
     pipes = (\<lambda>_. \<lparr>pi_data = replicate PIPESIZE 0, pi_nread = 0, pi_nwrite = 0, pi_readopen = True, pi_writeopen = True\<rparr>),
     ftable = (\<lambda>_. \<lparr>f_type = FD_NONE, f_ref = 0, f_readable = False, f_writable = False, f_pipe = 0, f_ip = None,
       f_off = 0, f_major = 0\<rparr>),
     ticks = 0,
     vd = \<lparr>v_desc = (\<lambda>_. zero_desc), v_avail_idx = 0, v_avail_ring = (\<lambda>_. 0), v_used_idx_dev = 0, v_used_ring = (\<lambda>_. 0),
       v_free = (\<lambda>_. True), v_used_idx = 0, v_info_b = (\<lambda>_. None), v_info_status = (\<lambda>_. 0),
       v_ops = (\<lambda>_. \<lparr>rq_type = 0, rq_reserved = 0, rq_sector = 0\<rparr>), v_busy = (\<lambda>_. False), v_pages = (0, 0, 0), v_mmio = []\<rparr>,
     r_sepc = 0, r_scause = 8, r_stval = 0, r_sstatus = 0, r_stvec = 0, r_satp = 0, r_sip = 0, r_tp = 0,
     plic_in = [], plic_out = [], vd_intr = 0, forkret_first = False,
     kernelvec = 0x80005000, uservec = 0x8000f000, userret = 0x8000f09c, usertrap_addr = 0x80002000,
     started = True\<rparr>"

lemma kern0_fields [simp]:
  "held kern0 = []" "mem kern0 = mem1" "curproc kern0 = Some 0" "procs kern0 = (\<lambda>i. if i = 0 then kproc0 else proc0)"
  "initproc kern0 = Some 1"
  "ticks kern0 = 0" "v_free (vd kern0) i" "freelist kern0 = 0"
  by (simp_all add: kern0_def)

lemma kproc0_fields [simp]:
  "p_pagetable kproc0 = 0x80001000" "p_killed kproc0 = 0" "p_state kproc0 = RUNNING" "p_pid kproc0 = 1" "p_sz kproc0 = 8192"
  "p_trapframe kproc0 = 0x80006000" "p_parent kproc0 = None" "p_ofile kproc0 = replicate 16 None"
  by (simp_all add: kproc0_def proc0_def)

lemma mem1_ok: "pt_ok mem1 0x80001000 0x80000000 []" and mem1_user: "user_ok mem1 0x80001000"
  using kmem1_ok kmem1_user by (simp_all add: kmem1_def)

lemma mem1_mapped:
  assumes "unat va < 8192"
  shows "upage mem1 0x80001000 va \<noteq> 0"
proof -
  have "unat va div 4096 = 0 \<or> unat va div 4096 = 1" using assms by linarith
  moreover have "va < MAXVA" using assms by (simp add: word_less_nat_alt)
  ultimately show ?thesis using assms by (auto simp: mem1_upage px_nat)
qed

lemma mem1_range:
  assumes "unat va + n \<le> 8192"
  shows "range_mapped mem1 0x80001000 va n"
  unfolding range_mapped_def
proof (intro allI impI mem1_mapped)
  fix i assume "i < n"
  then have "unat va + i < 2 ^ 64" using assms by simp
  then show "unat (va + of_nat i) < 8192" using unat_add_nat [of va i] \<open>i < n\<close> assms by simp
qed

end
