(* ===== verification/Ring.thy ===== *)
theory Ring
  imports Prelude
begin

text \<open>
  Ring buffers as the kernel uses them for pipes, console input and UART output: an array of \<open>N\<close>
  entries and two free-running word counters, reduced modulo \<open>N\<close> only to index the array. The laws
  hold across the wrap-around of the counters because \<open>N\<close> divides the range of the counter.
\<close>

definition ring_items :: "nat \<Rightarrow> 'b list \<Rightarrow> 'a::len word \<Rightarrow> 'a word \<Rightarrow> 'b list" where
  "ring_items N buf r w = map (\<lambda>i. buf ! (unat (r + of_nat i) mod N)) [0..<unat (w - r)]"

lemma length_ring_items [simp]: "length (ring_items N buf r w) = unat (w - r)"
  by (simp add: ring_items_def)

locale ring_size =
  fixes N :: nat and W :: "'a::len itself"
  assumes N_pos: "0 < N" and N_dvd: "N dvd 2 ^ LENGTH('a)" and N_less: "N < 2 ^ LENGTH('a)"
begin

lemma index_add: "unat (r + of_nat i :: 'a word) mod N = (unat r + i) mod N"
proof -
  have "unat (r + of_nat i :: 'a word) = (unat r + i) mod 2 ^ LENGTH('a)"
    by (simp add: unat_word_ariths unat_of_nat mod_simps)
  then show ?thesis using N_dvd by (simp add: mod_mod_cancel)
qed

lemma index_inj:
  assumes "i < k" and "k < N"
  shows "(n + i) mod N \<noteq> (n + k) mod N"
proof
  assume "(n + i) mod N = (n + k) mod N"
  then have "N dvd (n + k) - (n + i)" using assms by (intro mod_eq_dvd_iff_nat [THEN iffD1]) simp_all
  then have "N dvd k - i" by simp
  then show False using assms by (auto dest: dvd_imp_le)
qed

lemma count_Suc:
  assumes "unat (w - r :: 'a word) < N"
  shows "unat (w + 1 - r) = Suc (unat (w - r))"
proof -
  have "unat (w - r + 1) = Suc (unat (w - r))"
    using assms N_less by (simp add: unat_word_ariths)
  then show ?thesis by (simp add: algebra_simps)
qed

text \<open>Storing an entry when there is room appends it.\<close>

lemma put:
  assumes "unat (w - r :: 'a word) < N" and "length buf = N"
  shows "ring_items N (buf[unat w mod N := c]) r (w + 1) = ring_items N buf r w @ [c]"
proof (rule nth_equalityI)
  let ?k = "unat (w - r)"
  have w: "w = r + of_nat ?k" by simp
  have wi: "unat w mod N = (unat r + ?k) mod N" using index_add [of r ?k] by simp
  show "length (ring_items N (buf[unat w mod N := c]) r (w + 1)) = length (ring_items N buf r w @ [c])"
    using count_Suc [OF assms(1)] by simp
  fix i assume "i < length (ring_items N (buf[unat w mod N := c]) r (w + 1))"
  then have i: "i < Suc ?k" using count_Suc [OF assms(1)] by simp
  have "(unat r + i) mod N < length buf" using N_pos assms(2) by simp
  then show "ring_items N (buf[unat w mod N := c]) r (w + 1) ! i = (ring_items N buf r w @ [c]) ! i"
    using i index_inj [of i ?k "unat r"] assms(1) count_Suc [OF assms(1)] wi
    by (auto simp: ring_items_def index_add nth_append less_Suc_eq simp del: upt_Suc)
qed

text \<open>The entry at the read counter is the oldest, and advancing the counter drops it.\<close>

lemma get:
  assumes "r \<noteq> (w :: 'a word)"
  shows "ring_items N buf r w = buf ! (unat r mod N) # ring_items N buf (r + 1) w"
proof -
  have nz: "w - r \<noteq> 0" using assms by simp
  then have k: "unat (w - r) = Suc (unat (w - (r + 1)))"
    using unat_minus_one [OF nz] unat_gt_0 [of "w - r"] by (simp add: algebra_simps)
  have "ring_items N buf r w = map (\<lambda>i. buf ! ((unat r + i) mod N)) [0..<Suc (unat (w - (r + 1)))]"
    unfolding ring_items_def by (simp only: k index_add)
  also have "\<dots> = buf ! (unat r mod N) # map (\<lambda>i. buf ! ((unat r + Suc i) mod N)) [0..<unat (w - (r + 1))]"
    by (simp add: upt_conv_Cons map_Suc_upt [symmetric] del: upt_Suc map_Suc_upt)
  also have "map (\<lambda>i. buf ! ((unat r + Suc i) mod N)) [0..<unat (w - (r + 1))] = ring_items N buf (r + 1) w"
    using index_add [of r "Suc _"] by (simp add: ring_items_def add.assoc [symmetric])
  finally show ?thesis .
qed

lemma get_bound: "r \<noteq> (w :: 'a word) \<Longrightarrow> unat (w - (r + 1)) < unat (w - r)"
  using arg_cong [OF get [of r w "[]"], of length] by simp

text \<open>Taking the last entry back, as line editing does.\<close>

lemma unput:
  assumes "r \<noteq> (w :: 'a word)"
  shows "ring_items N buf r (w - 1) = butlast (ring_items N buf r w)"
proof -
  have nz: "w - r \<noteq> 0" using assms by simp
  then have "unat (w - 1 - r) = unat (w - r) - 1"
    using unat_minus_one [OF nz] by (simp add: algebra_simps)
  moreover have "butlast [0..<n] = [0..<n - 1]" for n by (cases n) simp_all
  ultimately show ?thesis by (simp add: ring_items_def map_butlast [symmetric])
qed

lemma split:
  assumes "unat (w - r :: 'a word) + unat (e - w) \<le> N"
  shows "ring_items N buf r e = ring_items N buf r w @ ring_items N buf w e"
    and "unat (e - r) = unat (w - r) + unat (e - w)"
proof -
  let ?k = "unat (w - r)"
  have "unat (x + y) = unat x + unat y" if "unat x + unat y \<le> N" for x y :: "'a word"
    using that N_less by (simp add: unat_word_ariths)
  from this [OF assms] show len: "unat (e - r) = unat (w - r) + unat (e - w)" by simp
  have "unat w mod N = (unat r + ?k) mod N" using index_add [of r ?k] by simp
  then have "(unat r + (?k + i)) mod N = (unat w + i) mod N" for i by (metis add.assoc mod_add_left_eq)
  then show "ring_items N buf r e = ring_items N buf r w @ ring_items N buf w e"
    unfolding ring_items_def len upt_add_eq_append [OF le0] map_append
    by (simp add: index_add map_add_upt [symmetric] add.commute)
qed

text \<open>Storing behind \<open>e\<close> leaves the entries before \<open>w\<close> alone.\<close>

lemma split_put:
  assumes "unat (w - r :: 'a word) + unat (e - w) < N" and "length buf = N"
  shows "ring_items N (buf[unat e mod N := c]) r w = ring_items N buf r w"
    and "ring_items N (buf[unat e mod N := c]) w (e + 1) = ring_items N buf w e @ [c]"
    and "unat (e + 1 - w) = Suc (unat (e - w))"
proof -
  let ?b = "buf[unat e mod N := c]"
  show 3: "unat (e + 1 - w) = Suc (unat (e - w))" using assms(1) by (intro count_Suc) simp
  have lt: "unat (e - r) < N" using assms(1) split(2) [of w r e] by simp
  have "ring_items N ?b r w @ ring_items N ?b w (e + 1) = ring_items N buf r w @ ring_items N buf w e @ [c]"
    using put [OF lt assms(2), of c] split(1) [of w r e buf] split(1) [of w r "e + 1" ?b] 3 assms(1) by simp
  then show "ring_items N ?b r w = ring_items N buf r w" and "ring_items N ?b w (e + 1) = ring_items N buf w e @ [c]"
    by (simp_all add: append_eq_append_conv)
qed

lemma full_iff:
  assumes "unat (w - r :: 'a word) \<le> N"
  shows "w = r + of_nat N \<longleftrightarrow> unat (w - r) = N"
proof
  assume "unat (w - r) = N"
  moreover have "(of_nat (unat (w - r)) :: 'a word) = w - r" by simp
  ultimately have "w - r = of_nat N" by simp
  then show "w = r + of_nat N" by (simp add: algebra_simps)
qed (use N_less in \<open>simp add: unat_of_nat\<close>)

end

lemma ring_items_empty [simp]: "ring_items N buf r r = []"
  by (simp add: ring_items_def)

interpretation pipe_ring: ring_size 512 "TYPE(32)"
  by unfold_locales (simp_all add: dvd_def)

interpretation cons_ring: ring_size 128 "TYPE(32)"
  by unfold_locales (simp_all add: dvd_def)

interpretation uart_ring: ring_size 32 "TYPE(64)"
  by unfold_locales (simp_all add: dvd_def)

end
