(* ===== verification/Pipering.thy ===== *)
theory Pipering
  imports Kexample Ring
begin

text \<open>
  What a pipe promises: it is a queue of at most \<open>PIPESIZE\<close> bytes.
\<close>

section \<open>The queue of a pipe\<close>

definition pipe_bytes :: "pipe \<Rightarrow> u8 list" where
  "pipe_bytes q = ring_items PIPESIZE (pi_data q) (pi_nread q) (pi_nwrite q)"

definition pipe_wf :: "pipe \<Rightarrow> bool" where
  "pipe_wf q \<longleftrightarrow> length (pi_data q) = PIPESIZE \<and> unat (pi_nwrite q - pi_nread q) \<le> PIPESIZE"

definition pipe_room :: "pipe \<Rightarrow> nat" where
  "pipe_room q = PIPESIZE - length (pipe_bytes q)"

lemma length_pipe_bytes [simp]: "length (pipe_bytes q) = unat (pi_nwrite q - pi_nread q)"
  by (simp add: pipe_bytes_def)

lemma pipe_full_room: "pipe_wf q \<Longrightarrow> pipe_full q \<longleftrightarrow> pipe_room q = 0"
  using pipe_ring.full_iff [of "pi_nwrite q" "pi_nread q"] by (auto simp: pipe_wf_def pipe_full_def pipe_room_def)

lemma pipe_empty_bytes: "pipe_empty q \<longleftrightarrow> pipe_bytes q = []"
  by (simp add: pipe_empty_def flip: length_0_conv) (auto simp: unat_eq_zero)

lemma pipe_put_bytes:
  assumes "pipe_wf q" and "pipe_room q \<noteq> 0"
  shows "pipe_bytes (pipe_put c q) = pipe_bytes q @ [c]" and "pipe_wf (pipe_put c q)"
    and "pipe_room (pipe_put c q) = pipe_room q - 1"
proof -
  have lt: "unat (pi_nwrite q - pi_nread q) < PIPESIZE" using assms by (simp add: pipe_wf_def pipe_room_def)
  note len = pipe_ring.count_Suc [OF lt]
  show b: "pipe_bytes (pipe_put c q) = pipe_bytes q @ [c]"
    using pipe_ring.put [OF lt, of "pi_data q" c] assms(1) by (simp add: pipe_bytes_def pipe_put_def pipe_wf_def)
  show "pipe_wf (pipe_put c q)" using assms(1) lt len by (simp add: pipe_wf_def pipe_put_def)
  show "pipe_room (pipe_put c q) = pipe_room q - 1"
    unfolding pipe_room_def b by simp
qed

lemma pipe_get_bytes:
  assumes "pipe_wf q" and "\<not> pipe_empty q"
  defines "q' \<equiv> q\<lparr>pi_nread := pi_nread q + 1\<rparr>"
  shows "pipe_bytes q = pipe_get q # pipe_bytes q'" and "pipe_wf q'"
proof -
  have ne: "pi_nread q \<noteq> pi_nwrite q" using assms(2) by (simp add: pipe_empty_def)
  show "pipe_bytes q = pipe_get q # pipe_bytes q'"
    using pipe_ring.get [OF ne, of "pi_data q"] by (simp add: pipe_bytes_def pipe_get_def q'_def)
  show "pipe_wf q'" using pipe_ring.get_bound [OF ne] assms(1) by (simp add: pipe_wf_def q'_def)
qed

definition pipe_puts :: "u8 list \<Rightarrow> pipe \<Rightarrow> pipe" where
  "pipe_puts bs q = foldl (\<lambda>q c. pipe_put c q) q bs"

lemma pipe_puts_simps [simp]:
  "pipe_puts [] = (\<lambda>q. q)" "pipe_puts (c # bs) = (\<lambda>q. pipe_puts bs (pipe_put c q))"
  by (simp_all add: pipe_puts_def fun_eq_iff)

lemma pipe_puts_bytes:
  "pipe_wf q \<Longrightarrow> length bs \<le> pipe_room q \<Longrightarrow>
     pipe_bytes (pipe_puts bs q) = pipe_bytes q @ bs \<and> pipe_wf (pipe_puts bs q)"
proof (induction bs arbitrary: q)
  case (Cons c bs)
  then have "pipe_room q \<noteq> 0" by auto
  note put = pipe_put_bytes [OF Cons.prems(1) this]
  show ?case using Cons.IH [OF put(2)] put Cons.prems(2) by simp
qed simp

lemma pipe_puts_open [simp]: "pi_readopen (pipe_put c q) = pi_readopen q" "pi_writeopen (pipe_put c q) = pi_writeopen q"
  by (simp_all add: pipe_put_def)

lemma setpi_fields [simp]:
  "held (setpi a f s) = held s" "curproc (setpi a f s) = curproc s" "mem (setpi a f s) = mem s"
  "procs (setpi a f s) = procs s" "pipes (setpi a f s) = (pipes s)(a := f (pipes s a))"
  by (simp_all add: setpi_def)

lemma setp_pipes [simp]: "pipes (setp p f s) = pipes s"
  by (simp add: setp_def)

lemma setpi_setpi [simp]: "setpi a f (setpi a g s) = setpi a (\<lambda>q. f (g q)) s"
  by (simp add: setpi_def)

lemma setpi_id: "setpi a (\<lambda>q. q) s = s"
  by (simp add: setpi_def)

section \<open>Writing\<close>

text \<open>The sleep of a writer that finds the pipe full.\<close>

definition pipe_block :: "nat \<Rightarrow> u64 \<Rightarrow> 'z pipe_state_scheme \<Rightarrow> 'z pipe_state_scheme" where
  "pipe_block p a s = setp p (put_asleep (ChPipeW a)) ((wake_all (ChPipeR a) s)\<lparr>held := [ProcLock p]\<rparr>)"

text \<open>\<open>p\<close> runs in the pipe code, alive, with the pipe's lock and a reader at the other end.\<close>

definition pipe_writer :: "nat \<Rightarrow> u64 \<Rightarrow> 'z pipe_state_scheme \<Rightarrow> bool" where
  "pipe_writer p a s \<longleftrightarrow> curproc s = Some p \<and> held s = [PipeLock a] \<and> p_killed (procs s p) = 0 \<and>
     pi_readopen (pipes s a)"

lemma pipe_block_spec:
  assumes "pipe_writer p a s"
  shows "bnd (wakeup (ChPipeR a) s) (\<lambda>_ s. bnd (sleep (ChPipeW a) (PipeLock a) s) (\<lambda>_ s. (Swtch, s))) =
    (Swtch, pipe_block p a s)"
proof -
  have "no_plock s" using assms by (simp add: pipe_writer_def no_plock_def)
  moreover have "sleep (ChPipeW a) (PipeLock a) (wake_all (ChPipeR a) s) = (Swtch, pipe_block p a s)"
    using assms sleep_spec [of "wake_all (ChPipeR a) s" p "PipeLock a" "[]" "ChPipeW a"]
    by (simp add: pipe_writer_def wake_all_def pipe_block_def)
  ultimately show ?thesis by (simp add: wakeup_wake_all)
qed

lemma unat_ucast32 [simp]: "unat (ucast (i :: u32) :: u64) = unat i"
proof -
  have "unat i < 2 ^ LENGTH(32)" by (rule unsigned_less)
  then have "unat i < 2 ^ 64" by simp
  then show ?thesis by (simp add: unsigned_ucast_eq take_bit_nat_eq_self)
qed

lemma ucast_Suc32: "unat (i :: u32) + 1 < 2 ^ 32 \<Longrightarrow> (ucast (i + 1) :: u64) = ucast i + 1"
  by (simp add: word_unat_eq_iff unat_ucast32 unat_word_ariths)

lemma pipewrite_loop_spec:
  fixes addr :: u64
  assumes "pipe_writer p a s" and "pt_ok (mem s) (p_pagetable (procs s p)) e ps" and "0 < e"
    and "pipe_wf (pipes s a)" and "unat i + k < 2 ^ 32"
  defines "bs \<equiv> snd (uread (mem s) (p_pagetable (procs s p)) (addr + ucast i) k)"
  defines "room \<equiv> pipe_room (pipes s a)"
  shows "pipewrite_loop p a addr i k s =
    (if k \<le> room \<or> length bs < room then (Ret (Some (i + of_nat (length bs))), setpi a (pipe_puts bs) s)
     else (Swtch, pipe_block p a (setpi a (pipe_puts (take room bs)) s)))"
  using assms(1-5) unfolding bs_def room_def
proof (induction k arbitrary: i s)
  case 0
  then show ?case by (simp add: setpi_id)
next
  case (Suc k)
  let ?q = "pipes s a" and ?pt = "p_pagetable (procs s p)"
  let ?b = "ubyte (mem s) ?pt (addr + ucast i)" and ?s = "setpi a (pipe_put (ubyte (mem s) ?pt (addr + ucast i))) s"
  note w = Suc.prems(1) [unfolded pipe_writer_def]
  have killed: "killed p s = (Ret 0, s)" using w by (simp add: killed_spec)
  have step: "pipewrite_loop p a addr i (Suc k) s =
      (if pipe_room ?q = 0 then (Swtch, pipe_block p a s)
       else if upage (mem s) ?pt (addr + ucast i) = 0 then (Ret (Some i), s)
       else pipewrite_loop p a addr (i + 1) k ?s)"
    using w killed pipe_full_room [OF Suc.prems(4)] copyin_uread [OF Suc.prems(2,3), of "addr + ucast i" 1]
    by (simp add: pipe_block_spec [OF Suc.prems(1)])
  have next_addr: "addr + ucast (i + 1) = addr + ucast i + 1" using Suc.prems(5) by (simp add: ucast_Suc32)
  show ?case
  proof (cases "pipe_room ?q = 0 \<or> upage (mem s) ?pt (addr + ucast i) = 0")
    case True
    then show ?thesis using step by (auto simp: setpi_id)
  next
    case False
    then have room: "pipe_room ?q \<noteq> 0" and up: "upage (mem s) ?pt (addr + ucast i) \<noteq> 0" by auto
    note put = pipe_put_bytes [OF Suc.prems(4) room, of ?b]
    have "unat (i + 1) = unat i + 1" using Suc.prems(5) by (simp add: unat_word_ariths)
    then have "pipewrite_loop p a addr (i + 1) k ?s =
      (let bs = snd (uread (mem s) ?pt (addr + ucast i + 1) k) in
       if k \<le> pipe_room ?q - 1 \<or> length bs < pipe_room ?q - 1
       then (Ret (Some (i + 1 + of_nat (length bs))), setpi a (pipe_puts bs) ?s)
       else (Swtch, pipe_block p a (setpi a (pipe_puts (take (pipe_room ?q - 1) bs)) ?s)))"
      using Suc.IH [of ?s "i + 1"] Suc.prems put w by (simp add: pipe_writer_def next_addr Let_def)
    then show ?thesis using step room up by (cases "pipe_room ?q") (auto simp: Let_def add.assoc simp del: pipewrite_loop.simps)
  qed
qed

section \<open>Reading\<close>

lemma copyout_byte:
  assumes "pt_ok (mem s) pt e ps" and "0 < e" and "user_ok (mem s) pt"
  shows "copyout pt va [c] s =
    (if upage (mem s) pt va = 0 then (Ret (- 1), s) else (Ret 0, s\<lparr>mem := ustore (mem s) pt va [c]\<rparr>))"
    and "upage (mem s) pt va \<noteq> 0 \<Longrightarrow> uwritten pt e ps s (s\<lparr>mem := ustore (mem s) pt va [c]\<rparr>) va [c]"
proof -
  have can: "can_store (mem s) pt e ps va 1" if "upage (mem s) pt va \<noteq> 0"
    using assms that mod_less_divisor [of 4096 "unat va"] by (simp add: can_store_def)
  then show "upage (mem s) pt va \<noteq> 0 \<Longrightarrow> uwritten pt e ps s (s\<lparr>mem := ustore (mem s) pt va [c]\<rparr>) va [c]"
    using uwritten_ustore [of s pt e ps va "[c]"] by simp
  have "0 < page_chunk va (Suc 0)" "page_chunk va (Suc 0) \<le> Suc 0" by simp_all
  then have "page_chunk va (Suc 0) = Suc 0" by linarith
  then show "copyout pt va [c] s =
    (if upage (mem s) pt va = 0 then (Ret (- 1), s) else (Ret 0, s\<lparr>mem := ustore (mem s) pt va [c]\<rparr>))"
    using walkaddr_upage [OF assms(1,2), of "PGROUNDDOWN va"]
    by (simp add: copyout.simps [of pt va] upage_page Let_def ustore_def offset_of)
qed

text \<open>\<open>j\<close> bytes of the queue \<open>ds\<close> have been delivered at \<open>va\<close>, and \<open>m\<close> taken out.\<close>

definition pipe_taken :: "u64 \<Rightarrow> u64 \<Rightarrow> u64 list \<Rightarrow> u64 \<Rightarrow> u64 \<Rightarrow> 'z pipe_state_scheme \<Rightarrow> 'z pipe_state_scheme \<Rightarrow> u8 list \<Rightarrow> nat \<Rightarrow> bool" where
  "pipe_taken pt e ps a va s s' ds m \<longleftrightarrow>
     uwritten pt e ps s (s'\<lparr>pipes := pipes s\<rparr>) va ds \<and>
     pipes s' = (pipes s)(a := (pipes s a)\<lparr>pi_nread := pi_nread (pipes s a) + of_nat m\<rparr>)"

lemma uwritten_pipes:
  "uwritten pt e ps s s' va ds \<Longrightarrow> uwritten pt e ps (s\<lparr>pipes := P\<rparr>) (s'\<lparr>pipes := P\<rparr>) va ds"
  unfolding uwritten_def by (cases s; cases s') simp

lemma pipe_taken_Cons:
  assumes ok: "pt_ok (mem s) pt e ps" "0 < e" "user_ok (mem s) pt" and up: "upage (mem s) pt va \<noteq> 0"
    and va: "unat va + 1 < 2 ^ 64"
    and t: "pipe_taken pt e ps a (va + 1) ((setpi a (\<lambda>q. q\<lparr>pi_nread := pi_nread q + 1\<rparr>) s)\<lparr>mem := ustore (mem s) pt va [c]\<rparr>) s' ds m"
  shows "pipe_taken pt e ps a va s s' (c # ds) (Suc m)"
proof -
  let ?s = "s\<lparr>mem := ustore (mem s) pt va [c]\<rparr>"
  have 1: "uwritten pt e ps s ?s va [c]" using copyout_byte(2) [OF ok up] .
  have "uwritten pt e ps ?s (s'\<lparr>pipes := pipes s\<rparr>) (va + 1) ds"
    using t uwritten_pipes [of pt e ps _ _ "va + 1" ds "pipes s"] by (fastforce simp: pipe_taken_def setpi_def)
  moreover have "unat (va + 1) = unat va + 1" using va by (simp add: unat_word_ariths)
  ultimately have "uwritten pt e ps s (s'\<lparr>pipes := pipes s\<rparr>) va ([c] @ ds)"
    using uwritten_trans [OF 1] by simp
  then show ?thesis using t by (simp add: pipe_taken_def setpi_def algebra_simps)
qed

text \<open>The outcome of reading up to \<open>k\<close> bytes of the pipe to \<open>va\<close>: \<open>j\<close> bytes are delivered, the oldest first,
  and \<open>m\<close> are gone from the pipe. These are the same unless the copy to \<open>va + j\<close> fails, when one more
  byte is gone.\<close>

definition pipe_delivered :: "u64 \<Rightarrow> u64 \<Rightarrow> u64 list \<Rightarrow> u64 \<Rightarrow> u64 \<Rightarrow> nat \<Rightarrow> 'z pipe_state_scheme \<Rightarrow> nat \<Rightarrow> 'z pipe_state_scheme \<Rightarrow> bool" where
  "pipe_delivered pt e ps a va k s j s' \<longleftrightarrow> (\<exists>m. j \<le> m \<and> m \<le> min k (length (pipe_bytes (pipes s a))) \<and>
     pipe_taken pt e ps a va s s' (take j (pipe_bytes (pipes s a))) m \<and> range_mapped (mem s) pt va j \<and>
     pipe_bytes (pipes s' a) = drop m (pipe_bytes (pipes s a)) \<and> pipe_wf (pipes s' a) \<and>
     (if m = j then j = min k (length (pipe_bytes (pipes s a)))
      else m = Suc j \<and> upage (mem s) pt (va + of_nat j) = 0))"

lemma pipe_delivered_none:
  assumes "pt_ok (mem s) pt e ps" and "user_ok (mem s) pt" and "pipe_wf (pipes s a)" and "k = 0 \<or> pipe_empty (pipes s a)"
  shows "pipe_delivered pt e ps a va k s 0 s"
proof -
  have "min k (length (pipe_bytes (pipes s a))) = 0" using assms(4) by (auto simp: pipe_empty_def)
  moreover have "pipe_taken pt e ps a va s s [] 0" using uwritten_Nil [OF assms(1,2)] by (simp add: pipe_taken_def)
  ultimately show ?thesis unfolding pipe_delivered_def using assms(3) by (intro exI [of _ 0]) (simp add: range_mapped_def)
qed

lemma pipe_delivered_Suc:
  assumes "pt_ok (mem s) pt e ps" and "0 < e" and "user_ok (mem s) pt" and up: "upage (mem s) pt va \<noteq> 0"
    and "unat va + 1 < 2 ^ 64" and wf: "pipe_wf (pipes s a)" and ne: "\<not> pipe_empty (pipes s a)"
    and d: "pipe_delivered pt e ps a (va + 1) k ((setpi a (\<lambda>q. q\<lparr>pi_nread := pi_nread q + 1\<rparr>) s)
      \<lparr>mem := ustore (mem s) pt va [pipe_get (pipes s a)]\<rparr>) j s'"
  shows "pipe_delivered pt e ps a va (Suc k) s (Suc j) s'"
proof -
  let ?c = "pipe_get (pipes s a)"
  define ds where "ds = pipe_bytes ((pipes s a)\<lparr>pi_nread := pi_nread (pipes s a) + 1\<rparr>)"
  have st: "can_store (mem s) pt e ps va (length [?c])"
    using assms(1,3) up mod_less_divisor [of 4096 "unat va"] by (simp add: can_store_def)
  have s2: "pipe_bytes (pipes ((setpi a (\<lambda>q. q\<lparr>pi_nread := pi_nread q + 1\<rparr>) s)\<lparr>mem := M\<rparr>) a) = ds"
    "mem ((setpi a (\<lambda>q. q\<lparr>pi_nread := pi_nread q + 1\<rparr>) s)\<lparr>mem := M\<rparr>) = M" for M
    by (simp_all add: ds_def)
  have get: "pipe_bytes (pipes s a) = ?c # ds" using pipe_get_bytes(1) [OF wf ne] by (simp add: ds_def)
  obtain m where m: "j \<le> m" "m \<le> min k (length ds)" "pipe_bytes (pipes s' a) = drop m ds" "pipe_wf (pipes s' a)"
      "if m = j then j = min k (length ds) else m = Suc j \<and> upage (mem s) pt (va + 1 + of_nat j) = 0"
      "range_mapped (mem s) pt (va + 1) j"
    and t: "pipe_taken pt e ps a (va + 1) ((setpi a (\<lambda>q. q\<lparr>pi_nread := pi_nread q + 1\<rparr>) s)
      \<lparr>mem := ustore (mem s) pt va [?c]\<rparr>) s' (take j ds) m"
    using d unfolding pipe_delivered_def range_mapped_def by (elim exE conjE) (simp only: s2 user_store_upage [OF st])
  have "pipe_taken pt e ps a va s s' (?c # take j ds) (Suc m)" by (rule pipe_taken_Cons [OF assms(1-5) t])
  moreover have "range_mapped (mem s) pt va (Suc j)"
    using m(6) up by (simp add: range_mapped_def All_less_Suc2 algebra_simps)
  ultimately show ?thesis
    unfolding pipe_delivered_def get using m(1-5)
    by (intro exI [of _ "Suc m"]) (simp add: algebra_simps split: if_splits)
qed

lemma piperead_loop_spec:
  assumes "pt_ok (mem s) pt e ps" and "0 < e" and "user_ok (mem s) pt" and "p_pagetable (procs s p) = pt"
    and "pipe_wf (pipes s a)" and "unat i + k < 2 ^ 32" and "unat (addr + ucast i) + k \<le> 274877906944"
  shows "ok (piperead_loop p a addr i k s) (\<lambda>r s'. \<exists>j. r = i + of_nat j \<and> pipe_delivered pt e ps a (addr + ucast i) k s j s')"
  using assms
proof (induction k arbitrary: i s)
  case 0
  then show ?case using pipe_delivered_none [of s pt e ps a 0 "addr + ucast i"] by (auto intro!: exI [of _ 0])
next
  case (Suc k)
  let ?q = "pipes s a" and ?va = "addr + ucast i"
  let ?s1 = "setpi a (\<lambda>q. q\<lparr>pi_nread := pi_nread q + 1\<rparr>) s"
  let ?s2 = "?s1\<lparr>mem := ustore (mem s) pt ?va [pipe_get ?q]\<rparr>"
  show ?case
  proof (cases "pipe_empty ?q")
    case True
    then show ?thesis using Suc.prems pipe_delivered_none [of s pt e ps a "Suc k" ?va] by (auto intro!: exI [of _ 0])
  next
    case False
    note get = pipe_get_bytes [OF Suc.prems(5) False]
    have co: "copyout pt ?va [pipe_get ?q] ?s1 = (if upage (mem s) pt ?va = 0 then (Ret (- 1), ?s1) else (Ret 0, ?s2))"
      using copyout_byte(1) [of ?s1 pt e ps ?va "pipe_get ?q"] Suc.prems(1-3) by simp
    have step: "piperead_loop p a addr i (Suc k) s =
        (if upage (mem s) pt ?va = 0 then (Ret i, ?s1) else piperead_loop p a addr (i + 1) k ?s2)"
      using False co Suc.prems(4) by (simp add: Let_def)
    show ?thesis
    proof (cases "upage (mem s) pt ?va = 0")
      case True
      have "pipe_taken pt e ps a ?va s ?s1 [] 1"
        using uwritten_Nil [of s pt e ps] Suc.prems(1,3) by (simp add: pipe_taken_def setpi_def)
      then have "pipe_delivered pt e ps a ?va (Suc k) s 0 ?s1"
        unfolding pipe_delivered_def using True get by (intro exI [of _ 1]) (simp add: range_mapped_def)
      then show ?thesis using step True by (auto intro!: exI [of _ 0] simp del: piperead_loop.simps)
    next
      case up: False
      have i1: "unat (i + 1) = unat i + 1" "addr + ucast (i + 1) = ?va + 1"
        using Suc.prems(6) by (simp_all add: unat_word_ariths ucast_Suc32)
      have va: "unat (?va + 1) = unat ?va + 1" using Suc.prems(7) by (simp add: unat_word_ariths)
      have st: "can_store (mem s) pt e ps ?va (length [pipe_get ?q])"
        using Suc.prems(1,3) up mod_less_divisor [of 4096 "unat ?va"] by (simp add: can_store_def)
      have "ok (piperead_loop p a addr (i + 1) k ?s2) (\<lambda>r s'. \<exists>j. r = i + 1 + of_nat j \<and> pipe_delivered pt e ps a (?va + 1) k ?s2 j s')"
        using Suc.IH [of ?s2 "i + 1"] Suc.prems user_store_ok [OF st] get(2) i1 va by simp
      then obtain r j s' where r: "piperead_loop p a addr (i + 1) k ?s2 = (Ret r, s')" "r = i + 1 + of_nat j"
        and d: "pipe_delivered pt e ps a (?va + 1) k ?s2 j s'" by (elim ok_E exE conjE)
      have "pipe_delivered pt e ps a ?va (Suc k) s (Suc j) s'"
        using pipe_delivered_Suc [OF Suc.prems(1-3) up _ Suc.prems(5) False d] Suc.prems(7) by simp
      moreover have "piperead_loop p a addr i (Suc k) s = (Ret (i + of_nat (Suc j)), s')"
        using step up r by (simp add: add.assoc del: piperead_loop.simps)
      ultimately show ?thesis by (simp only: wpk_Ret) (intro exI conjI, rule refl)
    qed
  qed
qed

lemma pipe_delivered_held: "pipe_delivered pt e ps a va k s j t \<Longrightarrow> held t = held s"
  unfolding pipe_delivered_def pipe_taken_def uwritten_def by (cases s; cases t) auto

lemma pipe_delivered_facts:
  assumes "pipe_delivered pt e ps a va k s j t"
  defines "m \<equiv> min k (length (pipe_bytes (pipes s a)))"
  shows "\<forall>va'. upage (mem s) pt va' \<noteq> 0 \<longrightarrow>
      ubyte (mem t) pt va' = overlay (unat va) (take j (pipe_bytes (pipes s a))) (ubyte (mem s) pt va') (unat va')"
    and "same_outside (upages (mem s) pt) (mem s) (mem t)" and "pipe_wf (pipes t a)"
    and "if range_mapped (mem s) pt va m then j = m \<and> pipe_bytes (pipes t a) = drop m (pipe_bytes (pipes s a))
      else j < m \<and> range_mapped (mem s) pt va j \<and> upage (mem s) pt (va + of_nat j) = 0 \<and> pipe_bytes (pipes t a) = drop (Suc j) (pipe_bytes (pipes s a))"
proof -
  obtain i where i: "j \<le> i" "i \<le> m" "pipe_taken pt e ps a va s t (take j (pipe_bytes (pipes s a))) i"
      "pipe_bytes (pipes t a) = drop i (pipe_bytes (pipes s a))" "pipe_wf (pipes t a)"
      "if i = j then j = m else i = Suc j \<and> upage (mem s) pt (va + of_nat j) = 0" "range_mapped (mem s) pt va j"
    using assms(1) unfolding pipe_delivered_def m_def by blast
  from i(3) have u: "uwritten pt e ps s (t\<lparr>pipes := pipes s\<rparr>) va (take j (pipe_bytes (pipes s a)))"
    by (simp add: pipe_taken_def)
  then show "\<forall>va'. upage (mem s) pt va' \<noteq> 0 \<longrightarrow>
      ubyte (mem t) pt va' = overlay (unat va) (take j (pipe_bytes (pipes s a))) (ubyte (mem s) pt va') (unat va')"
    and "same_outside (upages (mem s) pt) (mem s) (mem t)" by (simp_all add: uwritten_def)
  show "pipe_wf (pipes t a)" by (rule i(5))
  show "if range_mapped (mem s) pt va m then j = m \<and> pipe_bytes (pipes t a) = drop m (pipe_bytes (pipes s a))
      else j < m \<and> range_mapped (mem s) pt va j \<and> upage (mem s) pt (va + of_nat j) = 0 \<and> pipe_bytes (pipes t a) = drop (Suc j) (pipe_bytes (pipes s a))"
    using i(1,2,4,6,7) by (auto simp: range_mapped_def Suc_le_eq split: if_splits)
qed

section \<open>Properties\<close>

lemma uread_length: "length (snd (uread m pt va n)) \<le> n"
  by (induction n arbitrary: va) (auto simp: Let_def)

lemma nat_sint_less: "nat (sint (n :: i32)) < 2 ^ 31"
  using sint_less [of n] by simp

lemma wake_all_fields [simp]:
  "pipes (wake_all ch s) = pipes s" "mem (wake_all ch s) = mem s" "held (wake_all ch s) = held s" "curproc (wake_all ch s) = curproc s"
  by (simp_all add: wake_all_def)

text \<open>
  C11. \<^verbatim>\<open>pipewrite\<close> implements a bounded queue. With a reader at the other end, the bytes of the user
  buffer, as far as they are readable and as there is room, are appended to the queue in order,
  and nothing else of the queue changes, also when the counters wrap around. If all of them fit
  (or the buffer ends at an unmapped page before the queue is full) the call returns their number;
  otherwise the queue holds exactly \<^verbatim>\<open>PIPESIZE\<close> bytes and the writer sleeps without any lock but its
  own. A writer without a reader, or that has been killed, gets \<^verbatim>\<open>-1\<close> and leaves the queue alone.
\<close>

theorem pipewrite_bounded_queue:
  fixes a :: u64 and addr :: u64
  assumes "curproc s = Some p" and "held s = []" and "pt_ok (mem s) (p_pagetable (procs s p)) (kend s) ps" and "0 < kend s"
    and "pipe_wf (pipes s a)" and "0 < sint n"
  defines "bs \<equiv> snd (uread (mem s) (p_pagetable (procs s p)) addr (nat (sint n)))"
  defines "room \<equiv> PIPESIZE - length (pipe_bytes (pipes s a))"
  shows "\<exists>r s'. pipewrite a addr n s = (r, s') \<and> pipe_wf (pipes s' a) \<and> mem s' = mem s \<and>
    (if p_killed (procs s p) \<noteq> 0 \<or> \<not> pi_readopen (pipes s a) then r = Ret (- 1) \<and> pipes s' = pipes s \<and> held s' = []
     else if nat (sint n) \<le> room \<or> length bs < room then
       r = Ret (of_nat (length bs)) \<and> pipe_bytes (pipes s' a) = pipe_bytes (pipes s a) @ bs \<and> held s' = []
     else r = Swtch \<and> pipe_bytes (pipes s' a) = pipe_bytes (pipes s a) @ take room bs \<and>
       length (pipe_bytes (pipes s' a)) = PIPESIZE \<and> held s' = [ProcLock p] \<and>
       p_state (procs s' p) = SLEEPING \<and> p_chan (procs s' p) = ChPipeW a)"
proof -
  let ?s = "s\<lparr>held := [PipeLock a]\<rparr>" and ?k = "nat (sint n)"
  obtain k where k: "?k = Suc k" using assms(6) by (cases ?k) auto
  show ?thesis
  proof (cases "p_killed (procs s p) \<noteq> 0 \<or> \<not> pi_readopen (pipes s a)")
    case True
    have "killed p ?s = (Ret (p_killed (procs s p)), ?s)" by (simp add: killed_spec)
    then have "pipewrite a addr n s = (Ret (- 1), s)"
      using True assms(1,2) by (auto simp: pipewrite_def myproc_def k)
    then show ?thesis using True assms(2,5) by simp
  next
    case False
    have w: "pipe_writer p a ?s" using False assms(1) by (simp add: pipe_writer_def)
    have loop: "pipewrite_loop p a addr 0 ?k ?s =
      (if ?k \<le> room \<or> length bs < room then (Ret (Some (of_nat (length bs))), setpi a (pipe_puts bs) ?s)
       else (Swtch, pipe_block p a (setpi a (pipe_puts (take room bs)) ?s)))"
      using pipewrite_loop_spec [OF w, of "kend s" ps 0 ?k addr] assms(3-5) nat_sint_less [of n]
      by (simp add: bs_def room_def pipe_room_def)
    have len: "length bs \<le> ?k" unfolding bs_def by (rule uread_length)
    show ?thesis
    proof (cases "?k \<le> room \<or> length bs < room")
      case True
      have np: "no_plock (setpi a (pipe_puts bs) ?s)" by (simp add: no_plock_def)
      have "pipe_bytes (pipe_puts bs (pipes s a)) = pipe_bytes (pipes s a) @ bs \<and> pipe_wf (pipe_puts bs (pipes s a))"
        using pipe_puts_bytes [OF assms(5), of bs] True len by (auto simp: pipe_room_def room_def)
      then show ?thesis using loop True False assms(1,2) wakeup_wake_all [OF np]
        by (simp add: pipewrite_def myproc_def)
    next
      case sleeps: False
      have "pipe_bytes (pipe_puts (take room bs) (pipes s a)) = pipe_bytes (pipes s a) @ take room bs \<and>
          pipe_wf (pipe_puts (take room bs) (pipes s a))"
        using pipe_puts_bytes [OF assms(5), of "take room bs"] by (simp add: pipe_room_def room_def)
      moreover have "length (pipe_bytes (pipes s a) @ take room bs) = PIPESIZE"
        using sleeps assms(5) by (simp add: room_def pipe_wf_def)
      ultimately show ?thesis using loop sleeps False assms(1,2)
        by (simp add: pipewrite_def myproc_def pipe_block_def put_asleep_def del: length_pipe_bytes)
    qed
  qed
qed

lemma kern0_pipe: "pipe_wf (pipes kern0 a)" "pipe_bytes (pipes kern0 a) = []" "pi_readopen (pipes kern0 a)"
  by (simp_all add: pipe_wf_def pipe_bytes_def kern0_def)

lemma kern0_uread: "unat va + n \<le> 8192 \<Longrightarrow> fst (uread mem1 0x80001000 va n) = 0 \<and> length (snd (uread mem1 0x80001000 va n)) = n"
  using uread_mapped [OF mem1_range] by simp

theorem pipewrite_bounded_queue_witness:
  "(\<exists>s'. pipewrite 0x80007000 0xffe 4 kern0 = (Ret 4, s') \<and> pipe_bytes (pipes s' 0x80007000) = snd (uread mem1 0x80001000 0xffe 4)) \<and>
   (\<exists>s'. pipewrite 0x80007000 0 600 kern0 = (Swtch, s') \<and> length (pipe_bytes (pipes s' 0x80007000)) = 512)"
proof -
  have ok: "pt_ok (mem kern0) (p_pagetable (procs kern0 0)) (kend kern0) []" "0 < kend kern0"
    using mem1_ok by (simp_all add: kern0_def)
  note th = pipewrite_bounded_queue [of kern0 0 "[]" "0x80007000", OF _ _ ok kern0_pipe(1)]
  show ?thesis
    using th [of 4 "0xffe"] th [of 600 0] kern0_uread [of "0xffe" 4] kern0_uread [of 0 600]
    by (auto simp: kern0_pipe simp del: length_pipe_bytes)
qed

text \<open>
  C17. \<^verbatim>\<open>piperead\<close> delivers the oldest bytes. When the pipe holds bytes, or no writer is left, the call
  returns, and a byte count \<open>j\<close> of the oldest bytes of the queue is in the user buffer in order,
  nothing else in memory having changed; it is all that was asked for or all there is, and the
  rest stays queued. If the user buffer runs into an unmapped page after \<open>j\<close> bytes, the call
  returns \<open>j\<close>, but \<open>j + 1\<close> bytes are gone from the pipe: the byte whose copy failed is lost. When
  the pipe is empty and has a writer, the reader sleeps, or gets \<^verbatim>\<open>-1\<close> if it has been killed.
\<close>

theorem piperead_delivers:
  assumes "curproc s = Some p" and "held s = []" and "p_pagetable (procs s p) = pt"
    and "pt_ok (mem s) pt (kend s) ps" and "0 < kend s" and "user_ok (mem s) pt"
    and "pipe_wf (pipes s a)" and "unat addr + nat (sint n) \<le> unat MAXVA"
  defines "k \<equiv> min (nat (sint n)) (length (pipe_bytes (pipes s a)))"
  shows "if pipe_bytes (pipes s a) = [] \<and> pi_writeopen (pipes s a) then
      \<exists>s'. pipes s' = pipes s \<and> mem s' = mem s \<and>
        (if p_killed (procs s p) \<noteq> 0 then piperead a addr n s = (Ret (- 1), s')
         else piperead a addr n s = (Swtch, s') \<and> p_state (procs s' p) = SLEEPING \<and> p_chan (procs s' p) = ChPipeR a)
    else ok (piperead a addr n s) (\<lambda>r s'. \<exists>j. r = of_nat j \<and>
        (\<forall>va. upage (mem s) pt va \<noteq> 0 \<longrightarrow>
           ubyte (mem s') pt va = overlay (unat addr) (take j (pipe_bytes (pipes s a))) (ubyte (mem s) pt va) (unat va)) \<and>
        same_outside (upages (mem s) pt) (mem s) (mem s') \<and> pipe_wf (pipes s' a) \<and>
        (if range_mapped (mem s) pt addr k then j = k \<and> pipe_bytes (pipes s' a) = drop k (pipe_bytes (pipes s a))
         else j < k \<and> range_mapped (mem s) pt addr j \<and> upage (mem s) pt (addr + of_nat j) = 0 \<and> pipe_bytes (pipes s' a) = drop (Suc j) (pipe_bytes (pipes s a))))"
proof -
  let ?s = "s\<lparr>held := [PipeLock a]\<rparr>" and ?ds = "pipe_bytes (pipes s a)"
  have kl: "killed p ?s = (Ret (p_killed (procs s p)), ?s)" by (simp add: killed_spec)
  show ?thesis
  proof (cases "?ds = [] \<and> pi_writeopen (pipes s a)")
    case True
    have "sleep (ChPipeR a) (PipeLock a) ?s = (Swtch, setp p (put_asleep (ChPipeR a)) (s\<lparr>held := [ProcLock p]\<rparr>))"
      using sleep_spec [of ?s p "PipeLock a" "[]" "ChPipeR a"] assms(1) by simp
    then show ?thesis using True kl assms(1,2)
      by (cases "p_killed (procs s p) = 0")
        (simp_all add: piperead_def piperead_round_def myproc_def pipe_empty_bytes put_asleep_def)
  next
    case False
    have "ok (piperead_loop p a addr 0 (nat (sint n)) ?s) (\<lambda>r s'. \<exists>j. r = 0 + of_nat j \<and>
        pipe_delivered pt (kend s) ps a (addr + ucast (0 :: i32)) (nat (sint n)) ?s j s')"
      using assms(3-8) nat_sint_less [of n] by (intro piperead_loop_spec) simp_all
    then obtain j t where t: "piperead_loop p a addr 0 (nat (sint n)) ?s = (Ret (of_nat j), t)"
      "pipe_delivered pt (kend s) ps a addr (nat (sint n)) ?s j t" by (auto elim!: ok_E)
    have "held t = [PipeLock a]" "no_plock t"
      using pipe_delivered_held [OF t(2)] by (simp_all add: no_plock_def)
    then have r: "piperead a addr n s = (Ret (of_nat j), (wake_all (ChPipeW a) t)\<lparr>held := []\<rparr>)"
      using False t(1) assms(1,2) wakeup_wake_all [of t "ChPipeW a"]
      by (auto simp: piperead_def piperead_round_def myproc_def pipe_empty_bytes)
    have fields: "mem ((wake_all (ChPipeW a) t)\<lparr>held := []\<rparr>) = mem t" "pipes ((wake_all (ChPipeW a) t)\<lparr>held := []\<rparr>) = pipes t"
      "mem ?s = mem s" "pipes ?s = pipes s" by simp_all
    note facts = pipe_delivered_facts [OF t(2), unfolded fields]
    show ?thesis unfolding if_not_P [OF False] r wpk_Ret fields k_def
      using facts by (intro exI [of _ j] conjI) (rule refl, assumption+)
  qed
qed

theorem piperead_delivers_witness:
  "\<exists>q. pipe_bytes q = [1, 2, 3] \<and>
     ok (piperead 0x80007000 0x1ffe 2 (kern0\<lparr>pipes := (\<lambda>_. q)\<rparr>)) (\<lambda>r s'. r = 2 \<and>
       ubyte (mem s') 0x80001000 0x1ffe = 1 \<and> ubyte (mem s') 0x80001000 0x1fff = 2 \<and> pipe_bytes (pipes s' 0x80007000) = [3]) \<and>
     ok (piperead 0x80007000 0x1fff 3 (kern0\<lparr>pipes := (\<lambda>_. q)\<rparr>)) (\<lambda>r s'. r = 1 \<and>
       ubyte (mem s') 0x80001000 0x1fff = 1 \<and> pipe_bytes (pipes s' 0x80007000) = [3])"
proof -
  let ?a = "0x80007000 :: u64" and ?pt = "0x80001000 :: u64"
  obtain q where q: "pipe_bytes q = [1, 2, 3]" "pipe_wf q"
    using pipe_puts_bytes [OF kern0_pipe(1), of "[1, 2, 3]" 0] by (auto simp: kern0_pipe pipe_room_def)
  let ?s = "kern0\<lparr>pipes := (\<lambda>_. q)\<rparr>"
  have ok: "curproc ?s = Some 0" "held ?s = []" "p_pagetable (procs ?s 0) = ?pt" "pt_ok (mem ?s) ?pt (kend ?s) []" "0 < kend ?s"
      "user_ok (mem ?s) ?pt" using mem1_ok mem1_user by (simp_all add: kern0_def kproc0_def)
  have up: "upage mem1 ?pt 0x1ffe \<noteq> 0" "upage mem1 ?pt 0x1fff \<noteq> 0" "upage mem1 ?pt 0x2000 = 0"
    by (simp_all add: mem1_mapped) (simp add: mem1_upage px_nat)
  have f: "mem ?s = mem1" "pipes ?s ?a = q" "pipe_wf (pipes ?s ?a)" using q by simp_all
  have ne: "([1, 2, 3] :: u8 list) = [] \<longleftrightarrow> False" by simp
  note th = piperead_delivers [OF ok f(3), unfolded f(1,2) q(1) ne simp_thms if_False]
  have b: "unat (0x1ffe :: u64) + nat (sint (2 :: i32)) \<le> unat MAXVA" "unat (0x1fff :: u64) + nat (sint (3 :: i32)) \<le> unat MAXVA"
    by simp_all
  have r: "range_mapped mem1 ?pt 0x1ffe (min (nat (sint (2 :: i32))) (length [1 :: u8, 2, 3])) = True"
    by (intro eqTrueI mem1_range) simp
  have nr: "range_mapped mem1 ?pt 0x1fff (min (nat (sint (3 :: i32))) (length [1 :: u8, 2, 3])) = False"
    using up(3) by (auto simp: range_mapped_def intro!: exI [of _ 1])
  have "ok (piperead ?a 0x1ffe 2 ?s) (\<lambda>r s'. r = 2 \<and>
       ubyte (mem s') ?pt 0x1ffe = 1 \<and> ubyte (mem s') ?pt 0x1fff = 2 \<and> pipe_bytes (pipes s' ?a) = [3])"
    using th [OF b(1), unfolded r if_True] up
    by (elim ok_E exE conjE) (simp add: overlay_def)
  moreover have "ok (piperead ?a 0x1fff 3 ?s) (\<lambda>r s'. r = 1 \<and> ubyte (mem s') ?pt 0x1fff = 1 \<and> pipe_bytes (pipes s' ?a) = [3])"
  proof -
    have one: "j = 1" if "range_mapped mem1 ?pt 0x1fff j" "upage mem1 ?pt (0x1fff + of_nat j) = 0" for j
      using that up by (cases j) (auto simp: range_mapped_def dest: spec [of _ 1])
    show ?thesis using th [OF b(2), unfolded nr if_False] up
      by (elim ok_E exE conjE) (simp add: overlay_def, drule (1) one, simp)
  qed
  ultimately show ?thesis using q(1) by blast
qed

end
