(* ===== verification/Consring.thy ===== *)
theory Consring
  imports Kexample Ring
begin

text \<open>
  What the UART driver and the console promise: output reaches the device in order and once, and
  input is edited line by line in a buffer that never overflows.
\<close>

section \<open>Synchronous output\<close>

text \<open>How often the device will still report that it can take a byte, among the status reads known.\<close>

definition idle :: "u8 list \<Rightarrow> nat" where
  "idle ls = length (filter (\<lambda>v. v AND 0x20 \<noteq> 0) ls)"

text \<open>The bytes \<open>cs\<close>, and nothing else, have gone from \<open>s\<close> to the device.\<close>

definition sent :: "u8 list \<Rightarrow> 'z uart_state_scheme \<Rightarrow> 'z uart_state_scheme \<Rightarrow> bool" where
  "sent cs s s' \<longleftrightarrow> (\<exists>ls. s' = s\<lparr>uart_lsr := ls, uart_out := uart_out s @ map (Pair 0) cs\<rparr> \<and>
     idle (uart_lsr s) = length cs + idle ls)"

lemma sent_Nil [simp]: "sent [] s s"
  by (simp add: sent_def exI [of _ "uart_lsr s"])

lemma sent_trans: "sent cs s s1 \<Longrightarrow> sent ds s1 s2 \<Longrightarrow> sent (cs @ ds) s s2"
  unfolding sent_def by (elim exE conjE) (simp add: exI)

lemma sent_idle: "sent cs s s' \<Longrightarrow> idle (uart_lsr s) = length cs + idle (uart_lsr s') \<and> panicked s' = panicked s"
  by (auto simp: sent_def)

lemma wait_idle_Some:
  "0 < idle ls \<Longrightarrow> \<exists>ls'. wait_idle ls = Some ls' \<and> idle ls = Suc (idle ls')"
  by (induction ls) (auto simp: idle_def)

lemma uartputc_sync_sent:
  assumes "\<not> panicked s" and "0 < idle (uart_lsr s)"
  shows "ok (uartputc_sync c s) (\<lambda>_ s'. sent [c] s s')"
  using wait_idle_Some [OF assms(2)] assms(1)
  by (auto simp: uartputc_sync_def sent_def WriteReg_def)

definition cons_text :: "conschar \<Rightarrow> u8 list" where
  "cons_text c = (case c of Byte b \<Rightarrow> [b] | Backspace \<Rightarrow> [8, 32, 8])"

lemma uartputc_syncs:
  assumes "\<not> panicked s" and "length (c # cs) \<le> idle (uart_lsr s)"
    and "\<And>t. \<not> panicked t \<Longrightarrow> length cs \<le> idle (uart_lsr t) \<Longrightarrow> ok (m t) (\<lambda>_ s'. sent cs t s')"
  shows "ok (bnd (uartputc_sync c s) (\<lambda>_ s. m s)) (\<lambda>_ s'. sent (c # cs) s s')"
proof -
  have "0 < idle (uart_lsr s)" using assms(2) by simp
  then obtain t where t: "uartputc_sync c s = (Ret (), t)" "sent [c] s t"
    using uartputc_sync_sent [OF assms(1), of c] by (auto elim!: ok_E)
  have "ok (m t) (\<lambda>_ s'. sent cs t s')" using assms(1,2) sent_idle [OF t(2)] by (intro assms(3)) simp_all
  then show ?thesis using t sent_trans [OF t(2)] by (auto elim!: ok_E)
qed

lemma consputc_sent:
  assumes "\<not> panicked s" and "length (cons_text c) \<le> idle (uart_lsr s)"
  shows "ok (consputc c s) (\<lambda>_ s'. sent (cons_text c) s s')"
proof (cases c)
  case (Byte b)
  then show ?thesis using uartputc_sync_sent [of s b] assms by (simp add: consputc_def cons_text_def)
next
  case Backspace
  then show ?thesis using assms
    by (auto simp: consputc_def cons_text_def intro!: uartputc_syncs uartputc_sync_sent)
qed

lemma consputs_sent:
  "\<not> panicked s \<Longrightarrow> length cs \<le> idle (uart_lsr s) \<Longrightarrow> ok (consputs cs s) (\<lambda>_ s'. sent cs s s')"
  by (induction cs arbitrary: s) (auto simp: consputc_def intro!: uartputc_syncs)

section \<open>The output buffer\<close>

definition uart_bytes :: "'z uart_state_scheme \<Rightarrow> u8 list" where
  "uart_bytes s = ring_items UART_TX_BUF_SIZE (uart_tx_buf s) (uart_tx_r s) (uart_tx_w s)"

definition uart_wf :: "'z uart_state_scheme \<Rightarrow> bool" where
  "uart_wf s \<longleftrightarrow> length (uart_tx_buf s) = UART_TX_BUF_SIZE \<and> unat (uart_tx_w s - uart_tx_r s) \<le> UART_TX_BUF_SIZE"

text \<open>The bytes that \<^verbatim>\<open>uartstart\<close> can send: one for each status read that says idle, up to the first that
  does not.\<close>

definition sendable :: "'z uart_state_scheme \<Rightarrow> nat" where
  "sendable s = min (unat (uart_tx_w s - uart_tx_r s)) (length (takeWhile (\<lambda>v. v AND 0x20 \<noteq> 0) (uart_lsr s)))"

lemma uart_get:
  assumes "uart_wf s" and "uart_tx_w s \<noteq> uart_tx_r s"
  shows "uart_bytes s = uart_tx_buf s ! (unat (uart_tx_r s) mod UART_TX_BUF_SIZE) # uart_bytes (s\<lparr>uart_tx_r := uart_tx_r s + 1\<rparr>)"
    and "uart_wf (s\<lparr>uart_tx_r := uart_tx_r s + 1\<rparr>)"
  using uart_ring.get [of "uart_tx_r s" "uart_tx_w s" "uart_tx_buf s"] uart_ring.get_bound [of "uart_tx_r s" "uart_tx_w s"] assms
  by (auto simp: uart_bytes_def uart_wf_def)

lemma uart_cong:
  "uart_tx_buf s' = uart_tx_buf s \<Longrightarrow> uart_tx_r s' = uart_tx_r s \<Longrightarrow> uart_tx_w s' = uart_tx_w s \<Longrightarrow>
     uart_bytes s' = uart_bytes s \<and> uart_wf s' = uart_wf s"
  by (simp add: uart_bytes_def uart_wf_def)

lemma uart_lsr_upd [simp]: "uart_bytes (s\<lparr>uart_lsr := l\<rparr>) = uart_bytes s" "uart_wf (s\<lparr>uart_lsr := l\<rparr>) = uart_wf s"
  by (simp_all add: uart_bytes_def uart_wf_def)

lemma uart_held_upd [simp]: "uart_bytes (s\<lparr>held := l\<rparr>) = uart_bytes s" "uart_wf (s\<lparr>held := l\<rparr>) = uart_wf s"
  by (simp_all add: uart_bytes_def uart_wf_def)

text \<open>\<open>j\<close> bytes have been taken from the buffer and written to the device.\<close>

definition drained :: "nat \<Rightarrow> 'z uart_state_scheme \<Rightarrow> 'z uart_state_scheme \<Rightarrow> bool" where
  "drained j s s' \<longleftrightarrow> uart_bytes s' = drop j (uart_bytes s) \<and> uart_out s' = uart_out s @ map (Pair 0) (take j (uart_bytes s)) \<and>
     uart_wf s' \<and> held s' = held s \<and> curproc s' = curproc s \<and> panicked s' = panicked s"

text \<open>One round of the loop, when there is a byte to send and the device is idle.\<close>

definition send1 :: "u8 list \<Rightarrow> 'z uart_state_scheme \<Rightarrow> 'z uart_state_scheme" where
  "send1 ls s = WriteReg 0 (uart_tx_buf s ! (unat (uart_tx_r s) mod UART_TX_BUF_SIZE))
     (wake_all ChUartR (s\<lparr>uart_lsr := ls, uart_tx_r := uart_tx_r s + 1\<rparr>))"

lemma send1_fields [simp]:
  "uart_tx_buf (send1 ls s) = uart_tx_buf s" "uart_tx_r (send1 ls s) = uart_tx_r s + 1" "uart_tx_w (send1 ls s) = uart_tx_w s"
  "uart_lsr (send1 ls s) = ls" "held (send1 ls s) = held s" "curproc (send1 ls s) = curproc s" "panicked (send1 ls s) = panicked s"
  "uart_out (send1 ls s) = uart_out s @ [(0, uart_tx_buf s ! (unat (uart_tx_r s) mod UART_TX_BUF_SIZE))]"
  by (simp_all add: send1_def WriteReg_def wake_all_def)

lemma uartstart_step:
  assumes "no_plock s"
  shows "uartstart_loop (Suc fuel) s =
    (if uart_tx_w s = uart_tx_r s then (Ret (), s)
     else case uart_lsr s of [] \<Rightarrow> (Ret (), s)
       | v # ls \<Rightarrow> if v AND 0x20 = 0 then (Ret (), s\<lparr>uart_lsr := ls\<rparr>) else uartstart_loop fuel (send1 ls s))"
proof (cases "uart_lsr s")
  case (Cons v ls)
  have "no_plock (s\<lparr>uart_lsr := ls, uart_tx_r := uart_tx_r s + 1\<rparr>)" using assms by (simp add: no_plock_def)
  from wakeup_wake_all [OF this, of ChUartR] Cons show ?thesis
    by (simp add: ReadLSR_def send1_def Let_def)
qed (simp add: ReadLSR_def)

lemma uartstart_loop_drains:
  assumes "no_plock s" and "uart_wf s" and "unat (uart_tx_w s - uart_tx_r s) < fuel"
  shows "ok (uartstart_loop fuel s) (\<lambda>_ s'. drained (sendable s) s s')"
  using assms
proof (induction fuel arbitrary: s)
  case (Suc fuel)
  show ?case
  proof (cases "uart_tx_w s = uart_tx_r s \<or> uart_lsr s = [] \<or> hd (uart_lsr s) AND 0x20 = 0")
    case True
    then have "sendable s = 0" by (cases "uart_lsr s") (auto simp: sendable_def)
    then show ?thesis using True Suc.prems uart_cong [of _ s]
      by (auto simp: uartstart_step drained_def split: list.split simp del: uartstart_loop.simps)
  next
    case False
    then obtain v ls where ls: "uart_lsr s = v # ls" "v AND 0x20 \<noteq> 0" "uart_tx_w s \<noteq> uart_tx_r s"
      by (cases "uart_lsr s") auto
    note get = uart_get [OF Suc.prems(2) ls(3)]
    have b: "uart_bytes s = uart_tx_buf s ! (unat (uart_tx_r s) mod UART_TX_BUF_SIZE) # uart_bytes (send1 ls s)" "uart_wf (send1 ls s)"
      using get uart_cong [of "send1 ls s" "s\<lparr>uart_tx_r := uart_tx_r s + 1\<rparr>"] by simp_all
    have len: "unat (uart_tx_w s - uart_tx_r s) = Suc (unat (uart_tx_w s - (uart_tx_r s + 1)))"
      using arg_cong [OF b(1), of length] by (simp add: uart_bytes_def)
    have n: "sendable s = Suc (sendable (send1 ls s))" using ls len by (simp add: sendable_def)
    have "ok (uartstart_loop fuel (send1 ls s)) (\<lambda>_ s'. drained (sendable (send1 ls s)) (send1 ls s) s')"
      using Suc.prems b(2) len by (intro Suc.IH) (simp_all add: no_plock_def)
    then show ?thesis
      using ls Suc.prems(1) by (auto elim!: ok_E simp: uartstart_step drained_def b(1) n simp del: uartstart_loop.simps)
  qed
qed simp

lemma uartstart_drains:
  "no_plock s \<Longrightarrow> uart_wf s \<Longrightarrow> ok (uartstart s) (\<lambda>_ s'. drained (sendable s) s s')"
  unfolding uartstart_def by (rule uartstart_loop_drains) simp_all

lemma uart_put:
  fixes c :: u8
  assumes "uart_wf s" and "length (uart_bytes s) < UART_TX_BUF_SIZE"
  defines "s' \<equiv> s\<lparr>uart_tx_buf := (uart_tx_buf s)[unat (uart_tx_w s) mod UART_TX_BUF_SIZE := c], uart_tx_w := uart_tx_w s + 1\<rparr>"
  shows "uart_bytes s' = uart_bytes s @ [c]" and "uart_wf s'"
proof -
  have lt: "unat (uart_tx_w s - uart_tx_r s) < UART_TX_BUF_SIZE" using assms(2) by (simp add: uart_bytes_def)
  show "uart_bytes s' = uart_bytes s @ [c]"
    using uart_ring.put [OF lt, of "uart_tx_buf s" c] assms(1) by (simp add: uart_bytes_def uart_wf_def s'_def)
  show "uart_wf s'" using uart_ring.count_Suc [OF lt] assms(1) lt by (simp add: uart_wf_def s'_def)
qed

text \<open>
  C25. Output through \<^verbatim>\<open>uartputc\<close> is in order, complete, and never loops: the byte joins the output
  buffer, and then as many of the buffered bytes as the device accepts, one per status read that
  says idle, go to it, the oldest first; all others stay buffered, at most \<^verbatim>\<open>UART_TX_BUF_SIZE\<close> of them.
  If the buffer is full the caller sleeps until \<^verbatim>\<open>uartstart\<close> makes room, and nothing is overwritten.
\<close>

theorem uartputc_in_order:
  fixes c :: u8
  assumes "uart_wf s" and "held s = []" and "curproc s = Some p" and "\<not> panicked s"
  defines "out \<equiv> uart_bytes s @ [c]"
  defines "j \<equiv> min (length out) (length (takeWhile (\<lambda>v. v AND 0x20 \<noteq> 0) (uart_lsr s)))"
  shows "if length (uart_bytes s) < UART_TX_BUF_SIZE then
      ok (uartputc c s) (\<lambda>_ s'. uart_bytes s' = drop j out \<and> uart_out s' = uart_out s @ map (Pair 0) (take j out) \<and>
        length (uart_bytes s') \<le> UART_TX_BUF_SIZE \<and> uart_wf s' \<and> held s' = [])
    else \<exists>s'. uartputc c s = (Swtch, s') \<and> uart_bytes s' = uart_bytes s \<and> uart_out s' = uart_out s \<and>
        p_state (procs s' p) = SLEEPING \<and> p_chan (procs s' p) = ChUartR"
proof -
  let ?s = "s\<lparr>held := [UartLock]\<rparr>"
  have len: "length (uart_bytes s) = unat (uart_tx_w s - uart_tx_r s)" by (simp add: uart_bytes_def)
  have full: "uart_tx_w s = uart_tx_r s + of_nat UART_TX_BUF_SIZE \<longleftrightarrow> \<not> length (uart_bytes s) < UART_TX_BUF_SIZE"
    using uart_ring.full_iff [of "uart_tx_w s" "uart_tx_r s"] assms(1) by (auto simp: uart_wf_def len)
  show ?thesis
  proof (cases "length (uart_bytes s) < UART_TX_BUF_SIZE")
    case True
    define t where "t = ?s\<lparr>uart_tx_buf := (uart_tx_buf s)[unat (uart_tx_w s) mod UART_TX_BUF_SIZE := c], uart_tx_w := uart_tx_w s + 1\<rparr>"
    have t: "uart_bytes t = out" "uart_wf t" "held t = [UartLock]" "uart_out t = uart_out s" "uart_lsr t = uart_lsr s"
      using uart_put [of ?s c] assms(1) True by (simp_all add: t_def out_def)
    have "length out = unat (uart_tx_w t - uart_tx_r t)" by (simp only: t(1) [symmetric] uart_bytes_def length_ring_items)
    then have j: "sendable t = j" using t(5) by (simp add: sendable_def j_def)
    obtain u where u: "uartstart t = (Ret (), u)" "drained j t u"
      using uartstart_drains [of t] t j by (auto elim!: ok_E simp: no_plock_def)
    have "uartputc c s = (Ret (), u\<lparr>held := []\<rparr>)"
      using u t(3) True full assms(2,4) by (simp add: uartputc_def uartputc_round_def Let_def t_def drained_def)
    moreover have "length (drop j out) \<le> UART_TX_BUF_SIZE" using True by (simp add: out_def)
    ultimately show ?thesis using True u(2) t by (simp add: drained_def)
  next
    case False
    have "sleep ChUartR UartLock ?s = (Swtch, setp p (put_asleep ChUartR) (s\<lparr>held := [ProcLock p]\<rparr>))"
      using sleep_spec [of ?s p UartLock "[]" ChUartR] assms(3) by simp
    then have "uartputc c s = (Swtch, setp p (put_asleep ChUartR) (s\<lparr>held := [ProcLock p]\<rparr>))"
      using False full assms(2,4) by (simp add: uartputc_def uartputc_round_def)
    then show ?thesis using False by (simp add: put_asleep_def setp_def uart_bytes_def)
  qed
qed

theorem uartputc_in_order_witness:
  "ok (uartputc 65 (kern0\<lparr>uart_lsr := [0x20, 0]\<rparr>)) (\<lambda>_ s'. uart_out s' = [(0, 65)] \<and> uart_bytes s' = []) \<and>
   ok (uartputc 65 kern0) (\<lambda>_ s'. uart_out s' = [] \<and> uart_bytes s' = [65])"
proof -
  have k: "uart_wf kern0" "uart_bytes kern0 = []" "uart_out kern0 = []" "\<not> panicked kern0" "uart_lsr kern0 = []"
    by (simp_all add: uart_wf_def uart_bytes_def kern0_def)
  then show ?thesis
    using uartputc_in_order [of "kern0\<lparr>uart_lsr := [0x20, 0]\<rparr>" 0 65] uartputc_in_order [of kern0 0 65]
    by (auto elim!: ok_E)
qed

section \<open>Line editing\<close>

text \<open>The lines ready to be read, and the line being edited.\<close>

definition cons_ready :: "consdata \<Rightarrow> u8 list" where
  "cons_ready q = ring_items INPUT_BUF_SIZE (c_buf q) (c_r q) (c_w q)"

definition cons_edit :: "consdata \<Rightarrow> u8 list" where
  "cons_edit q = ring_items INPUT_BUF_SIZE (c_buf q) (c_w q) (c_e q)"

definition cons_wf :: "consdata \<Rightarrow> bool" where
  "cons_wf q \<longleftrightarrow> length (c_buf q) = INPUT_BUF_SIZE \<and> unat (c_w q - c_r q) + unat (c_e q - c_w q) \<le> INPUT_BUF_SIZE"

text \<open>What a key does to the two, and what is echoed.\<close>

definition line_edit :: "u8 \<Rightarrow> u8 list \<times> u8 list \<Rightarrow> u8 list \<times> u8 list" where
  "line_edit c p = (case p of (rd, ed) \<Rightarrow>
     if c = 21 then (rd, rev (dropWhile (\<lambda>x. x \<noteq> 10) (rev ed)))
     else if c = 8 \<or> c = 127 then (rd, butlast ed)
     else if c = 0 \<or> length rd + length ed \<ge> INPUT_BUF_SIZE then (rd, ed)
     else
       let k = (if c = 13 then 10 else c) in
       if k = 10 \<or> k = 4 \<or> length rd + length ed + 1 = INPUT_BUF_SIZE then (rd @ ed @ [k], []) else (rd, ed @ [k]))"

definition line_echo :: "u8 \<Rightarrow> u8 list \<times> u8 list \<Rightarrow> u8 list" where
  "line_echo c p = (case p of (rd, ed) \<Rightarrow>
     if c = 21 then concat (replicate (length (takeWhile (\<lambda>x. x \<noteq> 10) (rev ed))) [8, 32, 8])
     else if c = 8 \<or> c = 127 then (if ed = [] then [] else [8, 32, 8])
     else if c = 0 \<or> length rd + length ed \<ge> INPUT_BUF_SIZE then []
     else [if c = 13 then 10 else c])"

definition cons_abs :: "consdata \<Rightarrow> u8 list \<times> u8 list" where
  "cons_abs q = (cons_ready q, cons_edit q)"

lemma cons_lengths [simp]:
  "length (cons_ready q) = unat (c_w q - c_r q)" "length (cons_edit q) = unat (c_e q - c_w q)"
  by (simp_all add: cons_ready_def cons_edit_def)

lemma cons_edit_empty: "cons_edit q = [] \<longleftrightarrow> c_e q = c_w q"
  by (simp flip: length_0_conv add: unat_eq_zero)

lemma cons_back:
  assumes "cons_wf q" and "c_e q \<noteq> c_w q"
  defines "q' \<equiv> q\<lparr>c_e := c_e q - 1\<rparr>"
  shows "cons_edit q' = butlast (cons_edit q)" and "cons_ready q' = cons_ready q" and "cons_wf q'"
    and "last (cons_edit q) = c_buf q ! (unat (c_e q - 1) mod INPUT_BUF_SIZE)"
proof -
  show b: "cons_edit q' = butlast (cons_edit q)"
    using cons_ring.unput [of "c_w q" "c_e q"] assms(2) by (simp add: cons_edit_def q'_def)
  show "cons_ready q' = cons_ready q" by (simp add: cons_ready_def q'_def)
  have "length (cons_edit q') \<le> length (cons_edit q)" unfolding b by simp
  then show "cons_wf q'" using assms(1) unfolding cons_lengths by (simp add: cons_wf_def q'_def)
  have n: "unat (c_e q - c_w q) - 1 = unat (c_e q - 1 - c_w q)" "unat (c_e q - c_w q) \<noteq> 0"
    using arg_cong [OF b, of length] assms(2) by (simp_all add: q'_def unat_eq_zero)
  have ix: "c_w q + of_nat (unat (c_e q - 1 - c_w q)) = c_e q - 1" by simp
  have "cons_edit q \<noteq> []" using assms(2) by (simp add: cons_edit_empty)
  then have "last (cons_edit q) = cons_edit q ! (unat (c_e q - c_w q) - 1)" by (simp add: last_conv_nth)
  also have "\<dots> = c_buf q ! (unat (c_e q - 1) mod INPUT_BUF_SIZE)"
    using n ix by (simp add: cons_edit_def ring_items_def)
  finally show "last (cons_edit q) = c_buf q ! (unat (c_e q - 1) mod INPUT_BUF_SIZE)" .
qed

lemma cons_store:
  fixes k :: u8
  assumes "cons_wf q" and "length (cons_ready q) + length (cons_edit q) < INPUT_BUF_SIZE"
  defines "q' \<equiv> q\<lparr>c_buf := (c_buf q)[unat (c_e q) mod INPUT_BUF_SIZE := k], c_e := c_e q + 1\<rparr>"
  shows "cons_edit q' = cons_edit q @ [k]" and "cons_ready q' = cons_ready q" and "cons_wf q'"
    and "cons_ready (q'\<lparr>c_w := c_e q'\<rparr>) = cons_ready q @ cons_edit q @ [k]" and "cons_wf (q'\<lparr>c_w := c_e q'\<rparr>)"
    and "cons_edit (q'\<lparr>c_w := c_e q'\<rparr>) = []"
    and "c_e q' - c_r q' = of_nat INPUT_BUF_SIZE \<longleftrightarrow> length (cons_ready q) + length (cons_edit q) + 1 = INPUT_BUF_SIZE"
proof -
  have lt: "unat (c_w q - c_r q) + unat (c_e q - c_w q) < INPUT_BUF_SIZE" using assms(2) by simp
  have len: "length (c_buf q) = INPUT_BUF_SIZE" using assms(1) by (simp add: cons_wf_def)
  note put = cons_ring.split_put [OF lt len]
  show e: "cons_edit q' = cons_edit q @ [k]" and r: "cons_ready q' = cons_ready q"
    using put assms(1) by (simp_all add: cons_edit_def cons_ready_def cons_wf_def q'_def)
  show wf: "cons_wf q'" using put(3) assms(1) lt by (simp add: cons_wf_def q'_def)
  note sp = cons_ring.split [of "c_w q'" "c_r q'" "c_e q'"]
  have sum: "unat (c_w q' - c_r q') + unat (c_e q' - c_w q') \<le> INPUT_BUF_SIZE" using wf by (simp add: cons_wf_def)
  show "cons_ready (q'\<lparr>c_w := c_e q'\<rparr>) = cons_ready q @ cons_edit q @ [k]"
    using sp(1) [OF sum, of "c_buf q'"] e r by (simp add: cons_ready_def cons_edit_def)
  show "cons_wf (q'\<lparr>c_w := c_e q'\<rparr>)" using sp(2) [OF sum] wf sum by (simp add: cons_wf_def)
  show "cons_edit (q'\<lparr>c_w := c_e q'\<rparr>) = []" by (simp add: cons_edit_def)
  have "unat (c_e q' - c_r q') = Suc (length (cons_ready q) + length (cons_edit q))"
    using sp(2) [OF sum] put(3) assms(1) by (simp add: q'_def cons_wf_def)
  moreover have "c_e q' - c_r q' = of_nat INPUT_BUF_SIZE \<longleftrightarrow> unat (c_e q' - c_r q') = INPUT_BUF_SIZE"
    by (simp add: word_unat_eq_iff)
  ultimately show "c_e q' - c_r q' = of_nat INPUT_BUF_SIZE \<longleftrightarrow> length (cons_ready q) + length (cons_edit q) + 1 = INPUT_BUF_SIZE"
    by simp
qed

text \<open>\<open>cs\<close> has been echoed and the console data is \<open>q\<close>.\<close>

definition echoed :: "u8 list \<Rightarrow> consdata \<Rightarrow> 'z cons_state_scheme \<Rightarrow> 'z cons_state_scheme \<Rightarrow> bool" where
  "echoed cs q s s' \<longleftrightarrow> cons s' = q \<and> uart_out s' = uart_out s @ map (Pair 0) cs \<and>
     idle (uart_lsr s) = length cs + idle (uart_lsr s') \<and> panicked s' = panicked s \<and> held s' = held s"

lemma echoed_consputc:
  assumes "\<not> panicked s" and "length (cons_text c) \<le> idle (uart_lsr s)"
  shows "ok (consputc c (set_cons f s)) (\<lambda>_ s'. echoed (cons_text c) (f (cons s)) s s')"
proof -
  have "ok (consputc c (set_cons f s)) (\<lambda>_ s'. sent (cons_text c) (set_cons f s) s')"
    using assms by (intro consputc_sent) (simp_all add: set_cons_def)
  then show ?thesis by (auto elim!: ok_E simp: sent_def echoed_def set_cons_def)
qed

lemma echoed_trans: "echoed cs q s s1 \<Longrightarrow> echoed ds q' s1 s2 \<Longrightarrow> echoed (cs @ ds) q' s s2"
  by (simp add: echoed_def)

lemma kill_line_edits:
  assumes "cons_wf (cons s)" and "\<not> panicked s" and "length (cons_edit (cons s)) < fuel"
    and "3 * length (cons_edit (cons s)) \<le> idle (uart_lsr s)"
  shows "ok (kill_line fuel s) (\<lambda>_ s'. \<exists>q. cons_wf q \<and> cons_abs q = line_edit 21 (cons_abs (cons s)) \<and>
     echoed (line_echo 21 (cons_abs (cons s))) q s s')"
  using assms
proof (induction fuel arbitrary: s)
  case (Suc fuel)
  let ?q = "cons s"
  show ?case
  proof (cases "c_e ?q \<noteq> c_w ?q \<and> c_buf ?q ! (unat (c_e ?q - 1) mod INPUT_BUF_SIZE) \<noteq> 10")
    case False
    then have "cons_edit ?q = [] \<or> last (cons_edit ?q) = 10"
      using cons_back(4) [OF Suc.prems(1)] by (cases "c_e ?q = c_w ?q") (simp_all add: cons_edit_empty)
    then have "takeWhile (\<lambda>x. x \<noteq> 10) (rev (cons_edit ?q)) = []"
      by (cases "cons_edit ?q" rule: rev_cases) auto
    then have "line_edit 21 (cons_abs ?q) = cons_abs ?q" "line_echo 21 (cons_abs ?q) = []"
      by (auto simp: line_edit_def line_echo_def cons_abs_def takeWhile_eq_Nil_iff) (cases "cons_edit ?q" rule: rev_cases; auto)
    then show ?thesis using False Suc.prems(1) by (auto simp: echoed_def intro!: exI [of _ ?q])
  next
    case True
    then have ne: "c_e ?q \<noteq> c_w ?q" by simp
    let ?f = "\<lambda>q. q\<lparr>c_e := c_e q - 1\<rparr>"
    note bk = cons_back [OF Suc.prems(1) ne]
    obtain ed x where ed: "cons_edit ?q = ed @ [x]" "x \<noteq> 10" using True bk(4) cons_edit_empty [of ?q]
      by (cases "cons_edit ?q" rule: rev_cases) auto
    have l3: "3 + 3 * length ed \<le> idle (uart_lsr s)" using Suc.prems(4) arg_cong [OF ed(1), of length] by simp
    obtain t where t: "consputc Backspace (set_cons ?f s) = (Ret (), t)" "echoed [8, 32, 8] (?f ?q) s t"
      using echoed_consputc [of s Backspace ?f] Suc.prems(2) l3 by (auto elim!: ok_E simp: cons_text_def)
    have e: "cons_edit (cons t) = ed" "cons_ready (cons t) = cons_ready ?q" "cons_wf (cons t)"
      using t(2) bk(1-3) ed by (simp_all add: echoed_def)
    have "ok (kill_line fuel t) (\<lambda>_ s'. \<exists>q. cons_wf q \<and> cons_abs q = line_edit 21 (cons_abs (cons t)) \<and>
        echoed (line_echo 21 (cons_abs (cons t))) q t s')"
      using Suc.prems(2,3) t(2) l3 e arg_cong [OF ed(1), of length]
      by (intro Suc.IH) (simp_all add: echoed_def del: cons_lengths)
    then obtain u q where u: "kill_line fuel t = (Ret (), u)" "cons_wf q" "cons_abs q = line_edit 21 (cons_abs (cons t))"
      "echoed (line_echo 21 (cons_abs (cons t))) q t u" by (auto elim!: ok_E)
    have same: "line_edit 21 (cons_abs (cons t)) = line_edit 21 (cons_abs ?q)"
        "[8, 32, 8] @ line_echo 21 (cons_abs (cons t)) = line_echo 21 (cons_abs ?q)"
      using e ed by (simp_all add: line_edit_def line_echo_def cons_abs_def)
    have "kill_line (Suc fuel) s = (Ret (), u)" using True t(1) u(1) by simp
    then show ?thesis using u(2,3) echoed_trans [OF t(2) u(4)] unfolding same by auto
  qed
qed simp

lemma wake_all_cons [simp]:
  "cons (wake_all ch s) = cons s" "uart_out (wake_all ch s) = uart_out s" "uart_lsr (wake_all ch s) = uart_lsr s"
  "panicked (wake_all ch s) = panicked s" "held (wake_all ch s) = held s"
  by (simp_all add: wake_all_def)

lemma consoleintr_store_edits:
  assumes "cons_wf (cons s)" and "\<not> panicked s" and "no_plock s" and "0 < idle (uart_lsr s)"
    and c: "c \<noteq> 21" "c \<noteq> 8" "c \<noteq> 127"
  shows "ok (consoleintr_store c s) (\<lambda>_ s'. \<exists>q. cons_wf q \<and> cons_abs q = line_edit c (cons_abs (cons s)) \<and>
     echoed (line_echo c (cons_abs (cons s))) q s s')"
proof -
  let ?q = "cons s" 
  define k where "k = (if c = 13 then 10 else c :: u8)"
  have sum: "unat (c_e ?q - c_r ?q) = length (cons_ready ?q) + length (cons_edit ?q)"
    using cons_ring.split(2) [of "c_w ?q" "c_r ?q" "c_e ?q"] assms(1) by (simp add: cons_wf_def)
  have room: "c_e ?q - c_r ?q < of_nat INPUT_BUF_SIZE \<longleftrightarrow> length (cons_ready ?q) + length (cons_edit ?q) < INPUT_BUF_SIZE"
    using sum by (simp add: word_less_nat_alt)
  show ?thesis
  proof (cases "c \<noteq> 0 \<and> length (cons_ready ?q) + length (cons_edit ?q) < INPUT_BUF_SIZE")
    case False
    then have "line_edit c (cons_abs ?q) = cons_abs ?q" "line_echo c (cons_abs ?q) = []"
      using c by (auto simp: line_edit_def line_echo_def cons_abs_def)
    moreover have "consoleintr_store c s = (Ret (), s)" using False room by (auto simp: consoleintr_store_def)
    ultimately show ?thesis using assms(1) by (auto simp: echoed_def)
  next
    case True
    then have lt: "length (cons_ready ?q) + length (cons_edit ?q) < INPUT_BUF_SIZE" by simp
    define q' where "q' = ?q\<lparr>c_buf := (c_buf ?q)[unat (c_e ?q) mod INPUT_BUF_SIZE := k], c_e := c_e ?q + 1\<rparr>"
    note store = cons_store [OF assms(1) lt, of k, folded q'_def]
    obtain t where t: "consputc (Byte k) s = (Ret (), t)" "echoed [k] ?q s t"
      using echoed_consputc [of s "Byte k" "\<lambda>q. q"] assms(2,4) by (auto elim!: ok_E simp: cons_text_def set_cons_def)
    have tq: "cons t = ?q" and np: "no_plock t" using t(2) assms(3) by (simp_all add: echoed_def no_plock_def)
    have u: "set_cons (\<lambda>q. q\<lparr>c_buf := (c_buf q)[unat (c_e q) mod INPUT_BUF_SIZE := k], c_e := c_e q + 1\<rparr>) t = t\<lparr>cons := q'\<rparr>"
      by (simp add: set_cons_def tq q'_def)
    have upd: "set_cons f (t\<lparr>cons := q\<rparr>) = t\<lparr>cons := f q\<rparr>" for f q by (simp add: set_cons_def)
    have wake: "wakeup ChConsR (t\<lparr>cons := q\<rparr>) = (Ret (), wake_all ChConsR (t\<lparr>cons := q\<rparr>))" for q
      using np by (intro wakeup_wake_all) (simp add: no_plock_def)
    let ?full = "k = 10 \<or> k = 4 \<or> length (cons_ready ?q) + length (cons_edit ?q) + 1 = INPUT_BUF_SIZE"
    have "consoleintr_store c s = (if ?full then (Ret (), wake_all ChConsR (t\<lparr>cons := q'\<lparr>c_w := c_e q'\<rparr>\<rparr>)) else (Ret (), t\<lparr>cons := q'\<rparr>))"
      using True room t(1) store(7) wake
      unfolding consoleintr_store_def Let_def k_def [symmetric] by (cases ?full) (simp_all add: u upd)
    moreover have "line_edit c (cons_abs ?q) = (if ?full then cons_abs (q'\<lparr>c_w := c_e q'\<rparr>) else cons_abs q')"
        "line_echo c (cons_abs ?q) = [k]"
      using True c store(1-6) by (simp_all add: line_edit_def line_echo_def cons_abs_def Let_def flip: k_def)
    ultimately show ?thesis using t(2) store(3,5) by (cases ?full) (simp_all add: echoed_def)
  qed
qed

text \<open>
  C18. The console's interrupt handler refines a line editor. On every key but control-P (which
  prints the process list) \<^verbatim>\<open>consoleintr\<close> returns, provided the device keeps accepting the echo, and
  then the lines ready to be read and the line being edited are what the editor of the
  specification makes of them: backspace deletes the last character of the current line only,
  control-U the whole line, carriage return ends a line as newline does, and a character that finds
  128 characters pending is dropped. Exactly the specified echo goes to the device, and the buffer
  never holds more than \<^verbatim>\<open>INPUT_BUF_SIZE\<close> characters, wrap-around of the indices included.
\<close>

theorem consoleintr_edits:
  assumes "cons_wf (cons s)" and "\<not> panicked s" and "held s = []" and "c \<noteq> 16"
    and "3 * length (cons_edit (cons s)) + 1 \<le> idle (uart_lsr s)"
  shows "ok (consoleintr c s) (\<lambda>_ s'. cons_wf (cons s') \<and> cons_abs (cons s') = line_edit c (cons_abs (cons s)) \<and>
     length (cons_ready (cons s')) + length (cons_edit (cons s')) \<le> INPUT_BUF_SIZE \<and>
     uart_out s' = uart_out s @ map (Pair 0) (line_echo c (cons_abs (cons s))) \<and> held s' = [])"
proof -
  let ?s = "s\<lparr>held := [ConsLock]\<rparr>" and ?q = "cons s"
  let ?m = "if c = 21 then kill_line (Suc (unat (c_e ?q - c_w ?q))) ?s
     else if c = 8 \<or> c = 127 then (if c_e ?q \<noteq> c_w ?q then consputc Backspace (set_cons (\<lambda>q. q\<lparr>c_e := c_e q - 1\<rparr>) ?s) else (Ret (), ?s))
     else consoleintr_store c ?s"
  have "ok ?m (\<lambda>_ t. \<exists>q. cons_wf q \<and> cons_abs q = line_edit c (cons_abs ?q) \<and> echoed (line_echo c (cons_abs ?q)) q ?s t)"
  proof (cases "c = 21")
    case True
    then show ?thesis using kill_line_edits [of ?s "Suc (unat (c_e ?q - c_w ?q))"] assms by simp
  next
    case False
    show ?thesis
    proof (cases "c = 8 \<or> c = 127")
      case True
      have room: "3 \<le> idle (uart_lsr s)" if "c_e ?q \<noteq> c_w ?q"
      proof -
        have "0 < unat (c_e ?q - c_w ?q)" using that by (simp add: unat_gt_0)
        then show ?thesis using assms(5) by (simp del: unat_gt_0)
      qed
      have "ok ?m (\<lambda>_ t. echoed (line_echo c (cons_abs ?q)) (if c_e ?q = c_w ?q then ?q else ?q\<lparr>c_e := c_e ?q - 1\<rparr>) ?s t)"
        using True False assms(2) room echoed_consputc [of ?s Backspace "\<lambda>q. q\<lparr>c_e := c_e q - 1\<rparr>"]
        by (auto simp: line_echo_def cons_abs_def cons_edit_empty echoed_def cons_text_def)
      moreover have "cons_wf (if c_e ?q = c_w ?q then ?q else ?q\<lparr>c_e := c_e ?q - 1\<rparr>) \<and>
          cons_abs (if c_e ?q = c_w ?q then ?q else ?q\<lparr>c_e := c_e ?q - 1\<rparr>) = line_edit c (cons_abs ?q)"
        using True cons_back [OF assms(1)] assms(1) cons_edit_empty [of ?q]
        by (cases "c_e ?q = c_w ?q") (auto simp: line_edit_def cons_abs_def)
      ultimately show ?thesis by (auto elim!: ok_E)
    next
      case st: False
      then show ?thesis using False consoleintr_store_edits [of ?s c] assms by (simp add: no_plock_def)
    qed
  qed
  then obtain t q where t: "?m = (Ret (), t)" "cons_wf q" "cons_abs q = line_edit c (cons_abs ?q)"
    "echoed (line_echo c (cons_abs ?q)) q ?s t" by (auto elim!: ok_E)
  have "consoleintr c s = bnd (acquire ConsLock s) (\<lambda>_ s. bnd ?m (\<lambda>_ s. release ConsLock s))"
    using assms(3,4) by (simp del: kill_line.simps add: consoleintr_def)
  then have "consoleintr c s = (Ret (), t\<lparr>held := []\<rparr>)"
    unfolding t(1) using t(4) assms(3) by (simp add: echoed_def)
  then show ?thesis using t(2-4) by (simp add: echoed_def cons_wf_def)
qed

theorem consoleintr_edits_witness:
  "\<exists>q. cons_abs q = ([], [97, 98]) \<and>
     ok (consoleintr 127 (kern0\<lparr>cons := q, uart_lsr := replicate 7 0x20\<rparr>)) (\<lambda>_ s'. cons_abs (cons s') = ([], [97])) \<and>
     ok (consoleintr 13 (kern0\<lparr>cons := q, uart_lsr := replicate 7 0x20\<rparr>)) (\<lambda>_ s'. cons_abs (cons s') = ([97, 98, 10], []))"
proof -
  define q where "q = \<lparr>c_buf = replicate 126 0 @ [97, 98 :: u8], c_r = 0 - 2, c_w = 0 - 2, c_e = 0 :: u32\<rparr>"
  have m1: "unat (- 1 :: u32) = 4294967295" by (simp add: unsigned_minus_1_eq_mask mask_eq_exp_minus_1)
  have q: "cons_wf q" "cons_abs q = ([], [97, 98])"
    by (simp_all add: q_def cons_wf_def cons_abs_def cons_ready_def cons_edit_def ring_items_def upt_rec nth_append m1)
  have l: "length (cons_edit q) = 2" using q(2) by (simp add: cons_abs_def del: cons_lengths)
  let ?s = "kern0\<lparr>cons := q, uart_lsr := replicate 7 0x20\<rparr>"
  have f: "cons ?s = q" "held ?s = []" "\<not> panicked ?s" "3 * length (cons_edit (cons ?s)) + 1 \<le> idle (uart_lsr ?s)"
    using l by (simp_all add: kern0_def idle_def)
  have "ok (consoleintr c ?s) (\<lambda>_ s'. cons_abs (cons s') = line_edit c ([], [97, 98]))" if "c \<noteq> 16" for c
    using consoleintr_edits [of ?s c, OF _ f(3,2) that f(4)] q f(1) by (auto elim!: ok_E)
  from this [of 127] this [of 13] show ?thesis using q(2) by (auto simp: line_edit_def)
qed

end
