(* ===== verification/Saverestore.thy ===== *)
theory Saverestore
  imports Tramp
begin

text \<open>
  What the assembly code saves it restores. A save area is a list of registers with the offsets of
  their slots; the trapframe of \<^verbatim>\<open>trampoline.S\<close>, the context of \<^verbatim>\<open>swtch.S\<close> and the stack frame of
  \<^verbatim>\<open>kernelvec.S\<close> are save areas.
\<close>

section \<open>Save areas\<close>

lemma sep_offsets:
  assumes "unat o1 + 8 \<le> unat o2 \<or> unat o2 + 8 \<le> unat o1" and "unat o1 \<le> 4088" and "unat o2 \<le> 4088"
  shows "sep (p + o1) 8 (p + o2 :: u64) 8"
  using assms by (auto simp: sep_def unat_sub_if')

locale save_area =
  fixes slots :: "(reg \<times> u64) list"
  assumes regs_distinct: "distinct (map fst slots)"
    and offs_apart: "sorted_wrt (\<lambda>c d. unat (snd c) + 8 \<le> unat (snd d)) slots"
    and offs_bound: "list_all (\<lambda>c. unat (snd c) \<le> 4088) slots"
begin

lemma slots_sep:
  assumes "c \<in> set slots" and "d \<in> set slots" and "c \<noteq> d"
  shows "sep (p + snd c) 8 (p + snd d) 8"
proof -
  obtain i j where ij: "i < length slots" "j < length slots" "c = slots ! i" "d = slots ! j" "i \<noteq> j"
    using assms by (auto simp: in_set_conv_nth)
  then have "unat (snd c) + 8 \<le> unat (snd d) \<or> unat (snd d) + 8 \<le> unat (snd c)"
    using offs_apart by (cases i j rule: linorder_cases) (auto simp: sorted_wrt_iff_nth_less)
  then show ?thesis using offs_bound assms(1,2) by (intro sep_offsets) (auto simp: list_all_iff)
qed

text \<open>Every slot of the area holds its register afterwards, and memory away from the slots is kept.\<close>

lemma sds_frame:
  assumes "\<forall>c \<in> set cs. tr (x b + snd c) = p + snd c \<and> sep (p + snd c) 8 a 8"
  shows "load64 (sds tr b cs x m) a = load64 m a"
  using assms by (induction cs arbitrary: m) (simp_all add: load64_store64_sep)

lemma sds_sub:
  assumes "set cs \<subseteq> set slots" and "distinct cs" and "\<forall>c \<in> set slots. tr (x b + snd c) = p + snd c" and "c \<in> set cs"
  shows "load64 (sds tr b cs x m) (p + snd c) = x (fst c)"
  using assms
proof (induction cs arbitrary: m)
  case (Cons d cs)
  show ?case
  proof (cases "c = d")
    case True
    have "sep (p + snd e) 8 (p + snd c) 8" if "e \<in> set cs" for e
      using Cons.prems True that by (intro slots_sep) auto
    then have "load64 (sds tr b cs x m') (p + snd c) = load64 m' (p + snd c)" for m'
      using Cons.prems by (intro sds_frame) auto
    then show ?thesis using Cons.prems True by simp
  next
    case False
    then show ?thesis using Cons.IH Cons.prems by simp
  qed
qed simp

lemma sds_saves:
  assumes "\<forall>c \<in> set slots. tr (x b + snd c) = p + snd c" and "c \<in> set slots"
  shows "load64 (sds tr b slots x m) (p + snd c) = x (fst c)"
  using assms regs_distinct by (intro sds_sub) (auto simp: distinct_map)

text \<open>A load of the area gives each of its registers the value of its slot and keeps the others, if
  the base register is not among them or its own slot holds it.\<close>

lemma lds_sub:
  assumes "set cs \<subseteq> set slots" and "distinct (map fst cs)"
    and "\<And>c. c \<in> set cs \<Longrightarrow> tr (x b + snd c) = p + snd c"
    and "\<And>c. c \<in> set cs \<Longrightarrow> fst c = b \<Longrightarrow> load64 m (p + snd c) = x b"
  shows "lds tr b cs m x r = (case map_of cs r of Some off \<Rightarrow> load64 m (p + off) | None \<Rightarrow> x r)"
  using assms
proof (induction cs arbitrary: x)
  case (Cons d cs)
  let ?x = "x(fst d := load64 m (tr (x b + snd d)))"
  have b: "?x b = x b" using Cons.prems(3,4) by auto
  have "lds tr b cs m ?x r = (case map_of cs r of Some off \<Rightarrow> load64 m (p + off) | None \<Rightarrow> ?x r)"
    using Cons.prems b by (intro Cons.IH) auto
  moreover have "map_of cs (fst d) = None" using Cons.prems(2) by (simp add: map_of_eq_None_iff)
  moreover have "tr (x b + snd d) = p + snd d" using Cons.prems(3) by simp
  ultimately show ?case by (cases "r = fst d") (simp_all split: option.splits)
qed simp

end

text \<open>The registers that are loaded come from the slots they were stored in.\<close>

lemma loads_slots [simp]:
  "tf_loads = tf_slots" "ctx_loads = ctx_slots" "kv_loads = filter (\<lambda>c. fst c \<noteq> TP) kv_slots"
  by (simp_all add: tf_loads_def tf_slots_def ctx_loads_def ctx_slots_def kv_loads_def kv_slots_def)

interpretation tf_area: save_area tf_slots
  by unfold_locales (simp_all add: tf_slots_def)

interpretation ctx_area: save_area ctx_slots
  by unfold_locales (simp_all add: ctx_slots_def)

interpretation kv_area: save_area kv_slots
  by unfold_locales (simp_all add: kv_slots_def)

section \<open>The trampoline\<close>

lemma tf_slots_cover: "map_of tf_slots r = None \<longleftrightarrow> r = A0"
  by (cases r) (simp_all add: tf_slots_def)

lemma tf_slots_range: "c \<in> set tf_slots \<Longrightarrow> 40 \<le> unat (snd c) \<and> unat (snd c) \<le> 280 \<and> fst c \<noteq> A0"
  by (auto simp: tf_slots_def)

lemma tf_slots_a0: "c \<in> set tf_slots \<Longrightarrow> unat (snd c) + 8 \<le> 112 \<or> 120 \<le> unat (snd c)"
  by (auto simp: tf_slots_def)

lemma tf_sep: "c \<in> set tf_slots \<Longrightarrow> sep (p + snd c) 8 (p + 112) 8"
  using tf_slots_a0 [of c] tf_slots_range [of c] by (intro sep_offsets) auto

lemma sep_lower: "unat off \<le> 32 \<Longrightarrow> c \<in> set tf_slots \<Longrightarrow> sep (p + snd c) 8 (p + off) 8"
  using tf_slots_range [of c] by (intro sep_offsets) auto

lemma uservec_mem:
  "h_mem (uservec_code tr h) =
     store64 (sds tr A0 tf_slots ((xregs h)(A0 := TRAPFRAME)) (h_mem h)) (tr (TRAPFRAME + 112)) (xregs h A0)"
  by (simp add: uservec_code_def Let_def)

lemma uservec_saved:
  assumes "\<And>off. unat off \<le> 280 \<Longrightarrow> tr (TRAPFRAME + off) = p + off"
  shows "load64 (h_mem (uservec_code tr h)) (p + 112) = xregs h A0"
    and "c \<in> set tf_slots \<Longrightarrow> load64 (h_mem (uservec_code tr h)) (p + snd c) = xregs h (fst c)"
    and "(\<And>off. 40 \<le> unat off \<Longrightarrow> unat off \<le> 280 \<Longrightarrow> sep (p + off) 8 a 8) \<Longrightarrow>
      load64 (h_mem (uservec_code tr h)) a = load64 (h_mem h) a"
proof -
  have a0: "tr (TRAPFRAME + 112) = p + 112" by (rule assms) simp
  have tr: "\<forall>c \<in> set tf_slots. tr (((xregs h)(A0 := TRAPFRAME)) A0 + snd c) = p + snd c"
    using assms tf_slots_range by simp
  show "load64 (h_mem (uservec_code tr h)) (p + 112) = xregs h A0"
    unfolding uservec_mem a0 by simp
  show "load64 (h_mem (uservec_code tr h)) (p + snd c) = xregs h (fst c)" if c: "c \<in> set tf_slots"
    using tf_area.sds_saves [where x = "(xregs h)(A0 := TRAPFRAME)" and b = A0 and p = p and m = "h_mem h", OF tr c]
      tf_sep [OF c, of p] tf_slots_range [OF c]
    unfolding uservec_mem a0 by (simp add: load64_store64_sep sep_commute [of _ _ "p + 112"])
  show "load64 (h_mem (uservec_code tr h)) a = load64 (h_mem h) a"
    if "\<And>off. 40 \<le> unat off \<Longrightarrow> unat off \<le> 280 \<Longrightarrow> sep (p + off) 8 a 8"
  proof -
    have "sep (p + 112) 8 a 8" by (rule that) simp_all
    then show ?thesis
      using tf_area.sds_frame [of tf_slots tr "(xregs h)(A0 := TRAPFRAME)" A0 p a] tr that tf_slots_range
      unfolding uservec_mem a0 by (simp add: load64_store64_sep del: fun_upd_apply)
  qed
qed

lemma userret_regs:
  assumes "\<And>off. unat off \<le> 280 \<Longrightarrow> tr (TRAPFRAME + off) = p + off"
  shows "xregs (userret_code tr sepc h) r =
     (case map_of tf_slots r of Some off \<Rightarrow> load64 (h_mem h) (p + off) | None \<Rightarrow> load64 (h_mem h) (p + 112))"
proof -
  have a0: "tr (TRAPFRAME + 112) = p + 112" by (rule assms) simp
  let ?x = "(xregs h)(A0 := TRAPFRAME)"
  have "lds tr A0 tf_slots (h_mem h) ?x q =
      (case map_of tf_slots q of Some off \<Rightarrow> load64 (h_mem h) (p + off) | None \<Rightarrow> ?x q)" for q
    using tf_area.lds_sub [of tf_slots tr ?x A0 p "h_mem h" q] tf_area.regs_distinct assms tf_slots_range
    by (auto simp del: split_paired_All)
  then show ?thesis using tf_slots_cover [of r] tf_slots_cover [of A0] a0
    by (auto simp: userret_code_def Let_def split: option.splits)
qed

lemma uservec_switches:
  assumes "\<And>off. unat off \<le> 280 \<Longrightarrow> tr (TRAPFRAME + off) = p + off"
  shows "xregs (uservec_code tr h) SP = load64 (h_mem h) (p + 8)"
    and "xregs (uservec_code tr h) TP = load64 (h_mem h) (p + 32)"
    and "h_pc (uservec_code tr h) = load64 (h_mem h) (p + 16)"
    and "h_satp (uservec_code tr h) = load64 (h_mem h) p"
proof -
  have t: "tr (TRAPFRAME + 8) = p + 8" "tr (TRAPFRAME + 32) = p + 32" "tr (TRAPFRAME + 16) = p + 16" "tr TRAPFRAME = p"
    using assms [of 8] assms [of 32] assms [of 16] assms [of 0] by simp_all
  have "load64 (h_mem (uservec_code tr h)) (p + off) = load64 (h_mem h) (p + off)" if "unat off \<le> 32" for off
    using that by (intro uservec_saved(3) [OF assms] sep_offsets) auto
  from this [of 8] this [of 32] this [of 16] this [of 0] show
      "xregs (uservec_code tr h) SP = load64 (h_mem h) (p + 8)" "xregs (uservec_code tr h) TP = load64 (h_mem h) (p + 32)"
      "h_pc (uservec_code tr h) = load64 (h_mem h) (p + 16)" "h_satp (uservec_code tr h) = load64 (h_mem h) p"
    using t by (simp_all add: uservec_mem) (simp_all add: uservec_code_def Let_def)
qed

text \<open>
  C7. A trip through the trampoline is transparent to the user program. With the trapframe page
  mapped at \<^verbatim>\<open>TRAPFRAME\<close>, \<^verbatim>\<open>uservec\<close> puts every user register into its trapframe slot, takes the kernel
  stack, hart id, page table and entry point from the trapframe, and changes no other memory; when
  \<^verbatim>\<open>userret\<close> later runs on a trapframe whose slots are those, all 31 registers are the user's again
  except \<^verbatim>\<open>a0\<close>, which is what the kernel left in its slot: its old value, or a system call's result.
\<close>

theorem trampoline_transparent:
  assumes "\<And>off. unat off \<le> 280 \<Longrightarrow> tr (TRAPFRAME + off) = p + off"
  shows "h_satp (uservec_code tr h) = load64 (h_mem h) p \<and> xregs (uservec_code tr h) SP = load64 (h_mem h) (p + 8) \<and>
      h_pc (uservec_code tr h) = load64 (h_mem h) (p + 16) \<and> xregs (uservec_code tr h) TP = load64 (h_mem h) (p + 32) \<and>
      load64 (h_mem (uservec_code tr h)) (p + 112) = xregs h A0 \<and>
      (\<forall>a. (\<forall>off. 40 \<le> unat off \<and> unat off \<le> 280 \<longrightarrow> sep (p + off) 8 a 8) \<longrightarrow>
         load64 (h_mem (uservec_code tr h)) a = load64 (h_mem h) a) \<and>
      (\<forall>h' sepc. (\<forall>c \<in> set tf_slots. load64 (h_mem h') (p + snd c) = load64 (h_mem (uservec_code tr h)) (p + snd c)) \<longrightarrow>
         xregs (userret_code tr sepc h') = (xregs h)(A0 := load64 (h_mem h') (p + 112)) \<and>
         h_satp (userret_code tr sepc h') = xregs h' A0 \<and> h_pc (userret_code tr sepc h') = sepc)"
proof -
  have ret: "xregs (userret_code tr sepc h') = (xregs h)(A0 := load64 (h_mem h') (p + 112)) \<and>
      h_satp (userret_code tr sepc h') = xregs h' A0 \<and> h_pc (userret_code tr sepc h') = sepc"
    if keep: "\<forall>c \<in> set tf_slots. load64 (h_mem h') (p + snd c) = load64 (h_mem (uservec_code tr h)) (p + snd c)" for h' sepc
  proof -
    have "xregs (userret_code tr sepc h') r = ((xregs h)(A0 := load64 (h_mem h') (p + 112))) r" for r
    proof (cases "map_of tf_slots r")
      case None
      then show ?thesis using userret_regs [OF assms, of sepc h' r] tf_slots_cover [of r] by simp
    next
      case (Some off)
      then have "(r, off) \<in> set tf_slots" by (rule map_of_SomeD)
      then show ?thesis using userret_regs [OF assms, of sepc h' r] tf_slots_cover [of r] Some
          uservec_saved(2) [OF assms, of "(r, off)"] keep by auto
    qed
    then show ?thesis by (auto simp: userret_code_def Let_def)
  qed
  show ?thesis using ret
    by (intro conjI allI impI uservec_saved(1) [OF assms] uservec_saved(3) [OF assms] uservec_switches [OF assms]) auto
qed

text \<open>A user program with 22 in \<^verbatim>\<open>a7\<close>, and the translation of its trapframe page.\<close>

definition hart0 :: hart where
  "hart0 = \<lparr>xregs = (\<lambda>r. if r = A7 then 22 else 9), h_sscratch = 0, h_satp = 1, h_pc = 0, h_mem = (\<lambda>_. 7)\<rparr>"

definition tf0 :: u64 where
  "tf0 = 0x80006000"

definition tr0 :: "u64 \<Rightarrow> u64" where
  "tr0 a = a - TRAPFRAME + tf0"

theorem trampoline_transparent_witness:
  "xregs (userret_code tr0 4 ((uservec_code tr0 hart0)\<lparr>h_mem := store64 (h_mem (uservec_code tr0 hart0)) (tf0 + 112) 42\<rparr>)) =
     (xregs hart0)(A0 := 42)"
proof -
  have t: "tr0 (TRAPFRAME + off) = tf0 + off" for off by (simp add: tr0_def)
  let ?m = "h_mem (uservec_code tr0 hart0)"
  have "load64 (store64 ?m (tf0 + 112) 42) (tf0 + snd c) = load64 ?m (tf0 + snd c)" if "c \<in> set tf_slots" for c
    using tf_sep [OF that, of tf0] by (simp add: load64_store64_sep sep_commute [of _ _ "tf0 + 112"])
  moreover have "load64 (store64 ?m (tf0 + 112) 42) (tf0 + 112) = 42" by simp
  ultimately show ?thesis using trampoline_transparent [where h = hart0, OF t] by simp
qed

section \<open>The context switch\<close>

lemma sep_inside:
  assumes "sep p n q k" and "unat i + 8 \<le> n" and "unat j + 8 \<le> k"
  shows "sep (p + i) 8 (q + j) 8"
proof -
  define d where "d = q - p"
  have d: "n \<le> unat d" "k \<le> unat (0 - d)" using assms(1) by (simp_all add: sep_def d_def)
  have e: "q + j - (p + i) = d - i + j" "p + i - (q + j) = 0 - d - j + i" by (simp_all add: d_def)
  have "d \<noteq> 0" using d assms(2) by auto
  then have nd: "unat (0 - d) = 2 ^ 64 - unat d" using unat_sub64 [of 0 d] by (simp add: unat_eq_zero)
  have l: "unat d < 2 ^ LENGTH(64)" by (rule unsigned_less)
  then have k: "k + unat d \<le> 2 ^ 64" using d(2) nd by simp
  have "unat (d - i) = unat d - unat i" using d assms by (simp add: unat_sub64)
  then have "unat (d - i + j) = unat d - unat i + unat j" using k assms d by (simp add: unat_word_ariths)
  moreover have "unat (0 - d - j) = 2 ^ 64 - unat d - unat j"
    using k assms unat_sub64 [of "0 - d" j] nd by simp
  then have "unat (0 - d - j + i) = 2 ^ 64 - unat d - unat j + unat i" using k assms d by (simp add: unat_word_ariths)
  ultimately have "8 \<le> unat (d - i + j)" "8 \<le> unat (0 - d - j + i)" using k assms(2,3) d(1) by linarith+
  then show ?thesis unfolding sep_def e ..
qed

lemma load64_slot_cong:
  assumes "unat off \<le> 104" and "\<And>off. unat off < 112 \<Longrightarrow> m' (p + off) = m (p + off)"
  shows "load64 m' (p + off) = load64 m (p + off)"
proof -
  have "m' (p + off + of_nat i) = m (p + off + of_nat i)" if "i < 8" for i
  proof -
    have "unat (off + of_nat i) = unat off + i" using assms(1) that by (intro unat_add_nat) simp
    then show ?thesis using assms(1) that assms(2) [of "off + of_nat i"] by (simp add: add.assoc)
  qed
  then have "loadb m' (p + off) 8 = loadb m (p + off) 8" by (auto intro!: nth_equalityI)
  then show ?thesis by (simp add: load64_def)
qed

lemma ctx_slots_range: "c \<in> set ctx_slots \<Longrightarrow> unat (snd c) \<le> 104 \<and> fst c \<noteq> A0 \<and> fst c \<noteq> A1"
  by (auto simp: ctx_slots_def)

lemma swtch_saves:
  assumes "sep (xregs h A0) 112 (xregs h A1) 112"
  shows "c \<in> set ctx_slots \<Longrightarrow> load64 (h_mem (swtch id h)) (xregs h A0 + snd c) = xregs h (fst c)"
    and "sep (xregs h A0) 112 a 8 \<Longrightarrow> load64 (h_mem (swtch id h)) a = load64 (h_mem h) a"
    and "xregs (swtch id h) r =
      (case map_of ctx_slots r of Some off \<Rightarrow> load64 (h_mem h) (xregs h A1 + off) | None \<Rightarrow> xregs h r)"
    and "h_pc (swtch id h) = load64 (h_mem h) (xregs h A1)"
proof -
  let ?p = "xregs h A0" and ?q = "xregs h A1"
  have m: "h_mem (swtch id h) = sds id A0 ctx_slots (xregs h) (h_mem h)" by (simp add: swtch_def Let_def)
  show "load64 (h_mem (swtch id h)) (?p + snd c) = xregs h (fst c)" if "c \<in> set ctx_slots"
    unfolding m using that by (intro ctx_area.sds_saves) simp
  have frame: "load64 (h_mem (swtch id h)) a = load64 (h_mem h) a" if "\<And>off. unat off \<le> 104 \<Longrightarrow> sep (?p + off) 8 a 8" for a
    unfolding m using that ctx_slots_range by (intro ctx_area.sds_frame) auto
  then show "load64 (h_mem (swtch id h)) a = load64 (h_mem h) a" if "sep ?p 112 a 8"
    using sep_inside [OF that, of _ 0] by simp
  have new: "load64 (h_mem (swtch id h)) (?q + off) = load64 (h_mem h) (?q + off)" if "unat off \<le> 104" for off
    using that by (intro frame sep_inside [OF assms]) auto
  have x: "xregs (swtch id h) = lds id A1 ctx_slots (h_mem (swtch id h)) (xregs h)" by (simp add: swtch_def Let_def)
  have regs: "xregs (swtch id h) r = (case map_of ctx_slots r of Some off \<Rightarrow> load64 (h_mem h) (?q + off) | None \<Rightarrow> xregs h r)" for r
  proof -
    have "xregs (swtch id h) r = (case map_of ctx_slots r of Some off \<Rightarrow> load64 (h_mem (swtch id h)) (?q + off) | None \<Rightarrow> xregs h r)"
      unfolding x using ctx_slots_range ctx_area.regs_distinct
      by (intro ctx_area.lds_sub) (auto simp del: split_paired_All)
    then show ?thesis using new ctx_slots_range by (fastforce split: option.splits dest: map_of_SomeD)
  qed
  then show "xregs (swtch id h) r = (case map_of ctx_slots r of Some off \<Rightarrow> load64 (h_mem h) (?q + off) | None \<Rightarrow> xregs h r)" .
  have "h_pc (swtch id h) = xregs (swtch id h) RA" by (simp add: swtch_def Let_def)
  then show "h_pc (swtch id h) = load64 (h_mem h) ?q" using regs [of RA] by (simp add: ctx_slots_def)
qed

text \<open>The registers that the calling convention of RISC-V makes a function preserve, and the return
  address.\<close>

definition preserved :: "reg \<Rightarrow> bool" where
  "preserved r \<longleftrightarrow> r \<in> {RA, SP, S0, S1, S2, S3, S4, S5, S6, S7, S8, S9, S10, S11}"

lemma ctx_slots_cover: "(\<exists>off. map_of ctx_slots r = Some off) \<longleftrightarrow> preserved r"
  by (cases r) (simp_all add: ctx_slots_def preserved_def)

text \<open>
  C10. A thread that gave up the CPU resumes where it stopped. \<^verbatim>\<open>swtch\<close> stores registers in the 112
  bytes of the old context and changes nothing else in memory; when any CPU later switches to that
  context, with these bytes unchanged, \<^verbatim>\<open>swtch\<close> returns to the instruction after the thread's own
  call, with the thread's stack pointer and all its callee-saved registers, \<^verbatim>\<open>s0\<close> to \<^verbatim>\<open>s11\<close>, and leaves
  the other registers alone.
\<close>

theorem swtch_resumes:
  assumes "sep (xregs h A0) 112 (xregs h A1) 112"
    and "xregs h' A1 = xregs h A0" and "sep (xregs h' A0) 112 (xregs h' A1) 112"
    and "\<And>off. unat off < 112 \<Longrightarrow> h_mem h' (xregs h A0 + off) = h_mem (swtch id h) (xregs h A0 + off)"
  shows "h_pc (swtch id h') = xregs h RA \<and>
      xregs (swtch id h') = (\<lambda>r. if r \<in> {RA, SP, S0, S1, S2, S3, S4, S5, S6, S7, S8, S9, S10, S11}
        then xregs h r else xregs h' r) \<and>
      (\<forall>a. sep (xregs h A0) 112 a 8 \<longrightarrow> load64 (h_mem (swtch id h)) a = load64 (h_mem h) a)"
proof -
  have l: "load64 (h_mem h') (xregs h A0 + off) = xregs h r" if c: "(r, off) \<in> set ctx_slots" for r off
  proof -
    have "unat off \<le> 104" using ctx_slots_range [OF c] by simp
    then have "load64 (h_mem h') (xregs h A0 + off) = load64 (h_mem (swtch id h)) (xregs h A0 + off)"
      using assms(4) by (rule load64_slot_cong)
    then show ?thesis using swtch_saves(1) [OF assms(1) c] by simp
  qed
  have "(RA, 0) \<in> set ctx_slots" by (simp add: ctx_slots_def)
  then have "h_pc (swtch id h') = xregs h RA" using l [of RA 0] swtch_saves(4) [OF assms(3)] assms(2) by simp
  moreover have "xregs (swtch id h') r = (if preserved r then xregs h r else xregs h' r)" for r
  proof (cases "map_of ctx_slots r")
    case None
    then have "\<not> preserved r" using ctx_slots_cover [of r] by simp
    then show ?thesis using swtch_saves(3) [OF assms(3), of r] None by simp
  next
    case (Some off)
    then have "(r, off) \<in> set ctx_slots" "preserved r" using ctx_slots_cover [of r] by (auto dest: map_of_SomeD)
    then show ?thesis using swtch_saves(3) [OF assms(3), of r] Some l assms(2) by simp
  qed
  ultimately show ?thesis using swtch_saves(2) [OF assms(1)] unfolding preserved_def by blast
qed

theorem swtch_resumes_witness:
  "\<exists>(h :: hart) h'. xregs h RA = 5 \<and> xregs h' RA = 6 \<and> h_pc (swtch id h') = 5 \<and> xregs (swtch id h') SP = xregs h SP \<and>
     xregs (swtch id h') S11 = 5 \<and> xregs h' S11 = 6 \<and> xregs (swtch id h') A2 = xregs h' A2 \<and> xregs h A2 \<noteq> xregs h' A2"
proof -
  define h where "h = hart0\<lparr>xregs := (\<lambda>r. if r = A0 then 0 else if r = A1 then 4096 else 5)\<rparr>"
  define h' where "h' = (swtch id h)\<lparr>xregs := (\<lambda>r. if r = A0 then 8192 else if r = A1 then 0 else 6)\<rparr>"
  have s: "sep (xregs h A0) 112 (xregs h A1) 112" "sep (xregs h' A0) 112 (xregs h' A1) 112" "xregs h' A1 = xregs h A0"
    "h_mem h' = h_mem (swtch id h)" by (simp_all add: h_def h'_def sep_def unat_sub64 flip: diff_0)
  have "h_pc (swtch id h') = xregs h RA \<and> xregs (swtch id h') =
      (\<lambda>r. if r \<in> {RA, SP, S0, S1, S2, S3, S4, S5, S6, S7, S8, S9, S10, S11} then xregs h r else xregs h' r)"
    using swtch_resumes [OF s(1,3,2)] s(4) by simp
  then have "xregs h RA = 5 \<and> xregs h' RA = 6 \<and> h_pc (swtch id h') = 5 \<and> xregs (swtch id h') SP = xregs h SP \<and>
     xregs (swtch id h') S11 = 5 \<and> xregs h' S11 = 6 \<and> xregs (swtch id h') A2 = xregs h' A2 \<and> xregs h A2 \<noteq> xregs h' A2"
    by (simp add: h_def h'_def)
  then show ?thesis by blast
qed

section \<open>Interrupts of the kernel\<close>

lemma kv_slots_cover: "map_of kv_slots r \<noteq> None"
  by (cases r) (simp_all add: kv_slots_def)

lemma kv_slots_range: "c \<in> set kv_slots \<Longrightarrow> unat (snd c) \<le> 240"
  by (auto simp: kv_slots_def)

lemma map_of_filter_key: "map_of (filter (\<lambda>c. fst c \<noteq> k) cs) r = (if r = k then None else map_of cs r)"
  by (induction cs) auto

text \<open>
  C27. An interrupt that arrives in the kernel is transparent to the interrupted code. \<^verbatim>\<open>kernelvec\<close>
  stores every register in a frame below the stack pointer and touches no other memory; when
  \<^verbatim>\<open>kerneltrap\<close> comes back with the stack pointer where it was and the frame unchanged, every
  register has its old value, the stack pointer included, except \<^verbatim>\<open>tp\<close>, which is the number of the CPU
  the thread runs on now.
\<close>

theorem kernelvec_transparent:
  assumes "\<And>off. unat off \<le> 240 \<Longrightarrow> tr (xregs h SP - 256 + off) = p + off"
    and "xregs h' SP = xregs h SP - 256"
    and "\<And>c. c \<in> set kv_slots \<Longrightarrow> load64 (h_mem h') (p + snd c) = load64 (h_mem (kernelvec_enter tr h)) (p + snd c)"
  shows "xregs (kernelvec_leave tr sepc h') = (xregs h)(TP := xregs h' TP) \<and>
      h_pc (kernelvec_leave tr sepc h') = sepc \<and> xregs (kernelvec_enter tr h) SP = xregs h SP - 256 \<and>
      (\<forall>a. (\<forall>off. unat off \<le> 240 \<longrightarrow> sep (p + off) 8 a 8) \<longrightarrow>
         load64 (h_mem (kernelvec_enter tr h)) a = load64 (h_mem h) a)"
proof -
  let ?x = "(xregs h)(SP := xregs h SP - 256)" and ?cs = "filter (\<lambda>c. fst c \<noteq> TP) kv_slots"
  have e: "h_mem (kernelvec_enter tr h) = sds tr SP kv_slots ?x (h_mem h)" by (simp add: kernelvec_enter_def Let_def)
  have tr: "\<forall>c \<in> set kv_slots. tr (?x SP + snd c) = p + snd c" using assms(1) kv_slots_range by simp
  have l: "load64 (h_mem h') (p + snd c) = ?x (fst c)" if "c \<in> set kv_slots" for c
    using assms(3) [OF that] tr that unfolding e by (simp add: kv_area.sds_saves del: fun_upd_apply)
  have "lds tr SP ?cs (h_mem h') (xregs h') r =
      (case map_of ?cs r of Some off \<Rightarrow> load64 (h_mem h') (p + off) | None \<Rightarrow> xregs h' r)" for r
  proof (rule kv_area.lds_sub)
    show "distinct (map fst ?cs)" using kv_area.regs_distinct by (rule distinct_map_filter)
    show "tr (xregs h' SP + snd c) = p + snd c" if "c \<in> set ?cs" for c using that tr assms(2) by simp
    show "load64 (h_mem h') (p + snd c) = xregs h' SP" if "c \<in> set ?cs" "fst c = SP" for c
      using that l [of c] assms(2) by simp
  qed auto
  then have r: "lds tr SP ?cs (h_mem h') (xregs h') r = (?x(TP := xregs h' TP)) r" for r
    using kv_slots_cover [of r] l by (cases "r = TP") (fastforce simp: map_of_filter_key dest: map_of_SomeD)+
  have "xregs (kernelvec_leave tr sepc h') = (xregs h)(TP := xregs h' TP)"
    using r by (auto simp: kernelvec_leave_def Let_def fun_eq_iff)
  moreover have "load64 (h_mem (kernelvec_enter tr h)) a = load64 (h_mem h) a"
    if "\<forall>off. unat off \<le> 240 \<longrightarrow> sep (p + off) 8 a 8" for a
    unfolding e using that tr kv_slots_range by (intro kv_area.sds_frame [where p = p]) auto
  ultimately show ?thesis by (simp add: kernelvec_leave_def kernelvec_enter_def Let_def)
qed

theorem kernelvec_transparent_witness:
  "xregs (kernelvec_leave id 4 ((kernelvec_enter id hart0)\<lparr>xregs := (\<lambda>r. if r = SP then 9 - 256 else 1)\<rparr>)) = (xregs hart0)(TP := 1)"
proof -
  let ?h = "(kernelvec_enter id hart0)\<lparr>xregs := (\<lambda>r. if r = SP then 9 - 256 else 1)\<rparr>"
  have "xregs ?h SP = xregs hart0 SP - 256" by (simp add: hart0_def)
  then show ?thesis using kernelvec_transparent [of id hart0 "xregs hart0 SP - 256" ?h] by simp
qed

text \<open>
  C35. The timer interrupt handler of machine mode is invisible to the code it interrupts: every
  register and \<^verbatim>\<open>mscratch\<close> have their old values afterwards. It adds the interval of the scratch area
  to the CPU's compare register, raises a supervisor software interrupt, and otherwise changes only
  the three words of the scratch area it saves registers in.
\<close>

theorem timervec_transparent:
  assumes "sep ms 40 (load64 m (ms + 24)) 8"
  shows "\<exists>m'. timervec (x, ms, sip, m) = (x, ms, 2, m') \<and>
      load64 m' (load64 m (ms + 24)) = load64 m (load64 m (ms + 24)) + load64 m (ms + 32) \<and>
      (\<forall>a. sep ms 24 a 8 \<and> sep (load64 m (ms + 24)) 8 a 8 \<longrightarrow> load64 m' a = load64 m a)"
proof -
  define c where "c = load64 m (ms + 24)"
  define m1 where "m1 = store64 (store64 (store64 m ms (x A1)) (ms + 8) (x A2)) (ms + 16) (x A3)"
  have o: "sep (ms + i) 8 (ms + j) 8" if "unat i + 8 \<le> unat j \<or> unat j + 8 \<le> unat i" "unat i \<le> 32" "unat j \<le> 32" for i j
    using that by (intro sep_offsets) auto
  have k: "sep ms 8 (ms + j) 8" "sep (ms + j) 8 ms 8" if "8 \<le> unat j" "unat j \<le> 32" for j
    using o [of 0 j] o [of j 0] that by simp_all
  have c: "sep (ms + i) 8 c 8" "sep c 8 (ms + i) 8" if "unat i \<le> 32" for i
    using sep_inside [OF assms, of i 0] that by (simp_all add: c_def sep_commute)
  have c0: "sep ms 8 c 8" "sep c 8 ms 8" using c [of 0] by simp_all
  have l: "load64 m1 (ms + 24) = c" "load64 m1 (ms + 32) = load64 m (ms + 32)" "load64 m1 c = load64 m c"
    using o k c c0 by (simp_all add: m1_def load64_store64_sep) (simp add: c_def)
  define m2 where "m2 = store64 m1 c (load64 m c + load64 m (ms + 32))"
  have r: "load64 m2 ms = x A1" "load64 m2 (ms + 8) = x A2" "load64 m2 (ms + 16) = x A3"
    using o k c c0 by (simp_all add: m2_def m1_def load64_store64_sep)
  have "timervec (x, ms, sip, m) = (x, ms, 2, m2)"
    using l r by (simp add: timervec_def Let_def m1_def [symmetric] m2_def [symmetric] fun_eq_iff)
  moreover have "load64 m2 a = load64 m a" if "sep ms 24 a 8" "sep c 8 a 8" for a
  proof -
    have "sep (ms + i) 8 a 8" if "unat i \<le> 16" for i using sep_inside [OF \<open>sep ms 24 a 8\<close>, of i 0] that by simp
    from this [of 0] this [of 8] this [of 16] show ?thesis using that by (simp add: m2_def m1_def load64_store64_sep)
  qed
  ultimately show ?thesis by (auto simp: m2_def c_def [symmetric])
qed

theorem timervec_transparent_witness:
  "\<exists>m'. timervec (\<lambda>_. 3, 0x80008000, 0, store64 (\<lambda>_. 0) (0x80008000 + 24) 0x2004000) = (\<lambda>_. 3, 0x80008000, 2, m')"
proof -
  have l: "load64 (store64 (\<lambda>_. 0) (0x80008000 + 24) 0x2004000) (0x80008000 + 24) = 0x2004000"
    by (rule load64_store64_same)
  have "sep 0x80008000 40 (load64 (store64 (\<lambda>_. 0) (0x80008000 + 24) 0x2004000) (0x80008000 + 24)) 8"
    unfolding l by (simp add: sep_def unat_sub64 del: diff_numeral_special)
  then show ?thesis using timervec_transparent by blast
qed

end
