(* ===== verification/Userspace.thy ===== *)
theory Userspace
  imports Kexample Saverestore
begin

text \<open>
  The memory image of a process as the kernel relies on it: its page table is a tree of pages of its
  own, its user pages are apart from the table, and its trapframe page is apart from both. Storing to
  the trapframe and copying to user memory keep the image and do not disturb each other.
\<close>

section \<open>Writing a page outside the image\<close>

lemma other_page:
  assumes ok: "pt_ok m pt e ps" "user_ok m pt" and c: "c mod PGSIZE = 0" "c \<notin> nodes m pt" "c \<notin> upages m pt"
    and op: "only_page c m m'"
  shows "pt_ok m' pt e ps" and "user_ok m' pt" and "nodes m' pt = nodes m pt" and "upage m' pt va = upage m pt va"
    and "upage m pt va \<noteq> 0 \<Longrightarrow> ubyte m' pt va = ubyte m pt va"
proof -
  note same = node_other_page [OF ok(1) c(1,2) op]
  show "pt_ok m' pt e ps" by (rule pt_ok_cong [OF same ok(1)]) auto
  show nodes: "nodes m' pt = nodes m pt" using same by (auto simp: nodes_def)
  show up: "upage m' pt va = upage m pt va" for va
    using pte_of_other_page [OF ok(1) c(1,2) op] by (simp add: upage_def)
  show "user_ok m' pt" using ok(2) unfolding user_ok_def up nodes .
  show "ubyte m' pt va = ubyte m pt va" if "upage m pt va \<noteq> 0"
  proof -
    have "upage m pt va \<noteq> c" using c(3) that by (auto simp: upages_def)
    then have "m' (upage m pt va + of_nat (unat va mod 4096)) = m (upage m pt va + of_nat (unat va mod 4096))"
      using c(1) by (intro only_page_load [OF op page_sep]) auto
    then show ?thesis by (simp add: ubyte_def up offset_of)
  qed
qed

lemma upages_cong: "(\<And>va. upage m' pt va = upage m pt va) \<Longrightarrow> upages m' pt = upages m pt"
  by (simp add: upages_def)

lemma uread_cong:
  assumes "\<And>va. upage m' pt va = upage m pt va" and "\<And>va. upage m pt va \<noteq> 0 \<Longrightarrow> ubyte m' pt va = ubyte m pt va"
  shows "uread m' pt va n = uread m pt va n"
  using assms by (induction n arbitrary: va) (simp_all add: Let_def)

section \<open>The image of a process\<close>

definition uspace :: "'z ptable_scheme \<Rightarrow> nat \<Rightarrow> bool" where
  "uspace s p \<longleftrightarrow> pt_ok (mem s) (p_pagetable (procs s p)) (kend s) [] \<and> 0 < kend s \<and>
     user_ok (mem s) (p_pagetable (procs s p)) \<and> p_trapframe (procs s p) mod PGSIZE = 0 \<and>
     p_trapframe (procs s p) \<notin> nodes (mem s) (p_pagetable (procs s p)) \<and>
     p_trapframe (procs s p) \<notin> upages (mem s) (p_pagetable (procs s p))"

text \<open>\<open>usame\<close>: the same image, except for the trapframe.\<close>

definition usame :: "u64 \<Rightarrow> memory \<Rightarrow> memory \<Rightarrow> bool" where
  "usame pt m m' \<longleftrightarrow> (\<forall>va. upage m' pt va = upage m pt va) \<and> (\<forall>va. upage m pt va \<noteq> 0 \<longrightarrow> ubyte m' pt va = ubyte m pt va)"

lemma usame_refl [simp]: "usame pt m m"
  by (simp add: usame_def)

lemma usame_trans: "usame pt m m1 \<Longrightarrow> usame pt m1 m2 \<Longrightarrow> usame pt m m2"
  by (simp add: usame_def)

lemma usame_uread: "usame pt m m' \<Longrightarrow> uread m' pt va n = uread m pt va n"
  by (rule uread_cong) (simp_all add: usame_def)

lemma usame_mapped: "usame pt m m' \<Longrightarrow> range_mapped m' pt va n = range_mapped m pt va n"
  by (simp add: usame_def range_mapped_def)

lemma only_page_store_at:
  assumes "unat off \<le> 4088"
  shows "only_page p m (store64 m (p + off) w)"
  using only_page_storeb [of "unat off" "le_bytes 8 w" p m] assms by (simp add: store64_def)

lemma tf_set_frame [simp]:
  "held (tf_set p off v s) = held s" "kend (tf_set p off v s) = kend s" "procs (tf_set p off v s) = procs s"
  "curproc (tf_set p off v s) = curproc s" "freelist (tf_set p off v s) = freelist s"
  "trampoline (tf_set p off v s) = trampoline s"
  by (simp_all add: tf_set_def)

lemma tf_set_uspace:
  assumes "uspace s p" and "unat off \<le> 4088"
  shows "uspace (tf_set p off v s) p" and "usame (p_pagetable (procs s p)) (mem s) (mem (tf_set p off v s))"
proof -
  let ?pt = "p_pagetable (procs s p)" and ?m = "mem (tf_set p off v s)"
  have u: "pt_ok (mem s) ?pt (kend s) []" "user_ok (mem s) ?pt" "p_trapframe (procs s p) mod PGSIZE = 0"
    "p_trapframe (procs s p) \<notin> nodes (mem s) ?pt" "p_trapframe (procs s p) \<notin> upages (mem s) ?pt" "0 < kend s"
    using assms(1) by (simp_all add: uspace_def)
  have "only_page (p_trapframe (procs s p)) (mem s) ?m"
    using only_page_store_at [OF assms(2)] by (simp add: tf_set_def)
  note o = other_page [OF u(1-5) this]
  show "uspace (tf_set p off v s) p" using u(3-6) o(1-3) upages_cong [OF o(4)] by (simp add: uspace_def)
  show "usame ?pt (mem s) ?m" using o(4,5) by (simp add: usame_def)
qed

lemma tf_get_set:
  assumes "unat o1 + 8 \<le> unat o2 \<or> unat o2 + 8 \<le> unat o1 \<or> o1 = o2" and "unat o1 \<le> 4088" and "unat o2 \<le> 4088"
  shows "tf_get p o2 (tf_set p o1 v s) = (if o1 = o2 then v else tf_get p o2 s)"
proof (cases "o1 = o2")
  case False
  then have "sep (p_trapframe (procs s p) + o1) 8 (p_trapframe (procs s p) + o2) 8"
    using assms by (intro sep_offsets) auto
  then show ?thesis using False by (simp add: tf_get_def tf_set_def load64_store64_sep)
qed (simp add: tf_get_def tf_set_def)

lemma load64_same_outside:
  assumes "same_outside A m m'" and "c mod PGSIZE = 0" and "c \<notin> A" and "unat off \<le> 4088"
  shows "load64 m' (c + off) = load64 m (c + off)"
proof -
  have "m' (c + off + of_nat i) = m (c + off + of_nat i)" if "i < 8" for i
  proof (rule same_outsideD [OF assms(1-3)])
    have "unat (off + of_nat i) = unat off + i" using assms(4) that by (intro unat_add_nat) simp
    then show "unat (c + off + of_nat i - c) < 4096" using assms(4) that by (simp add: add.assoc)
  qed
  then have "loadb m' (c + off) 8 = loadb m (c + off) 8" by (auto intro!: nth_equalityI)
  then show ?thesis by (simp add: load64_def)
qed

lemma node_same_outside:
  assumes ok: "pt_ok m pt e ps" and same: "same_outside A m m'" and A: "A \<inter> nodes m pt = {}" and q: "path q"
  shows "node m' pt q = node m pt q"
  using q
proof (induction q rule: rev_induct)
  case (snoc j q)
  note q = path_snocD [OF snoc.prems]
  show ?case
  proof (cases "node m pt q")
    case (Some a)
    have al: "a mod PGSIZE = 0" by (rule pt_ok_aligned [OF ok _ Some]) (use q in simp)
    have "a \<notin> A" using A q Some by (auto simp: nodes_def)
    moreover have "unat (of_nat (8 * j) :: u64) \<le> 4088" using q by (subst unat_of_nat64) auto
    then have "unat (8 * of_nat j :: u64) \<le> 4088" by simp
    ultimately have "load64 m' (slot a j) = load64 m (slot a j)"
      unfolding slot_def by (intro load64_same_outside [OF same al])
    from child_cong [OF this] show ?thesis using snoc.IH q Some by (simp add: node_snoc)
  qed (use snoc.IH q in \<open>simp add: node_snoc\<close>)
qed simp

text \<open>A copy to user memory: its result, what the user reads afterwards, and that nothing else of
  the image changes.\<close>

lemma copyout_uspace:
  assumes "uspace s p" and "unat a + length bs \<le> 274877906944"
  defines "pt \<equiv> p_pagetable (procs s p)"
  obtains s' where "copyout pt a bs s = (Ret (if range_mapped (mem s) pt a (length bs) then 0 else - 1), s')"
    and "s' = s\<lparr>mem := mem s'\<rparr>" and "uspace s' p" and "same_outside (upages (mem s) pt) (mem s) (mem s')"
    and "\<And>off. unat off \<le> 4088 \<Longrightarrow> tf_get p off s' = tf_get p off s"
    and "\<And>va. upage (mem s') pt va = upage (mem s) pt va"
    and "range_mapped (mem s) pt a (length bs) \<Longrightarrow> uread (mem s') pt a (length bs) = (0, bs)"
proof -
  have u: "pt_ok (mem s) pt (kend s) []" "user_ok (mem s) pt" "p_trapframe (procs s p) mod PGSIZE = 0"
    "p_trapframe (procs s p) \<notin> nodes (mem s) pt" "p_trapframe (procs s p) \<notin> upages (mem s) pt" "0 < kend s"
    using assms(1) by (simp_all add: uspace_def pt_def)
  obtain s' k where w: "copyout pt a bs s = (Ret (if range_mapped (mem s) pt a (length bs) then 0 else - 1), s')"
    "uwritten pt (kend s) [] s s' a (take k bs)" "range_mapped (mem s) pt a (length bs) \<Longrightarrow> k = length bs"
    using copyout_writes [OF u(1,6,2) assms(2)] by (elim ok_E exE conjE) (auto split: if_splits)
  have s': "s' = s\<lparr>mem := mem s'\<rparr>" and same: "same_outside (upages (mem s) pt) (mem s) (mem s')"
    and up: "\<And>va. upage (mem s') pt va = upage (mem s) pt va" and ok: "pt_ok (mem s') pt (kend s) []" "user_ok (mem s') pt"
    and byte: "\<And>va. upage (mem s) pt va \<noteq> 0 \<Longrightarrow> ubyte (mem s') pt va = overlay (unat a) (take k bs) (ubyte (mem s) pt va) (unat va)"
    using w(2) by (simp_all add: uwritten_def)
  have f: "procs s' = procs s" "kend s' = kend s" using arg_cong [OF s', of procs] arg_cong [OF s', of kend] by simp_all
  have "upages (mem s) pt \<inter> nodes (mem s) pt = {}" using u(2) by (auto simp: user_ok_def upages_def)
  then have "nodes (mem s') pt = nodes (mem s) pt"
    using node_same_outside [OF u(1) same] by (auto simp: nodes_def)
  then have us: "uspace s' p" using f ok u(3-6) upages_cong [OF up] by (simp add: uspace_def pt_def)
  have tf: "tf_get p off s' = tf_get p off s" if "unat off \<le> 4088" for off
    using load64_same_outside [OF same u(3,5) that] f by (simp add: tf_get_def)
  have "uread (mem s') pt a (length bs) = (0, bs)" if m: "range_mapped (mem s) pt a (length bs)"
  proof -
    have "ubyte (mem s') pt (a + of_nat i) = bs ! i" if i: "i < length bs" for i
    proof -
      have "unat (a + of_nat i) = unat a + i" using i assms(2) by (intro unat_add_nat) simp
      moreover have "upage (mem s) pt (a + of_nat i) \<noteq> 0" using m i by (simp add: range_mapped_def)
      ultimately show ?thesis using byte w(3) [OF m] i by (simp add: overlay_def)
    qed
    then show ?thesis using uread_mapped range_mapped_cong [OF up] m by (auto intro: nth_equalityI)
  qed
  from that [OF w(1) s' us same tf up this] show thesis .
qed

lemma kern0_uspace: "uspace kern0 0"
proof -
  have "nodes mem1 0x80001000 \<subseteq> {0x80001000, 0x80002000, 0x80003000}"
    by (auto simp: nodes_def mem1_node split: if_splits)
  then have "0x80006000 \<notin> nodes mem1 0x80001000" by auto
  moreover have "0x80006000 \<notin> upages mem1 0x80001000" by (auto simp: upages_def mem1_upage split: if_splits)
  ultimately show ?thesis using mem1_ok mem1_user by (simp add: uspace_def kern0_def)
qed

end
