(* ===== verification/Sysreport.thy ===== *)
theory Sysreport
  imports Userspace
begin

text \<open>
  A system call from the trap to the return to user space, and what the calls added to this kernel
  report: \<^verbatim>\<open>getschedhistory\<close> and \<^verbatim>\<open>ps\<close>.
\<close>

section \<open>The path of a system call\<close>

text \<open>The state in which \<^verbatim>\<open>usertrap\<close> calls \<^verbatim>\<open>syscall\<close>.\<close>

definition counted :: "proc \<Rightarrow> proc" where
  "counted q = q\<lparr>trapCount := trapCount q + 1, systemcallCount := systemcallCount q + 1\<rparr>"

definition ecall_entry :: "nat \<Rightarrow> 'z trap_state_scheme \<Rightarrow> 'z trap_state_scheme" where
  "ecall_entry p s =
     intr_on (tf_set p TF_epc (r_sepc s + 4) (tf_set p TF_epc (r_sepc s) (setp p counted (s\<lparr>r_stvec := kernelvec s\<rparr>))))"

lemma counted_fields [simp]:
  "p_pagetable (counted q) = p_pagetable q" "p_trapframe (counted q) = p_trapframe q" "p_killed (counted q) = p_killed q"
  "p_pid (counted q) = p_pid q" "p_state (counted q) = p_state q" "p_kstack (counted q) = p_kstack q"
  by (simp_all add: counted_def)

lemma usertrap_ecall:
  assumes "curproc s = Some p" and "r_sstatus s AND SSTATUS_SPP = 0" and "r_scause s = 8" and "held s = []"
    and "p_killed (procs s p) = 0"
  shows "usertrap s = bnd (syscall (ecall_entry p s)) (\<lambda>_ t. bnd (usertrap_end p 0 t) (\<lambda>r t. (Ret (Some r), t)))"
proof -
  have "usertrap_cause p (tf_set p TF_epc (r_sepc s) ((setp p (\<lambda>q. q\<lparr>trapCount := trapCount q + 1\<rparr>) s)\<lparr>r_stvec := kernelvec s\<rparr>)) =
      bnd (syscall (ecall_entry p s)) (\<lambda>_ s. (Ret 0, s))"
    using assms by (simp add: usertrap_cause_def usertrap_syscall_def killed_spec setp_def tf_set_def tf_get_def
        ecall_entry_def counted_def Let_def)
  then show ?thesis using assms by (simp add: usertrap_def Let_def setp_def bnd_assoc)
qed

lemma ecall_entry_fields [simp]:
  "curproc (ecall_entry p s) = curproc s" "held (ecall_entry p s) = held s" "kend (ecall_entry p s) = kend s"
  "procs (ecall_entry p s) = (procs s)(p := counted (procs s p))" "trampoline (ecall_entry p s) = trampoline s"
  "userret (ecall_entry p s) = userret s" "junk (ecall_entry p s) = junk s"
  by (simp_all add: ecall_entry_def intr_on_def tf_set_def setp_def)

lemma uspace_cong:
  "mem t = mem s \<Longrightarrow> kend t = kend s \<Longrightarrow> p_pagetable (procs t p) = p_pagetable (procs s p) \<Longrightarrow>
   p_trapframe (procs t p) = p_trapframe (procs s p) \<Longrightarrow> uspace t p = uspace s p"
  by (simp add: uspace_def)

lemma ecall_entry_image:
  assumes "uspace s p"
  shows "uspace (ecall_entry p s) p" and "usame (p_pagetable (procs s p)) (mem s) (mem (ecall_entry p s))"
    and "tf_get p TF_epc (ecall_entry p s) = r_sepc s + 4"
    and "unat off \<le> 4088 \<Longrightarrow> 32 \<le> unat off \<Longrightarrow> tf_get p off (ecall_entry p s) = tf_get p off s"
proof -
  let ?s = "setp p counted (s\<lparr>r_stvec := kernelvec s\<rparr>)"
  let ?t = "tf_set p TF_epc (r_sepc s + 4) (tf_set p TF_epc (r_sepc s) ?s)"
  have u: "uspace ?s p" using assms uspace_cong [of ?s s p] by (simp add: setp_def)
  have u1: "uspace (tf_set p TF_epc (r_sepc s) ?s) p" using u by (rule tf_set_uspace) simp
  then have "uspace ?t p" by (rule tf_set_uspace) simp
  then show "uspace (ecall_entry p s) p"
    using uspace_cong [of "ecall_entry p s" ?t p] by (simp add: ecall_entry_def intr_on_def)
  have "usame (p_pagetable (procs s p)) (mem s) (mem (tf_set p TF_epc (r_sepc s) ?s))"
    using tf_set_uspace(2) [OF u, of TF_epc "r_sepc s"] by (simp add: setp_def)
  moreover have "usame (p_pagetable (procs s p)) (mem (tf_set p TF_epc (r_sepc s) ?s)) (mem ?t)"
    using tf_set_uspace(2) [OF u1, of TF_epc "r_sepc s + 4"] by (simp add: setp_def)
  ultimately show "usame (p_pagetable (procs s p)) (mem s) (mem (ecall_entry p s))"
    by (auto intro: usame_trans simp: ecall_entry_def intr_on_def)
  have g: "tf_get p off (ecall_entry p s) = tf_get p off ?t" for off by (simp add: ecall_entry_def intr_on_def tf_get_def)
  show "tf_get p TF_epc (ecall_entry p s) = r_sepc s + 4" by (simp add: g tf_get_set)
  show "tf_get p off (ecall_entry p s) = tf_get p off s" if "unat off \<le> 4088" "32 \<le> unat off"
  proof -
    have "tf_get p off ?t = tf_get p off (tf_set p TF_epc (r_sepc s) ?s)" using that by (subst tf_get_set) auto
    also have "\<dots> = tf_get p off ?s" using that by (subst tf_get_set) auto
    also have "\<dots> = tf_get p off s" by (simp add: tf_get_def setp_def)
    finally show ?thesis using g by simp
  qed
qed

lemma tf_set_trap [simp]:
  "r_satp (tf_set p off v s) = r_satp s" "usertrap_addr (tf_set p off v s) = usertrap_addr s" "r_tp (tf_set p off v s) = r_tp s"
  "r_sstatus (tf_set p off v s) = r_sstatus s" "userret (tf_set p off v s) = userret s"
  "tf_get p off (s\<lparr>r_sstatus := x\<rparr>) = tf_get p off s"
  by (simp_all add: tf_set_def tf_get_def)

lemma tf_sets_mem:
  "fold (\<lambda>c. tf_set p (fst c) (snd c)) cs s =
     s\<lparr>mem := fold (\<lambda>c m. store64 m (p_trapframe (procs s p) + fst c) (snd c)) cs (mem s)\<rparr>"
  by (induction cs arbitrary: s) (simp_all add: tf_set_def)

lemma tf_sets_image:
  assumes "uspace s p" and "list_all (\<lambda>c. unat (fst c) \<le> 4088) cs"
  shows "uspace (fold (\<lambda>c. tf_set p (fst c) (snd c)) cs s) p \<and>
    usame (p_pagetable (procs s p)) (mem s) (mem (fold (\<lambda>c. tf_set p (fst c) (snd c)) cs s))"
  using assms
proof (induction cs arbitrary: s)
  case (Cons c cs)
  have o: "unat (fst c) \<le> 4088" "list_all (\<lambda>c. unat (fst c) \<le> 4088) cs" using Cons.prems(2) by simp_all
  note u = tf_set_uspace [OF Cons.prems(1) o(1)]
  show ?case using Cons.IH [OF u(1) o(2)] u(2) by (auto intro: usame_trans)
qed simp

lemma tf_sets_get:
  assumes "list_all (\<lambda>c. unat (fst c) \<le> 4088 \<and> (unat (fst c) + 8 \<le> unat off \<or> unat off + 8 \<le> unat (fst c))) cs" and "unat off \<le> 4088"
  shows "tf_get p off (fold (\<lambda>c. tf_set p (fst c) (snd c)) cs s) = tf_get p off s"
  using assms by (induction cs arbitrary: s) (auto simp: tf_get_set)

lemma spp_cleared: "(x AND NOT SSTATUS_SPP OR SSTATUS_SPIE) AND SSTATUS_SPP = 0"
proof (rule bit_word_eqI)
  fix n
  have "bit SSTATUS_SPP n \<longleftrightarrow> n = 8" "bit SSTATUS_SPIE n \<longleftrightarrow> n = 5"
    using bit_exp_iff [where 'a = u64, of 8 n] bit_exp_iff [where 'a = u64, of 5 n] by auto
  then show "bit ((x AND NOT SSTATUS_SPP OR SSTATUS_SPIE) AND SSTATUS_SPP) n = bit (0 :: u64) n"
    unfolding bit_and_iff bit_or_iff bit_not_iff by auto
qed

lemma usertrapret_image:
  assumes "curproc s = Some p" and "uspace s p"
  obtains s' where "usertrapret s = (Ret (TRAMPOLINE + (userret s - trampoline s), MAKE_SATP (p_pagetable (procs s p))), s')"
    and "uspace s' p" and "usame (p_pagetable (procs s p)) (mem s) (mem s')" and "procs s' = procs s"
    and "r_sepc s' = tf_get p TF_epc s" and "r_sstatus s' AND SSTATUS_SPP = 0"
    and "\<And>off. 40 \<le> unat off \<Longrightarrow> unat off \<le> 4088 \<Longrightarrow> tf_get p off s' = tf_get p off s"
proof -
  let ?pt = "p_pagetable (procs s p)"
  define s0 where "s0 = (intr_off s)\<lparr>r_stvec := TRAMPOLINE + (uservec s - trampoline s)\<rparr>"
  define cs where "cs = [(TF_kernel_satp, r_satp s), (TF_kernel_sp, p_kstack (procs s p) + PGSIZE),
    (TF_kernel_trap, usertrap_addr s), (TF_kernel_hartid, r_tp s)]"
  define s4 where "s4 = fold (\<lambda>c. tf_set p (fst c) (snd c)) cs s0"
  define s' where "s' = s4\<lparr>r_sstatus := r_sstatus s4 AND NOT SSTATUS_SPP OR SSTATUS_SPIE, r_sepc := tf_get p TF_epc s4\<rparr>"
  have f0: "procs s0 = procs s" "userret s0 = userret s" "trampoline s0 = trampoline s" "mem s0 = mem s" "kend s0 = kend s"
    by (simp_all add: s0_def intr_off_def)
  have f: "procs s4 = procs s" "userret s4 = userret s" "trampoline s4 = trampoline s"
    using f0 by (simp_all add: s4_def tf_sets_mem)
  have r: "usertrapret s = (Ret (TRAMPOLINE + (userret s - trampoline s), MAKE_SATP ?pt), s')"
    using assms(1) f by (simp add: usertrapret_def myproc_def Let_def s'_def s4_def cs_def s0_def intr_off_def)
  have "uspace s0 p" using assms(2) uspace_cong [of s0 s p] f0 by simp
  then have u: "uspace s4 p \<and> usame ?pt (mem s) (mem s4)"
    using tf_sets_image [of s0 p cs] f0 by (simp add: s4_def cs_def)
  have u': "uspace s' p" "usame ?pt (mem s) (mem s')" using u uspace_cong [of s' s4 p] by (simp_all add: s'_def)
  have g: "tf_get p off s4 = tf_get p off s" if "unat off = 24 \<or> 40 \<le> unat off" "unat off \<le> 4088" for off
  proof -
    have "tf_get p off s4 = tf_get p off s0" unfolding s4_def using that by (intro tf_sets_get) (auto simp: cs_def)
    then show ?thesis using f0 by (simp add: tf_get_def)
  qed
  have g': "tf_get p off s' = tf_get p off s" if "40 \<le> unat off" "unat off \<le> 4088" for off
    using g [of off] that by (simp add: s'_def tf_get_def)
  have "r_sepc s' = tf_get p TF_epc s" using g [of TF_epc] by (simp add: s'_def)
  moreover have "r_sstatus s' AND SSTATUS_SPP = 0" unfolding s'_def using spp_cleared by simp
  ultimately show thesis using that [OF r u'] g' f(1) by (simp add: s'_def)
qed

text \<open>A call whose handler returns \<open>r\<close> and changes nothing but user memory.\<close>

definition user_ready :: "'z trap_state_scheme \<Rightarrow> nat \<Rightarrow> bool" where
  "user_ready s p \<longleftrightarrow> curproc s = Some p \<and> r_sstatus s AND SSTATUS_SPP = 0 \<and> r_scause s = 8 \<and> held s = [] \<and>
     p_killed (procs s p) = 0 \<and> uspace s p"

definition resumes :: "'z trap_state_scheme \<Rightarrow> nat \<Rightarrow> u64 \<Rightarrow> 'z trap_state_scheme \<Rightarrow> bool" where
  "resumes s p r s' \<longleftrightarrow> procs s' = (procs s)(p := counted (procs s p)) \<and> r_sepc s' = r_sepc s + 4 \<and>
     r_sstatus s' AND SSTATUS_SPP = 0 \<and> tf_get p TF_a0 s' = r \<and>
     (\<forall>c \<in> set tf_slots. tf_get p (snd c) s' = tf_get p (snd c) s)"

lemma report_call:
  assumes s: "user_ready s p" and num: "sint (ucast (tf_get p TF_a7 s) :: i32) = int n" "0 < n" "n < 25" "syscalls n = Some h"
    and h: "h (ecall_entry p s) = (Ret r, t)" "t = (ecall_entry p s)\<lparr>mem := mem t\<rparr>" "uspace t p"
      "\<And>off. unat off \<le> 4088 \<Longrightarrow> tf_get p off t = tf_get p off (ecall_entry p s)"
  obtains s' where
    "usertrap s = (Ret (Some (TRAMPOLINE + (userret s - trampoline s), MAKE_SATP (p_pagetable (procs s p)))), s')"
    and "resumes s p r s'" and "usame (p_pagetable (procs s p)) (mem t) (mem s')"
proof -
  let ?pt = "p_pagetable (procs s p)" and ?t = "tf_set p TF_a0 r t"
  have cur: "curproc s = Some p" "uspace s p" "held s = []" "p_killed (procs s p) = 0" using s by (simp_all add: user_ready_def)
  have f: "procs t = (procs s)(p := counted (procs s p))" "curproc t = Some p" "held t = []" "userret t = userret s" "trampoline t = trampoline s"
    using arg_cong [OF h(2), of procs] arg_cong [OF h(2), of curproc] arg_cong [OF h(2), of held]
      arg_cong [OF h(2), of userret] arg_cong [OF h(2), of trampoline] cur by simp_all
  note e = ecall_entry_image [OF cur(2)]
  have "sint (ucast (tf_get p TF_a7 (ecall_entry p s)) :: i32) = int n" using e(4) [of TF_a7] num by simp
  then have "syscall (ecall_entry p s) = (Ret (), ?t)"
    using num h(1) cur by (simp add: syscall_def myproc_def Let_def)
  moreover have "usertrap_end p 0 ?t = usertrapret ?t" using f cur by (simp add: usertrap_end_def killed_spec)
  ultimately have ut: "usertrap s = bnd (usertrapret ?t) (\<lambda>r t. (Ret (Some r), t))"
    using usertrap_ecall [of s p] s by (simp add: user_ready_def)
  note u = tf_set_uspace [OF h(3), of TF_a0 r]
  obtain s' where s': "usertrapret ?t = (Ret (TRAMPOLINE + (userret ?t - trampoline ?t), MAKE_SATP (p_pagetable (procs ?t p))), s')"
    "usame (p_pagetable (procs ?t p)) (mem ?t) (mem s')" "procs s' = procs ?t" "r_sepc s' = tf_get p TF_epc ?t"
    "r_sstatus s' AND SSTATUS_SPP = 0"
    "\<And>off. 40 \<le> unat off \<Longrightarrow> unat off \<le> 4088 \<Longrightarrow> tf_get p off s' = tf_get p off ?t"
    using usertrapret_image [of ?t p] f u(1) by (auto simp del: tf_set_trap)
  have g: "tf_get p off ?t = tf_get p off (ecall_entry p s)" if "unat off + 8 \<le> 112 \<or> 120 \<le> unat off" "unat off \<le> 4088" for off
    using that h(4) [OF that(2)] by (subst tf_get_set) auto
  have "tf_get p (snd c) s' = tf_get p (snd c) s" if "c \<in> set tf_slots" for c
    using tf_slots_a0 [OF that] tf_slots_range [OF that] s'(6) g e(4) by simp
  moreover have "r_sepc s' = r_sepc s + 4" using s'(4) g [of TF_epc] e(3) by simp
  moreover have "tf_get p TF_a0 s' = r" using s'(6) [of TF_a0] by (simp add: tf_get_set)
  moreover have "usame ?pt (mem t) (mem s')"
  proof -
    have "usame ?pt (mem t) (mem ?t)" "usame ?pt (mem ?t) (mem s')" using u(2) s'(2) f(1) by (simp_all add: setp_def)
    then show ?thesis by (rule usame_trans)
  qed
  ultimately show thesis using that [of s'] ut s'(1,3,5) f by (simp add: resumes_def)
qed

lemma entry_mapped:
  assumes "uspace s p"
  shows "range_mapped (mem (ecall_entry p s)) (p_pagetable (procs s p)) a n = range_mapped (mem s) (p_pagetable (procs s p)) a n"
  by (rule usame_mapped [OF ecall_entry_image(2) [OF assms]])

lemma entry_copyout:
  assumes "uspace s p" and "unat a + length bs \<le> 274877906944"
  defines "pt \<equiv> p_pagetable (procs s p)"
  obtains t where "copyout pt a bs (ecall_entry p s) = (Ret (if range_mapped (mem s) pt a (length bs) then 0 else - 1), t)"
    and "t = (ecall_entry p s)\<lparr>mem := mem t\<rparr>" and "uspace t p"
    and "\<And>off. unat off \<le> 4088 \<Longrightarrow> tf_get p off t = tf_get p off (ecall_entry p s)"
    and "range_mapped (mem s) pt a (length bs) \<Longrightarrow> uread (mem t) pt a (length bs) = (0, bs)"
proof -
  have pt: "p_pagetable (procs (ecall_entry p s) p) = pt" by (simp add: pt_def)
  note m = entry_mapped [OF assms(1), folded pt_def]
  show thesis
    by (rule copyout_uspace [OF ecall_entry_image(1) [OF assms(1)] assms(2), unfolded pt m]) (rule that)
qed

section \<open>getschedhistory\<close>

lemma getw_sched_history:
  "map (getw (sched_history q)) [0..<6] =
     [runCount q, systemcallCount q, interruptCount q, preemptCount q, trapCount q, sleepCount q]"
  by (simp add: getw_def sched_history_def bslice_def upt_rec numeral_eq_Suc)

lemma argaddr_0: "curproc s = Some p \<Longrightarrow> argaddr 0 s = (Ret (tf_get p TF_a0 s), s)"
  by (simp add: argaddr_def argraw_def myproc_def)

text \<open>
  C2. The system call \<^verbatim>\<open>getschedhistory\<close>, from the trap to the return to user space. Called with a
  buffer whose 24 bytes are mapped, the process resumes after its \<^verbatim>\<open>ecall\<close> with its pid in \<^verbatim>\<open>a0\<close> and
  every other register unchanged, and its buffer holds the six counters of its own process in the
  order of the structure; the system call and the trap themselves are counted. When a byte of the
  buffer is not mapped it resumes with -1. No other process changes.
\<close>

theorem getschedhistory_reports:
  assumes "user_ready s p" and "sint (ucast (tf_get p TF_a7 s) :: i32) = 24"
    and "unat (tf_get p TF_a0 s) + 24 \<le> unat MAXVA"
  shows "ok (usertrap s) (\<lambda>r s'. r = Some (TRAMPOLINE + (userret s - trampoline s), MAKE_SATP (p_pagetable (procs s p))) \<and>
      (if range_mapped (mem s) (p_pagetable (procs s p)) (tf_get p TF_a0 s) 24
       then resumes s p (scast (p_pid (procs s p))) s' \<and>
         (\<exists>bs. uread (mem s') (p_pagetable (procs s p)) (tf_get p TF_a0 s) 24 = (0, bs) \<and>
           map (getw bs) [0..<6] = [runCount (procs s p), systemcallCount (procs s p) + 1, interruptCount (procs s p),
             preemptCount (procs s p), trapCount (procs s p) + 1, sleepCount (procs s p)])
       else resumes s p (- 1) s'))"
proof -
  let ?pt = "p_pagetable (procs s p)" and ?a = "tf_get p TF_a0 s" and ?e = "ecall_entry p s"
    and ?bs = "sched_history (counted (procs s p))"
  have u: "uspace s p" "curproc s = Some p" using assms(1) by (simp_all add: user_ready_def)
  have l: "length ?bs = 24" by (simp add: sched_history_def)
  have a: "tf_get p TF_a0 ?e = ?a" using ecall_entry_image(4) [OF u(1), of TF_a0] by simp
  have len: "unat ?a + length ?bs \<le> 274877906944" using assms(3) l by simp
  obtain t where t: "copyout ?pt ?a ?bs ?e = (Ret (if range_mapped (mem s) ?pt ?a 24 then 0 else - 1), t)"
    "t = ?e\<lparr>mem := mem t\<rparr>" "uspace t p" "\<And>off. unat off \<le> 4088 \<Longrightarrow> tf_get p off t = tf_get p off ?e"
    "range_mapped (mem s) ?pt ?a 24 \<Longrightarrow> uread (mem t) ?pt ?a 24 = (0, ?bs)"
    by (rule entry_copyout [OF u(1) len, unfolded l]) blast
  define r :: u64 where "r = (if range_mapped (mem s) ?pt ?a 24 then scast (p_pid (procs s p)) else - 1)"
  have pid: "procs t = (procs s)(p := counted (procs s p))" using arg_cong [OF t(2), of procs] by simp
  have h: "sys_getschedhistory ?e = (Ret r, t)"
    using u t(1) a pid by (simp add: sys_getschedhistory_def argaddr_0 r_def Let_def)
  obtain s' where s': "usertrap s = (Ret (Some (TRAMPOLINE + (userret s - trampoline s), MAKE_SATP ?pt)), s')"
    "resumes s p r s'" "usame ?pt (mem t) (mem s')"
    by (rule report_call [where n = 24 and h = sys_getschedhistory, OF assms(1) _ _ _ _ h t(2-4)])
      (use assms(2) in \<open>simp_all add: syscalls_def\<close>)
  have "uread (mem s') ?pt ?a 24 = (0, ?bs)" if "range_mapped (mem s) ?pt ?a 24"
    using t(5) [OF that] usame_uread [OF s'(3)] by simp
  then show ?thesis using s'(1,2) getw_sched_history [of "counted (procs s p)"] by (auto simp: r_def counted_def)
qed

text \<open>The process of the example state makes system call \<open>n\<close> with argument \<open>a\<close>.\<close>

definition kcall :: "u64 \<Rightarrow> u64 \<Rightarrow> boot_state" where
  "kcall n a = tf_set 0 TF_a0 a (tf_set 0 TF_a7 n kern0)"

lemma kcall_ready: "user_ready (kcall n a) 0"
proof -
  have "uspace (kcall n a) 0" unfolding kcall_def by (intro tf_set_uspace kern0_uspace) simp_all
  moreover have "r_sstatus (kcall n a) = 0" "r_scause (kcall n a) = 8" by (simp_all add: kcall_def tf_set_def kern0_def)
  ultimately show ?thesis by (simp add: user_ready_def kcall_def)
qed

lemma kcall_get: "tf_get 0 TF_a7 (kcall n a) = n" "tf_get 0 TF_a0 (kcall n a) = a"
  by (simp_all add: kcall_def tf_get_set)

lemma kcall_mapped: "unat b + m \<le> 8192 \<Longrightarrow> range_mapped (mem (kcall n a)) 0x80001000 b m"
  using tf_set_uspace(2) [OF kern0_uspace, of TF_a7 n] tf_set_uspace(2) [OF tf_set_uspace(1) [OF kern0_uspace], of TF_a7 TF_a0 n a]
    mem1_range [of b m] by (simp add: kcall_def usame_mapped)

lemma kcall_procs: "procs (kcall n a) 0 = kproc0"
  by (simp add: kcall_def)

theorem getschedhistory_reports_witness:
  "ok (usertrap (kcall 24 0xff0)) (\<lambda>r s'. tf_get 0 TF_a0 s' = 1 \<and>
     (\<exists>bs. uread (mem s') 0x80001000 0xff0 24 = (0, bs) \<and> map (getw bs) [0..<6] = [0, 1, 0, 0, 1, 0]))"
proof -
  have n: "sint (ucast (tf_get 0 TF_a7 (kcall 24 0xff0)) :: i32) = 24" and l: "unat (tf_get 0 TF_a0 (kcall 24 0xff0)) + 24 \<le> unat MAXVA"
    by (simp_all add: kcall_get)
  have "range_mapped (mem (kcall 24 0xff0)) 0x80001000 0xff0 24" by (rule kcall_mapped) simp
  then show ?thesis using getschedhistory_reports [OF kcall_ready n l]
    by (auto elim!: ok_E simp: kcall_procs kcall_get resumes_def kproc0_def proc0_def)
qed

section \<open>ps\<close>

lemma concat_chunk:
  assumes "\<forall>x \<in> set xs. length x = w" and "k < length xs"
  shows "take w (drop (w * k) (concat xs)) = xs ! k"
  using assms
proof (induction xs arbitrary: k)
  case (Cons x xs)
  then show ?case by (cases k) auto
qed simp

lemma takeWhile_nul_pad: "takeWhile (\<lambda>c. c \<noteq> 0) (nul_pad t @ [0]) = takeWhile (\<lambda>c. c \<noteq> 0) t"
proof (induction t)
  case (Cons b t)
  then show ?case by (cases "b = 0") auto
qed simp

lemma takeWhile_take: "takeWhile P (take n t) = take n (takeWhile P t)"
  by (induction t arbitrary: n) (auto simp: take_Cons split: nat.splits)

lemma takeWhile_zeros: "takeWhile (\<lambda>c :: u8. c \<noteq> 0) (t @ replicate n 0) = takeWhile (\<lambda>c. c \<noteq> 0) t"
  by (induction t) (auto simp: takeWhile_eq_Nil_iff hd_replicate)

lemma length_ps_text [simp]: "0 < n \<Longrightarrow> length (ps_text n t) = n"
  by (simp add: ps_text_def bytes_ncpy_def)

lemma ps_text_string: "takeWhile (\<lambda>c. c \<noteq> 0) (ps_text n t) = take (n - 1) (takeWhile (\<lambda>c. c \<noteq> 0) t)"
  unfolding ps_text_def bytes_ncpy_def takeWhile_nul_pad takeWhile_take takeWhile_zeros
  by (simp add: takeWhile_idem)

lemma length_ps_entry [simp]: "length (ps_entry s k i) = 36"
  by (simp add: ps_entry_def Let_def)

lemma length_ps_bytes: "length (ps_bytes s) = 36 * length (ps_slots s)"
proof -
  have "length (concat (map (\<lambda>(k, i). ps_entry s k i) xs)) = 36 * length xs" for xs
    by (induction xs) auto
  then show ?thesis by (simp add: ps_bytes_def)
qed

lemma ps_bytes_entry:
  assumes "k < length (ps_slots s)"
  shows "bslice (ps_bytes s) (36 * k) 36 = ps_entry s k (ps_slots s ! k)"
proof -
  let ?xs = "map (\<lambda>(k, i). ps_entry s k i) (enumerate 0 (ps_slots s))"
  have "take 36 (drop (36 * k) (concat ?xs)) = ?xs ! k" using assms by (intro concat_chunk) auto
  also have "?xs ! k = ps_entry s k (ps_slots s ! k)" using assms by (simp add: nth_enumerate_eq)
  finally show ?thesis by (simp add: bslice_def ps_bytes_def)
qed

text \<open>The slots of the table in use, in the order of the table.\<close>

definition live_slots :: "'z ptable_scheme \<Rightarrow> nat list" where
  "live_slots s = [i \<leftarrow> [0..<64]. p_state (procs s i) \<noteq> UNUSED]"

lemma ps_slots_live: "ps_slots s = live_slots s"
  by (simp add: ps_slots_def live_slots_def)

text \<open>What the entry at \<open>36 * k\<close> says about process \<open>i\<close>.\<close>

definition ps_says :: "u8 list \<Rightarrow> nat \<Rightarrow> 'z ptable_scheme \<Rightarrow> nat \<Rightarrow> bool" where
  "ps_says bs k s i \<longleftrightarrow> getw bs (9 * k) = p_pid (procs s i) \<and>
     getw bs (9 * k + 1) = (case p_parent (procs s i) of None \<Rightarrow> - 1 | Some pp \<Rightarrow> p_pid (procs s pp)) \<and>
     takeWhile (\<lambda>c. c \<noteq> 0) (bslice bs (36 * k + 8) 10) = cstr (ps_state_name (p_state (procs s i))) \<and>
     takeWhile (\<lambda>c. c \<noteq> 0) (bslice bs (36 * k + 18) 16) = take 15 (takeWhile (\<lambda>c. c \<noteq> 0) (p_name (procs s i)))"

lemma bslice_bslice: "off + n \<le> m \<Longrightarrow> bslice (bslice d k m) off n = bslice d (k + off) n"
  unfolding bslice_def by (subst List.drop_take) (simp add: min_def add.commute)

lemma state_name_string:
  "take 9 (takeWhile (\<lambda>c. c \<noteq> 0) (cstr (ps_state_name st))) = cstr (ps_state_name st)"
  by (cases st) (simp_all add: cstr_def ps_state_name_def)

lemma ps_bytes_says:
  assumes "k < length (ps_slots s)"
  shows "ps_says (ps_bytes s) k s (ps_slots s ! k)"
proof -
  let ?e = "ps_entry s k (ps_slots s ! k)"
  have b: "bslice (ps_bytes s) (36 * k + off) n = bslice ?e off n" if "off + n \<le> 36" for off n
    using bslice_bslice [OF that, of "ps_bytes s" "36 * k"] ps_bytes_entry [OF assms] by simp
  have g: "getw (ps_bytes s) (9 * k) = le_word (bslice ?e 0 4)" "getw (ps_bytes s) (9 * k + 1) = le_word (bslice ?e 4 4)"
    using b [of 0 4] b [of 4 4] by (simp_all add: getw_def algebra_simps)
  show ?thesis unfolding ps_says_def g b [of 8 10, simplified] b [of 18 16, simplified]
    by (simp add: ps_entry_def Let_def bslice_def ps_text_string state_name_string)
qed

lemma ps_entry_cong:
  assumes "\<And>i. p_pid (procs t i) = p_pid (procs s i) \<and> p_parent (procs t i) = p_parent (procs s i) \<and>
      p_state (procs t i) = p_state (procs s i) \<and> p_name (procs t i) = p_name (procs s i)" and "junk t = junk s"
  shows "ps_slots t = ps_slots s" and "ps_bytes t = ps_bytes s"
proof -
  show sl: "ps_slots t = ps_slots s" using assms by (simp add: ps_slots_def)
  have "ps_entry t k i = ps_entry s k i" for k i
    using assms(2) assms(1) [of i] assms(1) [of "the (p_parent (procs s i))"]
    by (auto simp: ps_entry_def Let_def split: option.splits)
  then show "ps_bytes t = ps_bytes s" by (simp add: ps_bytes_def sl)
qed

lemma ps_entry_state: "ps_slots (ecall_entry p s) = ps_slots s" "ps_bytes (ecall_entry p s) = ps_bytes s"
  by (intro ps_entry_cong; simp add: counted_def)+

text \<open>
  C3. The system call \<^verbatim>\<open>ps\<close>, from the trap to the return to user space. The process resumes with the
  number of slots of the process table that are not unused, and its buffer then holds one 36-byte
  entry per such slot, in the order of the table: the pid, the parent's pid or -1, the name of the
  state and the first 15 characters of the name. When the buffer is not mapped for that many
  entries it resumes with -1. All its other registers keep their values.
\<close>

theorem ps_reports:
  assumes "user_ready s p" and "sint (ucast (tf_get p TF_a7 s) :: i32) = 23"
    and "unat (tf_get p TF_a0 s) + 36 * length (live_slots s) \<le> unat MAXVA"
  shows "ok (usertrap s) (\<lambda>r s'. r = Some (TRAMPOLINE + (userret s - trampoline s), MAKE_SATP (p_pagetable (procs s p))) \<and>
      (if range_mapped (mem s) (p_pagetable (procs s p)) (tf_get p TF_a0 s) (36 * length (live_slots s))
       then resumes s p (of_nat (length (live_slots s))) s' \<and>
         (\<exists>bs. uread (mem s') (p_pagetable (procs s p)) (tf_get p TF_a0 s) (36 * length (live_slots s)) = (0, bs) \<and>
           (\<forall>k < length (live_slots s). ps_says bs k s (live_slots s ! k)))
       else resumes s p (- 1) s'))"
proof -
  let ?pt = "p_pagetable (procs s p)" and ?a = "tf_get p TF_a0 s" and ?e = "ecall_entry p s" and ?n = "length (ps_slots s)"
  have u: "uspace s p" "curproc s = Some p" using assms(1) by (simp_all add: user_ready_def)
  have a: "tf_get p TF_a0 ?e = ?a" using ecall_entry_image(4) [OF u(1), of TF_a0] by simp
  have len: "unat ?a + length (ps_bytes s) \<le> 274877906944" using assms(3) by (simp add: length_ps_bytes ps_slots_live)
  obtain t where t: "copyout ?pt ?a (ps_bytes s) ?e = (Ret (if range_mapped (mem s) ?pt ?a (36 * ?n) then 0 else - 1), t)"
    "t = ?e\<lparr>mem := mem t\<rparr>" "uspace t p" "\<And>off. unat off \<le> 4088 \<Longrightarrow> tf_get p off t = tf_get p off ?e"
    "range_mapped (mem s) ?pt ?a (36 * ?n) \<Longrightarrow> uread (mem t) ?pt ?a (36 * ?n) = (0, ps_bytes s)"
    by (rule entry_copyout [OF u(1) len, unfolded length_ps_bytes]) blast
  define r :: u64 where "r = (if range_mapped (mem s) ?pt ?a (36 * ?n) then of_nat ?n else - 1)"
  have h: "sys_ps ?e = (Ret r, t)"
    using u t(1) a by (simp add: sys_ps_def ps_entry_state argaddr_0 myproc_def r_def Let_def)
  obtain s' where s': "usertrap s = (Ret (Some (TRAMPOLINE + (userret s - trampoline s), MAKE_SATP ?pt)), s')"
    "resumes s p r s'" "usame ?pt (mem t) (mem s')"
    by (rule report_call [where n = 23 and h = sys_ps, OF assms(1) _ _ _ _ h t(2-4)])
      (use assms(2) in \<open>simp_all add: syscalls_def\<close>)
  have "uread (mem s') ?pt ?a (36 * ?n) = (0, ps_bytes s)" if "range_mapped (mem s) ?pt ?a (36 * ?n)"
    using t(5) [OF that] usame_uread [OF s'(3)] by simp
  then show ?thesis using s'(1,2) ps_bytes_says [of _ s] by (auto simp: r_def ps_slots_live)
qed

theorem ps_reports_witness:
  "ok (usertrap (kcall 23 0xff0)) (\<lambda>r s'. tf_get 0 TF_a0 s' = 1 \<and>
     (\<exists>bs. uread (mem s') 0x80001000 0xff0 36 = (0, bs) \<and> ps_says bs 0 (kcall 23 0xff0) 0))"
proof -
  have sl: "live_slots (kcall 23 0xff0) = [0]"
    by (simp add: live_slots_def kcall_def proc0_def upt_rec)
  have n: "sint (ucast (tf_get 0 TF_a7 (kcall 23 0xff0)) :: i32) = 23"
    and l: "unat (tf_get 0 TF_a0 (kcall 23 0xff0)) + 36 * length (live_slots (kcall 23 0xff0)) \<le> unat MAXVA"
    by (simp_all add: kcall_get sl)
  have "range_mapped (mem (kcall 23 0xff0)) 0x80001000 0xff0 36" by (rule kcall_mapped) simp
  then show ?thesis using ps_reports [OF kcall_ready n l]
    by (auto elim!: ok_E simp: kcall_procs kcall_get resumes_def sl)
qed

end
