(* ===== verification/Grep.thy ===== *)
theory Grep
  imports Kstring
begin

text \<open>
  The user program \<^verbatim>\<open>user/grep.c\<close>: the matcher and the loop that searches the lines of a file. A C
  string is the list of its characters before the terminating zero. The matcher is compared with
  the language of the pattern, and the buffered loop with the lines of the whole input.
\<close>

section \<open>Definitions\<close>

function matchhere :: "u8 list \<Rightarrow> u8 list \<Rightarrow> bool"
  and matchstar :: "u8 \<Rightarrow> u8 list \<Rightarrow> u8 list \<Rightarrow> bool" where
  "matchhere re text =
     (case re of [] \<Rightarrow> True
      | r0 # re1 \<Rightarrow>
          if re1 \<noteq> [] \<and> hd re1 = 42 then matchstar r0 (tl re1) text
          else if r0 = 36 \<and> re1 = [] then text = []
          else case text of [] \<Rightarrow> False
            | t # ts \<Rightarrow> if r0 = 46 \<or> r0 = t then matchhere re1 ts else False)"
| "matchstar c re text =
     (if matchhere re text then True
      else case text of [] \<Rightarrow> False
        | t # ts \<Rightarrow> if t = c \<or> c = 46 then matchstar c re ts else False)"
  by pat_completeness auto

termination
  by (relation "inv_image (less_than <*lex*> less_than <*lex*> less_than)
       (\<lambda>x. case x of Inl (re, text) \<Rightarrow> (length re, length text, 0 :: nat) | Inr (c, re, text) \<Rightarrow> (length re, length text, 1))")
    auto

declare matchhere.simps [simp del] matchstar.simps [simp del]

primrec match_from :: "u8 list \<Rightarrow> u8 list \<Rightarrow> bool" where
  "match_from re [] = matchhere re []"
| "match_from re (t # ts) = (if matchhere re (t # ts) then True else match_from re ts)"

definition match :: "u8 list \<Rightarrow> u8 list \<Rightarrow> bool" where
  "match re text = (case re of [] \<Rightarrow> match_from re text
     | r0 # re1 \<Rightarrow> if r0 = 94 then matchhere re1 text else match_from re text)"

text \<open>The inner loop of \<^verbatim>\<open>grep\<close> on the bytes from \<^verbatim>\<open>p\<close> to the end of the data: what it writes, and the
  bytes from the final \<^verbatim>\<open>p\<close> on. \<^verbatim>\<open>strchr\<close> stops at a zero byte.\<close>

function grep_lines :: "u8 list \<Rightarrow> u8 list \<Rightarrow> u8 list \<times> u8 list" where
  "grep_lines pattern p =
     (if 10 \<in> set (takeWhile (\<lambda>c. c \<noteq> 0) p) then
        let l = takeWhile (\<lambda>c. c \<noteq> 10) p;
            r = grep_lines pattern (drop (length l + 1) p)
        in (if match pattern l then (l @ [10]) @ fst r else fst r, snd r)
      else ([], p))"
  by pat_completeness auto

termination
  by (relation "measure (\<lambda>(_, p). length p)") (auto dest: set_takeWhileD intro!: diff_less)

declare grep_lines.simps [simp del]

text \<open>The loop of \<^verbatim>\<open>grep\<close>. \<open>rd k input\<close> is how many bytes \<^verbatim>\<open>read\<close> transfers when \<open>k\<close> bytes are asked for and
  \<open>input\<close> is what is left of the file; \<open>b\<close> is the data in the buffer, \<open>m\<close> bytes.\<close>

primrec grep_loop :: "(nat \<Rightarrow> u8 list \<Rightarrow> nat) \<Rightarrow> nat \<Rightarrow> u8 list \<Rightarrow> u8 list \<Rightarrow> u8 list \<Rightarrow> u8 list \<Rightarrow> u8 list option" where
  "grep_loop rd 0 pattern b input out = None"
| "grep_loop rd (Suc fuel) pattern b input out =
     (let n = rd (1024 - length b - 1) input in
      if n > 0 then
        let r = grep_lines pattern (b @ take n input)
        in grep_loop rd fuel pattern (snd r) (drop n input) (out @ fst r)
      else Some out)"

definition grep :: "(nat \<Rightarrow> u8 list \<Rightarrow> nat) \<Rightarrow> nat \<Rightarrow> u8 list \<Rightarrow> u8 list \<Rightarrow> u8 list option" where
  "grep rd fuel pattern input = grep_loop rd fuel pattern [] input []"

text \<open>\<^verbatim>\<open>main\<close>: the exit status and what is written to the two outputs. \<open>files\<close> gives the contents of the
  files that can be opened.\<close>

primrec grep_files :: "(nat \<Rightarrow> u8 list \<Rightarrow> nat) \<Rightarrow> nat \<Rightarrow> u8 list \<Rightarrow> (u8 list \<Rightarrow> u8 list option) \<Rightarrow> u8 list list \<Rightarrow> u8 list \<Rightarrow>
    (nat \<times> u8 list \<times> u8 list) option" where
  "grep_files rd fuel pattern files [] out = Some (0, out, [])"
| "grep_files rd fuel pattern files (f # fs) out =
     (case files f of None \<Rightarrow> Some (1, out @ map of_char ''grep: cannot open '' @ f @ [10], [])
      | Some input \<Rightarrow> (case grep rd fuel pattern input of None \<Rightarrow> None
          | Some r \<Rightarrow> grep_files rd fuel pattern files fs (out @ r)))"

definition grep_main :: "(nat \<Rightarrow> u8 list \<Rightarrow> nat) \<Rightarrow> nat \<Rightarrow> u8 list \<Rightarrow> (u8 list \<Rightarrow> u8 list option) \<Rightarrow> u8 list list \<Rightarrow>
    (nat \<times> u8 list \<times> u8 list) option" where
  "grep_main rd fuel stdin files argv =
     (if length argv \<le> 1 then Some (1, [], map of_char ''usage: grep pattern [file ...]\<newline>'')
      else if length argv \<le> 2 then
        (case grep rd fuel (argv ! 1) stdin of None \<Rightarrow> None | Some r \<Rightarrow> Some (0, r, []))
      else grep_files rd fuel (argv ! 1) files (drop 2 argv) [])"

section \<open>The matcher\<close>

text \<open>A pattern as a sequence of items, and what an item matches: \<open>u\<close> followed by the rest \<open>v\<close>.\<close>

datatype atom = Dot | Chr u8
datatype item = Single atom | Many atom | AtEnd

definition atom_of :: "u8 \<Rightarrow> atom" where
  "atom_of c = (if c = 46 then Dot else Chr c)"

fun items :: "u8 list \<Rightarrow> item list" where
  "items [] = []"
| "items [c] = (if c = 36 then [AtEnd] else [Single (atom_of c)])"
| "items (c # d # re) = (if d = 42 then Many (atom_of c) # items re else Single (atom_of c) # items (d # re))"

primrec accepts :: "atom \<Rightarrow> u8 \<Rightarrow> bool" where
  "accepts Dot t = True"
| "accepts (Chr c) t = (c = t)"

inductive denotes :: "item list \<Rightarrow> u8 list \<Rightarrow> u8 list \<Rightarrow> bool" where
  nothing: "denotes [] [] v"
| single: "accepts a t \<Longrightarrow> denotes is u v \<Longrightarrow> denotes (Single a # is) (t # u) v"
| many: "list_all (accepts a) w \<Longrightarrow> denotes is u v \<Longrightarrow> denotes (Many a # is) (w @ u) v"
| at_end: "denotes [AtEnd] [] []"

inductive_cases denotes_cases: "denotes [] u v" "denotes (Single a # is) u v" "denotes (Many a # is) u v" "denotes (AtEnd # is) u v"

definition found :: "item list \<Rightarrow> u8 list \<Rightarrow> bool" where
  "found is text \<longleftrightarrow> (\<exists>u v. text = u @ v \<and> denotes is u v)"

lemma found_Nil [simp]: "found [] text"
  unfolding found_def using denotes.nothing [of "text"] by (intro exI [of _ "[]"] exI [of _ "text"]) simp

lemma found_Single: "found (Single a # is) text \<longleftrightarrow> (\<exists>t ts. text = t # ts \<and> accepts a t \<and> found is ts)"
proof
  assume "found (Single a # is) text"
  then obtain u v where "text = u @ v" "denotes (Single a # is) u v" unfolding found_def by blast
  then obtain t u' where "text = t # u' @ v" "accepts a t" "denotes is u' v" by (auto elim: denotes_cases)
  then show "\<exists>t ts. text = t # ts \<and> accepts a t \<and> found is ts" unfolding found_def by blast
next
  assume "\<exists>t ts. text = t # ts \<and> accepts a t \<and> found is ts"
  then obtain t u v where "text = (t # u) @ v" "accepts a t" "denotes is u v" unfolding found_def by auto
  then show "found (Single a # is) text" unfolding found_def using denotes.single by blast
qed

lemma found_AtEnd: "found [AtEnd] text \<longleftrightarrow> text = []"
  unfolding found_def by (auto elim: denotes_cases intro: denotes.at_end)

lemma found_Many:
  "found (Many a # is) text \<longleftrightarrow> found is text \<or> (\<exists>t ts. text = t # ts \<and> accepts a t \<and> found (Many a # is) ts)"
proof
  assume "found (Many a # is) text"
  then obtain w u v where tx: "text = (w @ u) @ v" and w: "list_all (accepts a) w" and d: "denotes is u v"
    unfolding found_def by (auto elim: denotes_cases)
  show "found is text \<or> (\<exists>t ts. text = t # ts \<and> accepts a t \<and> found (Many a # is) ts)"
  proof (cases w)
    case Nil
    then show ?thesis using tx d by (auto simp: found_def)
  next
    case (Cons t w')
    then have "found (Many a # is) ((w' @ u) @ v)" unfolding found_def using w d denotes.many [of a w' "is" u v]
      by (intro exI [of _ "w' @ u"] exI [of _ v]) auto
    then show ?thesis using tx w Cons by simp
  qed
next
  assume "found is text \<or> (\<exists>t ts. text = t # ts \<and> accepts a t \<and> found (Many a # is) ts)"
  then show "found (Many a # is) text"
  proof
    assume "found is text"
    then show ?thesis unfolding found_def using denotes.many [of a "[]"] by fastforce
  next
    assume "\<exists>t ts. text = t # ts \<and> accepts a t \<and> found (Many a # is) ts"
    then obtain t w u v where "text = t # (w @ u) @ v" "accepts a t" "list_all (accepts a) w" "denotes is u v"
      unfolding found_def by (auto elim: denotes_cases)
    then show ?thesis unfolding found_def using denotes.many [of a "t # w" "is" u v]
      by (intro exI [of _ "(t # w) @ u"] exI [of _ v]) auto
  qed
qed

lemma accepts_atom_of: "accepts (atom_of c) t \<longleftrightarrow> c = 46 \<or> c = t"
  by (simp add: atom_of_def)

lemma items_Cons:
  "items (r0 # re1) = (if re1 \<noteq> [] \<and> hd re1 = 42 then Many (atom_of r0) # items (tl re1)
     else if r0 = 36 \<and> re1 = [] then [AtEnd] else Single (atom_of r0) # items re1)"
  by (cases re1) auto

lemma match_found:
  "matchhere re text \<longleftrightarrow> found (items re) text"
  "matchstar c re text \<longleftrightarrow> found (Many (atom_of c) # items re) text"
proof (induction re "text" and c re "text" rule: matchhere_matchstar.induct)
  case (1 re tx)
  show ?case
  proof (cases re)
    case (Cons r0 re1)
    then show ?thesis using 1
      by (subst matchhere.simps) (auto simp: items_Cons found_Single found_AtEnd accepts_atom_of split: list.splits)
  qed (simp add: matchhere.simps)
next
  case (2 c re tx)
  then show ?case
    by (subst matchstar.simps, subst found_Many) (auto simp: accepts_atom_of split: list.splits)
qed

lemma match_from_iff: "match_from re text \<longleftrightarrow> (\<exists>i \<le> length text. matchhere re (drop i text))"
proof (induction "text")
  case (Cons t ts)
  have "(\<exists>i \<le> length (t # ts). matchhere re (drop i (t # ts))) \<longleftrightarrow>
      matchhere re (t # ts) \<or> (\<exists>i \<le> length ts. matchhere re (drop i ts))"
    by (metis Suc_le_mono drop0 drop_Suc_Cons length_Cons not0_implies_Suc zero_le)
  then show ?case using Cons by simp
qed simp

text \<open>
  C21. The matcher of \<^verbatim>\<open>grep\<close> decides the language of the pattern: with \<^verbatim>\<open>^\<close> in front, some prefix of the
  text is denoted by the items of the rest of the pattern, and otherwise some prefix of some suffix,
  the empty one included. A character stands for itself, \<^verbatim>\<open>.\<close> for any character, \<^verbatim>\<open>*\<close> after a character
  for any number of what it stands for, and a final \<^verbatim>\<open>$\<close> for the end of the text.
\<close>

theorem match_language:
  "match re text = (if re \<noteq> [] \<and> hd re = 94 then found (items (tl re)) text
     else (\<exists>i. i \<le> length text \<and> found (items re) (drop i text)))"
  by (cases re) (auto simp: match_def match_from_iff match_found)

section \<open>The search\<close>

text \<open>The lines of a text that are terminated by a newline, and what follows the last one.\<close>

primrec split_lines :: "u8 list \<Rightarrow> u8 list list \<times> u8 list" where
  "split_lines [] = ([], [])"
| "split_lines (c # cs) = (case split_lines cs of (ls, r) \<Rightarrow>
     if c = 10 then ([] # ls, r)
     else (case ls of [] \<Rightarrow> ([], c # r) | l # ls' \<Rightarrow> ((c # l) # ls', r)))"

definition selected :: "u8 list \<Rightarrow> u8 list list \<Rightarrow> u8 list" where
  "selected pattern ls = concat (map (\<lambda>l. l @ [10]) (filter (match pattern) ls))"

lemma split_lines_none: "10 \<notin> set p \<Longrightarrow> split_lines p = ([], p)"
  by (induction p) auto

lemma split_lines_line: "10 \<notin> set l \<Longrightarrow> split_lines (l @ 10 # p) = (l # fst (split_lines p), snd (split_lines p))"
  by (induction l) (auto split: prod.splits)

lemma split_lines_append:
  "split_lines (p @ q) = (fst (split_lines p) @ fst (split_lines (snd (split_lines p) @ q)),
     snd (split_lines (snd (split_lines p) @ q)))"
  by (induction p) (auto split: prod.splits list.splits if_splits)

lemma split_lines_rest: "10 \<notin> set (snd (split_lines p))"
  by (induction p) (auto split: prod.splits list.splits)

lemma split_lines_rest_subset: "set (snd (split_lines p)) \<subseteq> set p"
  by (induction p) (auto split: prod.splits list.splits)

lemma grep_lines_split:
  "0 \<notin> set p \<Longrightarrow> grep_lines pattern p = (selected pattern (fst (split_lines p)), snd (split_lines p))"
proof (induction pattern p rule: grep_lines.induct)
  case (1 pattern p)
  have str: "takeWhile (\<lambda>c. c \<noteq> 0) p = p" using "1.prems" by (auto simp: takeWhile_eq_all_conv)
  show ?case
  proof (cases "10 \<in> set p")
    case False
    then show ?thesis by (simp add: grep_lines.simps str split_lines_none selected_def)
  next
    case True
    let ?l = "takeWhile (\<lambda>c. c \<noteq> 10) p" and ?r = "drop (length (takeWhile (\<lambda>c. c \<noteq> 10) p) + 1) p"
    have l: "10 \<notin> set ?l" using set_takeWhileD by fast
    have p: "p = ?l @ 10 # ?r"
    proof -
      obtain x xs where d: "dropWhile (\<lambda>c. c \<noteq> 10) p = x # xs" using True by (cases "dropWhile (\<lambda>c. c \<noteq> 10) p") auto
      then have "x = 10" using hd_dropWhile [of "\<lambda>c. c \<noteq> 10" p] by auto
      then have e: "p = ?l @ 10 # xs" using takeWhile_dropWhile_id [of "\<lambda>c. c \<noteq> 10" p] d by simp
      then have "?r = xs" using drop_append [of "length ?l + 1" ?l "10 # xs"] by simp
      then show ?thesis using e by simp
    qed
    have "0 \<notin> set ?r" using "1.prems" set_drop_subset by fast
    then have "grep_lines pattern ?r = (selected pattern (fst (split_lines ?r)), snd (split_lines ?r))"
      using "1.IH" True str by simp
    then have "grep_lines pattern p = (selected pattern (?l # fst (split_lines ?r)), snd (split_lines ?r))"
      using True by (simp add: grep_lines.simps [of pattern p] str selected_def Let_def)
    also have "\<dots> = (selected pattern (fst (split_lines p)), snd (split_lines p))"
      using split_lines_line [OF l, of ?r] p by (metis fst_conv snd_conv)
    finally show ?thesis .
  qed
qed

lemma split_lines_prefix:
  "10 \<notin> set b \<Longrightarrow> split_lines (b @ q) = (case split_lines q of (ls, r) \<Rightarrow>
     (case ls of [] \<Rightarrow> ([], b @ r) | l # ls' \<Rightarrow> ((b @ l) # ls', r)))"
  by (induction b) (auto split: prod.splits list.splits)

definition short_lines :: "u8 list \<Rightarrow> bool" where
  "short_lines p \<longleftrightarrow> list_all (\<lambda>l. length l < 1023) (snd (split_lines p) # fst (split_lines p))"

lemma short_lines_prefix: "short_lines (b @ q) \<Longrightarrow> 10 \<notin> set b \<Longrightarrow> length b < 1023"
  by (auto simp: short_lines_def split_lines_prefix split: prod.splits list.splits)

lemma short_lines_suffix: "short_lines (p @ q) \<Longrightarrow> short_lines (snd (split_lines p) @ q)"
  by (simp add: short_lines_def split_lines_append [of p q])

lemma selected_append: "selected pattern (ls @ ls') = selected pattern ls @ selected pattern ls'"
  by (simp add: selected_def)

text \<open>What \<^verbatim>\<open>read\<close> does on a file: it transfers no more than was asked for and than is left, and
  something if neither is zero.\<close>

definition reads :: "(nat \<Rightarrow> u8 list \<Rightarrow> nat) \<Rightarrow> bool" where
  "reads rd \<longleftrightarrow> (\<forall>k input. rd k input \<le> k \<and> rd k input \<le> length input \<and> (0 < k \<and> input \<noteq> [] \<longrightarrow> 0 < rd k input))"

lemma grep_loop_selects:
  assumes "reads rd" and "10 \<notin> set b" and "0 \<notin> set (b @ input)" and "short_lines (b @ input)" and "length input < fuel"
  shows "grep_loop rd fuel pattern b input out = Some (out @ selected pattern (fst (split_lines (b @ input))))"
  using assms(2-)
proof (induction fuel arbitrary: b input out)
  case (Suc fuel)
  let ?n = "rd (1024 - length b - 1) input"
  have k: "0 < 1024 - length b - 1" using short_lines_prefix [OF Suc.prems(3,1)] by simp
  have n: "?n \<le> length input" "input \<noteq> [] \<Longrightarrow> 0 < ?n" using assms(1) k by (auto simp: reads_def)
  show ?case
  proof (cases "input = []")
    case True
    then have "?n = 0" using n(1) by simp
    then show ?thesis using True Suc.prems(1) by (simp add: Let_def split_lines_none selected_def)
  next
    case False
    let ?p = "b @ take ?n input" and ?q = "drop ?n input"
    let ?b = "snd (split_lines ?p)"
    have e: "b @ input = ?p @ ?q" by simp
    have sh: "short_lines (?b @ ?q)" using Suc.prems(3) unfolding e by (rule short_lines_suffix)
    have z: "0 \<notin> set ?p" "0 \<notin> set ?q" using Suc.prems(2) set_take_subset [of ?n input] set_drop_subset [of ?n input] by auto
    have "0 \<notin> set ?b" using z(1) split_lines_rest_subset by fast
    then have "grep_loop rd fuel pattern ?b ?q o' = Some (o' @ selected pattern (fst (split_lines (?b @ ?q))))" for o'
      using Suc.prems(4) n False z(2) by (intro Suc.IH split_lines_rest sh) auto
    then show ?thesis using n(2) [OF False] grep_lines_split [OF z(1), of pattern] split_lines_append [of ?p ?q]
      by (simp add: Let_def selected_append)
  qed
qed simp

text \<open>
  C22. \<^verbatim>\<open>grep\<close> prints exactly the lines that match, each once and in order, whatever portions \<^verbatim>\<open>read\<close>
  returns the file in: lines that cross the end of the buffer are put together again. It returns
  after at most one round per byte of input. This holds for a file without zero bytes whose lines
  fit the buffer; what follows the last newline is not searched.
\<close>

theorem grep_selects_lines:
  assumes "reads rd" and "0 \<notin> set input" and "short_lines input" and "length input < fuel"
  shows "grep rd fuel pattern input = Some (selected pattern (fst (split_lines input)))"
  using grep_loop_selects [OF assms(1), of "[]" input fuel pattern "[]"] assms by (simp add: grep_def)

theorem grep_selects_lines_witness:
  "grep (\<lambda>k input. min 2 (min k (length input))) 10 [97, 42, 98, 36] [97, 98, 10, 98, 97, 10, 98, 10, 98] = Some [97, 98, 10, 98, 10]"
proof -
  let ?rd = "\<lambda>k input. min 2 (min k (length input))" and ?in = "[97, 98, 10, 98, 97, 10, 98, 10, 98] :: u8 list"
  have "reads ?rd" "short_lines ?in" by (auto simp: reads_def short_lines_def)
  from grep_selects_lines [OF this(1) _ this(2), of 10 "[97, 42, 98, 36]"] show ?thesis
    by (simp add: selected_def match_def matchhere.simps matchstar.simps)
qed

end
