(* ===== verification/Fstx.thy ===== *)
theory Fstx
  imports Consring
begin

text \<open>
  The file system's operations on blocks, seen through the contents of the blocks. \<open>fs_op k s\<close>: a
  system call is inside a transaction that has room for \<open>k\<close> more blocks. Reading, changing and
  releasing a buffer under it become equations on \<open>blocks\<close>; the allocator of blocks is the first
  client.
\<close>

section \<open>Operations inside a transaction\<close>

definition locked :: "'z logstate_scheme \<Rightarrow> u32 set" where
  "locked s = {b. block_lock s b \<noteq> None}"

definition clean :: "'z logstate_scheme \<Rightarrow> bool" where
  "clean s \<longleftrightarrow> (\<forall>b. block_lock s b = None \<longrightarrow> b \<notin> set (logged s) \<longrightarrow> blocks s b = disk s b)"

definition fs_op :: "nat \<Rightarrow> 'z logstate_scheme \<Rightarrow> bool" where
  "fs_op k s \<longleftrightarrow> tx s \<and> clean s \<and> LogLock \<notin> set (held s) \<and> sint (lg_outstanding (lg s)) \<ge> 1 \<and>
     0 \<le> sint (lh_n (lg_lh (lg s))) \<and> lg_size (lg s) = of_nat LOGSIZE \<and> lcount s + k < LOGSIZE"

lemma fs_op_mono: "fs_op k s \<Longrightarrow> j \<le> k \<Longrightarrow> fs_op j s"
  by (auto simp: fs_op_def)

lemma fs_op_room: "fs_op (Suc k) s \<Longrightarrow> log_room s"
  by (auto simp: fs_op_def log_room_def)

lemma fs_op_tx: "fs_op k s \<Longrightarrow> tx s"
  by (simp add: fs_op_def)

lemma lcount_logged: "tx s \<Longrightarrow> length (logged s) = lcount s"
  by (simp add: tx_def log_wf_def length_logged)

lemma in_use_card:
  assumes "tx s" shows "card (in_use s) \<le> lcount s + card (locked s)"
proof -
  have "in_use s = set (logged s) \<union> locked s" by (simp add: in_use_def locked_def)
  moreover have "card (set (logged s)) \<le> lcount s" using card_length [of "logged s"] lcount_logged [OF assms] by simp
  ultimately show ?thesis using card_Un_le [of "set (logged s)" "locked s"] by simp
qed

lemma fs_bread:
  assumes f: "fs_op k s" and l: "block_lock s bno = None" and r: "lcount s + card (locked s) < NBUF"
  obtains b s' where "bread 1 bno s = (Ret b, s')" and "fs_op k s'" and "tx_frame s s'" and "lg s' = lg s"
    and "blocks s' = blocks s" and "block_lock s' = (block_lock s)(bno \<mapsto> b)" and "b_data (bufs s' b) = blocks s bno"
proof -
  have t: "tx s" using f by (rule fs_op_tx)
  have "card (in_use s) < NBUF" using in_use_card [OF t] r by simp
  then obtain b s' where s': "bread 1 bno s = (Ret b, s')" "tx s'" "tx_frame s s'" "lg s' = lg s" "blocks s' = blocks s"
    "block_lock s' = (block_lock s)(bno \<mapsto> b)" "b_data (bufs s' b) = blocks s bno"
    using tx_bread [OF t l] by blast
  have "fs_op k s'" using f s' by (simp add: fs_op_def clean_def tx_frame_def same_lg_facts [OF s'(4)])
  then show thesis using that s' by blast
qed

text \<open>Releasing a buffer that has not been changed since it was read, or that is logged.\<close>

lemma fs_brelse:
  assumes f: "fs_op k s" and l: "block_lock s bno = Some b" and c: "bno \<in> set (logged s) \<or> blocks s bno = disk s bno"
  obtains s' where "brelse b s = (Ret (), s')" and "fs_op k s'" and "tx_frame s s'" and "lg s' = lg s"
    and "blocks s' = blocks s" and "block_lock s' = (block_lock s)(bno := None)"
proof -
  obtain s' where s': "brelse b s = (Ret (), s')" "tx s'" "tx_frame s s'" "lg s' = lg s" "blocks s' = blocks s"
    "block_lock s' = (block_lock s)(bno := None)"
    using tx_brelse [OF fs_op_tx [OF f] l c] by blast
  have "fs_op k s'" using f s' c by (auto simp: fs_op_def clean_def tx_frame_def same_lg_facts [OF s'(4)])
  then show thesis using that s' by blast
qed

text \<open>Replacing the contents of a locked buffer and logging it.\<close>

lemma fs_log:
  assumes f: "fs_op (Suc k) s" and l: "block_lock s bno = Some b" and a: "bno \<notin> log_area (lg_start (lg s))"
  obtains s' where "log_write b (buf_put b d s) = (Ret (), s')" and "fs_op k s'" and "tx_frame s s'"
    and "blocks s' = (blocks s)(bno := d)" and "block_lock s' = block_lock s"
    and "set (logged s') = insert bno (set (logged s))" and "lcount s' \<le> Suc (lcount s)"
proof -
  let ?p = "buf_put b d s"
  have p: "tx ?p" "tx_frame s ?p" "lg ?p = lg s" "blocks ?p = (blocks s)(bno := d)" "block_lock ?p = block_lock s"
    using tx_put [OF fs_op_tx [OF f] l] by auto
  note sf = same_lg_facts [OF p(3)]
  have r: "log_room ?p" using fs_op_room [OF f] p by (simp add: log_room_def tx_frame_def sf)
  obtain s' where s': "log_write b ?p = (Ret (), s')" "tx s'" "tx_frame ?p s'" "blocks s' = blocks ?p" "block_lock s' = block_lock ?p"
    "logged s' = (if bno \<in> set (logged ?p) then logged ?p else logged ?p @ [bno])" "0 \<le> sint (lh_n (lg_lh (lg s')))"
    using tx_log_write [OF p(1) _ r] l a p by (metis (no_types, lifting))
  have fr: "tx_frame s s'" using tx_frame_trans [OF p(2) s'(3)] .
  have s6: "logged s' = (if bno \<in> set (logged s) then logged s else logged s @ [bno])" using s'(6) unfolding sf(2) .
  have n: "lcount s' \<le> Suc (lcount s)"
    using arg_cong [OF s6, of length] lcount_logged [OF s'(2)] lcount_logged [OF fs_op_tx [OF f]] by (simp split: if_splits)
  have lg: "set (logged s') = insert bno (set (logged s))" unfolding s6 by auto
  have "clean s'" using f s' p lg fr by (auto simp: fs_op_def clean_def tx_frame_def)
  then have "fs_op k s'" using f s' n fr tx_frame_lg [OF fr] by (auto simp: fs_op_def tx_frame_def)
  then show thesis using that s' p fr n lg by auto
qed

lemma fs_write:
  assumes "fs_op (Suc k) s" and l: "block_lock s bno = Some b" and a: "bno \<notin> log_area (lg_start (lg s))"
  obtains s' where "bnd (log_write b (buf_put b d s)) (\<lambda>_ s. brelse b s) = (Ret (), s')" and "fs_op k s'" and "tx_frame s s'"
    and "blocks s' = (blocks s)(bno := d)" and "block_lock s' = (block_lock s)(bno := None)"
    and "set (logged s') = insert bno (set (logged s))" and "lcount s' \<le> Suc (lcount s)"
proof -
  obtain s1 where s1: "log_write b (buf_put b d s) = (Ret (), s1)" "fs_op k s1" "tx_frame s s1" "blocks s1 = (blocks s)(bno := d)"
    "block_lock s1 = block_lock s" "set (logged s1) = insert bno (set (logged s))" "lcount s1 \<le> Suc (lcount s)"
    by (rule fs_log [OF assms])
  obtain s2 where s2: "brelse b s1 = (Ret (), s2)" "fs_op k s2" "tx_frame s1 s2" "lg s2 = lg s1" "blocks s2 = blocks s1"
    "block_lock s2 = (block_lock s1)(bno := None)"
    by (rule fs_brelse [OF s1(2), of bno b]) (use s1 l in auto)
  show thesis using that [of s2] s1 s2 tx_frame_trans [OF s1(3) s2(3)] same_lg_facts [OF s2(4)] by simp
qed

text \<open>The part of the state above the log is not touched.\<close>

lemma more_fs:
  assumes "logstate.more s' = logstate.more (s :: 'z fsstate_scheme)"
  shows "sb s' = sb s" and "itable s' = itable s" and "junk s' = junk s" and "uart_lsr s' = uart_lsr s" and "panicked s' = panicked s"
    and "pr_locking s' = pr_locking s" and "uart_out s' = uart_out s"
  using assms by (cases s; cases s'; simp)+

lemmas tx_frame_fs = more_fs [of s' s for s' s, OF conjunct1 [OF conjunct2 [OF conjunct2 [OF conjunct2 [OF conjunct2 [OF conjunct2 [OF conjunct2
  [OF iffD1 [OF tx_frame_def]]]]]]]]]

lemma tx_frame_start: "tx_frame s s' \<Longrightarrow> lg_start (lg s') = lg_start (lg s)"
  using tx_frame_lg by blast

section \<open>The free map\<close>

lemma bit_bmap_mask: "bit (bmap_mask bi) n \<longleftrightarrow> n = bi mod 8"
proof -
  have "bi mod 8 < 8" by simp
  then show ?thesis by (auto simp: bmap_mask_def bit_exp_iff)
qed

lemma bmap_free_bit: "bmap_free d bi \<longleftrightarrow> \<not> bit (d ! (bi div 8)) (bi mod 8)"
proof -
  have "(d ! (bi div 8)) AND bmap_mask bi = 0 \<longleftrightarrow> (\<forall>n < 8. \<not> (bit (d ! (bi div 8)) n \<and> n = bi mod 8))"
    by (auto simp: bit_eq_iff bit_and_iff bit_bmap_mask)
  moreover have "bi mod 8 < 8" by simp
  ultimately show ?thesis unfolding bmap_free_def by blast
qed

lemma bmap_free_set:
  assumes "bi div 8 < length d"
  shows "bmap_free (bmap_set d bi) bj \<longleftrightarrow> bmap_free d bj \<and> bj \<noteq> bi"
proof -
  have eq: "bj = bi" if "bj div 8 = bi div 8" "bj mod 8 = bi mod 8" using that by (metis div_mod_decomp)
  show ?thesis using assms eq by (auto simp: bmap_free_bit bmap_set_def nth_list_update bit_or_iff bit_bmap_mask)
qed

lemma bmap_free_clear:
  assumes "bi div 8 < length d"
  shows "bmap_free (bmap_clear d bi) bj \<longleftrightarrow> bmap_free d bj \<or> bj = bi"
proof -
  have eq: "bj = bi" if "bj div 8 = bi div 8" "bj mod 8 = bi mod 8" using that by (metis div_mod_decomp)
  show ?thesis using assms eq by (auto simp: bmap_free_bit bmap_clear_def nth_list_update bit_and_iff bit_not_iff bit_bmap_mask)
qed

lemma length_bmap [simp]: "length (bmap_set d bi) = length d" "length (bmap_clear d bi) = length d"
  by (simp_all add: bmap_set_def bmap_clear_def)

lemma bmap_clear_set: "bmap_free d bi \<Longrightarrow> bi div 8 < length d \<Longrightarrow> bmap_clear (bmap_set d bi) bi = d"
proof -
  assume a: "bmap_free d bi" "bi div 8 < length d"
  have "((d ! (bi div 8)) OR bmap_mask bi) AND NOT (bmap_mask bi) = d ! (bi div 8)"
    by (rule bit_word_eqI) (use a(1) in \<open>auto simp: bmap_free_bit bit_or_iff bit_and_iff bit_not_iff bit_bmap_mask\<close>)
  then show ?thesis using a(2) by (simp add: bmap_clear_def bmap_set_def)
qed

section \<open>Allocating a block\<close>

text \<open>Block \<open>n\<close> is free in the map that the blocks \<open>B\<close> hold. \<open>layout ds\<close>: a file system whose data blocks
  start at \<open>ds\<close>: the log and the free map lie below, and all blocks below are marked as used.\<close>

definition bfree_at :: "(u32 \<Rightarrow> u8 list) \<Rightarrow> superblock \<Rightarrow> nat \<Rightarrow> bool" where
  "bfree_at B S n \<longleftrightarrow> bmap_free (B (BBLOCK (of_nat n) S)) (n mod BPB)"

definition layout :: "nat \<Rightarrow> u32 \<Rightarrow> (u32 \<Rightarrow> u8 list) \<Rightarrow> superblock \<Rightarrow> bool" where
  "layout ds st B S \<longleftrightarrow> (\<forall>n < unat (sb_size S). unat (BBLOCK (of_nat n) S) < ds \<and> BBLOCK (of_nat n) S \<notin> log_area st \<and>
     length (B (of_nat n)) = BSIZE \<and> length (B (BBLOCK (of_nat n) S)) = BSIZE) \<and>
     (\<forall>b \<in> log_area st. unat b < ds) \<and> (\<forall>n < ds. \<not> bfree_at B S n) \<and> 0 < ds"

lemma unat_of_nat32: "n < 2 ^ 32 \<Longrightarrow> unat (of_nat n :: u32) = n"
  by (simp add: unat_of_nat take_bit_nat_eq_self)

lemma BBLOCK_div: "n < 2 ^ 32 \<Longrightarrow> BBLOCK (of_nat n) S = of_nat (n div BPB) + sb_bmapstart S"
proof -
  assume n: "n < 2 ^ 32"
  have "unat (of_nat n div 8192 :: u32) = n div BPB" using n by (simp add: unat_div_distrib unat_of_nat32)
  also have "\<dots> = unat (of_nat (n div BPB) :: u32)" using n by (intro unat_of_nat32 [symmetric]) simp
  finally have "of_nat n div 8192 = (of_nat (n div BPB) :: u32)" by (simp only: word_unat_eq_iff)
  then show ?thesis by (simp add: BBLOCK_def)
qed

lemma size_less: "n < unat (sb_size S) \<Longrightarrow> n < 2 ^ 32"
proof -
  have "unat (sb_size S) < 2 ^ LENGTH(32)" by (rule unsigned_less)
  then show "n < unat (sb_size S) \<Longrightarrow> n < 2 ^ 32" by simp
qed

text \<open>What \<^verbatim>\<open>balloc\<close> does to the blocks when it takes block \<open>n\<close>.\<close>

definition taken_block :: "superblock \<Rightarrow> nat \<Rightarrow> (u32 \<Rightarrow> u8 list) \<Rightarrow> u32 \<Rightarrow> u8 list" where
  "taken_block S n B = B(BBLOCK (of_nat n) S := bmap_set (B (BBLOCK (of_nat n) S)) (n mod BPB), of_nat n := replicate BSIZE 0)"

definition unlocked_for :: "'z fsstate_scheme \<Rightarrow> bool" where
  "unlocked_for s \<longleftrightarrow> card (locked s) \<le> 1 \<and> (\<forall>n < unat (sb_size (sb s)). block_lock s (BBLOCK (of_nat n) (sb s)) = None \<and>
     (bfree_at (blocks s) (sb s) n \<longrightarrow> block_lock s (of_nat n) = None))"

lemma bzero_spec:
  assumes "fs_op (Suc k) s" and "block_lock s bno = None" and "card (locked s) \<le> 1" and "bno \<notin> log_area (lg_start (lg s))"
  obtains s' where "bzero 1 bno s = (Ret (), s')" and "fs_op k s'" and "tx_frame s s'"
    and "blocks s' = (blocks s)(bno := replicate BSIZE 0)" and "block_lock s' = block_lock s"
    and "set (logged s') = insert bno (set (logged s))" and "lcount s' \<le> Suc (lcount s)"
proof -
  have r: "lcount s + card (locked s) < NBUF" using assms(1,3) by (simp add: fs_op_def)
  obtain b s1 where s1: "bread 1 bno s = (Ret b, s1)" "fs_op (Suc k) s1" "tx_frame s s1" "lg s1 = lg s" "blocks s1 = blocks s"
    "block_lock s1 = (block_lock s)(bno \<mapsto> b)" by (rule fs_bread [OF assms(1,2) r])
  obtain s2 where s2: "bnd (log_write b (buf_put b (replicate BSIZE 0) s1)) (\<lambda>_ s. brelse b s) = (Ret (), s2)" "fs_op k s2" "tx_frame s1 s2"
    "blocks s2 = (blocks s1)(bno := replicate BSIZE 0)" "block_lock s2 = (block_lock s1)(bno := None)"
    "set (logged s2) = insert bno (set (logged s1))" "lcount s2 \<le> Suc (lcount s1)"
    by (rule fs_write [OF s1(2), of bno b "replicate BSIZE 0"]) (use s1 assms(4) in auto)
  note sf = same_lg_facts [OF s1(4)]
  show thesis
  proof (rule that)
    show "bzero 1 bno s = (Ret (), s2)" using s1(1) s2(1) by (simp add: bzero_def Let_def)
    show "tx_frame s s2" using tx_frame_trans s1(3) s2(3) .
    show "block_lock s2 = block_lock s" using s2(5) s1(6) assms(2) by (auto simp: fun_eq_iff)
  qed (use s2 s1(5) sf in auto)
qed

definition took :: "nat \<Rightarrow> nat \<Rightarrow> 'z fsstate_scheme \<Rightarrow> 'z fsstate_scheme \<Rightarrow> bool" where
  "took n k s s' \<longleftrightarrow> fs_op k s' \<and> tx_frame s s' \<and> blocks s' = taken_block (sb s) n (blocks s) \<and> block_lock s' = block_lock s \<and>
     set (logged s') = {BBLOCK (of_nat n) (sb s), of_nat n} \<union> set (logged s) \<and> lcount s' \<le> lcount s + 2"

lemma balloc_scan_Some:
  "balloc_scan d b sz = Some bi \<Longrightarrow> bmap_free d bi \<and> bi < BPB \<and> b + bi < sz \<and> (\<forall>j < bi. \<not> bmap_free d j)"
  by (auto simp: balloc_scan_def find_Some_iff)

lemma balloc_scan_None: "balloc_scan d b sz = None \<Longrightarrow> j < BPB \<Longrightarrow> b + j < sz \<Longrightarrow> \<not> bmap_free d j"
  by (auto simp: balloc_scan_def find_None_iff)

lemma same_bitmap_block:
  assumes "b = j * BPB" and "bi < BPB" and "b + bi < unat (sb_size S)"
  shows "BBLOCK (of_nat (b + bi)) S = BBLOCK (of_nat b) S" and "(b + bi) mod BPB = bi"
proof -
  have "b + bi < 2 ^ 32" using assms(3) by (rule size_less)
  then show "BBLOCK (of_nat (b + bi)) S = BBLOCK (of_nat b) S"
    using BBLOCK_div [of "b + bi" S] BBLOCK_div [of b S] assms(1,2) by simp
  show "(b + bi) mod BPB = bi" using assms(1,2) by simp
qed

lemma balloc_found:
  assumes f: "fs_op (Suc (Suc k)) s" and u: "unlocked_for s" and l: "layout ds (lg_start (lg s)) (blocks s) (sb s)"
    and b: "b = j * BPB" and scan: "balloc_scan (blocks s (BBLOCK (of_nat b) (sb s))) b (unat (sb_size (sb s))) = Some bi"
  obtains s' where "balloc_loop 1 (b # bs) s = (Ret (of_nat (b + bi)), s')" and "took (b + bi) k s s'"
proof -
  let ?bm = "BBLOCK (of_nat b) (sb s)" and ?n = "b + bi"
  note sc = balloc_scan_Some [OF scan]
  have n: "?n < unat (sb_size (sb s))" "b < unat (sb_size (sb s))" "?n < 2 ^ 32" using sc size_less [of ?n "sb s"] by auto
  have "bi < BPB" using sc by blast
  note m = same_bitmap_block [OF b this n(1)]
  have fr: "bfree_at (blocks s) (sb s) ?n" using sc m by (simp add: bfree_at_def)
  have lk: "block_lock s ?bm = None" "block_lock s (of_nat ?n) = None" "card (locked s) \<le> 1"
    using u n fr by (auto simp: unlocked_for_def)
  have ds: "ds \<le> ?n" using l fr by (meson layout_def not_le)
  have bm: "unat ?bm < ds" "?bm \<notin> log_area (lg_start (lg s))" "\<forall>b \<in> log_area (lg_start (lg s)). unat b < ds"
    using l n(2) by (auto simp: layout_def)
  have ne: "of_nat ?n \<noteq> ?bm" "of_nat ?n \<notin> log_area (lg_start (lg s))"
    using bm ds unat_of_nat32 [OF n(3)] by auto
  have r: "lcount s + card (locked s) < NBUF" using f lk(3) by (simp add: fs_op_def)
  obtain bp s1 where s1: "bread 1 ?bm s = (Ret bp, s1)" "fs_op (Suc (Suc k)) s1" "tx_frame s s1" "lg s1 = lg s" "blocks s1 = blocks s"
    "block_lock s1 = (block_lock s)(?bm \<mapsto> bp)" "b_data (bufs s1 bp) = blocks s ?bm" by (rule fs_bread [OF f lk(1) r])
  note g1 = same_lg_facts [OF s1(4)]
  obtain s2 where s2: "bnd (log_write bp (buf_put bp (bmap_set (blocks s ?bm) bi) s1)) (\<lambda>_ s. brelse bp s) = (Ret (), s2)"
    "fs_op (Suc k) s2" "tx_frame s1 s2" "blocks s2 = (blocks s1)(?bm := bmap_set (blocks s ?bm) bi)"
    "block_lock s2 = (block_lock s1)(?bm := None)" "set (logged s2) = insert ?bm (set (logged s1))" "lcount s2 \<le> Suc (lcount s1)"
    by (rule fs_write [OF s1(2), of ?bm bp]) (use s1 bm in auto)
  have k2: "block_lock s2 = block_lock s" using s2(5) s1(6) lk(1) by (auto simp: fun_eq_iff)
  have st: "lg_start (lg s2) = lg_start (lg s)" using tx_frame_start [OF s2(3)] s1(4) by simp
  obtain s3 where s3: "bzero 1 (of_nat ?n) s2 = (Ret (), s3)" "fs_op k s3" "tx_frame s2 s3"
    "blocks s3 = (blocks s2)(of_nat ?n := replicate BSIZE 0)" "block_lock s3 = block_lock s2"
    "set (logged s3) = insert (of_nat ?n) (set (logged s2))" "lcount s3 \<le> Suc (lcount s2)"
    by (rule bzero_spec [OF s2(2), of "of_nat ?n"]) (use k2 lk ne st in \<open>auto simp: locked_def\<close>)
  have sb1: "sb s1 = sb s" by (rule tx_frame_fs [OF s1(3)])
  have "balloc_loop 1 (b # bs) s = (Ret (of_nat ?n), s3)"
    using s1(1,7) scan s2(1) s3(1) by (simp add: sb1 Let_def) (simp add: bnd_assoc [symmetric])
  moreover have "took ?n k s s3"
    using s3 s2 s1 k2 g1 m tx_frame_trans [OF tx_frame_trans [OF s1(3) s2(3)] s3(3)]
    by (auto simp: took_def taken_block_def)
  ultimately show thesis by (rule that)
qed

text \<open>The same contents, seen through another state of the cache.\<close>

definition same_fs :: "'z fsstate_scheme \<Rightarrow> 'z fsstate_scheme \<Rightarrow> bool" where
  "same_fs s s' \<longleftrightarrow> tx_frame s s' \<and> lg s' = lg s \<and> blocks s' = blocks s \<and> block_lock s' = block_lock s"

lemma same_fs_refl [simp]: "same_fs s s"
  by (simp add: same_fs_def)

lemma same_fs_trans: "same_fs s s' \<Longrightarrow> same_fs s' s'' \<Longrightarrow> same_fs s s''"
  using tx_frame_trans by (fastforce simp: same_fs_def)

lemma same_fs_unlocked: "same_fs s s' \<Longrightarrow> unlocked_for s' = unlocked_for s"
  using tx_frame_fs(1) [of s s'] by (simp add: same_fs_def unlocked_for_def locked_def)

lemma same_fs_took: "same_fs s s' \<Longrightarrow> took n k s' s'' \<Longrightarrow> took n k s s''"
  using tx_frame_fs(1) [of s s'] tx_frame_trans [of s s' s''] same_lg_facts [of s' s] by (auto simp: same_fs_def took_def)

text \<open>Reading a block and releasing it.\<close>

lemma fs_peek:
  assumes f: "fs_op k s" and l: "block_lock s bno = None" and r: "lcount s + card (locked s) < NBUF"
  obtains b s1 where "bread 1 bno s = (Ret b, s1)" and "fs_op k s1" and "tx_frame s s1" and "lg s1 = lg s" and "blocks s1 = blocks s"
    and "block_lock s1 = (block_lock s)(bno \<mapsto> b)" and "b_data (bufs s1 b) = blocks s bno"
    and "\<exists>s'. brelse b s1 = (Ret (), s') \<and> fs_op k s' \<and> same_fs s s'"
proof -
  obtain b s1 where s1: "bread 1 bno s = (Ret b, s1)" "fs_op k s1" "tx_frame s s1" "lg s1 = lg s" "blocks s1 = blocks s"
    "block_lock s1 = (block_lock s)(bno \<mapsto> b)" "b_data (bufs s1 b) = blocks s bno" by (rule fs_bread [OF f l r])
  have "bno \<in> set (logged s1) \<or> blocks s1 bno = disk s1 bno"
    using f l s1(3,5) same_lg_facts [OF s1(4)] by (auto simp: fs_op_def clean_def tx_frame_def)
  then obtain s' where s': "brelse b s1 = (Ret (), s')" "fs_op k s'" "tx_frame s1 s'" "lg s' = lg s1" "blocks s' = blocks s1"
    "block_lock s' = (block_lock s1)(bno := None)"
    using fs_brelse [OF s1(2), of bno b] s1(6) by (metis fun_upd_same)
  have "same_fs s s'" using s1 s' l tx_frame_trans [OF s1(3) s'(3)] by (auto simp: same_fs_def fun_eq_iff)
  then show thesis using that [OF s1] s' by blast
qed

lemma balloc_pass:
  assumes f: "fs_op k s" and u: "unlocked_for s" and b: "b < unat (sb_size (sb s))" and r: "lcount s + card (locked s) < NBUF"
    and scan: "balloc_scan (blocks s (BBLOCK (of_nat b) (sb s))) b (unat (sb_size (sb s))) = None"
  obtains s' where "balloc_loop 1 (b # bs) s = balloc_loop 1 bs s'" and "fs_op k s'" and "same_fs s s'"
proof -
  let ?bm = "BBLOCK (of_nat b) (sb s)"
  have lk: "block_lock s ?bm = None" using u b by (auto simp: unlocked_for_def)
  obtain bp s1 where s1: "bread 1 ?bm s = (Ret bp, s1)" "tx_frame s s1" "b_data (bufs s1 bp) = blocks s ?bm"
    "\<exists>s'. brelse bp s1 = (Ret (), s') \<and> fs_op k s' \<and> same_fs s s'" by (rule fs_peek [OF f lk r])
  then obtain s' where s': "brelse bp s1 = (Ret (), s')" "fs_op k s'" "same_fs s s'" by blast
  have "sb s1 = sb s" by (rule tx_frame_fs [OF s1(2)])
  then have "balloc_loop 1 (b # bs) s = balloc_loop 1 bs s'" using s1 s'(1) scan by simp
  then show thesis using that s' by blast
qed

lemma balloc_loop_spec:
  assumes "fs_op (Suc (Suc k)) s" and "unlocked_for s" and "layout ds (lg_start (lg s)) (blocks s) (sb s)"
    and "\<forall>n < j * BPB. n < unat (sb_size (sb s)) \<longrightarrow> \<not> bfree_at (blocks s) (sb s) n"
    and "n < unat (sb_size (sb s))" and "bfree_at (blocks s) (sb s) n" and "\<forall>i < n. \<not> bfree_at (blocks s) (sb s) i"
    and "m = (unat (sb_size (sb s)) + (BPB - 1)) div BPB - j"
  shows "\<exists>s'. balloc_loop 1 (map (\<lambda>k. k * BPB) [j..<j + m]) s = (Ret (of_nat n), s') \<and> took n k s s'"
  using assms
proof (induction m arbitrary: j s)
  case 0
  then have "unat (sb_size (sb s)) \<le> j * BPB" by linarith
  then show ?case using 0 by auto
next
  case (Suc m)
  let ?N = "unat (sb_size (sb s))" and ?b = "j * BPB"
  let ?d = "blocks s (BBLOCK (of_nat ?b) (sb s))"
  have list: "map (\<lambda>k. k * BPB) [j..<j + Suc m] = ?b # map (\<lambda>k. k * BPB) [Suc j..<Suc j + m]"
    by (simp add: upt_conv_Cons del: upt_Suc)
  have bN: "?b < ?N" using Suc.prems(8) by simp
  have nj: "?b \<le> n" using Suc.prems(4-6) by (meson not_le)
  have at: "bfree_at (blocks s) (sb s) (?b + i) = bmap_free ?d i" if "i < BPB" "?b + i < ?N" for i
    using same_bitmap_block [OF refl that] by (simp add: bfree_at_def)
  show ?case
  proof (cases "balloc_scan ?d ?b ?N")
    case (Some bi)
    note sc = balloc_scan_Some [OF Some]
    have "bfree_at (blocks s) (sb s) (?b + bi)" using sc at by blast
    then have "n \<le> ?b + bi" using Suc.prems(7) by (meson not_le)
    moreover have "\<not> n < ?b + bi"
    proof
      assume "n < ?b + bi"
      then have "n - ?b < bi" "n = ?b + (n - ?b)" using nj by linarith+
      then show False using sc at [of "n - ?b"] Suc.prems(5,6) by auto
    qed
    ultimately have n: "?b + bi = n" by simp
    show ?thesis unfolding list
      by (rule balloc_found [OF Suc.prems(1-3) refl Some, unfolded n]) blast
  next
    case None
    have r: "lcount s + card (locked s) < NBUF" using Suc.prems(1,2) by (auto simp: fs_op_def unlocked_for_def)
    obtain s' where s': "balloc_loop 1 (?b # map (\<lambda>k. k * BPB) [Suc j..<Suc j + m]) s = balloc_loop 1 (map (\<lambda>k. k * BPB) [Suc j..<Suc j + m]) s'"
      "fs_op (Suc (Suc k)) s'" "same_fs s s'"
      by (rule balloc_pass [OF Suc.prems(1,2) bN r None])
    have e: "blocks s' = blocks s" "sb s' = sb s" "lg s' = lg s" using s'(3) tx_frame_fs(1) [of s s'] by (simp_all add: same_fs_def)
    have below: "\<forall>i < Suc j * BPB. i < ?N \<longrightarrow> \<not> bfree_at (blocks s) (sb s) i"
    proof (intro allI impI)
      fix i assume i: "i < Suc j * BPB" "i < ?N"
      show "\<not> bfree_at (blocks s) (sb s) i"
      proof (cases "i < ?b")
        case False
        then have "i - ?b < BPB" "i = ?b + (i - ?b)" using i(1) by simp_all
        then show ?thesis using at [of "i - ?b"] balloc_scan_None [OF None] i(2) by metis
      qed (use Suc.prems(4) i in blast)
    qed
    have "\<exists>s''. balloc_loop 1 (map (\<lambda>k. k * BPB) [Suc j..<Suc j + m]) s' = (Ret (of_nat n), s'') \<and> took n k s' s''"
      by (rule Suc.IH) (use Suc.prems s' e below same_fs_unlocked [OF s'(3)] in auto)
    then show ?thesis unfolding list s'(1) using same_fs_took [OF s'(3)] by blast
  qed
qed

lemma balloc_takes:
  assumes "fs_op (Suc (Suc k)) s" and "unlocked_for s" and "layout ds (lg_start (lg s)) (blocks s) (sb s)"
    and "n < unat (sb_size (sb s))" and "bfree_at (blocks s) (sb s) n" and "\<forall>i < n. \<not> bfree_at (blocks s) (sb s) i"
  obtains s' where "balloc 1 s = (Ret (of_nat n), s')" and "took n k s s'"
  using balloc_loop_spec [of k s ds 0 n, OF assms(1-3) _ assms(4-6) refl] by (auto simp: balloc_def)

lemma BBLOCK_eq:
  assumes "i < unat (sb_size S)" and "n < unat (sb_size S)"
  shows "BBLOCK (of_nat i) S = BBLOCK (of_nat n) S \<longleftrightarrow> i div BPB = n div BPB"
proof -
  have "i < 2 ^ 32" "n < 2 ^ 32" using assms size_less by blast+
  then have "unat (of_nat (i div BPB) :: u32) = i div BPB" "unat (of_nat (n div BPB) :: u32) = n div BPB"
    by (intro unat_of_nat32; simp)+
  then show ?thesis using BBLOCK_div [OF \<open>i < 2 ^ 32\<close>] BBLOCK_div [OF \<open>n < 2 ^ 32\<close>] by (metis add_right_cancel)
qed

lemma bfree_at_taken:
  assumes l: "layout ds st B S" and i: "i < unat (sb_size S)" and n: "n < unat (sb_size S)" "ds \<le> n"
  shows "bfree_at (taken_block S n B) S i \<longleftrightarrow> bfree_at B S i \<and> i \<noteq> n"
proof -
  have "unat (of_nat n :: u32) = n" using n(1) size_less by (blast intro: unat_of_nat32)
  then have ne: "BBLOCK (of_nat i) S \<noteq> of_nat n" using l i n(2) unfolding layout_def by (metis not_less)
  have len: "length (B (BBLOCK (of_nat n) S)) = BSIZE" using l n(1) unfolding layout_def by blast
  show ?thesis
  proof (cases "i div BPB = n div BPB")
    case True
    then have e: "BBLOCK (of_nat i) S = BBLOCK (of_nat n) S" using BBLOCK_eq [OF i n(1)] by simp
    have "n mod BPB div 8 < length (B (BBLOCK (of_nat n) S))" using len by (simp add: less_mult_imp_div_less)
    moreover have "i mod BPB = n mod BPB \<longleftrightarrow> i = n" using True by (metis div_mult_mod_eq)
    ultimately show ?thesis using ne e by (simp add: bfree_at_def taken_block_def bmap_free_set)
  next
    case False
    then have "BBLOCK (of_nat i) S \<noteq> BBLOCK (of_nat n) S" using BBLOCK_eq [OF i n(1)] by simp
    then show ?thesis using ne False by (auto simp: bfree_at_def taken_block_def)
  qed
qed

lemma layout_taken:
  assumes l: "layout ds st B S" and n: "n < unat (sb_size S)" "ds \<le> n"
  shows "layout ds st (taken_block S n B) S"
proof -
  have "length (taken_block S n B b) = BSIZE" if "length (B b) = BSIZE" for b using that by (auto simp: taken_block_def)
  moreover have "\<not> bfree_at (taken_block S n B) S i" if "i < ds" for i
    using l n bfree_at_taken [OF l _ n, of i] that by (simp add: layout_def)
  ultimately show ?thesis using l by (simp add: layout_def)
qed

text \<open>No block is free: the map is read to its end, a message is printed, and nothing changes.\<close>

lemma bnd_Ret_right: "bnd m (\<lambda>a s. (Ret a, s)) = m"
proof (cases m)
  case (Pair r s)
  then show ?thesis by (cases r) simp_all
qed

lemma printf_plain:
  assumes "37 \<notin> set fmt"
  shows "printf_loop fmt args s = consputs fmt s"
  using assms by (induction fmt args s rule: printf_loop.induct) (auto cong: bnd_cong simp: bnd_Ret_right)

lemma printf_sent:
  assumes "37 \<notin> set fmt" and "PrLock \<notin> set (held s)" and "\<not> panicked s" and "length fmt \<le> idle (uart_lsr s)"
  shows "ok (printf fmt [] s) (\<lambda>_ s'. sent fmt s s')"
proof -
  define s0 where "s0 = (if pr_locking s then s\<lparr>held := PrLock # held s\<rparr> else s)"
  have "ok (consputs fmt s0) (\<lambda>_ s'. sent fmt s0 s')" using assms by (intro consputs_sent) (simp_all add: s0_def)
  then obtain s1 ls where "consputs fmt s0 = (Ret (), s1)" "s1 = s0\<lparr>uart_lsr := ls, uart_out := uart_out s0 @ map (Pair 0) fmt\<rparr>"
    "idle (uart_lsr s0) = length fmt + idle ls" by (auto elim!: ok_E simp: sent_def)
  then show ?thesis using assms(2)
    by (cases "pr_locking s") (auto simp: printf_def printf_plain [OF assms(1)] s0_def sent_def Let_def)
qed

lemma balloc_loop_none:
  assumes "fs_op k s" and "unlocked_for s" and "lcount s + card (locked s) < NBUF"
    and "\<forall>n < unat (sb_size (sb s)). \<not> bfree_at (blocks s) (sb s) n" and "\<forall>b \<in> set bs. b < unat (sb_size (sb s)) \<and> BPB dvd b"
  shows "\<exists>s'. balloc_loop 1 bs s = balloc_loop 1 [] s' \<and> fs_op k s' \<and> same_fs s s'"
  using assms
proof (induction bs arbitrary: s)
  case (Cons b bs)
  have b: "b < unat (sb_size (sb s))" "b = b div BPB * BPB" using Cons.prems(5) by auto
  have "\<not> bmap_free (blocks s (BBLOCK (of_nat b) (sb s))) i" if "i < BPB" "b + i < unat (sb_size (sb s))" for i
    using same_bitmap_block [OF b(2) that] Cons.prems(4) that by (metis bfree_at_def)
  then have "balloc_scan (blocks s (BBLOCK (of_nat b) (sb s))) b (unat (sb_size (sb s))) = None"
    by (auto simp: balloc_scan_def find_None_iff)
  then obtain s' where s': "balloc_loop 1 (b # bs) s = balloc_loop 1 bs s'" "fs_op k s'" "same_fs s s'"
    by (rule balloc_pass [OF Cons.prems(1,2) b(1) Cons.prems(3)])
  have e: "blocks s' = blocks s" "sb s' = sb s" "lg s' = lg s" "block_lock s' = block_lock s"
    using s'(3) tx_frame_fs(1) [of s s'] by (simp_all add: same_fs_def)
  have "\<exists>s''. balloc_loop 1 bs s' = balloc_loop 1 [] s'' \<and> fs_op k s'' \<and> same_fs s' s''"
    by (rule Cons.IH) (use Cons.prems s' e same_fs_unlocked [OF s'(3)] same_lg_facts [OF e(3)] in \<open>auto simp: locked_def\<close>)
  then show ?case using s'(1) same_fs_trans [OF s'(3)] by metis
qed auto

definition alloc_message :: "u8 list" where
  "alloc_message = cstr ''balloc: out of blocks\<newline>''"

lemma balloc_none:
  assumes "fs_op k s" and "unlocked_for s" and "lcount s + card (locked s) < NBUF"
    and "\<forall>n < unat (sb_size (sb s)). \<not> bfree_at (blocks s) (sb s) n"
    and "PrLock \<notin> set (held s)" and "\<not> panicked s" and "22 \<le> idle (uart_lsr s)"
  shows "\<exists>s1 s'. balloc 1 s = (Ret 0, s') \<and> fs_op k s1 \<and> same_fs s s1 \<and> sent alloc_message s1 s'"
proof -
  have "\<forall>b \<in> set (map (\<lambda>k. k * BPB) [0..<(unat (sb_size (sb s)) + (BPB - 1)) div BPB]). b < unat (sb_size (sb s)) \<and> BPB dvd b"
    by auto
  then obtain s1 where s1: "balloc 1 s = balloc_loop 1 [] s1" "fs_op k s1" "same_fs s s1"
    using balloc_loop_none [OF assms(1-4)] unfolding balloc_def by blast
  have "37 \<notin> set alloc_message" "length alloc_message = 22" by (simp_all add: alloc_message_def cstr_def)
  moreover have "held s1 = held s" "panicked s1 = panicked s" "uart_lsr s1 = uart_lsr s"
    using s1(3) tx_frame_fs [of s s1] by (auto simp: same_fs_def tx_frame_def)
  ultimately have "ok (printf alloc_message [] s1) (\<lambda>_ s'. sent alloc_message s1 s')" using assms(5-) by (intro printf_sent) simp_all
  then show ?thesis using s1 by (auto elim!: ok_E simp: alloc_message_def)
qed

lemma bfree_frees:
  assumes f: "fs_op (Suc k) s" and l: "layout ds (lg_start (lg s)) (blocks s) (sb s)" and n: "n < unat (sb_size (sb s))"
    and u: "\<not> bfree_at (blocks s) (sb s) n" and lk: "block_lock s (BBLOCK (of_nat n) (sb s)) = None" "card (locked s) \<le> 1"
  obtains s' where "bfree 1 (of_nat n) s = (Ret (), s')" and "fs_op k s'" and "tx_frame s s'" and "block_lock s' = block_lock s"
    and "blocks s' = (blocks s)(BBLOCK (of_nat n) (sb s) := bmap_clear (blocks s (BBLOCK (of_nat n) (sb s))) (n mod BPB))"
proof -
  let ?bm = "BBLOCK (of_nat n) (sb s)"
  have un: "unat (of_nat n :: u32) = n" using n size_less by (blast intro: unat_of_nat32)
  have r: "lcount s + card (locked s) < NBUF" using f lk(2) by (simp add: fs_op_def)
  have a: "?bm \<notin> log_area (lg_start (lg s))" using l n by (simp add: layout_def)
  obtain bp s1 where s1: "bread 1 ?bm s = (Ret bp, s1)" "fs_op (Suc k) s1" "tx_frame s s1" "lg s1 = lg s" "blocks s1 = blocks s"
    "block_lock s1 = (block_lock s)(?bm \<mapsto> bp)" "b_data (bufs s1 bp) = blocks s ?bm" by (rule fs_bread [OF f lk(1) r])
  obtain s2 where s2: "bnd (log_write bp (buf_put bp (bmap_clear (blocks s ?bm) (n mod BPB)) s1)) (\<lambda>_ s. brelse bp s) = (Ret (), s2)"
    "fs_op k s2" "tx_frame s1 s2" "blocks s2 = (blocks s1)(?bm := bmap_clear (blocks s ?bm) (n mod BPB))"
    "block_lock s2 = (block_lock s1)(?bm := None)"
    by (rule fs_write [OF s1(2), of ?bm bp]) (use s1 a in auto)
  have "bfree 1 (of_nat n) s = (Ret (), s2)" using s1(1,7) s2(1) u un by (simp add: bfree_def bfree_at_def Let_def)
  then show thesis using that s2 s1 lk(1) tx_frame_trans [OF s1(3) s2(3)] by (auto simp: fun_eq_iff)
qed

lemma sent_blocks: "sent cs s s' \<Longrightarrow> blocks s' = blocks s \<and> uart_out s' = uart_out s @ map (Pair 0) cs"
  using cache_cong(1) [of s' s] by (auto simp: sent_def blocks_def)

text \<open>
  C19. The block allocator. Inside a transaction with room in the log, \<^verbatim>\<open>balloc\<close> returns the first block
  that the free map has free, which lies in the data area; the map then differs in that block only,
  the block is zero, and no other block changes. Freeing the block puts the map back as it was. If no
  block is free, \<^verbatim>\<open>balloc\<close> returns 0, prints its message, and changes no block.
\<close>

theorem balloc_first_free:
  assumes "fs_op 3 s" and "unlocked_for s" and "layout ds (lg_start (lg s)) (blocks s) (sb s)"
    and "PrLock \<notin> set (held s)" and "\<not> panicked s" and "22 \<le> idle (uart_lsr s)"
  shows "ok (balloc 1 s) (\<lambda>b s'.
     if \<exists>n < unat (sb_size (sb s)). bfree_at (blocks s) (sb s) n
     then ds \<le> unat b \<and> unat b < unat (sb_size (sb s)) \<and> bfree_at (blocks s) (sb s) (unat b) \<and>
       (\<forall>i < unat b. \<not> bfree_at (blocks s) (sb s) i) \<and>
       (\<forall>i < unat (sb_size (sb s)). bfree_at (blocks s') (sb s') i = (bfree_at (blocks s) (sb s) i \<and> i \<noteq> unat b)) \<and>
       blocks s' b = replicate BSIZE 0 \<and> (\<forall>c. c \<noteq> b \<and> c \<noteq> BBLOCK b (sb s) \<longrightarrow> blocks s' c = blocks s c) \<and>
       ok (bfree 1 b s') (\<lambda>_ s''. blocks s'' = (blocks s)(b := replicate BSIZE 0))
     else b = 0 \<and> blocks s' = blocks s \<and> uart_out s' = uart_out s @ map (Pair 0) alloc_message)"
proof (cases "\<exists>n < unat (sb_size (sb s)). bfree_at (blocks s) (sb s) n")
  case False
  have "lcount s + card (locked s) < NBUF" using assms(1,2) by (auto simp: fs_op_def unlocked_for_def)
  then obtain s1 s' where s': "balloc 1 s = (Ret 0, s')" "same_fs s s1" "sent alloc_message s1 s'"
    using balloc_none [OF assms(1,2) _ _ assms(4-6)] False by blast
  have "blocks s1 = blocks s" "uart_out s1 = uart_out s" using s'(2) tx_frame_fs(7) [of s s1] by (simp_all add: same_fs_def)
  then show ?thesis unfolding if_not_P [OF False] using s'(1) sent_blocks [OF s'(3)] by simp
next
  case True
  define n where "n = (LEAST n. n < unat (sb_size (sb s)) \<and> bfree_at (blocks s) (sb s) n)"
  have n: "n < unat (sb_size (sb s))" "bfree_at (blocks s) (sb s) n" using LeastI_ex [OF True] by (auto simp: n_def)
  have first: "\<forall>i < n. \<not> bfree_at (blocks s) (sb s) i" using n(1) not_less_Least by (fastforce simp: n_def)
  have ds: "ds \<le> n" using assms(3) n(2) by (meson layout_def not_le)
  have un: "unat (of_nat n :: u32) = n" using n size_less by (blast intro: unat_of_nat32)
  have f: "fs_op (Suc (Suc 1)) s" using assms(1) by (simp add: numeral_3_eq_3)
  obtain s' where s': "balloc 1 s = (Ret (of_nat n), s')" "took n 1 s s'" by (rule balloc_takes [OF f assms(2,3) n first])
  have t: "fs_op (Suc 0) s'" "tx_frame s s'" "blocks s' = taken_block (sb s) n (blocks s)" "block_lock s' = block_lock s"
    using s'(2) by (simp_all add: took_def)
  have e: "sb s' = sb s" "lg_start (lg s') = lg_start (lg s)" using tx_frame_fs(1) [OF t(2)] tx_frame_start [OF t(2)] by simp_all
  note at = bfree_at_taken [OF assms(3) _ n(1) ds]
  let ?bm = "BBLOCK (of_nat n) (sb s)"
  have bm: "?bm \<noteq> of_nat n" "length (blocks s ?bm) = BSIZE"
    using assms(3) n(1) ds un unfolding layout_def by (metis not_less, blast)
  obtain s'' where s'': "bfree 1 (of_nat n) s' = (Ret (), s'')" "blocks s'' = (blocks s')(?bm := bmap_clear (blocks s' ?bm) (n mod BPB))"
    by (rule bfree_frees [OF t(1), of ds n]) (use layout_taken [OF assms(3) n(1) ds] t e n at assms(2) in \<open>auto simp: locked_def unlocked_for_def\<close>)
  have "blocks s'' = (blocks s)(of_nat n := replicate BSIZE 0)"
    using bm n(2) by (auto simp: s''(2) t(3) taken_block_def fun_eq_iff bmap_clear_set bfree_at_def less_mult_imp_div_less)
  then show ?thesis unfolding if_P [OF True] using s'(1) s''(1) n first ds un at t(3) e(1) by (simp add: taken_block_def)
qed

section \<open>A file system to start from\<close>

text \<open>The example state with an empty cache and a disk whose free map, block 45, has the blocks below
  48 in use: block 46 holds the three bytes of a file, inode 1, which has slot 0 of the inode table.\<close>

definition disk0 :: "u32 \<Rightarrow> u8 list" where
  "disk0 b = (if b = 45 then replicate 6 255 @ replicate 1018 0 else if b = 46 then [1, 2, 3] @ replicate 1021 0
     else replicate BSIZE 0)"

definition ino0 :: inode where
  "ino0 = \<lparr>i_dev = 1, i_inum = 1, i_ref = 1, i_valid = True, i_type = 2, i_major = 0, i_minor = 0, i_nlink = 1,
     i_size = 3, i_addrs = 46 # replicate 12 0\<rparr>"

definition kfs0 :: boot_state where
  "kfs0 = kern0\<lparr>disk := disk0, itable := (itable kern0)(0 := ino0), uart_lsr := replicate 22 0x20\<rparr>"

lemma kfs0_fields [simp]:
  "bufs kfs0 = buf0" "disk kfs0 = disk0" "dwrites kfs0 = []" "held kfs0 = []" "curproc kfs0 = Some 0"
  "slocks kfs0 l = \<lparr>sl_locked = False, sl_pid = 0\<rparr>" "lg_start (lg kfs0) = 2" "lg_dev (lg kfs0) = 1"
  "lg_lh (lg kfs0) = \<lparr>lh_n = 0, lh_block = replicate LOGSIZE 0\<rparr>" "lcount kfs0 = 0" "logged kfs0 = []"
  "lg_outstanding (lg kfs0) = 1" "lg_size (lg kfs0) = 30" "\<not> panicked kfs0" "uart_lsr kfs0 = replicate 22 0x20"
  "sb_size (sb kfs0) = 2000" "sb_bmapstart (sb kfs0) = 45" "sb_inodestart (sb kfs0) = 32"
  "itable kfs0 0 = ino0"
  by (simp_all add: kfs0_def kern0_def lcount_def logged_def)

lemma kfs0_cache: "cache_ok kfs0" "block_lock kfs0 = (\<lambda>_. None)" "ar (cabs kfs0) = (\<lambda>_. 0)" "blocks kfs0 = disk0"
proof -
  have c: "\<not> cached kfs0 n b" for n b by (simp add: cached_def buf0_def)
  have "calm kfs0" by (simp add: calm_def running_def no_plock_def)
  moreover have "buf_ok kfs0 b" for b by (simp add: buf_ok_def buf0_def)
  moreover have "set [0..<NBUF] = {..<NBUF}" by auto
  ultimately show "cache_ok kfs0" using c buf0_ring unfolding cache_ok_def cache_inv_def by auto
  have "bslot kfs0 n = None" for n using c by (simp add: bslot_None)
  then show "block_lock kfs0 = (\<lambda>_. None)" "ar (cabs kfs0) = (\<lambda>_. 0)" "blocks kfs0 = disk0"
    by (simp_all add: block_lock_def cabs_def block_refs_def block_view_def blocks_def fun_eq_iff)
qed

lemma le_word_zeros: "le_word (replicate n 0) = 0"
  by (induction n) simp_all

lemma getw_zeros: "getw (replicate n 0) i = 0"
  by (simp add: getw_def bslice_def le_word_zeros)

lemma disk0_2: "length (disk0 b) = BSIZE" "getw (disk0 2) 0 = 0"
  by (simp_all add: disk0_def getw_zeros)

lemma kfs0_op: "k < 30 \<Longrightarrow> fs_op k kfs0"
  using kfs0_cache disk0_2 by (simp add: fs_op_def tx_def log_wf_def clean_def)

lemma log_area_2: "b \<in> log_area 2 \<Longrightarrow> unat b < 32"
proof -
  have "unat (2 + of_nat i + 1 :: u32) = i + 3" if "i < LOGDATA" for i
    using that unat_of_nat32 [of "i + 3"] by (simp add: algebra_simps)
  then show "b \<in> log_area 2 \<Longrightarrow> unat b < 32" by (auto simp: log_area_def)
qed

lemma kfs0_layout: "layout 46 2 (blocks kfs0) (sb kfs0)"
proof -
  have bb: "BBLOCK (of_nat n) (sb kfs0) = 45" if "n < 2000" for n
    using that BBLOCK_div [of n "sb kfs0"] by simp
  have "\<not> bmap_free (disk0 45) n" if "n < 46" for n
  proof -
    have "\<forall>n \<in> set [0..<46]. \<not> bmap_free (replicate 6 255 @ replicate 1018 0) n" by code_simp
    then show ?thesis using that by (simp add: disk0_def)
  qed
  then have "\<forall>n < 46. \<not> bfree_at (blocks kfs0) (sb kfs0) n" using bb by (simp add: bfree_at_def kfs0_cache)
  moreover have "45 \<notin> log_area 2 \<and> (\<forall>b \<in> log_area 2. unat b < 46)" using log_area_2 by fastforce
  ultimately show ?thesis using bb disk0_2 by (simp add: layout_def kfs0_cache)
qed

theorem balloc_first_free_witness:
  "ok (balloc 1 kfs0) (\<lambda>b s'. b = 48 \<and> blocks s' 48 = replicate BSIZE 0 \<and>
     ok (bfree 1 b s') (\<lambda>_ s''. blocks s'' = disk0(48 := replicate BSIZE 0)))"
proof -
  have st: "lg_start (lg kfs0) = 2" by simp
  have u: "unlocked_for kfs0" by (simp add: unlocked_for_def locked_def kfs0_cache)
  have r: "bfree_at (blocks kfs0) (sb kfs0) 48"
    using BBLOCK_div [of 48 "sb kfs0"] by (simp add: bfree_at_def kfs0_cache disk0_def bmap_free_bit nth_append)
  then have ex: "\<exists>n < unat (sb_size (sb kfs0)). bfree_at (blocks kfs0) (sb kfs0) n" by (intro exI [of _ 48]) simp
  have "22 \<le> idle (uart_lsr kfs0)" by (simp add: idle_def)
  from balloc_first_free [OF kfs0_op u kfs0_layout [folded st] _ _ this, unfolded if_P [OF ex]] obtain b s' where
    b: "balloc 1 kfs0 = (Ret b, s')" "bfree_at (blocks kfs0) (sb kfs0) (unat b)" "46 \<le> unat b" "\<forall>i < unat b. \<not> bfree_at (blocks kfs0) (sb kfs0) i" "blocks s' b = replicate BSIZE 0"
      "ok (bfree 1 b s') (\<lambda>_ s''. blocks s'' = (blocks kfs0)(b := replicate BSIZE 0))"
    by (auto elim!: ok_E)
  have "\<not> bfree_at (blocks kfs0) (sb kfs0) n" if "n = 46 \<or> n = 47" for n
    using that BBLOCK_div [of n "sb kfs0"] by (auto simp: bfree_at_def kfs0_cache disk0_def bmap_free_bit nth_append)
  then have "unat b \<noteq> 46" "unat b \<noteq> 47" using b(2) by metis+
  moreover have "\<not> 48 < unat b" using b(4) r by blast
  ultimately have "unat b = 48" using b(3) by linarith
  then have "b = 48" by (simp add: word_unat_eq_iff)
  then show ?thesis using b kfs0_cache(4) by simp
qed

end
