(* ===== verification/Filedata.thy ===== *)
theory Filedata
  imports Fstx
begin

text \<open>
  The contents of a file. An inode maps the blocks of a file to blocks of the disk, twelve directly
  and the others through an indirect block; \<open>faddr\<close> is that map, and \<open>content\<close> the bytes it gives.
  \<^verbatim>\<open>bmap\<close> and \<^verbatim>\<open>readi\<close> inside a transaction are related to these, for transfers to an object of the kernel;
  theory \<open>Fileread\<close> has transfers to memory, with no transaction.
\<close>

section \<open>The blocks of a file\<close>

definition faddr :: "(u32 \<Rightarrow> u8 list) \<Rightarrow> u32 list \<Rightarrow> nat \<Rightarrow> u32" where
  "faddr B as bn = (if bn < NDIRECT then as ! bn
     else if as ! NDIRECT = 0 then 0 else getw (B (as ! NDIRECT)) (bn - NDIRECT))"

definition in_data :: "nat \<Rightarrow> superblock \<Rightarrow> (u32 \<Rightarrow> u8 list) \<Rightarrow> u32 \<Rightarrow> bool" where
  "in_data ds S B a \<longleftrightarrow> ds \<le> unat a \<and> unat a < unat (sb_size S) \<and> \<not> bfree_at B S (unat a)"

definition file_wf :: "nat \<Rightarrow> superblock \<Rightarrow> (u32 \<Rightarrow> u8 list) \<Rightarrow> u32 list \<Rightarrow> bool" where
  "file_wf ds S B as \<longleftrightarrow> length as = 13 \<and> (as ! NDIRECT \<noteq> 0 \<longrightarrow> in_data ds S B (as ! NDIRECT)) \<and>
     (\<forall>bn < MAXFILE. faddr B as bn \<noteq> 0 \<longrightarrow> in_data ds S B (faddr B as bn) \<and> faddr B as bn \<noteq> as ! NDIRECT \<and>
        (\<forall>bm < MAXFILE. faddr B as bm = faddr B as bn \<longrightarrow> bm = bn))"

definition fbyte :: "(u32 \<Rightarrow> u8 list) \<Rightarrow> u32 list \<Rightarrow> nat \<Rightarrow> u8" where
  "fbyte B as i = B (faddr B as (i div BSIZE)) ! (i mod BSIZE)"

definition content :: "(u32 \<Rightarrow> u8 list) \<Rightarrow> inode \<Rightarrow> u8 list" where
  "content B q = map (fbyte B (i_addrs q)) [0..<unat (i_size q)]"

text \<open>No holes: every block below the size is there.\<close>

definition no_holes :: "(u32 \<Rightarrow> u8 list) \<Rightarrow> u32 list \<Rightarrow> nat \<Rightarrow> bool" where
  "no_holes B as sz \<longleftrightarrow> sz \<le> MAXFILE * BSIZE \<and> (\<forall>i < sz. faddr B as (i div BSIZE) \<noteq> 0)"

text \<open>A locked inode in a transaction: it is on the root device, no buffer is held, and its blocks are
  its own.\<close>

definition ino_ok :: "nat \<Rightarrow> nat \<Rightarrow> nat \<Rightarrow> 'z fsstate_scheme \<Rightarrow> bool" where
  "ino_ok k ds ip s \<longleftrightarrow> fs_op k s \<and> block_lock s = (\<lambda>_. None) \<and> i_dev (itable s ip) = 1 \<and>
     layout ds (lg_start (lg s)) (blocks s) (sb s) \<and> file_wf ds (sb s) (blocks s) (i_addrs (itable s ip))"

lemma same_fs_ino: "same_fs s s' \<Longrightarrow> fs_op k s' \<Longrightarrow> ino_ok k ds ip s \<Longrightarrow> ino_ok k ds ip s'"
  using tx_frame_fs(1,2) [of s s'] by (simp add: same_fs_def ino_ok_def)

lemma file_data: "file_wf ds S B as \<Longrightarrow> bn < MAXFILE \<Longrightarrow> faddr B as bn \<noteq> 0 \<Longrightarrow> in_data ds S B (faddr B as bn)"
  by (simp add: file_wf_def)

lemma in_data_length: "layout ds st B S \<Longrightarrow> in_data ds S B a \<Longrightarrow> length (B a) = BSIZE"
proof -
  assume l: "layout ds st B S" and "in_data ds S B a"
  then have "unat a < unat (sb_size S)" by (simp add: in_data_def)
  then have "length (B (of_nat (unat a))) = BSIZE" using l unfolding layout_def by blast
  then show ?thesis by simp
qed

lemma in_data_log: "layout ds st B S \<Longrightarrow> in_data ds S B a \<Longrightarrow> a \<notin> log_area st"
  by (auto simp: layout_def in_data_def)

section \<open>Reading\<close>

lemma bmap_mapped:
  assumes i: "ino_ok k ds ip s" and bn: "bn < MAXFILE" and a: "faddr (blocks s) (i_addrs (itable s ip)) bn \<noteq> 0"
  obtains s' where "bmap ip bn s = (Ret (faddr (blocks s) (i_addrs (itable s ip)) bn), s')" and "fs_op k s'" and "same_fs s s'"
proof (cases "bn < NDIRECT")
  case True
  then have "bmap ip bn s = (Ret (faddr (blocks s) (i_addrs (itable s ip)) bn), s)"
    using a by (simp add: bmap_def bmap_direct_def faddr_def Let_def)
  then show thesis using that i by (simp add: ino_ok_def)
next
  case False
  let ?as = "i_addrs (itable s ip)"
  have ind: "?as ! NDIRECT \<noteq> 0" and w: "faddr (blocks s) ?as bn = getw (blocks s (?as ! NDIRECT)) (bn - NDIRECT)"
    using False a by (auto simp: faddr_def)
  have f: "fs_op k s" and nl: "block_lock s = (\<lambda>_. None)" using i by (simp_all add: ino_ok_def)
  have r: "lcount s + card (locked s) < NBUF" using f nl by (simp add: fs_op_def locked_def)
  obtain b s1 where s1: "bread 1 (?as ! NDIRECT) s = (Ret b, s1)" "tx_frame s s1" "b_data (bufs s1 b) = blocks s (?as ! NDIRECT)"
    "\<exists>s'. brelse b s1 = (Ret (), s') \<and> fs_op k s' \<and> same_fs s s'"
    by (rule fs_peek [OF f _ r, of "?as ! NDIRECT"]) (use nl in auto)
  then obtain s' where s': "brelse b s1 = (Ret (), s')" "fs_op k s'" "same_fs s s'" by blast
  have "bmap ip bn s = (Ret (faddr (blocks s) ?as bn), s')"
    using False bn ind a s1(1,3) s'(1) i w by (simp add: bmap_def bmap_direct_def Let_def ino_ok_def)
  then show thesis using that s' by blast
qed

lemma chunk_bytes:
  assumes "off mod BSIZE + m \<le> BSIZE" and "length (B (faddr B as (off div BSIZE))) = BSIZE"
  shows "bslice (B (faddr B as (off div BSIZE))) (off mod BSIZE) m = map (fbyte B as) [off..<off + m]"
proof (rule nth_equalityI)
  show "length (bslice (B (faddr B as (off div BSIZE))) (off mod BSIZE) m) = length (map (fbyte B as) [off..<off + m])"
    using assms by simp
next
  fix i assume "i < length (bslice (B (faddr B as (off div BSIZE))) (off mod BSIZE) m)"
  then have i: "i < m" by simp
  have "(off + i) div BSIZE = off div BSIZE" "(off + i) mod BSIZE = off mod BSIZE + i"
    using assms(1) i by (simp_all add: div_add1_eq [of off] mod_add_eq [symmetric, of off])
  then show "bslice (B (faddr B as (off div BSIZE))) (off mod BSIZE) m ! i = map (fbyte B as) [off..<off + m] ! i"
    using i assms by (simp add: nth_slice fbyte_def)
qed

lemma chunk_round:
  assumes "0 < n" and "off + n \<le> MAXFILE * BSIZE"
  defines "m \<equiv> min n (BSIZE - off mod BSIZE)"
  shows "rw_chunks off n = (off, m) # rw_chunks (off + m) (n - m)" and "0 < m" and "m \<le> n" and "off mod BSIZE + m \<le> BSIZE"
    and "off div BSIZE < MAXFILE" and "off + m + (n - m) \<le> MAXFILE * BSIZE"
  using assms(1,2) by (simp_all add: rw_chunks.simps [of off n] m_def Let_def)

lemma readi_loop_content:
  assumes "ino_ok k ds ip s" and "no_holes (blocks s) (i_addrs (itable s ip)) (off + n)"
  shows "\<exists>s'. readi_loop ip LocalDst (rw_chunks off n) tot acc s =
      (Ret (tot + of_nat n, acc @ map (fbyte (blocks s) (i_addrs (itable s ip))) [off..<off + n]), s') \<and> fs_op k s' \<and> same_fs s s'"
  using assms
proof (induction n arbitrary: off tot acc s rule: less_induct)
  case (less n)
  let ?B = "blocks s" and ?as = "i_addrs (itable s ip)"
  show ?case
  proof (cases "n = 0")
    case True
    then show ?thesis using less.prems by (auto simp: rw_chunks.simps ino_ok_def intro!: exI [of _ s])
  next
    case False
    define m where "m = min n (BSIZE - off mod BSIZE)"
    have sz: "off + n \<le> MAXFILE * BSIZE" using less.prems(2) by (simp add: no_holes_def)
    note c = chunk_round [OF _ sz, folded m_def]
    have n0: "0 < n" using False by simp
    have a: "faddr ?B ?as (off div BSIZE) \<noteq> 0" using less.prems(2) n0 by (simp add: no_holes_def)
    obtain s1 where s1: "bmap ip (off div BSIZE) s = (Ret (faddr ?B ?as (off div BSIZE)), s1)" "fs_op k s1" "same_fs s s1"
      by (rule bmap_mapped [OF less.prems(1) c(5) [OF n0] a])
    have i1: "ino_ok k ds ip s1" by (rule same_fs_ino [OF s1(3,2) less.prems(1)])
    have e1: "blocks s1 = ?B" "itable s1 = itable s" "i_dev (itable s1 ip) = 1"
      using s1(3) i1 tx_frame_fs(2) [of s s1] by (simp_all add: same_fs_def ino_ok_def)
    have r: "lcount s1 + card (locked s1) < NBUF" "block_lock s1 (faddr ?B ?as (off div BSIZE)) = None"
      using i1 by (simp_all add: ino_ok_def fs_op_def locked_def)
    obtain b s2 where s2: "bread 1 (faddr ?B ?as (off div BSIZE)) s1 = (Ret b, s2)" "b_data (bufs s2 b) = ?B (faddr ?B ?as (off div BSIZE))"
      "\<exists>s'. brelse b s2 = (Ret (), s') \<and> fs_op k s' \<and> same_fs s1 s'"
      by (rule fs_peek [OF s1(2) r(2,1)]) (use e1 in auto)
    then obtain s3 where s3: "brelse b s2 = (Ret (), s3)" "fs_op k s3" "same_fs s1 s3" by blast
    have i3: "ino_ok k ds ip s3" by (rule same_fs_ino [OF s3(3,2) i1])
    have e3: "blocks s3 = ?B" "itable s3 = itable s" using s3(3) e1 tx_frame_fs(2) [of s1 s3] by (simp_all add: same_fs_def)
    have "in_data ds (sb s) ?B (faddr ?B ?as (off div BSIZE))" "layout ds (lg_start (lg s)) ?B (sb s)"
      using less.prems(1) file_data a c(5) [OF n0] unfolding ino_ok_def by blast+
    then have bs: "bslice (?B (faddr ?B ?as (off div BSIZE))) (off mod BSIZE) m = map (fbyte ?B ?as) [off..<off + m]"
      using in_data_length by (intro chunk_bytes c(4) [OF n0]) blast
    have m: "m \<le> n" "0 < m" using c(2,3) [OF n0] by simp_all
    obtain s4 where s4: "readi_loop ip LocalDst (rw_chunks (off + m) (n - m)) (tot + of_nat m) (acc @ map (fbyte ?B ?as) [off..<off + m]) s3 =
        (Ret (tot + of_nat m + of_nat (n - m), (acc @ map (fbyte ?B ?as) [off..<off + m]) @ map (fbyte ?B ?as) [off + m..<off + m + (n - m)]), s4)"
        "fs_op k s4" "same_fs s3 s4"
      using less.IH [of "n - m" s3 "off + m" "tot + of_nat m" "acc @ map (fbyte ?B ?as) [off..<off + m]"] i3 e3 less.prems(2) m by auto
    have app: "[off..<off + m] @ [off + m..<off + m + (n - m)] = [off..<off + n]" "of_nat m + of_nat (n - m) = (of_nat n :: u32)"
      using m upt_add_eq_append [of off "off + m" "n - m"] by (simp_all flip: of_nat_add)
    have "readi_loop ip LocalDst (rw_chunks off n) tot acc s = readi_loop ip LocalDst (rw_chunks (off + m) (n - m)) (tot + of_nat m) (acc @ map (fbyte ?B ?as) [off..<off + m]) s3"
      using s1(1) s2(1,2) s3(1) a e1 bs by (simp add: c(1) [OF n0] either_copyout_def xdst_add_def Let_def)
    then show ?thesis using s4 app same_fs_trans [OF same_fs_trans [OF s1(3) s3(3)] s4(3)]
      by (auto simp: add.assoc simp flip: map_append intro!: exI [of _ s4])
  qed
qed

lemma bslice_map: "bslice (map f [0..<n]) off m = map f [off..<min n (off + m)]"
proof (rule nth_equalityI)
  fix i assume "i < length (bslice (map f [0..<n]) off m)"
  then have i: "i < min m (n - off)" by simp
  then have j: "off + i < min n (off + m)" "i < min n (off + m) - off" by linarith+
  then show "bslice (map f [0..<n]) off m ! i = map f [off..<min n (off + m)] ! i"
    using i nth_upt [of off i] by (simp add: bslice_def)
qed (auto simp: min_def)

lemma readi_cut:
  fixes sz off n :: u32
  assumes "\<not> (off > sz \<or> off + n < off)"
  defines "m \<equiv> if off + n > sz then sz - off else n"
  shows "unat off + unat m = min (unat sz) (unat off + unat n)"
proof -
  have nw: "unat (off + n) = unat off + unat n" using assms(1) unat_plus_simple [of off n] by (simp add: not_less)
  show ?thesis
  proof (cases "off + n > sz")
    case True
    then have "unat (sz - off) = unat sz - unat off" "unat off \<le> unat sz" "unat sz \<le> unat off + unat n"
      using assms(1) nw by (simp_all add: unat_sub word_less_nat_alt word_le_nat_alt not_less)
    then show ?thesis using True by (simp add: m_def)
  qed (use nw in \<open>simp add: m_def word_less_nat_alt not_less\<close>)
qed

lemma readi_content:
  assumes "ino_ok k ds ip s" and "no_holes (blocks s) (i_addrs (itable s ip)) (unat (i_size (itable s ip)))"
  shows "ok (readi ip LocalDst off n s) (\<lambda>r s'.
     r = (of_nat (length (snd r)), if off > i_size (itable s ip) \<or> off + n < off then []
       else bslice (content (blocks s) (itable s ip)) (unat off) (unat n)) \<and>
     blocks s' = blocks s \<and> itable s' = itable s \<and> block_lock s' = (\<lambda>_. None))"
proof (cases "off > i_size (itable s ip) \<or> off + n < off")
  case True
  then show ?thesis using assms(1) by (simp add: readi_def ino_ok_def)
next
  case False
  let ?sz = "i_size (itable s ip)" and ?f = "fbyte (blocks s) (i_addrs (itable s ip))"
  define m where "m = (if off + n > ?sz then ?sz - off else n)"
  have m: "unat off + unat m = min (unat ?sz) (unat off + unat n)" unfolding m_def by (rule readi_cut [OF False])
  have "no_holes (blocks s) (i_addrs (itable s ip)) (unat off + unat m)" using assms(2) m by (auto simp: no_holes_def min_def)
  from readi_loop_content [OF assms(1) this, of 0 "[]"] obtain s' where
    s': "readi_loop ip LocalDst (rw_chunks (unat off) (unat m)) 0 [] s = (Ret (m, map ?f [unat off..<unat off + unat m]), s')" "same_fs s s'"
    by auto
  have e: "blocks s' = blocks s" "itable s' = itable s" "block_lock s' = (\<lambda>_. None)"
    using s'(2) assms(1) tx_frame_fs(2) [of s s'] by (simp_all add: same_fs_def ino_ok_def)
  have "map ?f [unat off..<unat off + unat m] = bslice (content (blocks s) (itable s ip)) (unat off) (unat n)"
    unfolding content_def bslice_map m ..
  moreover have "of_nat (length (map ?f [unat off..<unat off + unat m])) = m" by simp
  ultimately show ?thesis using False s'(1) e by (simp add: readi_def m_def [symmetric] Let_def)
qed

lemma kfs0_file: "file_wf 46 (sb kfs0) (blocks kfs0) (i_addrs ino0)" and kfs0_ino: "k < 30 \<Longrightarrow> ino_ok k 46 0 kfs0"
proof -
  have a: "faddr (blocks kfs0) (i_addrs ino0) bn = (if bn = 0 then 46 else 0)" for bn
    by (auto simp: faddr_def ino0_def kfs0_cache nth_Cons')
  have "\<not> bfree_at (blocks kfs0) (sb kfs0) 46"
    using BBLOCK_div [of 46 "sb kfs0"] by (simp add: bfree_at_def kfs0_cache disk0_def bmap_free_bit nth_append)
  then have d: "in_data 46 (sb kfs0) (blocks kfs0) 46" by (simp add: in_data_def)
  have "length (i_addrs ino0) = 13" "i_addrs ino0 ! NDIRECT = 0" by (simp_all add: ino0_def)
  with d show w: "file_wf 46 (sb kfs0) (blocks kfs0) (i_addrs ino0)" by (auto simp: file_wf_def a)
  show "k < 30 \<Longrightarrow> ino_ok k 46 0 kfs0"
    using kfs0_op kfs0_layout w kfs0_cache(2) by (simp add: ino_ok_def) (simp add: ino0_def)
qed

lemma kfs0_content:
  "content (blocks kfs0) ino0 = [1, 2, 3]" "no_holes (blocks kfs0) (i_addrs ino0) (unat (i_size ino0))"
proof -
  have a: "faddr (blocks kfs0) (i_addrs ino0) 0 = 46" by (simp add: faddr_def ino0_def)
  then show "no_holes (blocks kfs0) (i_addrs ino0) (unat (i_size ino0))" unfolding no_holes_def by (simp add: ino0_def)
  have "unat (i_size ino0) = 3" by (simp add: ino0_def)
  moreover have "[0..<3] = [0, 1, 2 :: nat]" by code_simp
  ultimately have "content (blocks kfs0) ino0 = map (fbyte (blocks kfs0) (i_addrs ino0)) [0, 1, 2]" by (simp only: content_def)
  also have "\<dots> = [1, 2, 3]" using a by (simp add: fbyte_def kfs0_cache disk0_def)
  finally show "content (blocks kfs0) ino0 = [1, 2, 3]" .
qed

end
