(* ===== verification/Filewrite.thy ===== *)
theory Filewrite
  imports Filedata
begin

text \<open>
  Writing a file: \<^verbatim>\<open>bmap\<close> allocates the blocks that are missing, \<^verbatim>\<open>writei\<close> fills them, and \<^verbatim>\<open>iupdate\<close> stores
  the inode. What is written is read back.
\<close>

section \<open>Allocation keeps the data of every file\<close>

definition free_blocks :: "(u32 \<Rightarrow> u8 list) \<Rightarrow> superblock \<Rightarrow> nat set" where
  "free_blocks B S = {n. n < unat (sb_size S) \<and> bfree_at B S n}"

lemma finite_free [simp]: "finite (free_blocks B S)"
  by (simp add: free_blocks_def)

lemma unat_of_size: "n < unat (sb_size S) \<Longrightarrow> unat (of_nat n :: u32) = n"
  using size_less by (blast intro: unat_of_nat32)

lemma bitmap_low: "layout ds st B S \<Longrightarrow> n < unat (sb_size S) \<Longrightarrow> unat (BBLOCK (of_nat n) S) < ds"
  by (simp add: layout_def)

lemma free_high: "layout ds st B S \<Longrightarrow> n \<in> free_blocks B S \<Longrightarrow> ds \<le> n"
  by (auto simp: layout_def free_blocks_def intro!: leI)

lemma taken_other:
  assumes "layout ds st B S" and "n \<in> free_blocks B S" and "in_data ds S B a"
  shows "taken_block S n B a = B a" and "a \<noteq> of_nat n" and "in_data ds S (taken_block S n B) a"
proof -
  have n: "n < unat (sb_size S)" "bfree_at B S n" "ds \<le> n" using assms(2) free_high [OF assms(1,2)] by (simp_all add: free_blocks_def)
  have "a \<noteq> BBLOCK (of_nat n) S" using bitmap_low [OF assms(1) n(1)] assms(3) by (auto simp: in_data_def)
  moreover show "a \<noteq> of_nat n" using assms(3) n unat_of_size [OF n(1)] by (auto simp: in_data_def)
  ultimately show "taken_block S n B a = B a" by (simp add: taken_block_def)
  show "in_data ds S (taken_block S n B) a"
    using assms(3) bfree_at_taken [OF assms(1) _ n(1,3), of "unat a"] by (simp add: in_data_def)
qed

lemma taken_new:
  assumes "layout ds st B S" and "n \<in> free_blocks B S"
  shows "in_data ds S (taken_block S n B) (of_nat n)" and "taken_block S n B (of_nat n) = replicate BSIZE 0"
    and "(of_nat n :: u32) \<noteq> 0" and "free_blocks (taken_block S n B) S = free_blocks B S - {n}"
proof -
  have n: "n < unat (sb_size S)" "bfree_at B S n" "ds \<le> n" "0 < ds"
    using assms free_high [OF assms] by (simp_all add: free_blocks_def layout_def)
  note u = unat_of_size [OF n(1)]
  show "in_data ds S (taken_block S n B) (of_nat n)"
    using bfree_at_taken [OF assms(1) n(1) n(1,3)] n u by (simp add: in_data_def)
  show "taken_block S n B (of_nat n) = replicate BSIZE 0" by (simp add: taken_block_def)
  show "(of_nat n :: u32) \<noteq> 0" using u n(3,4) by (metis not_le unat_0)
  show "free_blocks (taken_block S n B) S = free_blocks B S - {n}"
    using bfree_at_taken [OF assms(1) _ n(1,3)] by (auto simp: free_blocks_def)
qed

lemma faddr_taken:
  assumes "layout ds st B S" and "n \<in> free_blocks B S" and "file_wf ds S B as"
  shows "faddr (taken_block S n B) as bn = faddr B as bn"
  using taken_other(1) [OF assms(1,2)] assms(3) by (auto simp: faddr_def file_wf_def)

lemma file_wf_taken:
  assumes "layout ds st B S" and "n \<in> free_blocks B S" and "file_wf ds S B as"
  shows "file_wf ds S (taken_block S n B) as"
  using assms(3) taken_other(3) [OF assms(1,2)] unfolding file_wf_def faddr_taken [OF assms] by blast

lemma file_wfD:
  assumes "file_wf ds S B as" and "bn < MAXFILE" and "faddr B as bn \<noteq> 0"
  shows "in_data ds S B (faddr B as bn)" and "faddr B as bn \<noteq> as ! NDIRECT"
    and "bm < MAXFILE \<Longrightarrow> faddr B as bm = faddr B as bn \<Longrightarrow> bm = bn"
  using assms unfolding file_wf_def by blast+

text \<open>One address \<open>a\<close> is put in at place \<open>j\<close>.\<close>

lemma file_wfI:
  assumes w: "file_wf ds S B as" and len: "length as' = 13" and ind: "as' ! NDIRECT = as ! NDIRECT"
    and f: "\<And>bm. bm < MAXFILE \<Longrightarrow> faddr B' as' bm = (if bm = j then a else faddr B as bm)"
    and d: "\<And>c. in_data ds S B c \<Longrightarrow> in_data ds S B' c \<and> c \<noteq> a" and a: "in_data ds S B' a" "a \<noteq> 0"
  shows "file_wf ds S B' as'"
  unfolding file_wf_def
proof (intro conjI allI impI)
  show "length as' = 13" by (rule len)
  have di: "as ! NDIRECT \<noteq> 0 \<Longrightarrow> in_data ds S B (as ! NDIRECT)" using w by (simp add: file_wf_def)
  show "in_data ds S B' (as' ! NDIRECT)" if "as' ! NDIRECT \<noteq> 0" using that d di unfolding ind by blast
  fix bn assume bn: "bn < MAXFILE" "faddr B' as' bn \<noteq> 0"
  note fn = f [OF bn(1)] and wn = file_wfD [OF w bn(1)]
  show "in_data ds S B' (faddr B' as' bn)" using bn(2) fn wn(1) d [of "faddr B as bn"] a by (cases "bn = j") simp_all
  show "faddr B' as' bn \<noteq> as' ! NDIRECT" using bn(2) fn wn(2) d [of "as ! NDIRECT"] a(2) di ind by (cases "bn = j") auto
  fix bm assume bm: "bm < MAXFILE" "faddr B' as' bm = faddr B' as' bn"
  note fm = f [OF bm(1)] and wm = file_wfD(1) [OF w bm(1)]
  consider "bm = j" "bn = j" | "bm = j" "bn \<noteq> j" | "bm \<noteq> j" "bn = j" | "bm \<noteq> j" "bn \<noteq> j" by blast
  then show "bm = bn"
  proof cases
    case 2
    then show ?thesis using fn fm bm(2) bn(2) d [of "faddr B as bn"] wn(1) by simp
  next
    case 3
    then show ?thesis using fn fm bm(2) bn(2) d [of "faddr B as bm"] a(2) wm by simp
  next
    case 4
    then show ?thesis using fn fm bm bn(2) wn(3) by simp
  qed simp
qed

text \<open>A new block in a direct slot, or as the indirect block.\<close>

lemma file_wf_direct:
  assumes l: "layout ds st B S" and n: "n \<in> free_blocks B S" and w: "file_wf ds S B as" and j: "j < NDIRECT"
  defines "B' \<equiv> taken_block S n B" and "as' \<equiv> as[j := of_nat n]"
  shows "faddr B' as' bm = (if bm = j then of_nat n else faddr B as bm)" and "file_wf ds S B' as'"
proof -
  have len: "length as = 13" using w by (simp add: file_wf_def)
  show f: "faddr B' as' bm = (if bm = j then of_nat n else faddr B as bm)" for bm
    using faddr_taken [OF l n w, of bm] j len by (auto simp: faddr_def B'_def as'_def split: if_splits)
  show "file_wf ds S B' as'"
    using taken_other(2,3) [OF l n] taken_new [OF l n] j len
    by (intro file_wfI [OF w _ _ f]) (auto simp: as'_def B'_def)
qed

lemma file_wf_indirect:
  assumes l: "layout ds st B S" and n: "n \<in> free_blocks B S" and w: "file_wf ds S B as" and z: "as ! NDIRECT = 0"
  defines "B' \<equiv> taken_block S n B" and "as' \<equiv> as[NDIRECT := of_nat n]"
  shows "faddr B' as' bm = faddr B as bm" and "file_wf ds S B' as'" and "as' ! NDIRECT = of_nat n"
proof -
  have len: "length as = 13" using w by (simp add: file_wf_def)
  note o = taken_other [OF l n] and nw = taken_new [OF l n]
  show ind: "as' ! NDIRECT = of_nat n" using len by (simp add: as'_def)
  show f: "faddr B' as' bm = faddr B as bm" for bm
    using z ind nw(2,3) by (simp add: faddr_def B'_def as'_def getw_zeros)
  have "in_data ds S B (faddr B as bm) \<and> faddr B as bm \<noteq> of_nat n" if "bm < MAXFILE" "faddr B as bm \<noteq> 0" for bm
    using w o(2) that by (auto simp: file_wf_def)
  then show "file_wf ds S B' as'"
    using w o(3) nw(1) unfolding file_wf_def f ind by (simp add: as'_def B'_def)
qed

text \<open>A new block in entry \<open>e\<close> of the indirect block.\<close>

lemma file_wf_entry:
  assumes l: "layout ds st B S" and n: "n \<in> free_blocks B S" and w: "file_wf ds S B as" and i: "as ! NDIRECT \<noteq> 0" and e: "e < NINDIRECT"
  defines "ind \<equiv> as ! NDIRECT"
  defines "B' \<equiv> (taken_block S n B)(ind := setw (B ind) e (of_nat n))"
  shows "bm < MAXFILE \<Longrightarrow> faddr B' as bm = (if bm = NDIRECT + e then of_nat n else faddr B as bm)"
    and "file_wf ds S B' as" and "layout ds st B' S" and "free_blocks B' S = free_blocks B S - {n}"
    and "in_data ds S B a \<Longrightarrow> a \<noteq> ind \<Longrightarrow> B' a = B a" and "B' (of_nat n) = replicate BSIZE 0"
    and "in_data ds S B' a = in_data ds S (taken_block S n B) a"
proof -
  note o = taken_other [OF l n] and nw = taken_new [OF l n]
  have di: "in_data ds S B ind" using w i by (simp add: file_wf_def ind_def)
  have li: "length (B ind) = BSIZE" by (rule in_data_length [OF l di])
  have nb: "n < unat (sb_size S)" "ds \<le> n" using n free_high [OF l n] by (simp_all add: free_blocks_def)
  have at: "bfree_at B' S m = bfree_at (taken_block S n B) S m" if "m < unat (sb_size S)" for m
  proof -
    have "BBLOCK (of_nat m) S \<noteq> ind" using bitmap_low [OF l that] di by (auto simp: in_data_def)
    then show ?thesis by (simp add: bfree_at_def B'_def)
  qed
  show id: "in_data ds S B' a = in_data ds S (taken_block S n B) a" for a using at by (auto simp: in_data_def)
  show f: "faddr B' as bm = (if bm = NDIRECT + e then of_nat n else faddr B as bm)" if "bm < MAXFILE" for bm
    using i e li that by (auto simp: faddr_def B'_def ind_def)
  have at': "bfree_at B' S m = bfree_at (taken_block S n B) S m" if "m < ds" for m using that nb by (intro at) simp
  show "layout ds st B' S"
    using layout_taken [OF l nb] at' li e unfolding layout_def B'_def by auto
  show "free_blocks B' S = free_blocks B S - {n}" using at nw(4) by (auto simp: free_blocks_def)
  show "B' a = B a" if "in_data ds S B a" "a \<noteq> ind" for a using o(1) that by (simp add: B'_def)
  show "B' (of_nat n) = replicate BSIZE 0" using nw(2) o(2) [OF di] by (simp add: B'_def)
  have "length as = 13" using w by (simp add: file_wf_def)
  then show "file_wf ds S B' as" by (rule file_wfI [OF w _ refl f]) (use o(2,3) nw(1,3) in \<open>simp_all add: id\<close>)
qed

section \<open>What an operation on a file may change\<close>

text \<open>The blocks a file has. A step that works on the file keeps the data of all others, and the
  inode blocks; it takes blocks only from the free ones.\<close>

definition fown :: "(u32 \<Rightarrow> u8 list) \<Rightarrow> u32 list \<Rightarrow> u32 set" where
  "fown B as = {a. a \<noteq> 0 \<and> (a = as ! NDIRECT \<or> (\<exists>bn < MAXFILE. a = faddr B as bn))}"

definition bitmap_area :: "superblock \<Rightarrow> u32 set" where
  "bitmap_area S = (\<lambda>n. BBLOCK (of_nat n) S) ` {..<unat (sb_size S)}"

definition grows :: "nat \<Rightarrow> superblock \<Rightarrow> (u32 \<Rightarrow> u8 list) \<Rightarrow> u32 list \<Rightarrow> (u32 \<Rightarrow> u8 list) \<Rightarrow> u32 list \<Rightarrow> bool" where
  "grows ds S B as B' as' \<longleftrightarrow>
     (\<forall>c. in_data ds S B c \<and> c \<notin> fown B as \<longrightarrow> in_data ds S B' c \<and> B' c = B c \<and> c \<notin> fown B' as') \<and>
     (\<forall>c. unat c < ds \<and> c \<notin> bitmap_area S \<longrightarrow> B' c = B c) \<and> free_blocks B' S \<subseteq> free_blocks B S"

lemma grows_refl [simp]: "grows ds S B as B as"
  by (simp add: grows_def)

lemma grows_trans: "grows ds S B as B' as' \<Longrightarrow> grows ds S B' as' B'' as'' \<Longrightarrow> grows ds S B as B'' as''"
  unfolding grows_def by (intro conjI allI impI; elim conjE) (metis, metis, metis, metis, blast)

lemma fown_data: "file_wf ds S B as \<Longrightarrow> c \<in> fown B as \<Longrightarrow> in_data ds S B c"
  by (auto simp: fown_def file_wf_def)

lemma growsI:
  assumes l: "layout ds st B S" and n: "n \<in> free_blocks B S" and w: "file_wf ds S B as"
    and b: "\<And>c. c \<notin> fown B as \<Longrightarrow> B' c = taken_block S n B c"
    and d: "\<And>c. in_data ds S (taken_block S n B) c \<Longrightarrow> in_data ds S B' c"
    and f: "free_blocks B' S = free_blocks B S - {n}" and o: "fown B' as' \<subseteq> insert (of_nat n) (fown B as)"
  shows "grows ds S B as B' as'"
  unfolding grows_def
proof (intro conjI allI impI; (elim conjE)?)
  fix c assume c: "in_data ds S B c" "c \<notin> fown B as"
  note t = taken_other [OF l n c(1)]
  show "in_data ds S B' c" using d t(3) by blast
  show "B' c = B c" using b [OF c(2)] t(1) by simp
  show "c \<notin> fown B' as'" using o c(2) t(2) by blast
next
  fix c assume c: "unat c < ds" "c \<notin> bitmap_area S"
  have nb: "n < unat (sb_size S)" "ds \<le> n" using n free_high [OF l n] by (simp_all add: free_blocks_def)
  have "c \<notin> fown B as" using c(1) fown_data [OF w, of c] by (auto simp: in_data_def)
  moreover have "c \<noteq> of_nat n" using c(1) nb unat_of_size [OF nb(1)] by auto
  moreover have "c \<noteq> BBLOCK (of_nat n) S" using c(2) nb(1) by (auto simp: bitmap_area_def)
  ultimately show "B' c = B c" using b [of c] by (simp add: taken_block_def)
qed (use f in blast)

text \<open>Place \<open>bn\<close> of the file now has block \<open>a\<close>, all else of its data is as it was, and a new block is zero.\<close>

definition maps_in :: "nat \<Rightarrow> u32 \<Rightarrow> (u32 \<Rightarrow> u8 list) \<Rightarrow> u32 list \<Rightarrow> (u32 \<Rightarrow> u8 list) \<Rightarrow> u32 list \<Rightarrow> bool" where
  "maps_in bn a B as B' as' \<longleftrightarrow> a \<noteq> 0 \<and> (\<forall>bm < MAXFILE. faddr B' as' bm = (if bm = bn then a else faddr B as bm)) \<and>
     (\<forall>bm < MAXFILE. faddr B as bm \<noteq> 0 \<longrightarrow> B' (faddr B as bm) = B (faddr B as bm)) \<and>
     (if faddr B as bn = 0 then B' a = replicate BSIZE 0 else a = faddr B as bn)"

lemma maps_in_refl: "faddr B as bn \<noteq> 0 \<Longrightarrow> maps_in bn (faddr B as bn) B as B as"
  by (simp add: maps_in_def)

section \<open>Allocation in bmap\<close>

lemma seti_fs [simp]:
  "fs_op k (seti ip f s) = fs_op k s" "blocks (seti ip f s) = blocks s" "block_lock (seti ip f s) = block_lock s"
  "lg (seti ip f s) = lg s" "sb (seti ip f s) = sb s" "itable (seti ip f s) = (itable s)(ip := f (itable s ip))"
proof -
  let ?t = "seti ip f s"
  have c: "cabs ?t = cabs s" "block_lock ?t = block_lock s" "cache_inv ?t = cache_inv s"
    by (intro cache_cong; simp add: seti_def)+
  have o: "calm ?t = calm s" "lcount ?t = lcount s" "logged ?t = logged s" "disk ?t = disk s" "lg ?t = lg s" "held ?t = held s"
    by (simp_all add: seti_def calm_def running_def no_plock_def lcount_def logged_def)
  show "lg ?t = lg s" "sb ?t = sb s" "itable ?t = (itable s)(ip := f (itable s ip))" by (simp_all add: seti_def)
  show b: "blocks ?t = blocks s" and "block_lock ?t = block_lock s" using c by (simp_all add: blocks_def)
  show "fs_op k ?t = fs_op k s"
    by (simp add: fs_op_def tx_def clean_def log_wf_def cache_ok_def b c o)
qed

lemma balloc_any:
  assumes "fs_op (Suc (Suc k)) s" and "unlocked_for s" and "layout ds (lg_start (lg s)) (blocks s) (sb s)"
    and "free_blocks (blocks s) (sb s) \<noteq> {}"
  obtains n s' where "n \<in> free_blocks (blocks s) (sb s)" and "balloc 1 s = (Ret (of_nat n), s')" and "took n k s s'"
proof -
  define n where "n = (LEAST n. n \<in> free_blocks (blocks s) (sb s))"
  have n: "n \<in> free_blocks (blocks s) (sb s)" using assms(4) by (auto simp: n_def intro: LeastI)
  have "i \<notin> free_blocks (blocks s) (sb s)" if "i < n" for i using that not_less_Least by (auto simp: n_def)
  then have "\<forall>i < n. \<not> bfree_at (blocks s) (sb s) i" using n by (auto simp: free_blocks_def)
  then show thesis using balloc_takes [OF assms(1-3), of n] n that [OF n] by (auto simp: free_blocks_def)
qed

lemma direct_takes:
  assumes i: "ino_ok (Suc (Suc k)) ds ip s" and z: "i_addrs (itable s ip) ! j = 0" and f: "free_blocks (blocks s) (sb s) \<noteq> {}"
  obtains n s' where "n \<in> free_blocks (blocks s) (sb s)" and "bmap_direct ip j s = (Ret (of_nat n), s')" and "fs_op k s'"
    and "blocks s' = taken_block (sb s) n (blocks s)" and "block_lock s' = (\<lambda>_. None)" and "sb s' = sb s"
    and "lg_start (lg s') = lg_start (lg s)"
    and "itable s' = (itable s)(ip := (itable s ip)\<lparr>i_addrs := (i_addrs (itable s ip))[j := of_nat n]\<rparr>)"
proof -
  have l: "layout ds (lg_start (lg s)) (blocks s) (sb s)" and u: "unlocked_for s" and o: "fs_op (Suc (Suc k)) s"
    and q: "i_dev (itable s ip) = 1" "block_lock s = (\<lambda>_. None)"
    using i by (simp_all add: ino_ok_def unlocked_for_def locked_def)
  obtain n s1 where n: "n \<in> free_blocks (blocks s) (sb s)" "balloc 1 s = (Ret (of_nat n), s1)" "took n k s s1"
    by (rule balloc_any [OF o u l f])
  let ?g = "\<lambda>q. q\<lparr>i_addrs := (i_addrs q)[j := of_nat n]\<rparr>"
  have fr: "tx_frame s s1" using n(3) by (simp add: took_def)
  have "bmap_direct ip j s = (Ret (of_nat n), seti ip ?g s1)"
    using n(2) z q taken_new(3) [OF l n(1)] by (simp add: bmap_direct_def Let_def)
  then show thesis
    using that [OF n(1)] n(3) q tx_frame_fs(1,2) [OF fr] tx_frame_start [OF fr] by (simp add: took_def)
qed

text \<open>An inode in use before and after a step on its file.\<close>

definition ino_step :: "nat \<Rightarrow> nat \<Rightarrow> 'z fsstate_scheme \<Rightarrow> 'z fsstate_scheme \<Rightarrow> bool" where
  "ino_step ds ip s s' \<longleftrightarrow> sb s' = sb s \<and> lg_start (lg s') = lg_start (lg s) \<and>
     itable s' = (itable s)(ip := (itable s ip)\<lparr>i_addrs := i_addrs (itable s' ip)\<rparr>) \<and>
     grows ds (sb s) (blocks s) (i_addrs (itable s ip)) (blocks s') (i_addrs (itable s' ip))"

lemma ino_step_trans: "ino_step ds ip s s' \<Longrightarrow> ino_step ds ip s' s'' \<Longrightarrow> ino_step ds ip s s''"
  unfolding ino_step_def by (auto intro: grows_trans) (metis fun_upd_same fun_upd_upd inode.surjective inode.update_convs(10))

lemma same_fs_step: "same_fs s s' \<Longrightarrow> ino_step ds ip s s'"
  using tx_frame_fs(1,2) [of s s'] tx_frame_start [of s s'] by (auto simp: same_fs_def ino_step_def)

lemma fown_eq:
  assumes "as' ! NDIRECT = as ! NDIRECT" and "\<And>bm. bm < MAXFILE \<Longrightarrow> faddr B' as' bm = (if bm = j then a else faddr B as bm)"
  shows "fown B' as' \<subseteq> insert a (fown B as)"
  using assms by (auto simp: fown_def split: if_splits)

lemma bmap_alloc_direct:
  assumes i: "ino_ok (Suc (Suc k)) ds ip s" and z: "i_addrs (itable s ip) ! j = 0" and f: "free_blocks (blocks s) (sb s) \<noteq> {}"
    and j: "j < NDIRECT"
  obtains a s' where "bmap_direct ip j s = (Ret a, s')" and "ino_ok k ds ip s'" and "ino_step ds ip s s'"
    and "maps_in j a (blocks s) (i_addrs (itable s ip)) (blocks s') (i_addrs (itable s' ip))"
    and "card (free_blocks (blocks s) (sb s)) = Suc (card (free_blocks (blocks s') (sb s')))"
proof -
  let ?B = "blocks s" and ?as = "i_addrs (itable s ip)" and ?S = "sb s"
  have l: "layout ds (lg_start (lg s)) ?B ?S" and w: "file_wf ds ?S ?B ?as" using i by (simp_all add: ino_ok_def)
  obtain n s' where n: "n \<in> free_blocks ?B ?S" and s': "bmap_direct ip j s = (Ret (of_nat n), s')" "fs_op k s'"
    "blocks s' = taken_block ?S n ?B" "block_lock s' = (\<lambda>_. None)" "sb s' = ?S" "lg_start (lg s') = lg_start (lg s)"
    "itable s' = (itable s)(ip := (itable s ip)\<lparr>i_addrs := ?as[j := of_nat n]\<rparr>)" by (rule direct_takes [OF i z f])
  note d = file_wf_direct [OF l n w j] and tn = taken_new [OF l n]
  have nb: "n < unat (sb_size ?S)" "ds \<le> n" using n free_high [OF l n] by (simp_all add: free_blocks_def)
  have l': "layout ds (lg_start (lg s)) (blocks s') ?S" using layout_taken [OF l nb] s'(3) by simp
  show thesis
  proof (rule that [OF s'(1)])
    show "ino_ok k ds ip s'" using i l' d(2) by (simp add: ino_ok_def s')
    have "fown (taken_block ?S n ?B) (?as[j := of_nat n]) \<subseteq> insert (of_nat n) (fown ?B ?as)"
      by (rule fown_eq [OF _ d(1)]) (use j in simp)
    then have "grows ds ?S ?B ?as (taken_block ?S n ?B) (?as[j := of_nat n])"
      by (intro growsI [OF l n w refl _ tn(4)])
    then show "ino_step ds ip s s'" by (simp add: ino_step_def s')
    have fz: "faddr ?B ?as j = 0" using z j by (simp add: faddr_def)
    have "taken_block ?S n ?B (faddr ?B ?as bm) = ?B (faddr ?B ?as bm)" if "bm < MAXFILE" "faddr ?B ?as bm \<noteq> 0" for bm
      by (rule taken_other(1) [OF l n file_data [OF w that]])
    then have "maps_in j (of_nat n) ?B ?as (taken_block ?S n ?B) (?as[j := of_nat n])"
      unfolding maps_in_def d(1) if_P [OF fz] using tn(2,3) by blast
    then show "maps_in j (of_nat n) ?B ?as (blocks s') (i_addrs (itable s' ip))" by (simp add: s')
    show "card (free_blocks ?B ?S) = Suc (card (free_blocks (blocks s') (sb s')))"
      unfolding s'(3,5) tn(4) by (rule card_Suc_Diff1 [OF finite_free n, symmetric])
  qed
qed

text \<open>The indirect block itself: it adds no data block.\<close>

lemma bmap_alloc_indirect:
  assumes i: "ino_ok (Suc (Suc k)) ds ip s" and z: "i_addrs (itable s ip) ! NDIRECT = 0" and f: "free_blocks (blocks s) (sb s) \<noteq> {}"
  obtains a s' where "bmap_direct ip NDIRECT s = (Ret a, s')" and "a \<noteq> 0" and "ino_ok k ds ip s'" and "ino_step ds ip s s'"
    and "i_addrs (itable s' ip) ! NDIRECT = a"
    and "\<And>bm. bm < MAXFILE \<Longrightarrow> faddr (blocks s') (i_addrs (itable s' ip)) bm = faddr (blocks s) (i_addrs (itable s ip)) bm"
    and "\<And>c. in_data ds (sb s) (blocks s) c \<Longrightarrow> blocks s' c = blocks s c"
    and "card (free_blocks (blocks s) (sb s)) = Suc (card (free_blocks (blocks s') (sb s')))"
proof -
  let ?B = "blocks s" and ?as = "i_addrs (itable s ip)" and ?S = "sb s"
  have l: "layout ds (lg_start (lg s)) ?B ?S" and w: "file_wf ds ?S ?B ?as" using i by (simp_all add: ino_ok_def)
  obtain n s' where n: "n \<in> free_blocks ?B ?S" and s': "bmap_direct ip NDIRECT s = (Ret (of_nat n), s')" "fs_op k s'"
    "blocks s' = taken_block ?S n ?B" "block_lock s' = (\<lambda>_. None)" "sb s' = ?S" "lg_start (lg s') = lg_start (lg s)"
    "itable s' = (itable s)(ip := (itable s ip)\<lparr>i_addrs := ?as[NDIRECT := of_nat n]\<rparr>)" by (rule direct_takes [OF i z f])
  note d = file_wf_indirect [OF l n w z] and tn = taken_new [OF l n]
  have nb: "n < unat (sb_size ?S)" "ds \<le> n" using n free_high [OF l n] by (simp_all add: free_blocks_def)
  have l': "layout ds (lg_start (lg s)) (blocks s') ?S" using layout_taken [OF l nb] s'(3) by simp
  show thesis
  proof (rule that [OF s'(1) tn(3)])
    show "ino_ok k ds ip s'" using i l' d(2) by (simp add: ino_ok_def s')
    have "fown (taken_block ?S n ?B) (?as[NDIRECT := of_nat n]) \<subseteq> insert (of_nat n) (fown ?B ?as)"
      unfolding fown_def d(1) d(3) by blast
    then have "grows ds ?S ?B ?as (taken_block ?S n ?B) (?as[NDIRECT := of_nat n])"
      by (intro growsI [OF l n w refl _ tn(4)])
    then show "ino_step ds ip s s'" by (simp add: ino_step_def s')
    show "i_addrs (itable s' ip) ! NDIRECT = of_nat n" using d(3) by (simp add: s')
    show "faddr (blocks s') (i_addrs (itable s' ip)) bm = faddr ?B ?as bm" for bm using d(1) by (simp add: s')
    show "blocks s' c = ?B c" if "in_data ds ?S ?B c" for c using taken_other(1) [OF l n that] by (simp add: s')
    show "card (free_blocks ?B ?S) = Suc (card (free_blocks (blocks s') (sb s')))"
      unfolding s'(3,5) tn(4) by (rule card_Suc_Diff1 [OF finite_free n, symmetric])
  qed
qed

lemma held_data: "fs_op k s \<Longrightarrow> block_lock s a = Some b \<Longrightarrow> b_data (bufs s b) = blocks s a"
  using block_lock_facts(7) [of s a b] by (simp add: fs_op_def tx_def cache_ok_def blocks_def cabs_def)

text \<open>A new entry in the indirect block, whose buffer is held while the block is allocated.\<close>

lemma entry_takes:
  assumes o: "fs_op (Suc (Suc (Suc k))) s" and l: "layout ds (lg_start (lg s)) (blocks s) (sb s)" and f: "free_blocks (blocks s) (sb s) \<noteq> {}"
    and d: "in_data ds (sb s) (blocks s) a" and k: "block_lock s = [a \<mapsto> bp]" and v: "i_dev (itable s ip) = 1"
  obtains n s' where "n \<in> free_blocks (blocks s) (sb s)"
    and "bnd (bnd (balloc (i_dev (itable s ip)) s) (\<lambda>addr s.
           if addr \<noteq> 0 then
             let s = buf_put bp (setw (b_data (bufs s bp)) e addr) s in
             bnd (log_write bp s) (\<lambda>_ s. (Ret addr, s))
           else (Ret 0, s))) (\<lambda>addr s. bnd (brelse bp s) (\<lambda>_ s. (Ret addr, s))) = (Ret (of_nat n), s')"
    and "fs_op k s'" and "tx_frame s s'" and "block_lock s' = (\<lambda>_. None)"
    and "blocks s' = (taken_block (sb s) n (blocks s))(a := setw (blocks s a) e (of_nat n))"
proof -
  have "block_lock s c = None" if "c \<noteq> a" for c using k that by simp
  moreover have "BBLOCK (of_nat n) (sb s) \<noteq> a" if "n < unat (sb_size (sb s))" for n
    using bitmap_low [OF l that] d by (auto simp: in_data_def)
  moreover have "of_nat n \<noteq> a" if "n < unat (sb_size (sb s))" "bfree_at (blocks s) (sb s) n" for n
    using that d unat_of_size [OF that(1)] by (auto simp: in_data_def)
  moreover have "locked s = {a}" using k by (auto simp: locked_def)
  ultimately have u: "unlocked_for s" by (simp add: unlocked_for_def)
  obtain n s1 where n: "n \<in> free_blocks (blocks s) (sb s)" "balloc 1 s = (Ret (of_nat n), s1)" "took n (Suc k) s s1"
    by (rule balloc_any [OF o u l f])
  then have t: "fs_op (Suc k) s1" "tx_frame s s1" "block_lock s1 = [a \<mapsto> bp]" "blocks s1 = taken_block (sb s) n (blocks s)"
    using k by (simp_all add: took_def)
  have dat: "b_data (bufs s1 bp) = blocks s a" using held_data [OF t(1), of a bp] t taken_other(1) [OF l n(1) d] by simp
  obtain s2 where s2: "bnd (log_write bp (buf_put bp (setw (blocks s a) e (of_nat n)) s1)) (\<lambda>_ s. brelse bp s) = (Ret (), s2)"
    "fs_op k s2" "tx_frame s1 s2" "blocks s2 = (blocks s1)(a := setw (blocks s a) e (of_nat n))" "block_lock s2 = (block_lock s1)(a := None)"
    by (rule fs_write [OF t(1), of a bp]) (use t(3) in_data_log [OF l d] tx_frame_start [OF t(2)] in auto)
  obtain s3 where s3: "log_write bp (buf_put bp (setw (blocks s a) e (of_nat n)) s1) = (Ret (), s3)" "brelse bp s3 = (Ret (), s2)"
    using s2(1) by (auto simp: bnd_eq_Ret_iff)
  show thesis
  proof (rule that [OF n(1) _ s2(2) tx_frame_trans [OF t(2) s2(3)]])
    show "bnd (bnd (balloc (i_dev (itable s ip)) s) (\<lambda>addr s.
           if addr \<noteq> 0 then
             let s = buf_put bp (setw (b_data (bufs s bp)) e addr) s in
             bnd (log_write bp s) (\<lambda>_ s. (Ret addr, s))
           else (Ret 0, s))) (\<lambda>addr s. bnd (brelse bp s) (\<lambda>_ s. (Ret addr, s))) = (Ret (of_nat n), s2)"
      using n(2) s3 v dat taken_new(3) [OF l n(1)] by (simp add: Let_def)
    show "block_lock s2 = (\<lambda>_. None)" using s2(5) t(3) by auto
  qed (simp add: s2(4) t(4))
qed

lemma bmap_alloc_entry:
  assumes i: "ino_ok (Suc (Suc (Suc k))) ds ip s" and a: "i_addrs (itable s ip) ! NDIRECT \<noteq> 0" and bn: "NDIRECT \<le> bn" "bn < MAXFILE"
    and z: "faddr (blocks s) (i_addrs (itable s ip)) bn = 0" and f: "free_blocks (blocks s) (sb s) \<noteq> {}"
  obtains c s' where "bmap ip bn s = (Ret c, s')" and "ino_ok k ds ip s'" and "ino_step ds ip s s'"
    and "maps_in bn c (blocks s) (i_addrs (itable s ip)) (blocks s') (i_addrs (itable s' ip))"
    and "card (free_blocks (blocks s) (sb s)) = Suc (card (free_blocks (blocks s') (sb s')))"
proof -
  let ?B = "blocks s" and ?as = "i_addrs (itable s ip)" and ?S = "sb s" and ?e = "bn - NDIRECT"
  let ?ind = "?as ! NDIRECT"
  have e: "?e < NINDIRECT" "NDIRECT + ?e = bn" using bn by simp_all
  have l: "layout ds (lg_start (lg s)) ?B ?S" and w: "file_wf ds ?S ?B ?as" and o: "fs_op (Suc (Suc (Suc k))) s"
    and v: "i_dev (itable s ip) = 1" "block_lock s = (\<lambda>_. None)" using i by (simp_all add: ino_ok_def)
  have d: "in_data ds ?S ?B ?ind" using w a by (simp add: file_wf_def)
  have r: "lcount s + card (locked s) < NBUF" using o v by (simp add: fs_op_def locked_def)
  obtain bp s1 where s1: "bread 1 ?ind s = (Ret bp, s1)" "fs_op (Suc (Suc (Suc k))) s1" "tx_frame s s1" "lg s1 = lg s" "blocks s1 = ?B"
    "block_lock s1 = (block_lock s)(?ind \<mapsto> bp)" "b_data (bufs s1 bp) = ?B ?ind" by (rule fs_bread [OF o _ r]) (use v in simp_all)
  have e1: "sb s1 = ?S" "itable s1 = itable s" using tx_frame_fs(1,2) [OF s1(3)] by simp_all
  obtain n s' where n: "n \<in> free_blocks ?B ?S" and s': "bnd (bnd (balloc (i_dev (itable s1 ip)) s1) (\<lambda>addr s.
           if addr \<noteq> 0 then
             let s = buf_put bp (setw (b_data (bufs s bp)) ?e addr) s in
             bnd (log_write bp s) (\<lambda>_ s. (Ret addr, s))
           else (Ret 0, s))) (\<lambda>addr s. bnd (brelse bp s) (\<lambda>_ s. (Ret addr, s))) = (Ret (of_nat n), s')"
    "fs_op k s'" "tx_frame s1 s'" "block_lock s' = (\<lambda>_. None)" "blocks s' = (taken_block ?S n ?B)(?ind := setw (?B ?ind) ?e (of_nat n))"
    by (rule entry_takes [OF s1(2), where a = ?ind and bp = bp and ip = ip and e = ?e]) (use s1 e1 l f d v in auto)
  have fr: "tx_frame s s'" by (rule tx_frame_trans [OF s1(3) s'(3)])
  have es: "sb s' = ?S" "itable s' = itable s" "lg_start (lg s') = lg_start (lg s)"
    using tx_frame_fs(1,2) [OF fr] tx_frame_start [OF fr] by simp_all
  note q = file_wf_entry [OF l n w a e(1), folded s'(5), unfolded e(2)] and tn = taken_new [OF l n]
  have gz: "getw (?B ?ind) ?e = 0" using z a bn by (simp add: faddr_def)
  show thesis
  proof (rule that)
    show "bmap ip bn s = (Ret (of_nat n), s')"
      using s1(1,7) s'(1) a bn gz v by (simp add: bmap_def bmap_direct_def Let_def)
    show "ino_ok k ds ip s'" using i q(2,3) s' es by (simp add: ino_ok_def)
    have "fown (blocks s') ?as \<subseteq> insert (of_nat n) (fown ?B ?as)" by (rule fown_eq [OF refl q(1)])
    moreover have "?ind \<in> fown ?B ?as" using a by (simp add: fown_def)
    ultimately have "grows ds ?S ?B ?as (blocks s') ?as"
      by (intro growsI [OF l n w _ _ q(4)]) (auto simp: q(7), auto simp: s'(5))
    then show "ino_step ds ip s s'" by (simp add: ino_step_def es)
    have "blocks s' (faddr ?B ?as bm) = ?B (faddr ?B ?as bm)" if "bm < MAXFILE" "faddr ?B ?as bm \<noteq> 0" for bm
      by (rule q(5) [OF file_wfD(1,2) [OF w that]])
    then have "maps_in bn (of_nat n) ?B ?as (blocks s') ?as"
      unfolding maps_in_def if_P [OF z] using q(1,6) tn(3) by blast
    then show "maps_in bn (of_nat n) ?B ?as (blocks s') (i_addrs (itable s' ip))" by (simp add: es)
    show "card (free_blocks ?B ?S) = Suc (card (free_blocks (blocks s') (sb s')))"
      unfolding es(1) q(4) by (rule card_Suc_Diff1 [OF finite_free n, symmetric])
  qed
qed

lemma bmap_again:
  assumes "bmap_direct ip NDIRECT s = (Ret a, s')" and "a \<noteq> 0" and "i_addrs (itable s' ip) ! NDIRECT = a" and "NDIRECT \<le> bn" "bn < MAXFILE"
  shows "bmap ip bn s = bmap ip bn s'"
proof -
  have "bmap_direct ip NDIRECT s' = (Ret a, s')" using assms(2,3) by (simp add: bmap_direct_def)
  moreover have "bn - NDIRECT < NINDIRECT" "\<not> bn < NDIRECT" using assms(4,5) by simp_all
  ultimately show ?thesis using assms(1) by (simp add: bmap_def Let_def)
qed

lemma ino_ok_mono: "ino_ok k ds ip s \<Longrightarrow> j \<le> k \<Longrightarrow> ino_ok j ds ip s"
  by (auto simp: ino_ok_def intro: fs_op_mono)

lemma maps_in_later:
  assumes "\<And>bm. bm < MAXFILE \<Longrightarrow> faddr B1 as1 bm = faddr B as bm" and "bn < MAXFILE"
    and "\<And>bm. bm < MAXFILE \<Longrightarrow> faddr B as bm \<noteq> 0 \<Longrightarrow> B1 (faddr B as bm) = B (faddr B as bm)" and "maps_in bn c B1 as1 B' as'"
  shows "maps_in bn c B as B' as'"
  using assms by (simp add: maps_in_def)

text \<open>\<^verbatim>\<open>bmap\<close>: with two free blocks and room for five blocks in the log, it gives the block of any place of
  the file.\<close>

lemma bmap_alloc:
  assumes i: "ino_ok (k + 5) ds ip s" and bn: "bn < MAXFILE" and f: "2 \<le> card (free_blocks (blocks s) (sb s))"
  obtains a s' where "bmap ip bn s = (Ret a, s')" and "ino_ok k ds ip s'" and "ino_step ds ip s s'"
    and "maps_in bn a (blocks s) (i_addrs (itable s ip)) (blocks s') (i_addrs (itable s' ip))"
    and "card (free_blocks (blocks s) (sb s)) \<le> card (free_blocks (blocks s') (sb s')) + 2"
proof -
  let ?B = "blocks s" and ?as = "i_addrs (itable s ip)" and ?S = "sb s"
  have ne: "free_blocks ?B ?S \<noteq> {}" using f by auto
  have i2: "ino_ok (Suc (Suc k)) ds ip s" and i3: "ino_ok (Suc (Suc (Suc k))) ds ip s"
    and i5: "ino_ok (Suc (Suc (Suc (Suc (Suc k))))) ds ip s" using ino_ok_mono [OF i] by simp_all
  have w: "file_wf ds ?S ?B ?as" using i by (simp add: ino_ok_def)
  consider "faddr ?B ?as bn \<noteq> 0" | "faddr ?B ?as bn = 0" "bn < NDIRECT"
    | "faddr ?B ?as bn = 0" "NDIRECT \<le> bn" "?as ! NDIRECT \<noteq> 0" | "faddr ?B ?as bn = 0" "NDIRECT \<le> bn" "?as ! NDIRECT = 0"
    by linarith
  then show thesis
  proof cases
    case 1
    obtain s' where s': "bmap ip bn s = (Ret (faddr ?B ?as bn), s')" "fs_op (k + 5) s'" "same_fs s s'" by (rule bmap_mapped [OF i bn 1])
    have "ino_ok k ds ip s'" by (rule ino_ok_mono [OF same_fs_ino [OF s'(3,2) i]]) simp
    moreover have "blocks s' = ?B" "itable s' = itable s" "sb s' = ?S" using s'(3) tx_frame_fs(1,2) [of s s'] by (simp_all add: same_fs_def)
    ultimately show thesis using that [OF s'(1)] same_fs_step [OF s'(3)] maps_in_refl [OF 1] by simp
  next
    case 2
    have z: "?as ! bn = 0" and b: "bmap ip bn s = bmap_direct ip bn s" using 2 by (simp_all add: faddr_def bmap_def)
    show thesis by (rule bmap_alloc_direct [OF i2 z ne 2(2)], rule that) (simp_all only: b, linarith)
  next
    case 3
    show thesis by (rule bmap_alloc_entry [OF i3 3(3,2) bn 3(1) ne], rule that) (assumption | linarith)+
  next
    case 4
    obtain a s1 where s1: "bmap_direct ip NDIRECT s = (Ret a, s1)" "a \<noteq> 0" "ino_ok (Suc (Suc (Suc k))) ds ip s1" "ino_step ds ip s s1"
      "i_addrs (itable s1 ip) ! NDIRECT = a"
      and f1: "\<And>bm. bm < MAXFILE \<Longrightarrow> faddr (blocks s1) (i_addrs (itable s1 ip)) bm = faddr ?B ?as bm"
      and d1: "\<And>c. in_data ds ?S ?B c \<Longrightarrow> blocks s1 c = ?B c" and c1: "card (free_blocks ?B ?S) = Suc (card (free_blocks (blocks s1) (sb s1)))"
      by (rule bmap_alloc_indirect [OF i5 4(3) ne]) blast
    have ne1: "free_blocks (blocks s1) (sb s1) \<noteq> {}" using c1 f by auto
    have a1: "i_addrs (itable s1 ip) ! NDIRECT \<noteq> 0" and z1: "faddr (blocks s1) (i_addrs (itable s1 ip)) bn = 0" using s1 f1 [OF bn] 4 by simp_all
    obtain c s' where s': "bmap ip bn s1 = (Ret c, s')" "ino_ok k ds ip s'" "ino_step ds ip s1 s'"
      "maps_in bn c (blocks s1) (i_addrs (itable s1 ip)) (blocks s') (i_addrs (itable s' ip))"
      "card (free_blocks (blocks s1) (sb s1)) = Suc (card (free_blocks (blocks s') (sb s')))"
      by (rule bmap_alloc_entry [OF s1(3) a1 4(2) bn z1 ne1])
    have "maps_in bn c ?B ?as (blocks s') (i_addrs (itable s' ip))"
      by (rule maps_in_later [OF f1 bn _ s'(4)]) (use d1 file_data [OF w] in simp_all)
    then show thesis
      using that [of c s'] bmap_again [OF s1(1,2,5) 4(2) bn] s' ino_step_trans [OF s1(4) s'(3)] c1 by simp
  qed
qed

end
