(* ===== verification/Writeback.thy ===== *)
theory Writeback
  imports Filewrite
begin

text \<open>
  \<^verbatim>\<open>writei\<close> block by block: the bytes it writes and the bytes it keeps, the size, and the inode on the
  disk; and that \<^verbatim>\<open>readi\<close> then gives what was written.
\<close>

section \<open>Changing the data of one block\<close>

lemma data_write:
  assumes l: "layout ds st B S" and w: "file_wf ds S B as" and bn: "bn < MAXFILE" and a: "faddr B as bn \<noteq> 0" and d: "length d = BSIZE"
  defines "B' \<equiv> B(faddr B as bn := d)"
  shows "layout ds st B' S" and "file_wf ds S B' as" and "grows ds S B as B' as" and "free_blocks B' S = free_blocks B S"
    and "faddr B' as bm = faddr B as bm"
proof -
  let ?a = "faddr B as bn"
  have da: "in_data ds S B ?a" "?a \<noteq> as ! NDIRECT" using file_wfD [OF w bn a] by simp_all
  have at: "bfree_at B' S m = bfree_at B S m" if "m < unat (sb_size S)" for m
  proof -
    have "BBLOCK (of_nat m) S \<noteq> ?a" using bitmap_low [OF l that] da(1) by (auto simp: in_data_def)
    then show ?thesis by (simp add: bfree_at_def B'_def)
  qed
  have dl: "ds \<le> unat (sb_size S)" using da(1) by (simp add: in_data_def)
  have at': "bfree_at B' S m = bfree_at B S m" if "m < ds" for m using that dl by (intro at) simp
  show "layout ds st B' S" using l at' d unfolding layout_def B'_def by auto
  have id: "in_data ds S B' c = in_data ds S B c" for c using at by (auto simp: in_data_def)
  show f: "faddr B' as bm = faddr B as bm" for bm using da(2) by (simp add: faddr_def B'_def)
  show "file_wf ds S B' as" using w unfolding file_wf_def f id .
  show fr: "free_blocks B' S = free_blocks B S" using at by (auto simp: free_blocks_def)
  have o: "fown B' as = fown B as" by (simp add: fown_def f)
  have "?a \<in> fown B as" using a bn by (auto simp: fown_def)
  moreover have "c \<noteq> ?a" if "unat c < ds" for c using da(1) that by (auto simp: in_data_def)
  ultimately show "grows ds S B as B' as" unfolding grows_def o id fr by (auto simp: B'_def)
qed

text \<open>\<open>bs\<close> has been written at \<open>off\<close>; every other byte the file had is as it was.\<close>

definition wrote_at :: "nat \<Rightarrow> u8 list \<Rightarrow> (u32 \<Rightarrow> u8 list) \<Rightarrow> u32 list \<Rightarrow> (u32 \<Rightarrow> u8 list) \<Rightarrow> u32 list \<Rightarrow> bool" where
  "wrote_at off bs B as B' as' \<longleftrightarrow> (\<forall>i < MAXFILE * BSIZE.
     if off \<le> i \<and> i < off + length bs then faddr B' as' (i div BSIZE) \<noteq> 0 \<and> fbyte B' as' i = bs ! (i - off)
     else faddr B as (i div BSIZE) \<noteq> 0 \<longrightarrow> faddr B' as' (i div BSIZE) \<noteq> 0 \<and> fbyte B' as' i = fbyte B as i)"

lemma wrote_at_refl [simp]: "wrote_at off [] B as B as"
  by (auto simp: wrote_at_def)

lemma wrote_at_append:
  assumes "wrote_at off bs B as B1 as1" and "wrote_at (off + length bs) cs B1 as1 B' as'"
  shows "wrote_at off (bs @ cs) B as B' as'"
  unfolding wrote_at_def
proof (intro allI impI)
  fix i assume i: "i < MAXFILE * BSIZE"
  note 1 = assms(1) [unfolded wrote_at_def, rule_format, OF i] and 2 = assms(2) [unfolded wrote_at_def, rule_format, OF i]
  show "if off \<le> i \<and> i < off + length (bs @ cs) then faddr B' as' (i div BSIZE) \<noteq> 0 \<and> fbyte B' as' i = (bs @ cs) ! (i - off)
     else faddr B as (i div BSIZE) \<noteq> 0 \<longrightarrow> faddr B' as' (i div BSIZE) \<noteq> 0 \<and> fbyte B' as' i = fbyte B as i"
    using 1 2 by (auto simp: nth_append split: if_splits)
qed

lemma chunk_place:
  assumes "off mod BSIZE + m \<le> BSIZE"
  shows "off \<le> i \<and> i < off + m \<longleftrightarrow> i div BSIZE = off div BSIZE \<and> off mod BSIZE \<le> i mod BSIZE \<and> i mod BSIZE < off mod BSIZE + m"
    and "off \<le> i \<and> i < off + m \<Longrightarrow> i mod BSIZE - off mod BSIZE = i - off"
proof -
  have *: "b * BSIZE + c \<le> q * BSIZE + r \<and> q * BSIZE + r < b * BSIZE + c + m \<longleftrightarrow> q = b \<and> c \<le> r \<and> r < c + m"
    if "r < BSIZE" "c + m \<le> BSIZE" for q r b c
  proof -
    have "q = b" if "b * BSIZE + c \<le> q * BSIZE + r" "q * BSIZE + r < b * BSIZE + c + m" using that \<open>r < BSIZE\<close> \<open>c + m \<le> BSIZE\<close> by auto
    then show ?thesis by auto
  qed
  show "off \<le> i \<and> i < off + m \<longleftrightarrow> i div BSIZE = off div BSIZE \<and> off mod BSIZE \<le> i mod BSIZE \<and> i mod BSIZE < off mod BSIZE + m"
    using * [OF _ assms, of "i mod BSIZE" "off div BSIZE" "i div BSIZE"] by simp
  then show "i mod BSIZE - off mod BSIZE = i - off" if "off \<le> i \<and> i < off + m"
    using that div_mult_mod_eq [of i BSIZE] div_mult_mod_eq [of off BSIZE] by (metis add_diff_cancel_left)
qed

lemma chunk_wrote_at:
  assumes w: "file_wf ds S B1 as1" and bn: "off div BSIZE < MAXFILE" and m: "maps_in (off div BSIZE) a B as B1 as1"
    and l: "length (B1 a) = BSIZE" and c: "off mod BSIZE + length bs \<le> BSIZE"
    and f: "\<And>bm. faddr B' as1 bm = faddr B1 as1 bm" and B': "B' = B1(a := bsplice (B1 a) (off mod BSIZE) bs)"
  shows "wrote_at off bs B as B' as1"
  unfolding wrote_at_def
proof (intro allI impI)
  fix i assume i: "i < MAXFILE * BSIZE"
  then have im: "i div BSIZE < MAXFILE" by (simp add: less_mult_imp_div_less)
  note pl = chunk_place [OF c, of i]
  have fa: "faddr B1 as1 (i div BSIZE) = (if i div BSIZE = off div BSIZE then a else faddr B as (i div BSIZE))" and a: "a \<noteq> 0"
    using m im by (simp_all add: maps_in_def)
  have oth: "faddr B as (i div BSIZE) \<noteq> 0 \<Longrightarrow> B1 (faddr B as (i div BSIZE)) = B (faddr B as (i div BSIZE))" using m im by (simp add: maps_in_def)
  show "if off \<le> i \<and> i < off + length bs then faddr B' as1 (i div BSIZE) \<noteq> 0 \<and> fbyte B' as1 i = bs ! (i - off)
     else faddr B as (i div BSIZE) \<noteq> 0 \<longrightarrow> faddr B' as1 (i div BSIZE) \<noteq> 0 \<and> fbyte B' as1 i = fbyte B as i"
  proof (cases "i div BSIZE = off div BSIZE")
    case True
    then have "fbyte B' as1 i = bsplice (B1 a) (off mod BSIZE) bs ! (i mod BSIZE)" unfolding fbyte_def f fa unfolding B' by simp
    also have "\<dots> = (if off \<le> i \<and> i < off + length bs then bs ! (i - off) else B1 a ! (i mod BSIZE))"
      using l c pl True by (simp add: nth_splice)
    finally have fb: "fbyte B' as1 i = (if off \<le> i \<and> i < off + length bs then bs ! (i - off) else B1 a ! (i mod BSIZE))" .
    have "faddr B as (i div BSIZE) \<noteq> 0 \<Longrightarrow> a = faddr B as (i div BSIZE)" using m True by (simp add: maps_in_def split: if_splits)
    then have "faddr B as (i div BSIZE) \<noteq> 0 \<Longrightarrow> fbyte B as i = B1 a ! (i mod BSIZE)" using oth by (simp add: fbyte_def)
    moreover have "faddr B' as1 (i div BSIZE) \<noteq> 0" using a fa True by (simp add: f)
    ultimately show ?thesis using fb by simp
  next
    case False
    have "faddr B1 as1 (i div BSIZE) \<noteq> a" if "faddr B1 as1 (i div BSIZE) \<noteq> 0"
      using file_wfD(3) [OF w im that bn] m bn False by (auto simp: maps_in_def)
    then have "faddr B as (i div BSIZE) \<noteq> 0 \<Longrightarrow> B' (faddr B as (i div BSIZE)) = B (faddr B as (i div BSIZE))"
      using False fa oth unfolding B' by simp
    moreover have nr: "\<not> (off \<le> i \<and> i < off + length bs)" using pl(1) False by blast
    ultimately show ?thesis unfolding if_not_P [OF nr] using False fa by (simp add: f fbyte_def)
  qed
qed

section \<open>The loop of writei\<close>

lemma write_chunk:
  assumes i: "ino_ok (Suc k) ds ip s" and bn: "bn < MAXFILE" and a: "faddr (blocks s) (i_addrs (itable s ip)) bn = a" "a \<noteq> 0"
    and c: "p + length bs \<le> BSIZE"
  obtains bp s1 s' where "bread (i_dev (itable s ip)) a s = (Ret bp, s1)"
    and "bnd (log_write bp (buf_put bp (bsplice (b_data (bufs s1 bp)) p bs) s1)) (\<lambda>_ s. brelse bp s) = (Ret (), s')"
    and "ino_ok k ds ip s'" and "ino_step ds ip s s'" and "blocks s' = (blocks s)(a := bsplice (blocks s a) p bs)"
    and "itable s' = itable s" and "free_blocks (blocks s') (sb s') = free_blocks (blocks s) (sb s)"
    and "\<And>bm. faddr (blocks s') (i_addrs (itable s ip)) bm = faddr (blocks s) (i_addrs (itable s ip)) bm"
proof -
  let ?B = "blocks s" and ?as = "i_addrs (itable s ip)" and ?S = "sb s" and ?d = "bsplice (blocks s a) p bs"
  have l: "layout ds (lg_start (lg s)) ?B ?S" and w: "file_wf ds ?S ?B ?as" and o: "fs_op (Suc k) s"
    and v: "i_dev (itable s ip) = 1" "block_lock s = (\<lambda>_. None)" using i by (simp_all add: ino_ok_def)
  have d: "in_data ds ?S ?B a" using file_data [OF w bn] a by simp
  have r: "lcount s + card (locked s) < NBUF" using o v by (simp add: fs_op_def locked_def)
  obtain bp s1 where s1: "bread 1 a s = (Ret bp, s1)" "fs_op (Suc k) s1" "tx_frame s s1" "lg s1 = lg s" "blocks s1 = ?B"
    "block_lock s1 = (block_lock s)(a \<mapsto> bp)" "b_data (bufs s1 bp) = ?B a" by (rule fs_bread [OF o _ r]) (use v in simp_all)
  obtain s2 where s2: "bnd (log_write bp (buf_put bp ?d s1)) (\<lambda>_ s. brelse bp s) = (Ret (), s2)"
    "fs_op k s2" "tx_frame s1 s2" "blocks s2 = (blocks s1)(a := ?d)" "block_lock s2 = (block_lock s1)(a := None)"
    by (rule fs_write [OF s1(2), of a bp]) (use s1 in_data_log [OF l d] in auto)
  have fr: "tx_frame s s2" by (rule tx_frame_trans [OF s1(3) s2(3)])
  note e = tx_frame_fs(1,2) [OF fr] tx_frame_start [OF fr]
  have b: "blocks s2 = ?B(a := ?d)" using s2(4) s1(5) by simp
  have ld: "length ?d = BSIZE" using in_data_length [OF l d] c by simp
  note dw = data_write [OF l w bn _ ld, unfolded a, OF a(2), folded b]
  show thesis
  proof (rule that)
    show "bread (i_dev (itable s ip)) a s = (Ret bp, s1)" using s1(1) v by simp
    show "bnd (log_write bp (buf_put bp (bsplice (b_data (bufs s1 bp)) p bs) s1)) (\<lambda>_ s. brelse bp s) = (Ret (), s2)"
      using s2(1) s1(7) by simp
    have "block_lock s2 = (\<lambda>_. None)" using s2(5) s1(6) v by auto
    then show "ino_ok k ds ip s2" using s2(2) v e dw(1,2) by (simp add: ino_ok_def)
    show "ino_step ds ip s s2" using dw(3) e by (simp add: ino_step_def)
    show "free_blocks (blocks s2) (sb s2) = free_blocks ?B ?S" using dw(4) e by simp
  qed (use b e dw(5) in simp_all)
qed

lemma write_round:
  assumes i: "ino_ok (k + 6) ds ip s" and bn: "off div BSIZE < MAXFILE" and c: "off mod BSIZE + length bs \<le> BSIZE"
    and f: "2 \<le> card (free_blocks (blocks s) (sb s))"
  obtains a s1 bp s2 s' where "bmap ip (off div BSIZE) s = (Ret a, s1)" and "a \<noteq> 0"
    and "bread (i_dev (itable s1 ip)) a s1 = (Ret bp, s2)"
    and "bnd (log_write bp (buf_put bp (bsplice (b_data (bufs s2 bp)) (off mod BSIZE) bs) s2)) (\<lambda>_ s. brelse bp s) = (Ret (), s')"
    and "ino_ok k ds ip s'" and "ino_step ds ip s s'"
    and "wrote_at off bs (blocks s) (i_addrs (itable s ip)) (blocks s') (i_addrs (itable s' ip))"
    and "card (free_blocks (blocks s) (sb s)) \<le> card (free_blocks (blocks s') (sb s')) + 2"
proof -
  let ?B = "blocks s" and ?as = "i_addrs (itable s ip)"
  have i': "ino_ok (Suc k + 5) ds ip s" by (rule ino_ok_mono [OF i]) simp
  obtain a s1 where s1: "bmap ip (off div BSIZE) s = (Ret a, s1)" "ino_ok (Suc k) ds ip s1" "ino_step ds ip s s1"
    "maps_in (off div BSIZE) a ?B ?as (blocks s1) (i_addrs (itable s1 ip))"
    "card (free_blocks ?B (sb s)) \<le> card (free_blocks (blocks s1) (sb s1)) + 2" by (rule bmap_alloc [OF i' bn f])
  have a: "faddr (blocks s1) (i_addrs (itable s1 ip)) (off div BSIZE) = a" "a \<noteq> 0" using s1(4) bn by (simp_all add: maps_in_def)
  obtain bp s2 s' where s2: "bread (i_dev (itable s1 ip)) a s1 = (Ret bp, s2)"
    "bnd (log_write bp (buf_put bp (bsplice (b_data (bufs s2 bp)) (off mod BSIZE) bs) s2)) (\<lambda>_ s. brelse bp s) = (Ret (), s')"
    "ino_ok k ds ip s'" "ino_step ds ip s1 s'" "blocks s' = (blocks s1)(a := bsplice (blocks s1 a) (off mod BSIZE) bs)"
    "itable s' = itable s1" "free_blocks (blocks s') (sb s') = free_blocks (blocks s1) (sb s1)"
    and fa: "\<And>bm. faddr (blocks s') (i_addrs (itable s1 ip)) bm = faddr (blocks s1) (i_addrs (itable s1 ip)) bm"
    by (rule write_chunk [OF s1(2) bn a c]) blast
  have w: "file_wf ds (sb s1) (blocks s1) (i_addrs (itable s1 ip))" and l: "layout ds (lg_start (lg s1)) (blocks s1) (sb s1)"
    using s1(2) by (simp_all add: ino_ok_def)
  have la: "length (blocks s1 a) = BSIZE" using in_data_length [OF l file_data [OF w bn]] a by simp
  have "wrote_at off bs ?B ?as (blocks s') (i_addrs (itable s1 ip))" by (rule chunk_wrote_at [OF w bn s1(4) la c fa s2(5)])
  then show thesis
    by (intro that [OF s1(1) a(2) s2(1,2,3) ino_step_trans [OF s1(3) s2(4)]]) (use s1(5) s2(6,7) in simp_all)
qed

lemma writei_loop_wrote:
  assumes "ino_ok (6 * length (rw_chunks off n) + k) ds ip s" and "off + n \<le> MAXFILE * BSIZE" and "length bs = n"
    and "2 * length (rw_chunks off n) \<le> card (free_blocks (blocks s) (sb s))"
  shows "\<exists>s'. writei_loop ip (LocalSrc bs) (rw_chunks off n) tot s = (Ret (tot + of_nat n), s') \<and> ino_ok k ds ip s' \<and>
     ino_step ds ip s s' \<and> wrote_at off bs (blocks s) (i_addrs (itable s ip)) (blocks s') (i_addrs (itable s' ip))"
  using assms
proof (induction n arbitrary: off tot bs s rule: less_induct)
  case (less n)
  show ?case
  proof (cases "n = 0")
    case True
    then show ?thesis using less.prems by (auto simp: rw_chunks.simps ino_step_def intro!: exI [of _ s])
  next
    case False
    define m where "m = min n (BSIZE - off mod BSIZE)"
    have n0: "0 < n" using False by simp
    note c = chunk_round [OF n0 less.prems(2), folded m_def]
    let ?cs = "rw_chunks (off + m) (n - m)"
    have m: "length (take m bs) = m" "off mod BSIZE + length (take m bs) \<le> BSIZE" "length (drop m bs) = n - m"
      using c(3,4) less.prems(3) by simp_all
    have p: "ino_ok ((6 * length ?cs + k) + 6) ds ip s" "2 \<le> card (free_blocks (blocks s) (sb s))"
      using less.prems(1,4) by (simp_all add: c(1) ac_simps)
    obtain a s1 bp s2 s3 where r: "bmap ip (off div BSIZE) s = (Ret a, s1)" "a \<noteq> 0" "bread (i_dev (itable s1 ip)) a s1 = (Ret bp, s2)"
      "bnd (log_write bp (buf_put bp (bsplice (b_data (bufs s2 bp)) (off mod BSIZE) (take m bs)) s2)) (\<lambda>_ s. brelse bp s) = (Ret (), s3)"
      "ino_ok (6 * length ?cs + k) ds ip s3" "ino_step ds ip s s3"
      "wrote_at off (take m bs) (blocks s) (i_addrs (itable s ip)) (blocks s3) (i_addrs (itable s3 ip))"
      "card (free_blocks (blocks s) (sb s)) \<le> card (free_blocks (blocks s3) (sb s3)) + 2"
      by (rule write_round [OF p(1) c(5) m(2) p(2)])
    obtain s4 where s4: "log_write bp (buf_put bp (bsplice (b_data (bufs s2 bp)) (off mod BSIZE) (take m bs)) s2) = (Ret (), s4)" "brelse bp s4 = (Ret (), s3)"
      using r(4) by (auto simp: bnd_eq_Ret_iff)
    have fr: "2 * length ?cs \<le> card (free_blocks (blocks s3) (sb s3))" using r(8) less.prems(4) by (simp add: c(1))
    obtain s' where s': "writei_loop ip (LocalSrc (drop m bs)) ?cs (tot + of_nat m) s3 = (Ret (tot + of_nat m + of_nat (n - m)), s')"
      "ino_ok k ds ip s'" "ino_step ds ip s3 s'" "wrote_at (off + m) (drop m bs) (blocks s3) (i_addrs (itable s3 ip)) (blocks s') (i_addrs (itable s' ip))"
      using less.IH [OF _ r(5) c(6) m(3) fr, of "tot + of_nat m"] c(2,3) n0 by auto
    have t: "of_nat m + of_nat (n - m) = (of_nat n :: u32)" using c(3) by (simp flip: of_nat_add)
    have "wrote_at off bs (blocks s) (i_addrs (itable s ip)) (blocks s') (i_addrs (itable s' ip))"
      using wrote_at_append [OF r(7)] s'(4) m(1) by (metis append_take_drop_id)
    moreover have "writei_loop ip (LocalSrc bs) (rw_chunks off n) tot s = (Ret (tot + of_nat n), s')"
      using r(1-3) s4 s'(1) t by (simp add: c(1) either_copyin_def xsrc_add_def add.assoc)
    ultimately show ?thesis using s'(2) ino_step_trans [OF r(6) s'(3)] by blast
  qed
qed

section \<open>The inode on the disk\<close>

lemma slice_concat:
  assumes "\<And>x. length (f x) = 4" and "j < length xs"
  shows "bslice (concat (map f xs)) (4 * j) 4 = f (xs ! j)"
  using assms(2)
proof (induction xs arbitrary: j)
  case (Cons x xs)
  then show ?case using assms(1) by (cases j) (simp_all add: bslice_def)
qed simp

lemma slice_at: "length xs = off \<Longrightarrow> length ys = n \<Longrightarrow> bslice (xs @ ys @ zs) off n = ys"
  by (simp add: bslice_def)

lemma slice_after: "length xs \<le> off \<Longrightarrow> bslice (xs @ ys) off n = bslice ys (off - length xs) n"
  by (simp add: bslice_def)

lemma length_dinode_bytes [simp]: "length (d_addrs i) = 13 \<Longrightarrow> length (dinode_bytes i) = 64"
  by (simp add: dinode_bytes_def length_concat comp_def sum_list_triv)

lemma dinode_bytes_inverse:
  assumes "length (d_addrs i) = 13"
  shows "dinode_of (dinode_bytes i) = i"
proof -
  define h where "h = le_bytes 2 (d_type i) @ le_bytes 2 (d_major i) @ le_bytes 2 (d_minor i) @ le_bytes 2 (d_nlink i) @ le_bytes 4 (d_size i)"
  define as where "as = concat (map (le_bytes 4) (d_addrs i))"
  have b: "dinode_bytes i = h @ as" and h: "length h = 12" by (simp_all add: dinode_bytes_def h_def as_def)
  have "getw (h @ as) (3 + j) = d_addrs i ! j" if "j < 13" for j
    using slice_concat [of "le_bytes 4" j "d_addrs i"] that assms by (simp add: getw_def slice_after h as_def)
  then have "map (\<lambda>j. getw (h @ as) (3 + j)) [0..<NDIRECT + 1] = d_addrs i" using assms by (auto intro!: nth_equalityI)
  moreover have "get16 (h @ as) 0 = d_type i" "get16 (h @ as) 2 = d_major i" "get16 (h @ as) 4 = d_minor i"
    "get16 (h @ as) 6 = d_nlink i" "getw (h @ as) 2 = d_size i"
    by (simp_all add: get16_def getw_def h_def slice_after bslice_def)
  ultimately show ?thesis unfolding b dinode_of_def by simp
qed

lemma dinode_get_put:
  assumes "length d = BSIZE" and "k < IPB" and "j < IPB" and "length (d_addrs i) = 13"
  shows "dinode_get (dinode_put d k i) j = (if j = k then i else dinode_get d j)" and "length (dinode_put d k i) = BSIZE"
proof -
  have "bslice (bsplice d (64 * k) (dinode_bytes i)) (64 * j) 64 = bslice d (64 * j) 64" if "j \<noteq> k"
    using assms that by (intro slice_splice_other) (auto simp: neq_iff)
  moreover have "bslice (bsplice d (64 * k) (dinode_bytes i)) (64 * k) 64 = dinode_bytes i"
    using assms by (intro slice_splice_same) simp_all
  ultimately show "dinode_get (dinode_put d k i) j = (if j = k then i else dinode_get d j)"
    using dinode_bytes_inverse [OF assms(4)] by (simp add: dinode_get_def dinode_put_def)
  show "length (dinode_put d k i) = BSIZE" using assms by (simp add: dinode_put_def)
qed

text \<open>A block below the data area that is not of the free map may change without harm to any file.\<close>

lemma meta_write:
  assumes l: "layout ds st B S" and w: "file_wf ds S B as" and a: "unat a < ds" "a \<notin> bitmap_area S" and d: "length d = BSIZE"
    and ds: "ds \<le> unat (sb_size S)"
  defines "B' \<equiv> B(a := d)"
  shows "layout ds st B' S" and "file_wf ds S B' as" and "faddr B' as bm = faddr B as bm" and "in_data ds S B' c = in_data ds S B c"
    and "in_data ds S B c \<Longrightarrow> B' c = B c" and "fown B' as = fown B as"
proof -
  have at: "bfree_at B' S m = bfree_at B S m" if "m < unat (sb_size S)" for m
  proof -
    have "BBLOCK (of_nat m) S \<noteq> a" using a(2) that by (auto simp: bitmap_area_def)
    then show ?thesis by (simp add: bfree_at_def B'_def)
  qed
  have at': "bfree_at B' S m = bfree_at B S m" if "m < ds" for m using that ds by (intro at) simp
  show "layout ds st B' S" using l at' d unfolding layout_def B'_def by auto
  show id: "in_data ds S B' c = in_data ds S B c" for c using at by (auto simp: in_data_def)
  show o: "in_data ds S B c \<Longrightarrow> B' c = B c" for c using a(1) by (auto simp: B'_def in_data_def)
  have "as ! NDIRECT \<noteq> 0 \<Longrightarrow> B' (as ! NDIRECT) = B (as ! NDIRECT)" using o w by (simp add: file_wf_def)
  then show f: "faddr B' as bm = faddr B as bm" for bm by (simp add: faddr_def)
  show "file_wf ds S B' as" using w unfolding file_wf_def f id .
  show "fown B' as = fown B as" by (simp add: fown_def f)
qed

text \<open>The block that has the inode lies between the log and the free map.\<close>

definition iblock :: "nat \<Rightarrow> 'z fsstate_scheme \<Rightarrow> u32" where
  "iblock ip s = IBLOCK (i_inum (itable s ip)) (sb s)"

definition ino_home :: "nat \<Rightarrow> nat \<Rightarrow> 'z fsstate_scheme \<Rightarrow> bool" where
  "ino_home ds ip s \<longleftrightarrow> unat (iblock ip s) < ds \<and> ds \<le> unat (sb_size (sb s)) \<and> iblock ip s \<notin> bitmap_area (sb s) \<and>
     iblock ip s \<notin> log_area (lg_start (lg s)) \<and> length (blocks s (iblock ip s)) = BSIZE"

definition on_disk :: "nat \<Rightarrow> 'z fsstate_scheme \<Rightarrow> nat \<Rightarrow> dinode" where
  "on_disk ip s = dinode_get (blocks s (iblock ip s))"

lemma iupdate_stores:
  assumes i: "ino_ok (Suc k) ds ip s" and h: "ino_home ds ip s"
  obtains s' where "iupdate ip s = (Ret (), s')" and "ino_ok k ds ip s'" and "itable s' = itable s" and "sb s' = sb s"
    and "\<And>c. in_data ds (sb s) (blocks s) c \<Longrightarrow> blocks s' c = blocks s c"
    and "\<And>bm. faddr (blocks s') (i_addrs (itable s ip)) bm = faddr (blocks s) (i_addrs (itable s ip)) bm"
    and "fown (blocks s') (i_addrs (itable s ip)) = fown (blocks s) (i_addrs (itable s ip))"
    and "\<And>j. j < IPB \<Longrightarrow> on_disk ip s' j = (if j = unat (i_inum (itable s ip)) mod IPB then dinode_of_inode (itable s ip) else on_disk ip s j)"
proof -
  let ?B = "blocks s" and ?q = "itable s ip" and ?S = "sb s" and ?a = "iblock ip s"
  let ?k = "unat (i_inum ?q) mod IPB"
  let ?d = "dinode_put (?B ?a) ?k (dinode_of_inode ?q)"
  have l: "layout ds (lg_start (lg s)) ?B ?S" and w: "file_wf ds ?S ?B (i_addrs ?q)" and o: "fs_op (Suc k) s"
    and v: "i_dev ?q = 1" "block_lock s = (\<lambda>_. None)" using i by (simp_all add: ino_ok_def)
  have hh: "unat ?a < ds" "?a \<notin> bitmap_area ?S" "ds \<le> unat (sb_size ?S)" "?a \<notin> log_area (lg_start (lg s))" "length (?B ?a) = BSIZE"
    using h by (simp_all add: ino_home_def)
  have r: "lcount s + card (locked s) < NBUF" using o v by (simp add: fs_op_def locked_def)
  obtain bp s1 where s1: "bread 1 ?a s = (Ret bp, s1)" "fs_op (Suc k) s1" "tx_frame s s1" "lg s1 = lg s" "blocks s1 = ?B"
    "block_lock s1 = (block_lock s)(?a \<mapsto> bp)" "b_data (bufs s1 bp) = ?B ?a" by (rule fs_bread [OF o _ r]) (use v in simp_all)
  obtain s2 where s2: "bnd (log_write bp (buf_put bp ?d s1)) (\<lambda>_ s. brelse bp s) = (Ret (), s2)"
    "fs_op k s2" "tx_frame s1 s2" "blocks s2 = (blocks s1)(?a := ?d)" "block_lock s2 = (block_lock s1)(?a := None)"
    by (rule fs_write [OF s1(2), of ?a bp]) (use s1 hh in auto)
  note e1 = tx_frame_fs(1,2) [OF s1(3)]
  note e = tx_frame_fs(1,2) [OF tx_frame_trans [OF s1(3) s2(3)]] tx_frame_start [OF tx_frame_trans [OF s1(3) s2(3)]]
  have len: "length (d_addrs (dinode_of_inode ?q)) = 13" using w by (simp add: dinode_of_inode_def file_wf_def)
  have k: "?k < IPB" by simp
  note gp = dinode_get_put [OF hh(5) k _ len]
  have b: "blocks s2 = ?B(?a := ?d)" using s2(4) s1(5) by simp
  note mw = meta_write [OF l w hh(1,2) gp(2) [OF k] hh(3), folded b]
  show thesis
  proof (rule that)
    show "iupdate ip s = (Ret (), s2)" using s1(1,7) s2(1) v e1 by (simp add: iupdate_def iblock_def Let_def)
    have "block_lock s2 = (\<lambda>_. None)" using s2(5) s1(6) v by auto
    then show "ino_ok k ds ip s2" using s2(2) v e mw(1,2) by (simp add: ino_ok_def)
    show "on_disk ip s2 j = (if j = ?k then dinode_of_inode ?q else on_disk ip s j)" if "j < IPB" for j
      using gp(1) [OF that] e by (simp add: on_disk_def iblock_def b)
  qed (use e mw(3,5,6) in simp_all)
qed

section \<open>Writing a file\<close>

lemma chunk_count: "length (rw_chunks off n) * BSIZE \<le> off mod BSIZE + n + (BSIZE - 1)"
proof (induction off n rule: rw_chunks.induct)
  case (1 off n)
  show ?case
  proof (cases "n = 0")
    case False
    let ?m = "min n (BSIZE - off mod BSIZE)"
    have IH: "length (rw_chunks (off + ?m) (n - ?m)) * BSIZE \<le> (off + ?m) mod BSIZE + (n - ?m) + (BSIZE - 1)" by (rule 1 [OF False refl])
    have e: "length (rw_chunks off n) = Suc (length (rw_chunks (off + ?m) (n - ?m)))" using False by (subst rw_chunks.simps) (simp add: Let_def)
    show ?thesis
    proof (cases "n \<le> BSIZE - off mod BSIZE")
      case True
      then have "length (rw_chunks off n) = 1" using e by (simp add: rw_chunks.simps)
      then show ?thesis using False by simp
    next
      case False
      then have m: "?m = BSIZE - off mod BSIZE" by simp
      have "off + (BSIZE - off mod BSIZE) = Suc (off div BSIZE) * BSIZE"
        using div_mult_mod_eq [of off BSIZE] mod_less_divisor [of BSIZE off] unfolding mult_Suc by linarith
      then have "(off + ?m) mod BSIZE = 0" unfolding m by (metis mod_mult_self2_is_0)
      then have "length (rw_chunks (off + ?m) (n - ?m)) * BSIZE \<le> n - (BSIZE - off mod BSIZE) + (BSIZE - 1)" using IH unfolding m by simp
      moreover have "BSIZE + L \<le> r + n + (BSIZE - 1)" if "r < BSIZE" "BSIZE - r < n" "L \<le> n - (BSIZE - r) + (BSIZE - 1)" for L r :: nat
        using that by simp
      ultimately show ?thesis using False unfolding e mult_Suc by (meson mod_less_divisor not_le zero_less_numeral)
    qed
  qed (simp add: rw_chunks.simps)
qed

text \<open>The contents after a write inside, or up to the end of, the old ones.\<close>

lemma content_wrote:
  assumes w: "wrote_at off bs B (i_addrs q) B' (i_addrs q')" and h: "no_holes B (i_addrs q) (unat (i_size q))" and o: "off \<le> unat (i_size q)"
    and m: "off + length bs \<le> MAXFILE * BSIZE" and z: "unat (i_size q') = max (unat (i_size q)) (off + length bs)"
  shows "content B' q' = take off (content B q) @ bs @ drop (off + length bs) (content B q)"
    and "no_holes B' (i_addrs q') (unat (i_size q'))"
proof -
  have sz: "unat (i_size q') \<le> MAXFILE * BSIZE" using h m z by (simp add: no_holes_def)
  have wr: "if off \<le> i \<and> i < off + length bs then faddr B' (i_addrs q') (i div BSIZE) \<noteq> 0 \<and> fbyte B' (i_addrs q') i = bs ! (i - off)
     else faddr B' (i_addrs q') (i div BSIZE) \<noteq> 0 \<and> fbyte B' (i_addrs q') i = fbyte B (i_addrs q) i" if "i < unat (i_size q')" for i
  proof -
    have "i < MAXFILE * BSIZE" using that sz by linarith
    then show ?thesis using w h that o z by (auto simp: wrote_at_def no_holes_def split: if_splits)
  qed
  show "no_holes B' (i_addrs q') (unat (i_size q'))" unfolding no_holes_def using sz wr by meson
  show "content B' q' = take off (content B q) @ bs @ drop (off + length bs) (content B q)"
  proof (rule nth_equalityI)
    show l: "length (content B' q') = length (take off (content B q) @ bs @ drop (off + length bs) (content B q))"
      using o z by (simp add: content_def)
    fix i assume "i < length (content B' q')"
    then have i: "i < unat (i_size q')" by (simp add: content_def)
    then show "content B' q' ! i = (take off (content B q) @ bs @ drop (off + length bs) (content B q)) ! i"
      using wr [OF i] o z by (auto simp: content_def nth_append split: if_splits)
  qed
qed

lemma wrote_at_later:
  assumes "wrote_at off bs B as B1 as1" and "\<And>bm. faddr B' as1 bm = faddr B1 as1 bm"
    and "\<And>bm. bm < MAXFILE \<Longrightarrow> faddr B1 as1 bm \<noteq> 0 \<Longrightarrow> B' (faddr B1 as1 bm) = B1 (faddr B1 as1 bm)"
  shows "wrote_at off bs B as B' as1"
proof -
  have "fbyte B' as1 i = fbyte B1 as1 i" if "i < MAXFILE * BSIZE" "faddr B1 as1 (i div BSIZE) \<noteq> 0" for i
    using that assms(2,3) by (simp add: fbyte_def less_mult_imp_div_less)
  then show ?thesis using assms(1,2) unfolding wrote_at_def by (metis (no_types, lifting))
qed

lemma ino_home_step:
  assumes "ino_home ds ip s" and "ino_step ds ip s s'"
  shows "ino_home ds ip s'" and "iblock ip s' = iblock ip s" and "blocks s' (iblock ip s) = blocks s (iblock ip s)"
proof -
  have "i_inum (itable s' ip) = i_inum (itable s ip)"
    using assms(2) unfolding ino_step_def by (metis fun_upd_same inode.select_convs(2) inode.surjective inode.update_convs(10))
  then show b: "iblock ip s' = iblock ip s" using assms(2) by (simp add: iblock_def ino_step_def)
  show "blocks s' (iblock ip s) = blocks s (iblock ip s)" using assms by (simp add: ino_home_def ino_step_def grows_def)
  then show "ino_home ds ip s'" using assms by (simp add: ino_home_def b ino_step_def)
qed

text \<open>The new size, and the inode stored.\<close>

lemma writei_done:
  fixes e :: u32
  assumes i: "ino_ok 1 ds ip s" and h: "ino_home ds ip s"
  defines "t \<equiv> if e > i_size (itable s ip) then seti ip (\<lambda>q. q\<lparr>i_size := e\<rparr>) s else s"
  obtains s' where "iupdate ip t = (Ret (), s')" and "ino_ok 0 ds ip s'"
    and "itable s' ip = (itable s ip)\<lparr>i_size := max (i_size (itable s ip)) e\<rparr>" and "sb s' = sb s"
    and "\<And>c. in_data ds (sb s) (blocks s) c \<Longrightarrow> blocks s' c = blocks s c"
    and "\<And>bm. faddr (blocks s') (i_addrs (itable s ip)) bm = faddr (blocks s) (i_addrs (itable s ip)) bm"
    and "\<And>j. j < IPB \<Longrightarrow> on_disk ip s' j = (if j = unat (i_inum (itable s ip)) mod IPB then dinode_of_inode (itable s' ip) else on_disk ip s j)"
proof -
  have q: "itable t ip = (itable s ip)\<lparr>i_size := max (i_size (itable s ip)) e\<rparr>" and o: "blocks t = blocks s" "sb t = sb s"
    "lg t = lg s" "block_lock t = block_lock s" "fs_op k t = fs_op k s" for k by (simp_all add: t_def max_def)
  have it: "ino_ok (Suc 0) ds ip t" using i by (simp add: ino_ok_def q o)
  have b: "iblock ip t = iblock ip s" by (simp add: iblock_def q o)
  have ht: "ino_home ds ip t" using h by (simp add: ino_home_def b o)
  obtain s' where s': "iupdate ip t = (Ret (), s')" "ino_ok 0 ds ip s'" "itable s' = itable t" "sb s' = sb t"
    and d: "\<And>c. in_data ds (sb t) (blocks t) c \<Longrightarrow> blocks s' c = blocks t c"
    and f: "\<And>bm. faddr (blocks s') (i_addrs (itable t ip)) bm = faddr (blocks t) (i_addrs (itable t ip)) bm"
    and j: "\<And>j. j < IPB \<Longrightarrow> on_disk ip s' j = (if j = unat (i_inum (itable t ip)) mod IPB then dinode_of_inode (itable t ip) else on_disk ip t j)"
    by (rule iupdate_stores [OF it ht]) blast
  have "on_disk ip t = on_disk ip s" by (simp add: on_disk_def b o)
  then show thesis
    by (intro that [OF s'(1,2)]) (use s'(3,4) d f j q o in simp_all)
qed

text \<open>
  C9. Writing a file and reading it back. Inside a transaction with room, \<^verbatim>\<open>writei\<close> of up to three
  blocks' worth of bytes at any offset up to the end of the file writes all of them: the contents are the old ones
  with the new bytes put in, the inode on the disk is the one in memory, the other inodes of its
  block and the data of every other file are as they were, and \<^verbatim>\<open>readi\<close> gives back the bytes. An
  offset past the end, one that wraps around, or a file that would be too big gives -1 and changes
  nothing.
\<close>

theorem writei_then_readi:
  assumes "ino_ok 25 ds ip s" and "ino_home ds ip s" and "no_holes (blocks s) (i_addrs (itable s ip)) (unat (i_size (itable s ip)))"
    and "length bs = unat n" and "unat n \<le> 3 * BSIZE" and "8 \<le> card (free_blocks (blocks s) (sb s))"
  shows "if off > i_size (itable s ip) \<or> off + n < off \<or> unat (off + n) > MAXFILE * BSIZE
     then writei ip (LocalSrc bs) off n s = (Ret (- 1), s)
     else ok (writei ip (LocalSrc bs) off n s) (\<lambda>r s'. r = n \<and>
       content (blocks s') (itable s' ip) =
         take (unat off) (content (blocks s) (itable s ip)) @ bs @ drop (unat off + unat n) (content (blocks s) (itable s ip)) \<and>
       (\<forall>j < IPB. on_disk ip s' j =
         (if j = unat (i_inum (itable s ip)) mod IPB then dinode_of_inode (itable s' ip) else on_disk ip s j)) \<and>
       (\<forall>c. in_data ds (sb s) (blocks s) c \<and> c \<notin> fown (blocks s) (i_addrs (itable s ip)) \<longrightarrow> blocks s' c = blocks s c) \<and>
       ok (readi ip LocalDst off n s') (\<lambda>r _. r = (n, bs)))"
proof (cases "off > i_size (itable s ip) \<or> off + n < off \<or> unat (off + n) > MAXFILE * BSIZE")
  case True
  then show ?thesis unfolding if_P [OF True] by (auto simp: writei_def)
next
  case False
  let ?B = "blocks s" and ?q = "itable s ip" and ?cs = "rw_chunks (unat off) (unat n)"
  have nw: "unat (off + n) = unat off + unat n" using False unat_plus_simple [of off n] by (simp add: not_less)
  have m: "unat off + unat n \<le> MAXFILE * BSIZE" "unat off \<le> unat (i_size ?q)" using False nw by (simp_all add: word_le_nat_alt not_less)
  have c4: "length ?cs \<le> 4" using chunk_count [of "unat off" "unat n"] assms(5) mod_less_divisor [of BSIZE "unat off"] by linarith
  have i: "ino_ok (6 * length ?cs + 1) ds ip s" by (rule ino_ok_mono [OF assms(1)]) (use c4 in simp)
  have f: "2 * length ?cs \<le> card (free_blocks ?B (sb s))" using c4 assms(6) by linarith
  obtain s1 where s1: "writei_loop ip (LocalSrc bs) ?cs 0 s = (Ret n, s1)" "ino_ok 1 ds ip s1" "ino_step ds ip s s1"
    "wrote_at (unat off) bs ?B (i_addrs ?q) (blocks s1) (i_addrs (itable s1 ip))"
    using writei_loop_wrote [OF i m(1) assms(4) f, of 0] by auto
  have q1: "itable s1 ip = ?q\<lparr>i_addrs := i_addrs (itable s1 ip)\<rparr>" "sb s1 = sb s" using s1(3) unfolding ino_step_def by (metis fun_upd_same)+
  note h1 = ino_home_step [OF assms(2) s1(3)]
  obtain s' where s': "iupdate ip (if off + n > i_size (itable s1 ip) then seti ip (\<lambda>q. q\<lparr>i_size := off + n\<rparr>) s1 else s1) = (Ret (), s')"
    "ino_ok 0 ds ip s'" "itable s' ip = (itable s1 ip)\<lparr>i_size := max (i_size (itable s1 ip)) (off + n)\<rparr>" "sb s' = sb s1"
    and d: "\<And>c. in_data ds (sb s1) (blocks s1) c \<Longrightarrow> blocks s' c = blocks s1 c"
    and fa: "\<And>bm. faddr (blocks s') (i_addrs (itable s1 ip)) bm = faddr (blocks s1) (i_addrs (itable s1 ip)) bm"
    and od: "\<And>j. j < IPB \<Longrightarrow> on_disk ip s' j = (if j = unat (i_inum (itable s1 ip)) mod IPB then dinode_of_inode (itable s' ip) else on_disk ip s1 j)"
    by (rule writei_done [OF s1(2) h1(1), of "off + n"]) blast
  have w: "file_wf ds (sb s1) (blocks s1) (i_addrs (itable s1 ip))" using s1(2) by (simp add: ino_ok_def)
  have "wrote_at (unat off) bs ?B (i_addrs ?q) (blocks s') (i_addrs (itable s' ip))"
    using wrote_at_later [OF s1(4) fa d [OF file_data [OF w]]] by (simp add: s'(3))
  moreover have sz: "unat (i_size (itable s' ip)) = max (unat (i_size ?q)) (unat off + length bs)"
    using s'(3) arg_cong [OF q1(1), of i_size] nw assms(4) by (simp add: max_def word_le_nat_alt)
  ultimately have c: "content (blocks s') (itable s' ip) = take (unat off) (content ?B ?q) @ bs @ drop (unat off + unat n) (content ?B ?q)"
    "no_holes (blocks s') (i_addrs (itable s' ip)) (unat (i_size (itable s' ip)))"
    using content_wrote [of "unat off" bs ?B ?q "blocks s'" "itable s' ip"] assms(3,4) m by simp_all
  have "bslice (content (blocks s') (itable s' ip)) (unat off) (unat n) = bs"
    unfolding c(1) by (rule slice_at) (use m assms(4) in \<open>simp_all add: content_def\<close>)
  moreover have "\<not> (off > i_size (itable s' ip) \<or> off + n < off)" using False sz m by (simp add: word_less_nat_alt)
  ultimately have rd: "ok (readi ip LocalDst off n s') (\<lambda>r _. r = (n, bs))"
    using readi_content [OF s'(2) c(2), of off n] assms(4) by (auto elim!: ok_E)
  have "i_inum (itable s1 ip) = i_inum ?q" using arg_cong [OF q1(1), of i_inum] by simp
  moreover have "on_disk ip s1 = on_disk ip s" by (simp add: on_disk_def h1)
  ultimately have od': "\<forall>j < IPB. on_disk ip s' j = (if j = unat (i_inum ?q) mod IPB then dinode_of_inode (itable s' ip) else on_disk ip s j)"
    using od by simp
  have "in_data ds (sb s1) (blocks s1) c \<and> blocks s1 c = ?B c" if "in_data ds (sb s) ?B c" "c \<notin> fown ?B (i_addrs ?q)" for c
    using s1(3) that unfolding ino_step_def grows_def by simp
  then have oth: "\<forall>c. in_data ds (sb s) ?B c \<and> c \<notin> fown ?B (i_addrs ?q) \<longrightarrow> blocks s' c = ?B c" using d by metis
  have "writei ip (LocalSrc bs) off n s = (Ret n, s')" using False s1(1) s'(1) by (simp add: writei_def)
  then show ?thesis unfolding if_not_P [OF False] using c(1) rd od' oth by simp
qed

lemma kfs0_home: "ino_home 46 0 kfs0" and kfs0_free: "8 \<le> card (free_blocks (blocks kfs0) (sb kfs0))"
proof -
  have bb: "BBLOCK (of_nat n) (sb kfs0) = 45" if "n < 2000" for n using that BBLOCK_div [of n "sb kfs0"] by simp
  then have "bitmap_area (sb kfs0) \<subseteq> {45}" by (auto simp: bitmap_area_def)
  moreover have "iblock 0 kfs0 = 32" by (simp add: iblock_def IBLOCK_def ino0_def)
  moreover have "(32 :: u32) \<notin> log_area 2" using log_area_2 [of 32] by auto
  ultimately show "ino_home 46 0 kfs0" using disk0_2(1) by (auto simp: ino_home_def kfs0_cache)
  have "bmap_free (disk0 45) n" if "n \<in> {48..<56}" for n
  proof -
    have "\<forall>n \<in> set [48..<56]. bmap_free (replicate 6 255 @ replicate 1018 0) n" by code_simp
    moreover have "n \<in> set [48..<56]" using that unfolding set_upt by simp
    ultimately show ?thesis unfolding disk0_def if_P [OF refl] by blast
  qed
  then have "{48..<56} \<subseteq> free_blocks (blocks kfs0) (sb kfs0)" using bb by (auto simp: free_blocks_def bfree_at_def kfs0_cache)
  then show "8 \<le> card (free_blocks (blocks kfs0) (sb kfs0))" using card_mono [OF finite_free, of "{48..<56}"] by simp
qed

theorem writei_then_readi_witness:
  "ok (writei 0 (LocalSrc [8, 9]) 2 2 kfs0) (\<lambda>r s'. r = 2 \<and> content (blocks s') (itable s' 0) = [1, 2, 8, 9] \<and>
     ok (readi 0 LocalDst 2 2 s') (\<lambda>r _. r = (2, [8, 9])))"
proof -
  have h: "no_holes (blocks kfs0) (i_addrs (itable kfs0 0)) (unat (i_size (itable kfs0 0)))" by (simp add: kfs0_content)
  have g: "\<not> (2 > i_size (itable kfs0 0) \<or> (2 :: u32) + 2 < 2 \<or> unat (2 + 2 :: u32) > MAXFILE * BSIZE)" by (simp add: ino0_def)
  have "content (blocks kfs0) ino0 = [1, 2, 3]" by (rule kfs0_content)
  then show ?thesis
    using writei_then_readi [OF kfs0_ino kfs0_home h _ _ kfs0_free, of "[8, 9]" 2 2, unfolded if_not_P [OF g]] by (auto elim!: ok_E)
qed

end
