(* ===== verification/Fileread.thy ===== *)
theory Fileread
  imports Filedata Userspace
begin

text \<open>
  Reading a file into memory. \<^verbatim>\<open>readi\<close> copies a part of every block it visits to the destination, which
  moves along: a user address, through the page table of the process, or a kernel address. No
  transaction is needed for reading; \<open>file_view\<close> is what is.
\<close>

section \<open>Reading outside a transaction\<close>

definition file_view :: "nat \<Rightarrow> nat \<Rightarrow> 'z fsstate_scheme \<Rightarrow> bool" where
  "file_view ds ip s \<longleftrightarrow> tx s \<and> clean s \<and> block_lock s = (\<lambda>_. None) \<and> i_dev (itable s ip) = 1 \<and>
     layout ds (lg_start (lg s)) (blocks s) (sb s) \<and> file_wf ds (sb s) (blocks s) (i_addrs (itable s ip))"

text \<open>Memory is no part of the file system.\<close>

lemma mem_fs [simp]:
  "tx (s\<lparr>mem := m\<rparr>) = tx s" "clean (s\<lparr>mem := m\<rparr>) = clean s" "blocks (s\<lparr>mem := m\<rparr>) = blocks s"
  "block_lock (s\<lparr>mem := m\<rparr>) = block_lock s" "logged (s\<lparr>mem := m\<rparr>) = logged s"
proof -
  let ?t = "s\<lparr>mem := m\<rparr>"
  have c: "cabs ?t = cabs s" "block_lock ?t = block_lock s" "cache_inv ?t = cache_inv s"
    by (intro cache_cong; simp)+
  have o: "calm ?t = calm s" "lcount ?t = lcount s" "logged ?t = logged s"
    by (simp_all add: calm_def running_def no_plock_def lcount_def logged_def)
  show b: "blocks ?t = blocks s" and "block_lock ?t = block_lock s" and "logged ?t = logged s" using c o by (simp_all add: blocks_def)
  show "tx ?t = tx s" by (simp add: tx_def log_wf_def cache_ok_def c o)
  show "clean ?t = clean s" by (simp add: clean_def b c o)
qed

text \<open>What reading keeps: everything of \<open>same_fs\<close> but memory.\<close>

definition same_but_mem :: "'z fsstate_scheme \<Rightarrow> 'z fsstate_scheme \<Rightarrow> bool" where
  "same_but_mem s s' \<longleftrightarrow> same_fs (s\<lparr>mem := mem s'\<rparr>) s'"

lemma same_fs_mem: "same_fs s s' \<Longrightarrow> same_fs (s\<lparr>mem := m\<rparr>) (s'\<lparr>mem := m\<rparr>)"
  by (simp add: same_fs_def tx_frame_def)

lemma same_but_mem_refl [simp]: "same_but_mem s s"
  by (simp add: same_but_mem_def)

lemma same_fs_but_mem: "same_fs s s' \<Longrightarrow> same_but_mem s s'"
  using same_fs_mem [of s s' "mem s'"] by (simp add: same_but_mem_def)

lemma same_but_mem_trans: "same_but_mem s s1 \<Longrightarrow> same_but_mem s1 s2 \<Longrightarrow> same_but_mem s s2"
  using same_fs_mem [of "s\<lparr>mem := mem s1\<rparr>" s1 "mem s2"] same_fs_trans [of "s\<lparr>mem := mem s2\<rparr>"]
  by (auto simp: same_but_mem_def)

lemma same_but_mem_facts:
  assumes "same_but_mem s s'"
  shows "blocks s' = blocks s" "block_lock s' = block_lock s" "itable s' = itable s" "sb s' = sb s" "lg s' = lg s"
    "curproc s' = curproc s" "p_pagetable (procs s' p) = p_pagetable (procs s p)"
    "disk s' = disk s" "dwrites s' = dwrites s" "held s' = held s" "mypid s' = mypid s"
proof -
  have f: "tx_frame (s\<lparr>mem := mem s'\<rparr>) s'" and "lg s' = lg s" "blocks s' = blocks s" "block_lock s' = block_lock s"
    using assms by (simp_all add: same_but_mem_def same_fs_def)
  then show "blocks s' = blocks s" "block_lock s' = block_lock s" "lg s' = lg s" by simp_all
  show "itable s' = itable s" "sb s' = sb s" using tx_frame_fs(1,2) [OF f] by simp_all
  show "curproc s' = curproc s" "disk s' = disk s" "dwrites s' = dwrites s" "held s' = held s" using f by (simp_all add: tx_frame_def)
  show "p_pagetable (procs s' p) = p_pagetable (procs s p)" "mypid s' = mypid s" using tx_frame_procs [OF f] by (simp_all add: mypid_def)
qed

lemma file_view_keeps: "same_but_mem s s' \<Longrightarrow> tx s' \<Longrightarrow> clean s' \<Longrightarrow> file_view ds ip s \<Longrightarrow> file_view ds ip s'"
  by (simp add: file_view_def same_but_mem_facts)

lemma ino_ok_view: "ino_ok k ds ip s \<Longrightarrow> file_view ds ip s"
  by (simp add: ino_ok_def file_view_def fs_op_def)

text \<open>Reading a block, while something is stored in memory, and releasing it.\<close>

lemma view_peek:
  assumes v: "file_view ds ip s"
  obtains b s1 where "bread 1 bno s = (Ret b, s1)" and "tx_frame s s1" and "b_data (bufs s1 b) = blocks s bno"
    and "\<forall>m. \<exists>s'. brelse b (s1\<lparr>mem := m\<rparr>) = (Ret (), s') \<and> mem s' = m \<and> same_but_mem s s' \<and> file_view ds ip s'"
proof -
  have t: "tx s" and cl: "clean s" and l: "block_lock s = (\<lambda>_. None)" using v by (simp_all add: file_view_def)
  have "lcount s < NBUF" using t by (simp add: tx_def log_wf_def)
  then have "card (in_use s) < NBUF" using in_use_card [OF t] l by (simp add: locked_def)
  then obtain b s1 where s1: "bread 1 bno s = (Ret b, s1)" "tx s1" "tx_frame s s1" "lg s1 = lg s" "blocks s1 = blocks s"
    "block_lock s1 = (block_lock s)(bno \<mapsto> b)" "b_data (bufs s1 b) = blocks s bno"
    using tx_bread [OF t, of bno] l by auto
  have "\<exists>s'. brelse b (s1\<lparr>mem := m\<rparr>) = (Ret (), s') \<and> mem s' = m \<and> same_but_mem s s' \<and> file_view ds ip s'" for m
  proof -
    let ?u = "s1\<lparr>mem := m\<rparr>"
    have u: "tx ?u" "block_lock ?u bno = Some b" using s1 by simp_all
    have d: "disk s1 = disk s" using s1(3) by (simp add: tx_frame_def)
    then have c: "bno \<in> set (logged ?u) \<or> blocks ?u bno = disk ?u bno"
      using cl l s1(5) same_lg_facts [OF s1(4)] by (auto simp: clean_def)
    obtain s' where s': "brelse b ?u = (Ret (), s')" "tx s'" "tx_frame ?u s'" "lg s' = lg ?u" "blocks s' = blocks ?u"
      "block_lock s' = (block_lock ?u)(bno := None)"
      using tx_brelse [OF u c] by blast
    have m: "mem s' = m" using s'(3) by (simp add: tx_frame_def)
    have "tx_frame (s\<lparr>mem := m\<rparr>) ?u" using s1(3) by (simp add: tx_frame_def)
    then have "same_fs (s\<lparr>mem := m\<rparr>) s'"
      using tx_frame_trans [OF _ s'(3)] s' s1 l by (auto simp: same_fs_def)
    then have sm: "same_but_mem s s'" using m by (simp add: same_but_mem_def)
    have "clean s'" using cl same_but_mem_facts [OF sm] same_lg_facts [of s' s] by (simp add: clean_def)
    then have "file_view ds ip s'" by (rule file_view_keeps [OF sm s'(2) _ v])
    then show ?thesis using s'(1) m sm by blast
  qed
  then show thesis using that s1 by blast
qed

lemma view_bmap:
  assumes v: "file_view ds ip s" and bn: "bn < MAXFILE" and a: "faddr (blocks s) (i_addrs (itable s ip)) bn \<noteq> 0"
  obtains s' where "bmap ip bn s = (Ret (faddr (blocks s) (i_addrs (itable s ip)) bn), s')" and "mem s' = mem s"
    and "same_but_mem s s'" and "file_view ds ip s'"
proof (cases "bn < NDIRECT")
  case True
  then have "bmap ip bn s = (Ret (faddr (blocks s) (i_addrs (itable s ip)) bn), s)"
    using a by (simp add: bmap_def bmap_direct_def faddr_def Let_def)
  then show thesis using that v by simp
next
  case False
  let ?as = "i_addrs (itable s ip)"
  have ind: "?as ! NDIRECT \<noteq> 0" and w: "faddr (blocks s) ?as bn = getw (blocks s (?as ! NDIRECT)) (bn - NDIRECT)"
    using False a by (auto simp: faddr_def)
  have dev: "i_dev (itable s ip) = 1" using v by (simp add: file_view_def)
  obtain b s1 where s1: "bread 1 (?as ! NDIRECT) s = (Ret b, s1)" "tx_frame s s1" "b_data (bufs s1 b) = blocks s (?as ! NDIRECT)"
    "\<forall>m. \<exists>s'. brelse b (s1\<lparr>mem := m\<rparr>) = (Ret (), s') \<and> mem s' = m \<and> same_but_mem s s' \<and> file_view ds ip s'"
    by (rule view_peek [OF v, of "?as ! NDIRECT"])
  have m: "mem s1 = mem s" using s1(2) by (simp add: tx_frame_def)
  have "s1\<lparr>mem := mem s\<rparr> = s1" using m by (cases s1) simp
  then obtain s' where s': "brelse b s1 = (Ret (), s')" "mem s' = mem s" "same_but_mem s s'" "file_view ds ip s'"
    using spec [OF s1(4), of "mem s"] by auto
  have "bmap ip bn s = (Ret (faddr (blocks s) ?as bn), s')"
    using False bn ind a s1(1,3) s'(1) w dev by (simp add: bmap_def bmap_direct_def Let_def)
  then show thesis using that s' by blast
qed


section \<open>The loop\<close>

lemma xdst_add_add: "xdst_add (xdst_add d i) j = xdst_add d (i + j)" and xdst_add_0: "xdst_add d 0 = d"
  by (cases d; simp add: xdst_add_def add.assoc)+

text \<open>\<open>W acc m\<close>: memory is \<open>m\<close> after the bytes \<open>acc\<close> have been copied to \<open>dst\<close>; \<open>F acc bs m\<close>: it is \<open>m\<close> after the copy of
  \<open>bs\<close> has then failed. \<open>E\<close> is what the copies need of the state, \<open>N\<close> a bound on the number of bytes.\<close>

definition copies :: "xdst \<Rightarrow> nat \<Rightarrow> ('z fsstate_scheme \<Rightarrow> bool) \<Rightarrow> (u8 list \<Rightarrow> memory \<Rightarrow> bool) \<Rightarrow>
    (u8 list \<Rightarrow> u8 list \<Rightarrow> memory \<Rightarrow> bool) \<Rightarrow> bool" where
  "copies dst N E W F \<longleftrightarrow> (\<forall>s s'. same_but_mem s s' \<longrightarrow> E s \<longrightarrow> E s') \<and>
     (\<forall>s t acc bs. E s \<longrightarrow> tx_frame s t \<longrightarrow> W acc (mem t) \<longrightarrow> length acc + length bs \<le> N \<longrightarrow>
        (\<exists>r m. either_copyout (xdst_add dst (length acc)) bs t = (Ret r, t\<lparr>mem := m\<rparr>) \<and>
           (if r = - 1 then F acc bs m else W (acc @ bs) m)))"

definition read_end :: "(u8 list \<Rightarrow> memory \<Rightarrow> bool) \<Rightarrow> (u8 list \<Rightarrow> u8 list \<Rightarrow> memory \<Rightarrow> bool) \<Rightarrow> u8 list \<Rightarrow> u32 \<Rightarrow>
    u32 \<times> u8 list \<Rightarrow> memory \<Rightarrow> bool" where
  "read_end W F D tot r m \<longleftrightarrow> r = (tot, D) \<and> W D m \<or> fst r = - 1 \<and> (\<exists>xs ys zs. D = xs @ ys @ zs \<and> F xs ys m)"

lemma readi_loop_copies:
  assumes c: "copies dst N E W F"
    and "file_view ds ip s" and "no_holes (blocks s) (i_addrs (itable s ip)) (off + n)" and "E s" and "W acc (mem s)"
    and "length acc + n \<le> N"
  shows "\<exists>r s'. readi_loop ip (xdst_add dst (length acc)) (rw_chunks off n) tot acc s = (Ret r, s') \<and> same_but_mem s s' \<and> file_view ds ip s' \<and>
     read_end W F (acc @ map (fbyte (blocks s) (i_addrs (itable s ip))) [off..<off + n]) (tot + of_nat n) r (mem s')"
  using assms(2-)
proof (induction n arbitrary: off tot acc s rule: less_induct)
  case (less n)
  let ?B = "blocks s" and ?as = "i_addrs (itable s ip)"
  show ?case
  proof (cases "n = 0")
    case True
    then show ?thesis using less.prems by (auto simp: rw_chunks.simps read_end_def)
  next
    case False
    define m where "m = min n (BSIZE - off mod BSIZE)"
    have sz: "off + n \<le> MAXFILE * BSIZE" using less.prems(2) by (simp add: no_holes_def)
    note ch = chunk_round [OF _ sz, folded m_def]
    have n0: "0 < n" using False by simp
    have m: "m \<le> n" "0 < m" using ch(2,3) [OF n0] by simp_all
    have a: "faddr ?B ?as (off div BSIZE) \<noteq> 0" using less.prems(2) n0 by (simp add: no_holes_def)
    obtain s1 where s1: "bmap ip (off div BSIZE) s = (Ret (faddr ?B ?as (off div BSIZE)), s1)" "mem s1 = mem s" "same_but_mem s s1" "file_view ds ip s1"
      by (rule view_bmap [OF less.prems(1) ch(5) [OF n0] a])
    note e1 = same_but_mem_facts [OF s1(3)]
    obtain b s2 where s2: "bread 1 (faddr ?B ?as (off div BSIZE)) s1 = (Ret b, s2)" "tx_frame s1 s2"
      "b_data (bufs s2 b) = blocks s1 (faddr ?B ?as (off div BSIZE))"
      "\<forall>m. \<exists>s'. brelse b (s2\<lparr>mem := m\<rparr>) = (Ret (), s') \<and> mem s' = m \<and> same_but_mem s1 s' \<and> file_view ds ip s'"
      by (rule view_peek [OF s1(4), of "faddr ?B ?as (off div BSIZE)"])
    have dev: "i_dev (itable s1 ip) = 1" using s1(4) by (simp add: file_view_def)
    have "in_data ds (sb s) ?B (faddr ?B ?as (off div BSIZE))" "layout ds (lg_start (lg s)) ?B (sb s)"
      using less.prems(1) file_data a ch(5) [OF n0] unfolding file_view_def by blast+
    then have bs: "bslice (?B (faddr ?B ?as (off div BSIZE))) (off mod BSIZE) m = map (fbyte ?B ?as) [off..<off + m]"
      using in_data_length by (intro chunk_bytes ch(4) [OF n0]) blast
    let ?bs = "map (fbyte ?B ?as) [off..<off + m]"
    have E1: "E s1" using c s1(3) less.prems(3) unfolding copies_def by blast
    have W2: "W acc (mem s2)" using less.prems(4) s1(2) s2(2) by (simp add: tx_frame_def)
    have len: "length acc + length ?bs \<le> N" using less.prems(5) m by simp
    obtain r m' where r: "either_copyout (xdst_add dst (length acc)) ?bs s2 = (Ret r, s2\<lparr>mem := m'\<rparr>)"
      "if r = - 1 then F acc ?bs m' else W (acc @ ?bs) m'"
      using c E1 s2(2) W2 len unfolding copies_def by blast
    obtain s3 where s3: "brelse b (s2\<lparr>mem := m'\<rparr>) = (Ret (), s3)" "mem s3 = m'" "same_but_mem s1 s3" "file_view ds ip s3"
      using spec [OF s2(4), of m'] by blast
    have ss: "same_but_mem s s3" by (rule same_but_mem_trans [OF s1(3) s3(3)])
    note e3 = same_but_mem_facts [OF ss]
    have app: "acc @ map (fbyte ?B ?as) [off..<off + n] = acc @ ?bs @ map (fbyte ?B ?as) [off + m..<off + n]"
      using m upt_add_eq_append [of off "off + m" "n - m"] by simp
    show ?thesis
    proof (cases "r = - 1")
      case True
      then have "readi_loop ip (xdst_add dst (length acc)) (rw_chunks off n) tot acc s = (Ret (- 1, acc), s3)"
        using s1(1) s2(1,3) s3(1) r(1) a e1 dev bs by (simp add: ch(1) [OF n0] Let_def)
      then show ?thesis using True r(2) ss s3(2,4) unfolding app read_end_def by (intro exI [of _ "(- 1, acc)"] exI [of _ s3]) auto
    next
      case False
      have "readi_loop ip (xdst_add dst (length acc)) (rw_chunks off n) tot acc s =
          readi_loop ip (xdst_add dst (length (acc @ ?bs))) (rw_chunks (off + m) (n - m)) (tot + of_nat m) (acc @ ?bs) s3"
        using s1(1) s2(1,3) s3(1) r(1) a e1 dev bs False by (simp add: ch(1) [OF n0] xdst_add_add Let_def)
      moreover have "\<exists>r s'. readi_loop ip (xdst_add dst (length (acc @ ?bs))) (rw_chunks (off + m) (n - m)) (tot + of_nat m) (acc @ ?bs) s3 = (Ret r, s') \<and>
          same_but_mem s3 s' \<and> file_view ds ip s' \<and>
          read_end W F ((acc @ ?bs) @ map (fbyte (blocks s3) (i_addrs (itable s3 ip))) [off + m..<off + m + (n - m)])
            (tot + of_nat m + of_nat (n - m)) r (mem s')"
      proof (rule less.IH)
        show "E s3" using c ss less.prems(3) unfolding copies_def by blast
        show "W (acc @ ?bs) (mem s3)" using r(2) False s3(2) by simp
        show "no_holes (blocks s3) (i_addrs (itable s3 ip)) (off + m + (n - m))" using less.prems(2) e3 m by simp
      qed (use m s3(4) less.prems(5) in auto)
      moreover have "tot + of_nat m + of_nat (n - m) = tot + (of_nat n :: u32)" using m by (simp add: add.assoc flip: of_nat_add)
      moreover have "off + m + (n - m) = off + n" using m by simp
      ultimately show ?thesis unfolding app e3 append_assoc using same_but_mem_trans [OF ss] by metis
    qed
  qed
qed

text \<open>The bytes of a file that a request for \<open>n\<close> bytes at offset \<open>off\<close> is about.\<close>

definition requested :: "(u32 \<Rightarrow> u8 list) \<Rightarrow> inode \<Rightarrow> u32 \<Rightarrow> u32 \<Rightarrow> u8 list" where
  "requested B q off n = (if off > i_size q \<or> off + n < off then [] else bslice (content B q) (unat off) (unat n))"

lemma readi_copies:
  fixes off n :: u32
  assumes c: "copies dst N E W F" and v: "file_view ds ip s"
    and h: "no_holes (blocks s) (i_addrs (itable s ip)) (unat (i_size (itable s ip)))" and "E s" and "W [] (mem s)"
  defines "D \<equiv> requested (blocks s) (itable s ip) off n"
  assumes "length D \<le> N"
  shows "\<exists>r s'. readi ip dst off n s = (Ret r, s') \<and> same_but_mem s s' \<and> file_view ds ip s' \<and>
     read_end W F D (of_nat (length D)) r (mem s')"
proof (cases "off > i_size (itable s ip) \<or> off + n < off")
  case True
  then show ?thesis using v assms(5) by (simp add: readi_def D_def requested_def read_end_def)
next
  case False
  let ?sz = "i_size (itable s ip)" and ?f = "fbyte (blocks s) (i_addrs (itable s ip))"
  define m where "m = (if off + n > ?sz then ?sz - off else n)"
  have m: "unat off + unat m = min (unat ?sz) (unat off + unat n)" unfolding m_def by (rule readi_cut [OF False])
  have D: "D = map ?f [unat off..<unat off + unat m]" using False by (simp add: D_def requested_def content_def bslice_map m)
  then have len: "length D = unat m" by simp
  have "no_holes (blocks s) (i_addrs (itable s ip)) (unat off + unat m)" using h m by (auto simp: no_holes_def min_def)
  from readi_loop_copies [where W = W and F = F, OF c v this assms(4,5), of 0] assms(7) len
  have "\<exists>r s'. readi_loop ip dst (rw_chunks (unat off) (unat m)) 0 [] s = (Ret r, s') \<and> same_but_mem s s' \<and> file_view ds ip s' \<and>
      read_end W F D m r (mem s')"
    by (simp add: xdst_add_0 D)
  then show ?thesis using False len by (simp add: readi_def m_def [symmetric] Let_def)
qed

section \<open>User memory\<close>

lemma uwritten_at: "uwritten pt e ps s s' a bs \<Longrightarrow> uwritten pt e ps (t\<lparr>mem := mem s\<rparr>) (t\<lparr>mem := mem s'\<rparr>) a bs"
  by (simp add: uwritten_def)

lemma range_mapped_add: "range_mapped m pt a (i + j) \<longleftrightarrow> range_mapped m pt a i \<and> range_mapped m pt (a + of_nat i) j"
  unfolding range_mapped_def using all_less_split [of i "i + j" "\<lambda>k. upage m pt (a + of_nat k) \<noteq> 0"] by (simp add: add.assoc)

lemma copies_user:
  assumes e: "0 < e" and N: "unat a + N \<le> 274877906944"
  shows "copies (UserDst a) N (\<lambda>s :: 'z fsstate_scheme. curproc s = Some p \<and> p_pagetable (procs s p) = pt)
     (\<lambda>acc m. uwritten pt e ps s0 (s0\<lparr>mem := m\<rparr>) a acc \<and> range_mapped (mem s0) pt a (length acc))
     (\<lambda>acc bs m. \<not> range_mapped (mem s0) pt a (length acc + length bs) \<and>
        (\<exists>k \<le> length bs. uwritten pt e ps s0 (s0\<lparr>mem := m\<rparr>) a (acc @ take k bs)))"
  unfolding copies_def
proof (intro conjI allI impI; (elim conjE)?)
  fix s s' :: "'z fsstate_scheme" assume "same_but_mem s s'" "curproc s = Some p" "p_pagetable (procs s p) = pt"
  then show "curproc s' = Some p" "p_pagetable (procs s' p) = pt" by (simp_all add: same_but_mem_facts)
next
  fix s t :: "'z fsstate_scheme" and acc bs :: "u8 list"
  assume s: "curproc s = Some p" "p_pagetable (procs s p) = pt" and f: "tx_frame s t"
    and w: "uwritten pt e ps s0 (s0\<lparr>mem := mem t\<rparr>) a acc" and mp: "range_mapped (mem s0) pt a (length acc)"
    and len: "length acc + length bs \<le> N"
  let ?a = "a + of_nat (length acc)"
  have t: "curproc t = Some p" "p_pagetable (procs t p) = pt" using s f tx_frame_procs(1) [OF f] by (simp_all add: tx_frame_def)
  have a: "unat ?a = unat a + length acc" using N len by (intro unat_add_nat) simp
  have ok: "pt_ok (mem t) pt e ps" "user_ok (mem t) pt" and up: "\<And>va. upage (mem t) pt va = upage (mem s0) pt va"
    using w by (simp_all add: uwritten_def)
  have "unat ?a + length bs \<le> 274877906944" using a N len by simp
  from copyout_writes [OF ok(1) e ok(2) this] obtain r t' k where
    r: "copyout pt ?a bs t = (Ret r, t')" "k \<le> length bs" "uwritten pt e ps t t' ?a (take k bs)"
      "if range_mapped (mem t) pt ?a (length bs) then r = 0 \<and> k = length bs else r = - 1"
    by (auto elim!: ok_E)
  have t': "t' = t\<lparr>mem := mem t'\<rparr>" using r(3) by (simp add: uwritten_def)
  have "uwritten pt e ps (s0\<lparr>mem := mem t\<rparr>) (s0\<lparr>mem := mem t'\<rparr>) ?a (take k bs)" by (rule uwritten_at [OF r(3)])
  from uwritten_trans [OF w this] a have w': "uwritten pt e ps s0 (s0\<lparr>mem := mem t'\<rparr>) a (acc @ take k bs)" by simp
  have mp': "range_mapped (mem s0) pt a (length acc + length bs) \<longleftrightarrow> range_mapped (mem t) pt ?a (length bs)"
    using mp range_mapped_cong [OF up] by (simp add: range_mapped_add)
  have "either_copyout (xdst_add (UserDst a) (length acc)) bs t = (Ret r, t\<lparr>mem := mem t'\<rparr>)"
    using t r(1) t' by (simp add: either_copyout_def xdst_add_def myproc_def)
  moreover have "if r = - 1 then \<not> range_mapped (mem s0) pt a (length acc + length bs) \<and>
        (\<exists>k \<le> length bs. uwritten pt e ps s0 (s0\<lparr>mem := mem t'\<rparr>) a (acc @ take k bs))
      else uwritten pt e ps s0 (s0\<lparr>mem := mem t'\<rparr>) a (acc @ bs) \<and> range_mapped (mem s0) pt a (length (acc @ bs))"
    using r(2,4) w' mp' by (cases "range_mapped (mem t) pt ?a (length bs)") auto
  ultimately show "\<exists>r m. either_copyout (xdst_add (UserDst a) (length acc)) bs t = (Ret r, t\<lparr>mem := m\<rparr>) \<and>
      (if r = - 1 then \<not> range_mapped (mem s0) pt a (length acc + length bs) \<and>
        (\<exists>k \<le> length bs. uwritten pt e ps s0 (s0\<lparr>mem := m\<rparr>) a (acc @ take k bs))
      else uwritten pt e ps s0 (s0\<lparr>mem := m\<rparr>) a (acc @ bs) \<and> range_mapped (mem s0) pt a (length (acc @ bs)))"
    by blast
qed

section \<open>The system call\<close>

text \<open>The locks of inodes, sleepers that are woken, the counters of the log and what is above the file
  system do not matter to the view.\<close>

lemma view_cong:
  assumes "bufs s' = bufs s" "disk s' = disk s" "dwrites s' = dwrites s" "\<And>b. slocks s' (BufSL b) = slocks s (BufSL b)"
    "mypid s' = mypid s" "held s' = held s" "curproc s' = curproc s" "lg_start (lg s') = lg_start (lg s)" "lg_dev (lg s') = lg_dev (lg s)"
    "lg_lh (lg s') = lg_lh (lg s)" "itable s' = itable s" "sb s' = sb s"
  shows "blocks s' = blocks s" "block_lock s' = block_lock s" "file_view ds ip s' = file_view ds ip s"
proof -
  have c: "cached s' = cached s" using assms(1) by (simp add: cached_def fun_eq_iff)
  have b: "bslot s' = bslot s" by (rule ext) (simp add: bslot_def c)
  show k: "block_lock s' = block_lock s" using b assms(4) by (simp add: block_lock_def fun_eq_iff split: option.splits)
  have a: "cabs s' = cabs s"
    unfolding cabs_def k using b assms(1-3) by (simp add: block_view_def block_refs_def fun_eq_iff split: option.splits)
  show v: "blocks s' = blocks s" by (simp add: blocks_def a)
  have "buf_ok s' i = buf_ok s i" for i using assms(1,2,4,5) by (simp add: buf_ok_def)
  then have "cache_inv s' = cache_inv s" using c assms(1) by (simp add: cache_inv_def)
  moreover have "calm s' = calm s" using assms(6,7) by (simp add: calm_def running_def no_plock_def)
  moreover have l: "lcount s' = lcount s" "logged s' = logged s" using assms(10) by (simp_all add: lcount_def logged_def)
  ultimately have "tx s' = tx s" using assms a k l by (simp add: tx_def log_wf_def cache_ok_def)
  moreover have "clean s' = clean s" using assms(2) v k l by (simp add: clean_def)
  ultimately show "file_view ds ip s' = file_view ds ip s" using assms v k by (simp add: file_view_def)
qed

lemma same_but_mem_files:
  assumes "same_but_mem s s'" shows "ftable s' = ftable s" "slocks s' (InodeSL ip) = slocks s (InodeSL ip)"
proof -
  have f: "tx_frame (s\<lparr>mem := mem s'\<rparr>) s'" using assms by (simp add: same_but_mem_def same_fs_def)
  then have "logstate.more s' = logstate.more s" by (simp add: tx_frame_def)
  then show "ftable s' = ftable s" by (cases s; cases s') simp
  show "slocks s' (InodeSL ip) = slocks s (InodeSL ip)" using f by (simp add: tx_frame_def)
qed

text \<open>User memory after a read that has copied the first \<open>k\<close> of the bytes \<open>D\<close>.\<close>

lemma readi_user:
  fixes off n :: u32
  assumes v: "file_view ds ip s" and h: "no_holes (blocks s) (i_addrs (itable s ip)) (unat (i_size (itable s ip)))"
    and p: "curproc s = Some p" "p_pagetable (procs s p) = pt" and u: "pt_ok (mem s) pt e ps" "0 < e" "user_ok (mem s) pt"
  defines "D \<equiv> requested (blocks s) (itable s ip) off n"
  assumes "unat a + length D \<le> 274877906944"
  obtains r s' k where "readi ip (UserDst a) off n s = (Ret r, s')" and "same_but_mem s s'" and "file_view ds ip s'"
    and "fst r = (if range_mapped (mem s) pt a (length D) then of_nat (length D) else - 1)"
    and "k \<le> length D" and "range_mapped (mem s) pt a (length D) \<longrightarrow> k = length D"
    and "uwritten pt e ps s (s\<lparr>mem := mem s'\<rparr>) a (take k D)"
proof -
  have w: "uwritten pt e ps s (s\<lparr>mem := mem s\<rparr>) a []" using uwritten_Nil [OF u(1,3)] by simp
  let ?W = "\<lambda>acc m. uwritten pt e ps s (s\<lparr>mem := m\<rparr>) a acc \<and> range_mapped (mem s) pt a (length acc)"
  let ?F = "\<lambda>acc bs m. \<not> range_mapped (mem s) pt a (length acc + length bs) \<and>
        (\<exists>k \<le> length bs. uwritten pt e ps s (s\<lparr>mem := m\<rparr>) a (acc @ take k bs))"
  have "?W [] (mem s)" using w by (simp add: range_mapped_def)
  from readi_copies [where W = ?W and F = ?F and off = off and n = n, OF copies_user [OF u(2) assms(9)] v h conjI [OF p] this, folded D_def]
  obtain r s' where r: "readi ip (UserDst a) off n s = (Ret r, s')" "same_but_mem s s'" "file_view ds ip s'"
    "read_end ?W ?F D (of_nat (length D)) r (mem s')" by blast
  from r(4) consider "r = (of_nat (length D), D)" "?W D (mem s')"
    | xs ys zs where "fst r = - 1" "D = xs @ ys @ zs" "?F xs ys (mem s')" unfolding read_end_def by blast
  then show thesis
  proof cases
    case 1
    then show thesis using that [OF r(1-3), of "length D"] by simp
  next
    case (2 xs ys zs)
    then obtain j where j: "j \<le> length ys" "uwritten pt e ps s (s\<lparr>mem := mem s'\<rparr>) a (xs @ take j ys)" by blast
    have "\<not> range_mapped (mem s) pt a (length D)"
      using 2 range_mapped_add [of "mem s" pt a "length xs + length ys" "length zs"] by (simp add: add.assoc)
    then show thesis using that [OF r(1-3), of "length xs + j"] 2(1,2) j by simp
  qed
qed

lemma requested_small:
  assumes "no_holes B (i_addrs q) (unat (i_size q))"
  shows "sint (of_nat (length (requested B q off n)) :: i32) = int (length (requested B q off n))"
proof -
  have "length (requested B q off n) \<le> unat (i_size q)" by (auto simp: requested_def content_def)
  also have "\<dots> \<le> MAXFILE * BSIZE" using assms by (simp add: no_holes_def)
  finally have "length (requested B q off n) < 2 ^ 31" by simp
  then show ?thesis by (simp add: signed_of_nat signed_take_bit_int_eq_self)
qed

text \<open>
  C20. Reading a file into user memory. \<^verbatim>\<open>fileread\<close> on a file whose inode is loaded and not locked by
  another process, with a destination below \<^verbatim>\<open>MAXVA\<close> and no transaction needed, returns for every
  offset and 32-bit count. The request is cut off at the end of the file; one that starts after the
  end, or whose end wraps around 32 bits, is empty. If the whole destination is mapped for the user,
  the result is the number of bytes, user memory at the destination holds exactly these bytes of the
  file's contents, however they are spread over blocks and pages, and the file's offset advances
  by their number. If not, the result is -1, the offset stays, and a beginning of the bytes may have
  been copied. All other user memory, the translation, the memory outside the user's pages, the
  disk, the blocks, the inode and its lock are as before.
\<close>

theorem fileread_reads_content:
  assumes "f_readable (ftable s f)" and "f_type (ftable s f) = FD_INODE" and "f_ip (ftable s f) = Some ip"
    and "file_view ds ip s" and "no_holes (blocks s) (i_addrs (itable s ip)) (unat (i_size (itable s ip)))"
    and "i_valid (itable s ip)" and "sint (i_ref (itable s ip)) \<ge> 1" and "slocks s (InodeSL ip) = \<lparr>sl_locked = False, sl_pid = 0\<rparr>"
    and "curproc s = Some p" and "pt_ok (mem s) (p_pagetable (procs s p)) (kend s) ps" and "0 < kend s"
    and "user_ok (mem s) (p_pagetable (procs s p))"
    and "unat addr + length (requested (blocks s) (itable s ip) (f_off (ftable s f)) n) \<le> unat MAXVA"
  shows "let pt = p_pagetable (procs s p); D = requested (blocks s) (itable s ip) (f_off (ftable s f)) n;
      full = range_mapped (mem s) pt addr (length D) in
    ok (fileread f addr n s) (\<lambda>r s'. r = (if full then of_nat (length D) else - 1) \<and>
      ftable s' = (if full then (ftable s)(f := (ftable s f)\<lparr>f_off := f_off (ftable s f) + of_nat (length D)\<rparr>) else ftable s) \<and>
      (\<exists>k \<le> length D. (full \<longrightarrow> k = length D) \<and> (\<forall>va. upage (mem s) pt va \<noteq> 0 \<longrightarrow>
         ubyte (mem s') pt va = overlay (unat addr) (take k D) (ubyte (mem s) pt va) (unat va))) \<and>
      (\<forall>va. upage (mem s') pt va = upage (mem s) pt va) \<and> same_outside (upages (mem s) pt) (mem s) (mem s') \<and>
      blocks s' = blocks s \<and> disk s' = disk s \<and> itable s' = itable s \<and> block_lock s' = (\<lambda>_. None) \<and>
      slocks s' (InodeSL ip) = slocks s (InodeSL ip))"
proof -
  let ?pt = "p_pagetable (procs s p)" and ?l = "InodeSL ip"
  define D where "D = requested (blocks s) (itable s ip) (f_off (ftable s f)) n"
  define full where "full = range_mapped (mem s) ?pt addr (length D)"
  define sa where "sa = set_sl ?l \<lparr>sl_locked = True, sl_pid = mypid s\<rparr> s"
  have cm: "calm s" using assms(4) by (simp add: file_view_def tx_def cache_ok_def)
  then have rn: "running s" "SlLock ?l \<notin> set (held s)" by (simp_all add: calm_def)
  have il: "ilock (Some ip) s = (Ret (), sa)"
    using acquiresleep_free [OF rn] assms(6-8) by (simp add: ilock_def sa_def set_sl_def)
  have fa: "mem sa = mem s" "ftable sa = ftable s" "itable sa = itable s" "curproc sa = curproc s" "procs sa = procs s" "held sa = held s"
    "disk sa = disk s" "mypid sa = mypid s" "slocks sa ?l = \<lparr>sl_locked = True, sl_pid = mypid s\<rparr>" "slocks sa (BufSL b) = slocks s (BufSL b)" for b
    by (simp_all add: sa_def set_sl_def mypid_def)
  have va: "blocks sa = blocks s" "block_lock sa = block_lock s" "file_view ds ip sa = file_view ds ip s"
    by (rule view_cong; simp add: sa_def set_sl_def mypid_def)+
  have b: "unat addr + length D \<le> 274877906944" using assms(13) by (simp add: D_def)
  have pre: "file_view ds ip sa" "no_holes (blocks sa) (i_addrs (itable sa ip)) (unat (i_size (itable sa ip)))" "curproc sa = Some p"
    "p_pagetable (procs sa p) = ?pt" "pt_ok (mem sa) ?pt (kend s) ps" and us: "user_ok (mem sa) ?pt"
    using assms(4,5,9,10,12) fa va by simp_all
  have Da: "requested (blocks sa) (itable sa ip) (f_off (ftable s f)) n = D" using va fa by (simp add: D_def)
  obtain r s1 k where r: "readi ip (UserDst addr) (f_off (ftable s f)) n sa = (Ret r, s1)" "same_but_mem sa s1" "file_view ds ip s1"
    "fst r = (if full then of_nat (length D) else - 1)" "k \<le> length D" "full \<longrightarrow> k = length D"
    "uwritten ?pt (kend s) ps sa (sa\<lparr>mem := mem s1\<rparr>) addr (take k D)"
    by (rule readi_user [OF pre assms(11) us, where off = "f_off (ftable s f)" and n = n, unfolded Da fa(1), OF b, folded full_def])
  note e1 = same_but_mem_facts [OF r(2)] same_but_mem_files [OF r(2)]
  define s2 where "s2 = (if sint (fst r) > 0 then setf f (\<lambda>q. q\<lparr>f_off := f_off q + fst r\<rparr>) s1 else s1)"
  have e2: "mem s2 = mem s1" "itable s2 = itable s" "curproc s2 = curproc s" "held s2 = held s" "disk s2 = disk s"
    "slocks s2 = slocks s1" "mypid s2 = mypid s" "f_ip (ftable s2 f) = Some ip" "procs s2 = procs s1" "bufs s2 = bufs s1"
    "dwrites s2 = dwrites s1" "lg s2 = lg s1" "sb s2 = sb s1"
    using e1 fa assms(3) by (simp_all add: s2_def setf_def mypid_def)
  have ft: "ftable s2 = (if full then (ftable s)(f := (ftable s f)\<lparr>f_off := f_off (ftable s f) + of_nat (length D)\<rparr>) else ftable s)"
    using e1 fa requested_small [OF assms(5), of "f_off (ftable s f)" n] r(4) by (auto simp: s2_def setf_def D_def [symmetric])
  define s3 where "s3 = wake_all (ChSL ?l) (set_sl ?l \<lparr>sl_locked = False, sl_pid = 0\<rparr> s2)"
  have e3: "mem s3 = mem s1" "itable s3 = itable s" "disk s3 = disk s" "ftable s3 = ftable s2" "slocks s3 ?l = slocks s ?l"
    using e2 assms(8) by (simp_all add: s3_def wake_all_def set_sl_def)
  have iu: "iunlock (Some ip) s2 = (Ret (), s3)"
  proof -
    have rn2: "running s2" "SlLock ?l \<notin> set (held s2)" using rn e2(3,4) by (simp_all add: running_def no_plock_def)
    have "holdingsleep ?l s2 = (Ret True, s2)" using holdingsleep_spec [OF rn2] e2(6,7) e1 fa by simp
    then show ?thesis using releasesleep_spec [OF rn2] assms(7) e2(2) by (simp add: iunlock_def s3_def)
  qed
  have v3: "blocks s3 = blocks s1" "block_lock s3 = block_lock s1"
    by (rule view_cong; use e1 e2 fa in \<open>simp add: s3_def wake_all_def set_sl_def mypid_def woken_all_def woken_def\<close>)+
  have "fileread f addr n s = (Ret (fst r), s3)"
    using assms(1-3) il r(1) iu e1 fa e2(8) by (simp add: fileread_def s2_def [symmetric] Let_def)
  moreover have "blocks s3 = blocks s" "block_lock s3 = (\<lambda>_. None)" using v3 e1 va assms(4) by (simp_all add: file_view_def)
  ultimately show ?thesis
    unfolding Let_def D_def [symmetric] full_def [symmetric]
    using r(4-7) e3 ft fa by (auto simp: uwritten_def)
qed

text \<open>The example file system with no transaction open, and the file of three bytes opened, at offset 1.\<close>

definition kread0 :: boot_state where
  "kread0 = kfs0\<lparr>lg := (lg kfs0)\<lparr>lg_outstanding := 0\<rparr>, ftable := (ftable kfs0)(0 := \<lparr>f_type = FD_INODE, f_ref = 1,
     f_readable = True, f_writable = False, f_pipe = 0, f_ip = Some 0, f_off = 1, f_major = 0\<rparr>)\<rparr>"

lemma kread0_view: "file_view 46 0 kread0" "blocks kread0 = blocks kfs0"
proof -
  have "file_view 46 0 kfs0" by (rule ino_ok_view [OF kfs0_ino [of 0]]) simp
  moreover have "blocks kread0 = blocks kfs0" "file_view 46 0 kread0 = file_view 46 0 kfs0"
    by (rule view_cong; simp add: kread0_def mypid_def)+
  ultimately show "file_view 46 0 kread0" "blocks kread0 = blocks kfs0" by simp_all
qed

theorem fileread_reads_content_witness:
  "ok (fileread 0 0xfff 100 kread0) (\<lambda>r s'. r = 2 \<and> f_off (ftable s' 0) = 3 \<and>
     ubyte (mem s') 0x80001000 0xfff = 2 \<and> ubyte (mem s') 0x80001000 0x1000 = 3) \<and>
   ok (fileread 0 0x1fff 100 kread0) (\<lambda>r s'. r = - 1 \<and> f_off (ftable s' 0) = 1 \<and> ubyte (mem s') 0x80001000 0 = ubyte mem1 0x80001000 0)"
proof -
  have k: "itable kread0 0 = ino0" "f_off (ftable kread0 0) = 1" "curproc kread0 = Some 0" "mem kread0 = mem1" "kend kread0 = 0x80000000"
    "p_pagetable (procs kread0 0) = 0x80001000" "f_readable (ftable kread0 0)" "f_type (ftable kread0 0) = FD_INODE" "f_ip (ftable kread0 0) = Some 0"
    "slocks kread0 l = \<lparr>sl_locked = False, sl_pid = 0\<rparr>" for l
    by (simp_all add: kread0_def) (simp_all add: kfs0_def kern0_def)
  have D: "requested (blocks kread0) ino0 1 100 = [2, 3]"
    using kfs0_content(1) by (simp add: requested_def kread0_view(2) bslice_def) (simp add: ino0_def)
  have i: "i_valid ino0" "sint (i_ref ino0) \<ge> 1" by (simp_all add: ino0_def)
  have m: "range_mapped mem1 0x80001000 0xfff 2" by (rule mem1_range) simp
  have two: "upage mem1 0x80001000 0xfff \<noteq> 0" "upage mem1 0x80001000 0x1000 \<noteq> 0" "upage mem1 0x80001000 0 \<noteq> 0"
    by (rule mem1_mapped; simp)+
  have "upage mem1 0x80001000 0x2000 = 0" by (simp add: mem1_upage px_nat)
  then have n: "\<not> range_mapped mem1 0x80001000 0x1fff 2" by (auto simp: range_mapped_def intro!: exI [of _ 1])
  have h: "no_holes (blocks kread0) (i_addrs ino0) (unat (i_size ino0))" by (simp add: kread0_view(2) kfs0_content(2))
  have e: "(0 :: u64) < 0x80000000" by simp
  note th = fileread_reads_content [of kread0 0 0 46 0 "[]" _ 100, unfolded k D, OF k(7) refl refl kread0_view(1) h i refl refl mem1_ok e mem1_user]
  have 1: "unat (0xfff :: u64) + length [2, 3 :: u8] \<le> unat MAXVA" and 2: "unat (0x1fff :: u64) + length [2, 3 :: u8] \<le> unat MAXVA" by simp_all
  have l: "length [2, 3 :: u8] = 2" by simp
  have "ok (fileread 0 0xfff 100 kread0) (\<lambda>r s'. r = 2 \<and> f_off (ftable s' 0) = 3 \<and>
     ubyte (mem s') 0x80001000 0xfff = 2 \<and> ubyte (mem s') 0x80001000 0x1000 = 3)"
    using th [OF 1, unfolded Let_def l if_P [OF m]] m two by (elim ok_E) (auto simp: overlay_def)
  moreover have "ok (fileread 0 0x1fff 100 kread0) (\<lambda>r s'. r = - 1 \<and> f_off (ftable s' 0) = 1 \<and>
     ubyte (mem s') 0x80001000 0 = ubyte mem1 0x80001000 0)"
    using th [OF 2, unfolded Let_def l if_not_P [OF n]] two k(2) by (elim ok_E) (auto simp: overlay_def)
  ultimately show ?thesis ..
qed

end
