(* ===== verification/Umalloc.thy ===== *)
theory Umalloc
  imports Kstring
begin

text \<open>
  The user-space allocator \<^verbatim>\<open>user/umalloc.c\<close>: a circular list of free blocks, kept in the order of
  their addresses, each block with a header in front. The list of the free blocks is the abstract
  state; \<^verbatim>\<open>free\<close> and \<^verbatim>\<open>malloc\<close> refine its operations, and every block of the heap is in the
  list or handed out, never both.
\<close>

section \<open>Definitions\<close>

text \<open>Addresses are numbers: those of a process are below \<^verbatim>\<open>MAXVA\<close>, so that no sum of them wraps. The
  store has the headers; \<open>brk\<close> is the size of the process, \<open>limit\<close> the size it can grow to. A call that
  does not return is \<open>None\<close>: it loops, or the process is killed by a page fault. A fault is modelled
  where the allocator stores into memory it has just asked for, which is in the pages of the
  process or not (\<open>backed\<close>); other accesses follow pointers to headers.\<close>

record header =
  h_ptr :: nat
  h_size :: u32

record uheap =
  hdrs :: "nat \<Rightarrow> header"
  freep :: nat
  base_at :: nat
  brk :: nat
  limit :: nat

abbreviation ptr :: "uheap \<Rightarrow> nat \<Rightarrow> nat" where "ptr s p \<equiv> h_ptr (hdrs s p)"
abbreviation hsize :: "uheap \<Rightarrow> nat \<Rightarrow> u32" where "hsize s p \<equiv> h_size (hdrs s p)"

definition set_ptr :: "nat \<Rightarrow> nat \<Rightarrow> uheap \<Rightarrow> uheap" where
  "set_ptr p q s = s\<lparr>hdrs := (hdrs s)(p := (hdrs s p)\<lparr>h_ptr := q\<rparr>)\<rparr>"

definition set_size :: "nat \<Rightarrow> u32 \<Rightarrow> uheap \<Rightarrow> uheap" where
  "set_size p n s = s\<lparr>hdrs := (hdrs s)(p := (hdrs s p)\<lparr>h_size := n\<rparr>)\<rparr>"

text \<open>The address \<open>n\<close> headers after \<open>p\<close>.\<close>

definition after :: "nat \<Rightarrow> u32 \<Rightarrow> nat" where
  "after p n = p + 16 * unat n"

partial_function (option) free_find :: "nat \<Rightarrow> nat \<Rightarrow> uheap \<Rightarrow> nat option" where
  "free_find bp p s =
     (if bp > p \<and> bp < ptr s p then Some p
      else if p \<ge> ptr s p \<and> (bp > p \<or> bp < ptr s p) then Some p
      else free_find bp (ptr s p) s)"

definition free_join :: "nat \<Rightarrow> nat \<Rightarrow> uheap \<Rightarrow> uheap" where
  "free_join bp p s =
     (let s = (if after bp (hsize s bp) = ptr s p
               then let s' = set_size bp (hsize s bp + hsize s (ptr s p)) s
                    in set_ptr bp (ptr s' (ptr s' p)) s'
               else set_ptr bp (ptr s p) s);
          s = (if after p (hsize s p) = bp
               then let s' = set_size p (hsize s p + hsize s bp) s
                    in set_ptr p (ptr s' bp) s'
               else set_ptr p bp s)
      in s\<lparr>freep := p\<rparr>)"

definition free :: "nat \<Rightarrow> uheap \<Rightarrow> uheap option" where
  "free ap s =
     (let bp = ap - 16 in
      case free_find bp (freep s) s of None \<Rightarrow> None | Some p \<Rightarrow> Some (free_join bp p s))"

text \<open>The system call as the program sees it: \<^verbatim>\<open>sys_sbrk\<close> and \<^verbatim>\<open>growproc\<close>. Its parameter is an \<^verbatim>\<open>int\<close>.\<close>

definition sbrk :: "i32 \<Rightarrow> uheap \<Rightarrow> nat option \<times> uheap" where
  "sbrk n s =
     (if sint n > 0 then
        if brk s + nat (sint n) > limit s then (None, s)
        else (Some (brk s), s\<lparr>brk := brk s + nat (sint n)\<rparr>)
      else (Some (brk s), if nat (- sint n) \<le> brk s then s\<lparr>brk := brk s - nat (- sint n)\<rparr> else s))"

text \<open>The header at \<open>p\<close> is in a page that the process has.\<close>

definition backed :: "uheap \<Rightarrow> nat \<Rightarrow> bool" where
  "backed s p \<longleftrightarrow> p + 16 \<le> (brk s + 4095) div 4096 * 4096"

definition morecore :: "u32 \<Rightarrow> uheap \<Rightarrow> (nat \<times> uheap) option" where
  "morecore nu s =
     (let nu = (if nu < 4096 then 4096 else nu) in
      case sbrk (nu * 16) s of (None, s) \<Rightarrow> Some (0, s)
      | (Some p, s) \<Rightarrow>
          if \<not> backed s p then None
          else (case free (p + 16) (set_size p nu s) of None \<Rightarrow> None
           | Some s \<Rightarrow> Some (freep s, s)))"

definition malloc_take :: "u32 \<Rightarrow> nat \<Rightarrow> nat \<Rightarrow> uheap \<Rightarrow> nat \<times> uheap" where
  "malloc_take nunits prevp p s =
     (if hsize s p = nunits then (p + 16, (set_ptr prevp (ptr s p) s)\<lparr>freep := prevp\<rparr>)
      else let s = set_size p (hsize s p - nunits) s;
               p = after p (hsize s p);
               s = set_size p nunits s
           in (p + 16, s\<lparr>freep := prevp\<rparr>))"

partial_function (option) malloc_loop :: "u32 \<Rightarrow> nat \<Rightarrow> nat \<Rightarrow> uheap \<Rightarrow> (nat \<times> uheap) option" where
  "malloc_loop nunits prevp p s =
     (if hsize s p \<ge> nunits then Some (malloc_take nunits prevp p s)
      else if p = freep s then
        (case morecore nunits s of None \<Rightarrow> None
         | Some r \<Rightarrow> if fst r = 0 then Some (0, snd r)
                     else malloc_loop nunits (fst r) (ptr (snd r) (fst r)) (snd r))
      else malloc_loop nunits p (ptr s p) s)"

definition nunits_of :: "u32 \<Rightarrow> u32" where
  "nunits_of nbytes = ucast (((ucast nbytes :: u64) + 16 - 1) div 16 + 1)"

definition malloc :: "u32 \<Rightarrow> uheap \<Rightarrow> (nat \<times> uheap) option" where
  "malloc nbytes s =
     (let nunits = nunits_of nbytes;
          s = (if freep s = 0 then set_size (base_at s) 0 (set_ptr (base_at s) (base_at s) (s\<lparr>freep := base_at s\<rparr>)) else s)
      in malloc_loop nunits (freep s) (ptr s (freep s)) s)"

declare free_find.simps [code] malloc_loop.simps [code]

section \<open>The list of free blocks\<close>

text \<open>Blocks are pairs of the address of the header and the size in headers. \<open>leads s p xs e\<close>: from \<open>p\<close>
  the pointers lead through \<open>xs\<close> to \<open>e\<close>.\<close>

primrec leads :: "uheap \<Rightarrow> nat \<Rightarrow> nat list \<Rightarrow> nat \<Rightarrow> bool" where
  "leads s p [] e = (ptr s p = e)"
| "leads s p (x # xs) e = (ptr s p = x \<and> leads s x xs e)"

lemma leads_append: "leads s p (xs @ x # ys) e \<longleftrightarrow> leads s p xs x \<and> leads s x ys e"
  by (induction xs arbitrary: p) auto

lemma leads_cong: "(\<And>x. x \<in> insert p (set xs) \<Longrightarrow> ptr s' x = ptr s x) \<Longrightarrow> leads s' p xs e = leads s p xs e"
  by (induction xs arbitrary: p) auto

lemma leads_swap:
  assumes "leads s p xs e" and "ptr s' q = ptr s p" and "\<And>x. x \<in> set xs \<Longrightarrow> ptr s' x = ptr s x"
  shows "leads s' q xs e"
proof (cases xs)
  case (Cons x ys)
  then show ?thesis using assms leads_cong [of x ys s' s e] by simp
qed (use assms in simp)

lemma leads_next: "leads s p xs e \<Longrightarrow> ptr s p = (case xs of [] \<Rightarrow> e | x # _ \<Rightarrow> x)"
  by (cases xs) auto

text \<open>The search in \<^verbatim>\<open>free\<close> and the one in \<^verbatim>\<open>malloc\<close> along such a path.\<close>

abbreviation stops :: "nat \<Rightarrow> uheap \<Rightarrow> nat \<Rightarrow> bool" where
  "stops bp s p \<equiv> bp > p \<and> bp < ptr s p \<or> p \<ge> ptr s p \<and> (bp > p \<or> bp < ptr s p)"

lemma free_find_stops:
  assumes "leads s p xs e" and "\<exists>z \<in> insert p (set xs). stops bp s z"
  shows "\<exists>z \<in> insert p (set xs). stops bp s z \<and> free_find bp p s = Some z"
  using assms
proof (induction xs arbitrary: p)
  case Nil
  then show ?case by (auto simp: free_find.simps [of bp p s])
next
  case (Cons x xs)
  show ?case
  proof (cases "stops bp s p")
    case True
    then show ?thesis by (auto simp: free_find.simps [of bp p s])
  next
    case False
    then have "free_find bp p s = free_find bp x s" using Cons.prems(1) by (subst free_find.simps) auto
    then show ?thesis using Cons.IH [of x] Cons.prems False by auto
  qed
qed

lemma malloc_loop_scan:
  assumes "leads s q xs (freep s)" and "freep s \<notin> set xs"
  shows "(\<exists>z \<in> insert (freep s) (set xs). hsize s z \<ge> n) \<Longrightarrow>
      \<exists>p z. p \<in> insert q (set xs) \<and> z \<in> insert (freep s) (set xs) \<and> ptr s p = z \<and> hsize s z \<ge> n \<and>
        malloc_loop n q (ptr s q) s = Some (malloc_take n p z s)"
    and "(\<forall>z \<in> insert (freep s) (set xs). hsize s z < n) \<Longrightarrow>
      malloc_loop n q (ptr s q) s = (case morecore n s of None \<Rightarrow> None
         | Some r \<Rightarrow> if fst r = 0 then Some (0, snd r)
                     else malloc_loop n (fst r) (ptr (snd r) (fst r)) (snd r))"
  using assms
proof (induction xs arbitrary: q)
  case Nil
  { case 1
    then show ?case by (auto simp: malloc_loop.simps [of n q "freep s" s])
  next
    case 2
    then show ?case by (auto simp: malloc_loop.simps [of n q "freep s" s]) }
next
  case (Cons x xs)
  { case 1
    show ?case
    proof (cases "hsize s x \<ge> n")
      case True
      then show ?thesis using 1 by (intro exI [of _ q] exI [of _ x]) (auto simp: malloc_loop.simps [of n q x s])
    next
      case False
      then have "malloc_loop n q x s = malloc_loop n x (ptr s x) s" using 1 by (subst malloc_loop.simps) auto
      then show ?thesis using Cons.IH(1) [of x] 1 False by auto
    qed
  next
    case 2
    then have "malloc_loop n q x s = malloc_loop n x (ptr s x) s" by (subst malloc_loop.simps) auto
    then show ?case using Cons.IH(2) [of x] 2 by auto }
qed

text \<open>The free blocks in the order of their addresses, with a gap between any two.\<close>

definition gap :: "nat \<times> nat \<Rightarrow> nat \<times> nat \<Rightarrow> bool" where
  "gap x y \<longleftrightarrow> fst x + 16 * snd x < fst y"

definition blist :: "(nat \<times> nat) list \<Rightarrow> uheap \<Rightarrow> bool" where
  "blist F s \<longleftrightarrow> leads s (base_at s) (map fst F) (base_at s) \<and> hsize s (base_at s) = 0 \<and>
     (\<forall>x \<in> set F. unat (hsize s (fst x)) = snd x \<and> 0 < snd x) \<and> sorted_wrt gap ((base_at s, 0) # F)"

abbreviation nodes :: "(nat \<times> nat) list \<Rightarrow> uheap \<Rightarrow> nat set" where
  "nodes F s \<equiv> insert (base_at s) (fst ` set F)"

lemma gap_less: "gap x y \<Longrightarrow> fst x < fst y"
  by (simp add: gap_def)

lemma gaps_distinct: "sorted_wrt gap F \<Longrightarrow> distinct (map fst F)"
proof (induction F)
  case (Cons x F)
  then show ?case using gap_less [of x] by auto (metis less_irrefl)
qed simp

lemma ring_split:
  assumes f: "blist F s" and p: "p \<in> nodes F s"
  obtains G H where "F = G @ H" and "p = last (base_at s # map fst G)" and "leads s p (map fst H) (base_at s)"
    and "G \<noteq> [] \<Longrightarrow> leads s (base_at s) (map fst (butlast G)) p"
    and "ptr s p = (case H of [] \<Rightarrow> base_at s | x # _ \<Rightarrow> fst x)"
proof (cases "p = base_at s")
  case True
  have l: "leads s (base_at s) (map fst F) (base_at s)" using f by (simp add: blist_def)
  then show thesis using that [of "[]" F] True leads_next [OF l] by (cases F) auto
next
  case False
  then obtain m where "(p, m) \<in> set F" using p by auto
  then obtain G H where F: "F = G @ (p, m) # H" by (meson split_list)
  then have l: "leads s (base_at s) (map fst G) p" "leads s p (map fst H) (base_at s)" using f by (simp_all add: blist_def leads_append)
  then show thesis using that [of "G @ [(p, m)]" H] F leads_next [OF l(2)] by (cases H) auto
qed

text \<open>The list as seen from any of its members.\<close>

lemma ring_from:
  assumes f: "blist F s" and p: "p \<in> nodes F s"
  obtains xs where "leads s p xs p" and "insert p (set xs) = nodes F s" and "p \<notin> set xs"
proof -
  obtain G H where s: "F = G @ H" "p = last (base_at s # map fst G)" "leads s p (map fst H) (base_at s)"
    "G \<noteq> [] \<Longrightarrow> leads s (base_at s) (map fst (butlast G)) p"
    using ring_split [OF f p] by metis
  have d: "distinct (map fst ((base_at s, 0) # F))" using f by (intro gaps_distinct) (simp add: blist_def)
  show thesis
  proof (cases "G = []")
    case True
    then show thesis using that [of "map fst H"] s d by auto
  next
    case False
    then obtain G' m where G: "G = G' @ [(p, m)]" using s(2) by (cases G rule: rev_cases) auto
    show thesis using that [of "map fst H @ base_at s # map fst G'"] s(1,3,4) d G by (auto simp: leads_append)
  qed
qed

text \<open>Where the search of \<^verbatim>\<open>free\<close> ends: the blocks before and after \<open>bp\<close>.\<close>

lemma gaps_after: "sorted_wrt gap (x # F) \<Longrightarrow> y \<in> set F \<Longrightarrow> fst x < fst y"
  using gap_less by auto

lemma free_find_place:
  assumes f: "blist F s" and fp: "freep s \<in> nodes F s" and b: "base_at s < bp" and n: "bp \<notin> fst ` set F"
  obtains G H where "F = G @ H" and "free_find bp (freep s) s = Some (last (base_at s # map fst G))"
    and "\<forall>x \<in> set G. fst x < bp" and "\<forall>x \<in> set H. bp < fst x" and "leads s (last (base_at s # map fst G)) (map fst H) (base_at s)"
    and "G \<noteq> [] \<Longrightarrow> leads s (base_at s) (map fst (butlast G)) (last (base_at s # map fst G))"
proof -
  have so: "sorted_wrt gap ((base_at s, 0) # F)" using f by (simp add: blist_def)
  have ge: "base_at s \<le> x" if "x \<in> nodes F s" for x using that gaps_after [OF so] by fastforce
  obtain xs where xs: "leads s (freep s) xs (freep s)" "insert (freep s) (set xs) = nodes F s" by (rule ring_from [OF f fp])
  have "\<exists>z \<in> nodes F s. stops bp s z"
  proof -
    define G H where "G = takeWhile (\<lambda>x. fst x < bp) F" and "H = dropWhile (\<lambda>x. fst x < bp) F"
    have F: "F = G @ H" by (simp add: G_def H_def)
    define z where "z = last (base_at s # map fst G)"
    have G: "\<forall>x \<in> set G. fst x < bp" by (auto simp: G_def dest: set_takeWhileD)
    have z: "z \<in> nodes F s \<and> z < bp"
    proof (cases "G = []")
      case False
      then have "last G \<in> set G" by simp
      then show ?thesis using False G F by (simp add: z_def last_map)
    qed (use b in \<open>simp add: z_def\<close>)
    have "leads s z (map fst H) (base_at s)"
      using f F by (cases G rule: rev_cases) (auto simp: blist_def z_def leads_append)
    then have "ptr s z = (case H of [] \<Rightarrow> base_at s | x # _ \<Rightarrow> fst x)" by (cases H) auto
    moreover have "bp < fst (hd H)" if "H \<noteq> []"
    proof -
      have "\<not> fst (hd H) < bp" using hd_dropWhile [OF that [unfolded H_def]] unfolding H_def .
      moreover have "hd H \<in> set F" using that F by simp
      ultimately show ?thesis using n by (metis image_eqI linorder_neqE_nat)
    qed
    ultimately have "stops bp s z" using z ge [of z] by (cases H) auto
    then show ?thesis using z by blast
  qed
  then obtain z where z: "z \<in> nodes F s" "stops bp s z" "free_find bp (freep s) s = Some z"
    using free_find_stops [OF xs(1), of bp] xs(2) by metis
  obtain G H where s: "F = G @ H" "z = last (base_at s # map fst G)" "leads s z (map fst H) (base_at s)"
    "G \<noteq> [] \<Longrightarrow> leads s (base_at s) (map fst (butlast G)) z" "ptr s z = (case H of [] \<Rightarrow> base_at s | x # _ \<Rightarrow> fst x)"
    using ring_split [OF f z(1)] by metis
  have sG: "sorted_wrt gap ((base_at s, 0) # G)" "sorted_wrt gap H" "\<forall>x \<in> set G. \<forall>y \<in> set H. gap x y"
    using so s(1) by (auto simp: sorted_wrt_append)
  have zb: "z < bp \<and> (\<forall>x \<in> set H. bp < fst x)"
  proof (cases H)
    case Nil
    then show ?thesis using z(2) s(5) b ge [OF z(1)] by auto
  next
    case (Cons x H')
    have "z < fst x" using Cons so s(1,2) sG(3) by (cases G rule: rev_cases) (auto simp: gap_def)
    then have "z < bp" "bp < fst x" using z(2) s(5) Cons by auto
    then show ?thesis using Cons sG(2) by (auto simp: gap_def)
  qed
  have "\<forall>x \<in> set G. fst x \<le> z"
    using sG(1) unfolding s(2) by (cases G rule: rev_cases) (auto simp: sorted_wrt_append gap_def)
  then have "\<forall>x \<in> set G. fst x < bp" using zb le_less_trans by blast
  then show thesis using that [OF s(1)] z(3) s(3,4) zb unfolding s(2) by blast
qed

section \<open>Joining a block to its neighbours\<close>

lemma set_hdr [simp]:
  "ptr (set_ptr p q s) x = (if x = p then q else ptr s x)" "hsize (set_ptr p q s) x = hsize s x"
  "ptr (set_size p n s) x = ptr s x" "hsize (set_size p n s) x = (if x = p then n else hsize s x)"
  "base_at (set_ptr p q s) = base_at s" "base_at (set_size p n s) = base_at s"
  "freep (set_ptr p q s) = freep s" "freep (set_size p n s) = freep s"
  "brk (set_ptr p q s) = brk s" "brk (set_size p n s) = brk s"
  "limit (set_ptr p q s) = limit s" "limit (set_size p n s) = limit s"
  "x \<noteq> p \<Longrightarrow> hdrs (set_ptr p q s) x = hdrs s x" "x \<noteq> p \<Longrightarrow> hdrs (set_size p n s) x = hdrs s x"
  by (simp_all add: set_ptr_def set_size_def)

lemma sizes_add:
  assumes "unat (a :: u32) = k" and "unat b = l" and "p + 16 * (k + l) \<le> 2 ^ 36" and "0 < p"
  shows "unat (a + b) = k + l"
proof -
  have "k + l < 2 ^ 32" using assms(3,4) by simp
  then show ?thesis using assms(1,2) by (simp add: unat_plus_if')
qed

definition joined_right :: "nat \<Rightarrow> nat \<Rightarrow> uheap \<Rightarrow> uheap" where
  "joined_right bp p s =
     (if after bp (hsize s bp) = ptr s p
      then set_ptr bp (ptr s (ptr s p)) (set_size bp (hsize s bp + hsize s (ptr s p)) s)
      else set_ptr bp (ptr s p) s)"

definition joined_left :: "nat \<Rightarrow> nat \<Rightarrow> uheap \<Rightarrow> uheap" where
  "joined_left bp p s =
     (if after p (hsize s p) = bp then set_ptr p (ptr s bp) (set_size p (hsize s p + hsize s bp) s) else set_ptr p bp s)"

lemma free_join_steps: "free_join bp p s = (joined_left bp p (joined_right bp p s))\<lparr>freep := p\<rparr>"
  by (simp add: free_join_def joined_left_def joined_right_def Let_def)

text \<open>What is to the right: either the next block joins, or there is a gap.\<close>

lemma join_right:
  assumes l: "leads s p (map fst H) (base_at s)" and k: "unat (hsize s bp) = k" "0 < k" and b: "base_at s < bp"
    and h: "\<forall>x \<in> set H. unat (hsize s (fst x)) = snd x \<and> bp + 16 * k \<le> fst x \<and> fst x + 16 * snd x \<le> 2 ^ 36" and g: "sorted_wrt gap H"
  obtains k' R where "leads (joined_right bp p s) bp (map fst R) (base_at s)" and "unat (hsize (joined_right bp p s) bp) = k'"
    and "H = (bp + 16 * k, k' - k) # R \<and> k \<le> k' \<or> R = H \<and> k' = k" and "\<forall>x \<in> set R. bp + 16 * k' < fst x"
proof (cases "\<exists>l R. H = (bp + 16 * k, l) # R")
  case True
  then obtain l R where H: "H = (bp + 16 * k, l) # R" by blast
  have n: "ptr s p = bp + 16 * k" and lr: "leads s (bp + 16 * k) (map fst R) (base_at s)" using l H by simp_all
  have e: "unat (hsize s bp + hsize s (bp + 16 * k)) = k + l" using h H k(1) b by (intro sizes_add [where p = bp]) auto
  have j: "joined_right bp p s = set_ptr bp (ptr s (bp + 16 * k)) (set_size bp (hsize s bp + hsize s (bp + 16 * k)) s)"
    using k n by (simp add: joined_right_def after_def)
  have "leads (joined_right bp p s) bp (map fst R) (base_at s)"
    by (rule leads_swap [OF lr]) (use h H k(2) in \<open>auto simp: j\<close>)
  moreover have "\<forall>x \<in> set R. bp + 16 * (k + l) < fst x" using g H by (auto simp: gap_def)
  ultimately show thesis using that [of R "k + l"] H e by (simp add: j)
next
  case False
  have n: "ptr s p \<noteq> bp + 16 * k" using l False b by (cases H) auto
  have j: "joined_right bp p s = set_ptr bp (ptr s p) s" using k n by (simp add: joined_right_def after_def)
  have "leads (joined_right bp p s) bp (map fst H) (base_at s)"
    by (rule leads_swap [OF l]) (use h k(2) in \<open>auto simp: j\<close>)
  moreover have "\<forall>x \<in> set H. bp + 16 * k < fst x" using h g False by (cases H) (auto simp: gap_def)
  ultimately show thesis using that [of H k] k by (simp add: j)
qed

text \<open>Adjacent blocks become one.\<close>

inductive coalesce :: "(nat \<times> nat) set \<Rightarrow> (nat \<times> nat) set \<Rightarrow> bool" where
  none: "coalesce X X"
| join: "coalesce X Y \<Longrightarrow> (a, k) \<in> Y \<Longrightarrow> (a + 16 * k, l) \<in> Y \<Longrightarrow> coalesce X (insert (a, k + l) (Y - {(a, k), (a + 16 * k, l)}))"

lemma joined_right_other:
  "x \<noteq> bp \<Longrightarrow> hdrs (joined_right bp p s) x = hdrs s x" "base_at (joined_right bp p s) = base_at s"
  "brk (joined_right bp p s) = brk s" "limit (joined_right bp p s) = limit s"
  by (auto simp: joined_right_def)

lemma joined_left_other:
  "x \<noteq> p \<Longrightarrow> hdrs (joined_left bp p s) x = hdrs s x" "base_at (joined_left bp p s) = base_at s"
  "brk (joined_left bp p s) = brk s" "limit (joined_left bp p s) = limit s"
  by (auto simp: joined_left_def)

lemma free_join_other:
  "x \<noteq> bp \<Longrightarrow> x \<noteq> p \<Longrightarrow> hdrs (free_join bp p s) x = hdrs s x" "base_at (free_join bp p s) = base_at s"
  "brk (free_join bp p s) = brk s" "limit (free_join bp p s) = limit s" "freep (free_join bp p s) = p"
  by (simp_all add: free_join_steps joined_left_other joined_right_other)

text \<open>What is to the left, where \<open>R\<close> now follows the block.\<close>

lemma join_left:
  assumes l: "leads s bp (map fst R) (base_at s)" and k: "unat (hsize s bp) = k" "0 < k" and b: "base_at s < bp" "hsize s (base_at s) = 0"
    and p: "p = last (base_at s # map fst G)" and lg: "G \<noteq> [] \<Longrightarrow> leads s (base_at s) (map fst (butlast G)) p"
    and g: "sorted_wrt gap ((base_at s, 0) # G)" "sorted_wrt gap R" "\<forall>x \<in> set R. bp + 16 * k < fst x" "bp + 16 * k \<le> 2 ^ 36"
    and h: "\<forall>x \<in> set G. unat (hsize s (fst x)) = snd x \<and> 0 < snd x \<and> fst x + 16 * snd x \<le> bp" "\<forall>x \<in> set R. unat (hsize s (fst x)) = snd x \<and> 0 < snd x"
  obtains F where "blist F (joined_left bp p s)" and "p \<in> nodes F s" and "coalesce (insert (bp, k) (set G \<union> set R)) (set F)"
proof (cases "G \<noteq> [] \<and> fst (last G) + 16 * snd (last G) = bp")
  case True
  then obtain G' m where G: "G = G' @ [(p, m)]" and bp: "bp = p + 16 * m" using p by (cases G rule: rev_cases) auto
  have s1: "leads s (base_at s) (map fst G') p" using lg G by simp
  have m: "unat (hsize s p) = m" "0 < m" using h(1) G by simp_all
  have pb: "base_at s < p" "\<forall>x \<in> set G'. fst x < p" "p \<noteq> base_at s" using g(1) G by (auto simp: sorted_wrt_append gap_def)
  have e: "unat (hsize s p + hsize s bp) = m + k" using m k g(4) pb(1) bp by (intro sizes_add [where p = p]) auto
  have j: "joined_left bp p s = set_ptr p (ptr s bp) (set_size p (hsize s p + hsize s bp) s)" using m(1) bp by (simp add: joined_left_def after_def)
  have l1: "leads (joined_left bp p s) (base_at s) (map fst G') p" by (rule leads_swap [OF s1]) (use pb in \<open>auto simp: j\<close>)
  have l2: "leads (joined_left bp p s) p (map fst R) (base_at s)" unfolding j by (rule leads_swap [OF l]) (use g(3) bp in auto)
  let ?F = "G' @ (p, m + k) # R"
  show thesis
  proof (rule that [of ?F])
    have hs: "hsize (joined_left bp p s) x = (if x = p then hsize s p + hsize s bp else hsize s x)" for x unfolding j by simp
    have rp: "\<forall>x \<in> set R. p < fst x" using g(3) bp by auto
    have "\<forall>x \<in> set G'. fst x + 16 * snd x < p" using g(1) G by (auto simp: sorted_wrt_append gap_def)
    then have gr: "\<forall>x \<in> set G'. \<forall>y \<in> set R. gap x y" using rp unfolding gap_def by (meson less_trans)
    have "\<forall>x \<in> set ?F. unat (hsize (joined_left bp p s) (fst x)) = snd x \<and> 0 < snd x"
      unfolding hs using e h pb(2) m(2) G rp by auto
    moreover have "\<forall>x \<in> set R. gap (base_at s, 0) x" using rp pb(1) unfolding gap_def by (auto intro: less_trans)
    then have "sorted_wrt gap ((base_at s, 0) # ?F)" using g G bp gr by (auto simp: sorted_wrt_append) (auto simp: gap_def)
    ultimately show "blist ?F (joined_left bp p s)"
      unfolding blist_def joined_left_other using l1 l2 b(2) pb(3) by (simp add: leads_append hs)
    show "p \<in> nodes ?F s" by simp
    have "set ?F = insert (p, m + k) (insert (bp, k) (set G \<union> set R) - {(p, m), (p + 16 * m, k)})"
      using G g pb bp m k by (auto simp: gap_def)
    then show "coalesce (insert (bp, k) (set G \<union> set R)) (set ?F)"
      using coalesce.join [OF coalesce.none, of p m "insert (bp, k) (set G \<union> set R)" k] G bp by simp
  qed
next
  case False
  have np: "after p (hsize s p) \<noteq> bp" "p < bp" using False p b h(1) by (cases G rule: rev_cases; force simp: after_def)+
  have j: "joined_left bp p s = set_ptr p bp s" using np by (simp add: joined_left_def)
  have l2: "leads (joined_left bp p s) bp (map fst R) (base_at s)" by (rule leads_swap [OF l]) (use g(3) np in \<open>auto simp: j\<close>)
  let ?F = "G @ (bp, k) # R"
  have l1: "leads (joined_left bp p s) (base_at s) (map fst G) bp"
  proof (cases G rule: rev_cases)
    case Nil
    then show ?thesis unfolding j using p by simp
  next
    case (snoc G' x)
    then have lt: "\<forall>x \<in> set G'. fst x < p" "base_at s < p" using g(1) p by (auto simp: sorted_wrt_append gap_def)
    have "leads s (base_at s) (map fst G') p" using lg snoc by simp
    then have "leads (joined_left bp p s) (base_at s) (map fst G') p" unfolding j by (rule leads_swap) (use lt in auto)
    moreover have "ptr (joined_left bp p s) p = bp" unfolding j by simp
    ultimately show ?thesis using snoc p by (simp add: leads_append)
  qed
  have lt: "fst x + 16 * snd x < bp" if x: "x \<in> set G" for x
  proof -
    obtain G' y where G: "G = G' @ [y]" using x by (cases G rule: rev_cases) auto
    show ?thesis
    proof (cases "x = y")
      case True
      then show ?thesis using False G h(1) x by force
    next
      case neq: False
      then have "gap x y" using x G g(1) by (auto simp: sorted_wrt_append)
      then show ?thesis using h(1) G by (force simp: gap_def)
    qed
  qed
  show thesis
  proof (rule that [of ?F])
    have hs: "hsize (joined_left bp p s) x = hsize s x" for x unfolding j by simp
    have rp: "\<forall>x \<in> set R. bp < fst x" using g(3) by auto
    have "\<forall>x \<in> set G. \<forall>y \<in> set R. gap x y" "\<forall>x \<in> set R. gap (base_at s, 0) x"
      using rp lt b(1) unfolding gap_def by (meson less_trans, auto intro: less_trans)
    then have "sorted_wrt gap ((base_at s, 0) # ?F)" using g lt b(1) by (auto simp: sorted_wrt_append) (auto simp: gap_def)
    moreover have "\<forall>x \<in> set ?F. unat (hsize s (fst x)) = snd x \<and> 0 < snd x" using h k by auto
    ultimately show "blist ?F (joined_left bp p s)"
      unfolding blist_def joined_left_other hs using l1 l2 b(2) by (simp add: leads_append)
    show "p \<in> nodes ?F s" using p by (cases G rule: rev_cases) auto
    have "set ?F = insert (bp, k) (set G \<union> set R)" by auto
    then show "coalesce (insert (bp, k) (set G \<union> set R)) (set ?F)" using coalesce.none by simp
  qed
qed

lemma coalesce_trans: "coalesce Y Z \<Longrightarrow> coalesce X Y \<Longrightarrow> coalesce X Z"
  by (induction rule: coalesce.induct) (auto intro: coalesce.join)

lemma coalesce_right:
  assumes "H = (a + 16 * k, k' - k) # R \<and> k \<le> k' \<or> R = H \<and> k' = k" and "0 < k" and "\<forall>x \<in> set G. fst x < a" and "\<forall>x \<in> set R. a + 16 * k' < fst x"
  shows "coalesce (insert (a, k) (set G \<union> set H)) (insert (a, k') (set G \<union> set R))"
  using assms(1)
proof
  assume H: "H = (a + 16 * k, k' - k) # R \<and> k \<le> k'"
  let ?X = "insert (a, k) (set G \<union> set H)"
  have n: "(a + 16 * k, k' - k) \<notin> set G \<union> set R" "(a, k) \<notin> set G \<union> set R" using assms(3,4) H by fastforce+
  have "insert (a, k + (k' - k)) (?X - {(a, k), (a + 16 * k, k' - k)}) = insert (a, k') (set G \<union> set R)" using H n by auto
  then show ?thesis using coalesce.join [OF coalesce.none, of a k ?X "k' - k"] H by simp
qed (auto intro: coalesce.none)

text \<open>Both sides: \<open>z\<close> is the block before \<open>a\<close>.\<close>

lemma join_both:
  assumes f: "blist (G @ H) s" and z: "z = last (base_at s # map fst G)" and l: "leads s z (map fst H) (base_at s)"
    and lg: "G \<noteq> [] \<Longrightarrow> leads s (base_at s) (map fst (butlast G)) z" and k: "unat (hsize s a) = k" "0 < k" and b: "base_at s < a" "a + 16 * k \<le> 2 ^ 36"
    and hG: "\<forall>x \<in> set G. fst x + 16 * snd x \<le> a" and hH: "\<forall>x \<in> set H. a + 16 * k \<le> fst x \<and> fst x + 16 * snd x \<le> 2 ^ 36"
  obtains F where "blist F (free_join a z s)" and "z \<in> nodes F s" and "coalesce (insert (a, k) (set G \<union> set H)) (set F)"
proof -
  have so: "sorted_wrt gap ((base_at s, 0) # G)" "sorted_wrt gap H" and b0: "hsize s (base_at s) = 0"
    and sz: "\<forall>x \<in> set (G @ H). unat (hsize s (fst x)) = snd x \<and> 0 < snd x" using f by (auto simp: blist_def sorted_wrt_append)
  let ?s1 = "joined_right a z s"
  note o = joined_right_other [where bp = a and p = z and s = s] and ob = joined_right_other(2) [of a z s]
  have hH': "\<forall>x \<in> set H. unat (hsize s (fst x)) = snd x \<and> a + 16 * k \<le> fst x \<and> fst x + 16 * snd x \<le> 2 ^ 36" using hH sz by simp
  obtain k' R where R: "leads ?s1 a (map fst R) (base_at s)" "unat (hsize ?s1 a) = k'"
    "H = (a + 16 * k, k' - k) # R \<and> k \<le> k' \<or> R = H \<and> k' = k" "\<forall>x \<in> set R. a + 16 * k' < fst x"
    by (rule join_right [OF l k b(1) hH' so(2)])
  have k': "0 < k'" "set R \<subseteq> set H" "sorted_wrt gap R" "a + 16 * k' \<le> 2 ^ 36" using R(3) k(2) so(2) hH b(2) by auto
  have lt: "\<forall>x \<in> set G. fst x < a"
  proof
    fix x assume "x \<in> set G"
    then have "0 < snd x" "fst x + 16 * snd x \<le> a" using hG sz by auto
    then show "fst x < a" by simp
  qed
  have hs: "hsize ?s1 x = hsize s x" if "x \<noteq> a" for x using o(1) [OF that] by simp
  have s1: "hsize ?s1 (base_at ?s1) = 0" using b b0 by (simp add: o(2) hs)
  have nb: "x \<noteq> a" if "x \<in> set (map fst (butlast G))" for x using that lt by (auto dest!: in_set_butlastD)
  have lg1: "leads ?s1 (base_at ?s1) (map fst (butlast G)) z" if "G \<noteq> []"
    unfolding o(2) by (rule leads_swap [OF lg [OF that]]) (use b(1) nb o(1) in simp_all)
  have g1: "\<forall>x \<in> set G. unat (hsize ?s1 (fst x)) = snd x \<and> 0 < snd x \<and> fst x + 16 * snd x \<le> a"
  proof
    fix x assume "x \<in> set G"
    then show "unat (hsize ?s1 (fst x)) = snd x \<and> 0 < snd x \<and> fst x + 16 * snd x \<le> a" using hs [of "fst x"] lt sz hG by auto
  qed
  have r1: "\<forall>x \<in> set R. unat (hsize ?s1 (fst x)) = snd x \<and> 0 < snd x"
  proof
    fix x assume x: "x \<in> set R"
    then have "fst x \<noteq> a" "x \<in> set (G @ H)" using R(4) k'(2) by auto
    then show "unat (hsize ?s1 (fst x)) = snd x \<and> 0 < snd x" using sz hs by simp
  qed
  obtain F where F: "blist F (joined_left a z ?s1)" "z \<in> nodes F ?s1" "coalesce (insert (a, k') (set G \<union> set R)) (set F)"
    by (rule join_left [OF R(1) [folded ob] R(2) k'(1) b(1) [folded ob] s1 z [folded ob] lg1 so(1) [folded ob] k'(3) R(4) k'(4) g1 r1])
  have "blist F (free_join a z s)" using F(1) leads_cong [of "base_at s" "map fst F" "free_join a z s" "joined_left a z ?s1"]
    by (simp add: blist_def free_join_steps joined_left_other o)
  then show thesis using that F(2) coalesce_trans [OF F(3) coalesce_right [OF R(3) k(2) lt R(4)]] by (simp add: o)
qed

section \<open>The heap as a partition into blocks\<close>

definition part :: "nat \<Rightarrow> nat \<Rightarrow> (nat \<times> nat) set \<Rightarrow> bool" where
  "part lo hi X \<longleftrightarrow> (\<forall>x \<in> X. 0 < snd x) \<and>
     (\<forall>x \<in> X. \<forall>y \<in> X. x \<noteq> y \<longrightarrow> fst x + 16 * snd x \<le> fst y \<or> fst y + 16 * snd y \<le> fst x) \<and>
     (\<forall>b. lo \<le> b \<and> b < hi \<longleftrightarrow> (\<exists>x \<in> X. fst x \<le> b \<and> b < fst x + 16 * snd x))"

lemma part_apart: "part lo hi X \<Longrightarrow> x \<in> X \<Longrightarrow> y \<in> X \<Longrightarrow> x \<noteq> y \<Longrightarrow> fst x + 16 * snd x \<le> fst y \<or> fst y + 16 * snd y \<le> fst x"
  unfolding part_def by blast

lemma part_pos: "part lo hi X \<Longrightarrow> x \<in> X \<Longrightarrow> 0 < snd x"
  unfolding part_def by blast

lemma part_cover: "part lo hi X \<Longrightarrow> lo \<le> b \<and> b < hi \<longleftrightarrow> (\<exists>x \<in> X. fst x \<le> b \<and> b < fst x + 16 * snd x)"
  unfolding part_def by blast

lemma part_within:
  assumes "part lo hi X" and "x \<in> X"
  shows "lo \<le> fst x" and "fst x + 16 * snd x \<le> hi"
proof -
  have p: "0 < snd x" by (rule part_pos [OF assms])
  then show "lo \<le> fst x" using part_cover [OF assms(1), of "fst x"] assms(2) by auto
  have "fst x + 16 * snd x - 1 < hi" using part_cover [OF assms(1), of "fst x + 16 * snd x - 1"] assms(2) p by fastforce
  then show "fst x + 16 * snd x \<le> hi" using p by simp
qed

lemma part_same: "part lo hi X \<Longrightarrow> x \<in> X \<Longrightarrow> y \<in> X \<Longrightarrow> fst x \<le> fst y \<Longrightarrow> fst y < fst x + 16 * snd x \<Longrightarrow> x = y"
  using part_apart [of lo hi X x y] part_pos [of lo hi X y] by fastforce

lemma part_join:
  assumes p: "part lo hi X" and a: "(a, k) \<in> X" and b: "(a + 16 * k, l) \<in> X"
  shows "part lo hi (insert (a, k + l) (X - {(a, k), (a + 16 * k, l)}))"
  unfolding part_def
proof (intro conjI ballI allI impI)
  let ?Y = "insert (a, k + l) (X - {(a, k), (a + 16 * k, l)})"
  have kl: "0 < k" "0 < l" using part_pos [OF p a] part_pos [OF p b] by simp_all
  have ap: "fst x + 16 * snd x \<le> a \<or> a + 16 * (k + l) \<le> fst x" if "x \<in> X - {(a, k), (a + 16 * k, l)}" for x
  proof -
    have "0 < snd x" using part_pos [OF p] that by blast
    then show ?thesis using part_apart [OF p, of x "(a, k)"] part_apart [OF p, of x "(a + 16 * k, l)"] that a b kl by auto
  qed
  show "0 < snd x" if "x \<in> ?Y" for x using that part_pos [OF p, of x] kl by auto
  show "fst x + 16 * snd x \<le> fst y \<or> fst y + 16 * snd y \<le> fst x" if "x \<in> ?Y" "y \<in> ?Y" "x \<noteq> y" for x y
    using that ap [of x] ap [of y] part_apart [OF p, of x y] by auto
  show "(lo \<le> c \<and> c < hi) = (\<exists>x \<in> ?Y. fst x \<le> c \<and> c < fst x + 16 * snd x)" for c
  proof -
    have "(\<exists>x \<in> ?Y. fst x \<le> c \<and> c < fst x + 16 * snd x) \<longleftrightarrow> (\<exists>x \<in> X. fst x \<le> c \<and> c < fst x + 16 * snd x)"
    proof
      assume "\<exists>x \<in> ?Y. fst x \<le> c \<and> c < fst x + 16 * snd x"
      then consider "a \<le> c" "c < a + 16 * (k + l)" | "\<exists>x \<in> X. fst x \<le> c \<and> c < fst x + 16 * snd x" by auto
      then show "\<exists>x \<in> X. fst x \<le> c \<and> c < fst x + 16 * snd x"
      proof cases
        case 1
        then show ?thesis using a b by (cases "c < a + 16 * k") (force intro: bexI [of _ "(a, k)"] bexI [of _ "(a + 16 * k, l)"])+
      qed
    next
      assume "\<exists>x \<in> X. fst x \<le> c \<and> c < fst x + 16 * snd x"
      then obtain x where x: "x \<in> X" "fst x \<le> c" "c < fst x + 16 * snd x" by blast
      show "\<exists>x \<in> ?Y. fst x \<le> c \<and> c < fst x + 16 * snd x"
        using x by (cases "x = (a, k) \<or> x = (a + 16 * k, l)") auto
    qed
    then show ?thesis using part_cover [OF p] by simp
  qed
qed

lemma part_split:
  assumes p: "part lo hi X" and a: "(a, k + l) \<in> X" and kl: "0 < k" "0 < l"
  shows "part lo hi (insert (a, k) (insert (a + 16 * k, l) (X - {(a, k + l)})))"
  unfolding part_def
proof (intro conjI ballI allI impI)
  let ?Y = "insert (a, k) (insert (a + 16 * k, l) (X - {(a, k + l)}))"
  have ap: "fst x + 16 * snd x \<le> a \<or> a + 16 * (k + l) \<le> fst x" if "x \<in> X - {(a, k + l)}" for x
    using part_apart [OF p, of x "(a, k + l)"] that a by auto
  show "0 < snd x" if "x \<in> ?Y" for x using that part_pos [OF p, of x] kl by auto
  show "fst x + 16 * snd x \<le> fst y \<or> fst y + 16 * snd y \<le> fst x" if "x \<in> ?Y" "y \<in> ?Y" "x \<noteq> y" for x y
    using that ap [of x] ap [of y] part_apart [OF p, of x y] by auto
  show "(lo \<le> c \<and> c < hi) = (\<exists>x \<in> ?Y. fst x \<le> c \<and> c < fst x + 16 * snd x)" for c
  proof -
    have "(\<exists>x \<in> ?Y. fst x \<le> c \<and> c < fst x + 16 * snd x) \<longleftrightarrow> (\<exists>x \<in> X. fst x \<le> c \<and> c < fst x + 16 * snd x)"
    proof
      assume "\<exists>x \<in> ?Y. fst x \<le> c \<and> c < fst x + 16 * snd x"
      then consider "a \<le> c" "c < a + 16 * (k + l)" | "\<exists>x \<in> X. fst x \<le> c \<and> c < fst x + 16 * snd x" by auto
      then show "\<exists>x \<in> X. fst x \<le> c \<and> c < fst x + 16 * snd x" using a by cases force+
    next
      assume "\<exists>x \<in> X. fst x \<le> c \<and> c < fst x + 16 * snd x"
      then obtain x where x: "x \<in> X" "fst x \<le> c" "c < fst x + 16 * snd x" by blast
      show "\<exists>x \<in> ?Y. fst x \<le> c \<and> c < fst x + 16 * snd x"
        using x by (cases "x = (a, k + l)"; cases "c < a + 16 * k") auto
    qed
    then show ?thesis using part_cover [OF p] by simp
  qed
qed

lemma part_extend:
  assumes p: "part lo hi X" and "0 < k" and "lo \<le> hi"
  shows "part lo (hi + 16 * k) (insert (hi, k) X)"
  unfolding part_def
proof (intro conjI ballI allI impI)
  show "0 < snd x" if "x \<in> insert (hi, k) X" for x using that part_pos [OF p, of x] assms(2) by auto
  show "fst x + 16 * snd x \<le> fst y \<or> fst y + 16 * snd y \<le> fst x" if "x \<in> insert (hi, k) X" "y \<in> insert (hi, k) X" "x \<noteq> y" for x y
    using that part_within(2) [OF p, of x] part_within(2) [OF p, of y] part_apart [OF p, of x y] by auto
  show "(lo \<le> c \<and> c < hi + 16 * k) = (\<exists>x \<in> insert (hi, k) X. fst x \<le> c \<and> c < fst x + 16 * snd x)" for c
    using part_cover [OF p, of c] assms(3) by auto
qed

lemma coalesce_bigger: "coalesce X Y \<Longrightarrow> x \<in> X \<Longrightarrow> \<exists>y \<in> Y. snd x \<le> snd y"
proof (induction rule: coalesce.induct)
  case (join X Y a k l)
  then obtain y where y: "y \<in> Y" "snd x \<le> snd y" by blast
  show ?case
  proof (cases "y = (a, k) \<or> y = (a + 16 * k, l)")
    case True
    then show ?thesis using y(2) by (intro bexI [of _ "(a, k + l)"]) auto
  qed (use y in auto)
qed auto

lemma coalesce_part:
  assumes "coalesce X Y" and "part lo hi (X \<union> A)" and "X \<inter> A = {}"
  shows "part lo hi (Y \<union> A) \<and> Y \<inter> A = {}"
  using assms
proof (induction rule: coalesce.induct)
  case (join X Y a k l)
  then have p: "part lo hi (Y \<union> A)" and d: "Y \<inter> A = {}" by simp_all
  have m: "(a, k) \<in> Y \<union> A" "(a + 16 * k, l) \<in> Y \<union> A" using join by simp_all
  have kl: "0 < k" "0 < l" using part_pos [OF p m(1)] part_pos [OF p m(2)] by simp_all
  have "(a, k + l) \<notin> Y \<union> A" using part_same [OF p _ m(1), of "(a, k + l)"] kl by auto
  moreover have "insert (a, k + l) (Y \<union> A - {(a, k), (a + 16 * k, l)}) = insert (a, k + l) (Y - {(a, k), (a + 16 * k, l)}) \<union> A"
    using d join.hyps by blast
  ultimately show ?case using part_join [OF p m] d by auto
qed simp

section \<open>free\<close>

text \<open>\<open>heap F A s\<close>: the free blocks are \<open>F\<close>, the blocks handed out are \<open>A\<close>, which gives their sizes in headers;
  together they are all of the memory from \<open>lo\<close> to the end of the process.\<close>

definition heap :: "nat \<Rightarrow> (nat \<times> nat) list \<Rightarrow> (nat \<rightharpoonup> nat) \<Rightarrow> uheap \<Rightarrow> bool" where
  "heap lo F A s \<longleftrightarrow> blist F s \<and> freep s \<in> nodes F s \<and> part lo (brk s) (set F \<union> Map.graph A) \<and> set F \<inter> Map.graph A = {} \<and>
     (\<forall>a k. A a = Some k \<longrightarrow> unat (hsize s a) = k) \<and> 0 < base_at s \<and> base_at s + 16 \<le> lo \<and> lo \<le> brk s \<and> brk s \<le> limit s \<and> limit s \<le> 2 ^ 36"

lemma graph_iff: "(a, k) \<in> Map.graph A \<longleftrightarrow> A a = Some k"
  by (auto simp: Map.graph_def)

lemma graph_upd: "A z = None \<Longrightarrow> Map.graph (A(z \<mapsto> k)) = insert (z, k) (Map.graph A)"
  by (auto simp: graph_iff split: if_splits)

lemma heap_block:
  assumes h: "heap lo F A s" and x: "x \<in> set F \<union> Map.graph A"
  shows "base_at s < fst x" and "fst x + 16 * snd x \<le> 2 ^ 36"
  using part_within [of lo "brk s" "set F \<union> Map.graph A" x] h x by (simp_all add: heap_def)

lemma heap_taken: "heap lo F A s \<Longrightarrow> A a = Some k \<Longrightarrow> a \<notin> fst ` set F"
proof
  assume h: "heap lo F A s" and a: "A a = Some k" and "a \<in> fst ` set F"
  then obtain m where m: "(a, m) \<in> set F" by auto
  have p: "part lo (brk s) (set F \<union> Map.graph A)" and d: "set F \<inter> Map.graph A = {}" using h by (simp_all add: heap_def)
  have g: "(a, k) \<in> Map.graph A" using a by (simp add: graph_iff)
  have "(a, m) = (a, k)" using part_same [OF p, of "(a, m)" "(a, k)"] m g part_pos [OF p, of "(a, m)"] by auto
  then show False using m g d by auto
qed

lemma free_ok:
  assumes h: "heap lo F A s" and a: "A a = Some k"
  obtains F' s' where "free (a + 16) s = Some s'" and "heap lo F' (A(a := None)) s'" and "base_at s' = base_at s" and "brk s' = brk s"
    and "limit s' = limit s" and "\<exists>y \<in> set F'. k \<le> snd y"
proof -
  have f: "blist F s" and fp: "freep s \<in> nodes F s" and p: "part lo (brk s) (set F \<union> Map.graph A)" and d: "set F \<inter> Map.graph A = {}"
    and sz: "\<forall>a k. A a = Some k \<longrightarrow> unat (hsize s a) = k" using h by (simp_all add: heap_def)
  have g: "(a, k) \<in> Map.graph A" using a by (simp add: graph_iff)
  have k: "unat (hsize s a) = k" "0 < k" using sz a part_pos [OF p, of "(a, k)"] g by auto
  have n: "a \<notin> fst ` set F" by (rule heap_taken [OF h a])
  have b: "base_at s < a" "a + 16 * k \<le> 2 ^ 36" using heap_block [OF h, of "(a, k)"] g by auto
  obtain G H where GH: "F = G @ H" "free_find a (freep s) s = Some (last (base_at s # map fst G))"
    "\<forall>x \<in> set G. fst x < a" "\<forall>x \<in> set H. a < fst x" "leads s (last (base_at s # map fst G)) (map fst H) (base_at s)"
    and lg: "G \<noteq> [] \<Longrightarrow> leads s (base_at s) (map fst (butlast G)) (last (base_at s # map fst G))"
    by (rule free_find_place [OF f fp b(1) n]) blast
  define z where "z = last (base_at s # map fst G)"
  have ap: "fst x + 16 * snd x \<le> a \<or> a + 16 * k \<le> fst x" if "x \<in> set F" for x
    using part_apart [OF p, of x "(a, k)"] that g d by auto
  have hG: "\<forall>x \<in> set G. fst x + 16 * snd x \<le> a" using ap GH(1,3) by fastforce
  have hH: "\<forall>x \<in> set H. a + 16 * k \<le> fst x \<and> fst x + 16 * snd x \<le> 2 ^ 36" using ap GH(1,4) heap_block(2) [OF h] by fastforce
  obtain F' where F': "blist F' (free_join a z s)" "z \<in> nodes F' s" "coalesce (insert (a, k) (set G \<union> set H)) (set F')"
    by (rule join_both [OF f [unfolded GH(1)] z_def GH(5) [folded z_def] lg [folded z_def] k b hG hH])
  let ?A = "A(a := None)"
  have X: "insert (a, k) (set F) \<union> Map.graph ?A = set F \<union> Map.graph A" using a by (auto simp: graph_iff split: if_splits)
  have D: "insert (a, k) (set F) \<inter> Map.graph ?A = {}" using d by (auto simp: graph_iff split: if_splits)
  have P: "part lo (brk s) (set F' \<union> Map.graph ?A) \<and> set F' \<inter> Map.graph ?A = {}"
    using coalesce_part [OF F'(3), of lo "brk s" "Map.graph ?A"] p X D GH(1) by (simp add: Un_commute)
  note o = free_join_other [where bp = a and p = z and s = s]
  have zr: "z \<in> nodes F s" using GH(1) by (cases G rule: rev_cases) (auto simp: z_def)
  have "unat (hsize (free_join a z s) c) = l" if c: "?A c = Some l" for c l
  proof -
    have c': "A c = Some l" "c \<noteq> a" using c by (auto split: if_splits)
    have "base_at s < c" using heap_block(1) [OF h, of "(c, l)"] c'(1) by (simp add: graph_iff)
    then have "c \<noteq> z" using zr heap_taken [OF h c'(1)] by auto
    then show ?thesis using o(1) [OF c'(2)] sz c'(1) by simp
  qed
  then have "heap lo F' ?A (free_join a z s)" using h F'(1,2) P unfolding heap_def by (auto simp: o)
  moreover have "free (a + 16) s = Some (free_join a z s)" using GH(2) by (simp add: free_def z_def)
  moreover have "\<exists>y \<in> set F'. k \<le> snd y" using coalesce_bigger [OF F'(3), of "(a, k)"] by simp
  ultimately show thesis using that [of "free_join a z s" F'] o by simp
qed

section \<open>malloc\<close>

lemma leads_skip:
  assumes f: "blist (G @ (z, k) # H) s" and p: "p = last (base_at s # map fst G)"
    and s': "ptr s' p = ptr s z" "\<And>x. x \<noteq> p \<Longrightarrow> ptr s' x = ptr s x"
  shows "leads s' (base_at s) (map fst (G @ H)) (base_at s)"
proof -
  have so: "sorted_wrt gap ((base_at s, 0) # G @ (z, k) # H)" and l: "leads s (base_at s) (map fst G @ z # map fst H) (base_at s)"
    using f by (simp_all add: blist_def)
  have l2: "leads s z (map fst H) (base_at s)" and l1: "leads s (base_at s) (map fst G) z" using l by (simp_all add: leads_append)
  have d: "distinct (map fst ((base_at s, 0) # G @ (z, k) # H))" by (rule gaps_distinct [OF so])
  have pG: "p \<notin> fst ` set H" using d p by (cases G rule: rev_cases) auto
  have l2': "leads s' p (map fst H) (base_at s)" by (rule leads_swap [OF l2 s'(1)]) (metis pG list.set_map s'(2))
  show ?thesis
  proof (cases G rule: rev_cases)
    case Nil
    then show ?thesis using l2' p by simp
  next
    case (snoc G' x)
    then have px: "fst x = p" and ne: "base_at s \<noteq> p" "p \<notin> fst ` set G'" using p d by auto
    have "leads s (base_at s) (map fst G') p" using l1 snoc px by (simp add: leads_append)
    then have "leads s' (base_at s) (map fst G') p" by (rule leads_swap) (metis ne(1) s'(2), metis ne(2) list.set_map s'(2))
    then show ?thesis using snoc px l2' by (simp add: leads_append)
  qed
qed

text \<open>Taking a whole block, or the end of one.\<close>

lemma take_exact:
  assumes h: "heap lo (G @ (z, k) # H) A s" and p: "p = last (base_at s # map fst G)" and k: "k = unat n"
  shows "heap lo (G @ H) (A(z \<mapsto> k)) ((set_ptr p (ptr s z) s)\<lparr>freep := p\<rparr>)" and "A z = None"
proof -
  let ?F = "G @ (z, k) # H" and ?s = "(set_ptr p (ptr s z) s)\<lparr>freep := p\<rparr>"
  have f: "blist ?F s" and pt: "part lo (brk s) (set ?F \<union> Map.graph A)" and d: "set ?F \<inter> Map.graph A = {}" using h by (simp_all add: heap_def)
  have dz: "distinct (map fst ((base_at s, 0) # ?F))" using f by (intro gaps_distinct) (simp add: blist_def)
  show An: "A z = None" using heap_taken [OF h] by (cases "A z") auto
  have l: "leads ?s (base_at s) (map fst (G @ H)) (base_at s)" by (rule leads_skip [OF f p]) auto
  have "sorted_wrt gap ((base_at s, 0) # G @ H)" "hsize s (base_at s) = 0" "\<forall>x \<in> set (G @ H). unat (hsize s (fst x)) = snd x \<and> 0 < snd x"
    using f unfolding blist_def by (simp_all add: sorted_wrt_append)
  moreover have bs: "base_at ?s = base_at s" and hs: "hsize ?s x = hsize s x" for x by simp_all
  ultimately have "blist (G @ H) ?s" using l unfolding blist_def bs hs by blast
  moreover have "p \<in> nodes (G @ H) ?s" using p by (cases G rule: rev_cases) auto
  moreover have "set (G @ H) \<union> Map.graph (A(z \<mapsto> k)) = set ?F \<union> Map.graph A" unfolding graph_upd [of A, OF An] by auto
  moreover have "z \<notin> fst ` set (G @ H)" using dz by (simp add: image_Un)
  then have "(z, k) \<notin> set (G @ H)" by (metis fst_conv image_eqI)
  then have "set (G @ H) \<inter> Map.graph (A(z \<mapsto> k)) = {}" using d unfolding graph_upd [of A, OF An] by auto
  moreover have "\<forall>a l. (A(z \<mapsto> k)) a = Some l \<longrightarrow> unat (hsize s a) = l" using f h by (simp add: blist_def heap_def)
  ultimately show "heap lo (G @ H) (A(z \<mapsto> k)) ?s" using h pt unfolding heap_def by simp
qed

lemma inside_block:
  assumes h: "heap lo (G @ (z, k) # H) A s" and q: "z < q" "q < z + 16 * k"
  shows "q \<noteq> base_at s" and "q \<notin> fst ` set (G @ (z, k) # H)" and "A q = None"
proof -
  let ?X = "set (G @ (z, k) # H) \<union> Map.graph A"
  have p: "part lo (brk s) ?X" using h by (simp add: heap_def)
  have n: "(q, l) \<notin> ?X" for l using part_same [OF p, of "(z, k)" "(q, l)"] q by auto
  show "q \<notin> fst ` set (G @ (z, k) # H)" using n by (metis UnI1 imageE prod.collapse)
  show "A q = None" using n by (metis UnI2 graph_iff option.exhaust)
  show "q \<noteq> base_at s" using heap_block(1) [OF h, of "(z, k)"] q(1) by simp
qed

lemma take_part:
  assumes h: "heap lo (G @ (z, k) # H) A s" and p: "p \<in> nodes (G @ (z, k) # H) s" and n: "unat n < k" "0 < unat n"
  defines "q \<equiv> z + 16 * (k - unat n)"
  defines "s' \<equiv> (set_size q n (set_size z (hsize s z - n) s))\<lparr>freep := p\<rparr>"
  shows "heap lo (G @ (z, k - unat n) # H) (A(q \<mapsto> unat n)) s'" and "A q = None" and "after z (hsize s z - n) = q"
proof -
  let ?F = "G @ (z, k) # H" and ?F' = "G @ (z, k - unat n) # H"
  have f: "blist ?F s" and pt: "part lo (brk s) (set ?F \<union> Map.graph A)" and d: "set ?F \<inter> Map.graph A = {}"
    and sz: "\<forall>a k. A a = Some k \<longrightarrow> unat (hsize s a) = k" using h by (simp_all add: heap_def)
  have dz: "distinct (map fst ((base_at s, 0) # ?F))" using f by (intro gaps_distinct) (simp add: blist_def)
  have k: "unat (hsize s z) = k" using f by (simp add: blist_def)
  have sub: "unat (hsize s z - n) = k - unat n" using k n(1) by (simp add: unat_sub word_le_nat_alt)
  then show "after z (hsize s z - n) = q" by (simp add: after_def q_def)
  have q: "z < q" "q < z + 16 * k" using n by (simp_all add: q_def)
  note i = inside_block [OF h q]
  show "A q = None" by (rule i(3))
  have Az: "A z = None" using heap_taken [OF h] by (cases "A z") auto
  have zn: "z \<notin> fst ` set (G @ H)" "z \<noteq> base_at s" using dz by (auto simp: image_Un)
  have hs: "hsize s' x = (if x = q then n else if x = z then hsize s z - n else hsize s x)" for x by (simp add: s'_def)
  have o: "base_at s' = base_at s" "ptr s' x = ptr s x" "brk s' = brk s" "limit s' = limit s" "freep s' = p" for x by (simp_all add: s'_def)
  have "blist ?F' s'"
    unfolding blist_def
  proof (intro conjI ballI)
    show "leads s' (base_at s') (map fst ?F') (base_at s')"
      using f leads_cong [of "base_at s" "map fst ?F" s' s "base_at s"] o by (simp add: blist_def)
    show "hsize s' (base_at s') = 0" using f i(1) zn(2) by (simp add: hs o blist_def)
    show "unat (hsize s' (fst x)) = snd x" "0 < snd x" if "x \<in> set ?F'" for x
    proof -
      have "x = (z, k - unat n) \<or> x \<in> set (G @ H) \<and> fst x \<noteq> z \<and> fst x \<noteq> q" using that zn(1) i(2) by auto
      then show "unat (hsize s' (fst x)) = snd x" "0 < snd x" using f sub n q by (auto simp: hs blist_def)
    qed
    show "sorted_wrt gap ((base_at s', 0) # ?F')" using f unfolding blist_def o by (auto simp: sorted_wrt_append gap_def)
  qed
  moreover have "p \<in> nodes ?F' s'" using p by (simp add: o)
  moreover have "set ?F' \<union> Map.graph (A(q \<mapsto> unat n)) = insert (z, k - unat n) (insert (q, unat n) (set ?F \<union> Map.graph A - {(z, k)}))"
  proof -
    have "(z, k) \<notin> set (G @ H)" using zn(1) by (metis fst_conv image_eqI)
    moreover have "(z, k) \<notin> Map.graph A" using Az by (simp add: graph_iff)
    ultimately show ?thesis unfolding graph_upd [of A, OF i(3)] by auto
  qed
  then have "part lo (brk s') (set ?F' \<union> Map.graph (A(q \<mapsto> unat n)))"
    using part_split [of lo "brk s" _ z "k - unat n" "unat n", OF pt] n unfolding q_def o by simp
  moreover have "(q, unat n) \<notin> set ?F'" using i(2) q by (metis (no_types, lifting) Un_iff fst_conv image_eqI insert_iff list.simps(15) set_append prod.inject order_less_irrefl)
  then have "set ?F' \<inter> Map.graph (A(q \<mapsto> unat n)) = {}" using d Az unfolding graph_upd [of A, OF i(3)] by (auto simp: graph_iff)
  moreover have "\<forall>a l. (A(q \<mapsto> unat n)) a = Some l \<longrightarrow> unat (hsize s' a) = l" using sz Az by (auto simp: hs)
  ultimately show "heap lo ?F' (A(q \<mapsto> unat n)) s'" using h unfolding heap_def by (simp add: o)
qed

lemma malloc_take_ok:
  assumes h: "heap lo F A s" and p: "p \<in> nodes F s" "ptr s p = z" and n: "n \<le> hsize s z" "0 < unat n"
  obtains F' a s' where "malloc_take n p z s = (a + 16, s')" and "heap lo F' (A(a \<mapsto> unat n)) s'" and "A a = None"
    and "base_at s' = base_at s" and "brk s' = brk s" and "limit s' = limit s"
proof -
  have f: "blist F s" using h by (simp add: heap_def)
  obtain G H where s: "F = G @ H" "p = last (base_at s # map fst G)" "ptr s p = (case H of [] \<Rightarrow> base_at s | x # _ \<Rightarrow> fst x)"
    using ring_split [OF f p(1)] by metis
  have "z \<noteq> base_at s" using n f by (auto simp: blist_def word_le_nat_alt)
  then obtain k H' where H: "H = (z, k) # H'" using s(3) p(2) by (cases H) auto
  have k: "unat (hsize s z) = k" using f s(1) H by (simp add: blist_def)
  have hh: "heap lo (G @ (z, k) # H') A s" using h s(1) H by simp
  show thesis
  proof (cases "hsize s z = n")
    case True
    have "malloc_take n p z s = (z + 16, (set_ptr p (ptr s z) s)\<lparr>freep := p\<rparr>)" using True by (simp add: malloc_take_def)
    then show thesis using that take_exact [OF hh s(2), of n] True k by simp
  next
    case False
    then have "unat n < k" using n(1) k by (metis order_le_less word_less_nat_alt)
    note t = take_part [OF hh _ this n(2), of p]
    have "malloc_take n p z s = (z + 16 * (k - unat n) + 16,
        (set_size (z + 16 * (k - unat n)) n (set_size z (hsize s z - n) s))\<lparr>freep := p\<rparr>)"
      using False t(3) p(1) s(1) H by (simp add: malloc_take_def Let_def)
    then show thesis using that t p(1) s(1) H by simp
  qed
qed

lemma sint_units: "unat (nu :: u32) * 16 < 2 ^ 31 \<Longrightarrow> sint (nu * 16) = int (16 * unat nu)"
proof -
  assume b: "unat nu * 16 < 2 ^ 31"
  have "nu * 16 = of_nat (16 * unat nu)" by simp
  moreover have "sint (of_nat n :: u32) = int n" if "n < 2 ^ 31" for n
    using that by (simp add: signed_of_nat signed_take_bit_int_eq_self)
  ultimately show ?thesis using b by (simp only: mult.commute)
qed

text \<open>The memory that \<^verbatim>\<open>sbrk\<close> gives is a block handed out, which is then freed.\<close>

lemma heap_grow:
  assumes h: "heap lo F A s" and nu: "0 < unat nu" and l: "brk s + 16 * unat nu \<le> limit s"
  defines "s' \<equiv> set_size (brk s) nu (s\<lparr>brk := brk s + 16 * unat nu\<rparr>)"
  shows "heap lo F (A(brk s \<mapsto> unat nu)) s'" and "A (brk s) = None"
proof -
  let ?q = "brk s"
  have f: "blist F s" and pt: "part lo ?q (set F \<union> Map.graph A)" and d: "set F \<inter> Map.graph A = {}" and lb: "base_at s + 16 \<le> lo" "lo \<le> ?q"
    and sz: "\<forall>a k. A a = Some k \<longrightarrow> unat (hsize s a) = k" using h by (simp_all add: heap_def)
  have lt: "fst x < ?q" if "x \<in> set F \<union> Map.graph A" for x
    using part_within(2) [OF pt that] part_pos [OF pt that] by simp
  have nF: "?q \<notin> nodes F s" using lt lb by fastforce
  show An: "A ?q = None" using lt [of "(?q, the (A ?q))"] by (cases "A ?q") (auto simp: graph_iff)
  have hs: "hsize s' x = (if x = ?q then nu else hsize s x)" for x by (simp add: s'_def)
  have o: "base_at s' = base_at s" "ptr s' x = ptr s x" "brk s' = ?q + 16 * unat nu" "limit s' = limit s" "freep s' = freep s" for x by (simp_all add: s'_def)
  have "blist F s'"
    unfolding blist_def
  proof (intro conjI ballI)
    show "leads s' (base_at s') (map fst F) (base_at s')"
      using f leads_cong [of "base_at s" "map fst F" s' s "base_at s"] o by (simp add: blist_def)
    show "hsize s' (base_at s') = 0" using f nF by (simp add: hs o blist_def)
    show "unat (hsize s' (fst x)) = snd x" "0 < snd x" if "x \<in> set F" for x
      using f lt [of x] that by (auto simp: hs blist_def)
    show "sorted_wrt gap ((base_at s', 0) # F)" using f by (simp add: blist_def o)
  qed
  moreover have "set F \<union> Map.graph (A(?q \<mapsto> unat nu)) = insert (?q, unat nu) (set F \<union> Map.graph A)" unfolding graph_upd [of A, OF An] by auto
  then have "part lo (brk s') (set F \<union> Map.graph (A(?q \<mapsto> unat nu)))" using part_extend [OF pt nu lb(2)] by (simp add: o)
  moreover have "(?q, unat nu) \<notin> set F" using lt [of "(?q, unat nu)"] by auto
  then have "set F \<inter> Map.graph (A(?q \<mapsto> unat nu)) = {}" using d unfolding graph_upd [of A, OF An] by auto
  moreover have "\<forall>a l. (A(?q \<mapsto> unat nu)) a = Some l \<longrightarrow> unat (hsize s' a) = l" using sz An by (auto simp: hs)
  ultimately show "heap lo F (A(?q \<mapsto> unat nu)) s'" using h l unfolding heap_def by (auto simp: o)
qed

definition core_units :: "u32 \<Rightarrow> nat" where
  "core_units nu = max 4096 (unat nu)"

lemma morecore_ok:
  assumes h: "heap lo F A s" and nu: "unat nu * 16 < 2 ^ 31"
  shows "if brk s + 16 * core_units nu > limit s then morecore nu s = Some (0, s)
     else \<exists>F' s'. morecore nu s = Some (freep s', s') \<and> heap lo F' A s' \<and> (\<exists>y \<in> set F'. unat nu \<le> snd y) \<and> base_at s' = base_at s \<and>
       brk s' = brk s + 16 * core_units nu \<and> limit s' = limit s"
proof -
  define m where "m = (if nu < 4096 then 4096 else nu)"
  have m: "unat m = core_units nu" "unat m * 16 < 2 ^ 31" "0 < unat m" "unat nu \<le> unat m"
    using nu by (auto simp: m_def core_units_def word_less_nat_alt max_def)
  note si = sint_units [OF m(2)]
  show ?thesis
  proof (cases "brk s + 16 * core_units nu > limit s")
    case True
    then have "sbrk (m * 16) s = (None, s)" using m(1,3) by (simp add: sbrk_def si)
    then show ?thesis using True by (simp add: morecore_def m_def [symmetric])
  next
    case False
    let ?t = "s\<lparr>brk := brk s + 16 * unat m\<rparr>"
    have sb: "sbrk (m * 16) s = (Some (brk s), ?t)" using False m(1,3) by (simp add: sbrk_def si)
    have l: "brk s + 16 * unat m \<le> limit s" using False m(1) by simp
    note g = heap_grow [OF h m(3) l]
    obtain F' s' where s': "free (brk s + 16) (set_size (brk s) m ?t) = Some s'" "heap lo F' ((A(brk s \<mapsto> unat m))(brk s := None)) s'"
      "base_at s' = base_at s" "brk s' = brk s + 16 * unat m" "limit s' = limit s" "\<exists>y \<in> set F'. unat m \<le> snd y"
      by (rule free_ok [OF g(1), of "brk s" "unat m"]) auto
    have "(A(brk s \<mapsto> unat m))(brk s := None) = A" using g(2) by auto
    moreover have "backed ?t (brk s)" using m(3) by (simp add: backed_def)
    then have "morecore nu s = Some (freep s', s')" using sb s'(1) by (simp add: morecore_def m_def [symmetric])
    ultimately show ?thesis unfolding if_not_P [OF False] using s' m(1,4) by (intro exI [of _ F'] exI [of _ s']) (auto intro: le_trans)
  qed
qed

lemma heap_freep: "heap lo F A s \<Longrightarrow> freep s \<noteq> 0"
proof -
  assume h: "heap lo F A s"
  then have "freep s \<in> nodes F s" "0 < base_at s" by (simp_all add: heap_def)
  then show ?thesis using heap_block(1) [OF h] by fastforce
qed

lemma malloc_found:
  assumes h: "heap lo F A s" and y: "\<exists>y \<in> set F. unat n \<le> snd y" and n: "0 < unat n"
  obtains F' a s' where "malloc_loop n (freep s) (ptr s (freep s)) s = Some (a + 16, s')" and "heap lo F' (A(a \<mapsto> unat n)) s'"
    and "A a = None" and "base_at s' = base_at s" and "brk s' = brk s" and "limit s' = limit s"
proof -
  have f: "blist F s" and fp: "freep s \<in> nodes F s" using h by (simp_all add: heap_def)
  obtain xs where xs: "leads s (freep s) xs (freep s)" "insert (freep s) (set xs) = nodes F s" "freep s \<notin> set xs" by (rule ring_from [OF f fp])
  obtain y where "y \<in> set F" "unat n \<le> snd y" using y by blast
  then have "\<exists>z \<in> insert (freep s) (set xs). hsize s z \<ge> n" using f unfolding xs(2) by (auto simp: blist_def word_le_nat_alt intro!: bexI [of _ y])
  from malloc_loop_scan(1) [OF xs(1,3) this] obtain p z where
    pz: "p \<in> nodes F s" "ptr s p = z" "n \<le> hsize s z" "malloc_loop n (freep s) (ptr s (freep s)) s = Some (malloc_take n p z s)"
    unfolding xs(2) by blast
  obtain F' a s' where "malloc_take n p z s = (a + 16, s')" "heap lo F' (A(a \<mapsto> unat n)) s'" "A a = None" "base_at s' = base_at s"
    "brk s' = brk s" "limit s' = limit s" by (rule malloc_take_ok [OF h pz(1,2,3) n])
  then show thesis using that [of a s' F'] pz(4) by simp
qed

lemma malloc_loop_ok:
  assumes h: "heap lo F A s" and n: "0 < unat n" "unat n * 16 < 2 ^ 31"
  shows "malloc_loop n (freep s) (ptr s (freep s)) s = Some (0, s) \<and> limit s < brk s + 16 * core_units n \<or>
     (\<exists>F' a s'. malloc_loop n (freep s) (ptr s (freep s)) s = Some (a + 16, s') \<and> heap lo F' (A(a \<mapsto> unat n)) s' \<and> A a = None \<and>
        base_at s' = base_at s \<and> limit s' = limit s \<and> brk s' \<le> brk s + 16 * core_units n)"
proof (cases "\<exists>y \<in> set F. unat n \<le> snd y")
  case True
  show ?thesis by (rule malloc_found [OF h True n(1)]) auto
next
  case False
  have f: "blist F s" and fp: "freep s \<in> nodes F s" using h by (simp_all add: heap_def)
  obtain xs where xs: "leads s (freep s) xs (freep s)" "insert (freep s) (set xs) = nodes F s" "freep s \<notin> set xs" by (rule ring_from [OF f fp])
  have "\<forall>z \<in> insert (freep s) (set xs). hsize s z < n"
    unfolding xs(2) using f False n(1) by (fastforce simp: blist_def word_less_nat_alt)
  note scan = malloc_loop_scan(2) [OF xs(1,3) this]
  note m = morecore_ok [OF h n(2)]
  show ?thesis
  proof (cases "brk s + 16 * core_units n > limit s")
    case True
    then have "morecore n s = Some (0, s)" using m by simp
    then show ?thesis using scan True by simp
  next
    case nm: False
    then obtain F1 s1 where s1: "morecore n s = Some (freep s1, s1)" "heap lo F1 A s1" "\<exists>y \<in> set F1. unat n \<le> snd y"
      "base_at s1 = base_at s" "limit s1 = limit s" "brk s1 = brk s + 16 * core_units n" using m by auto
    have "freep s1 \<noteq> 0" by (rule heap_freep [OF s1(2)])
    then have e: "malloc_loop n (freep s) (ptr s (freep s)) s = malloc_loop n (freep s1) (ptr s1 (freep s1)) s1" using scan s1(1) by simp
    show ?thesis unfolding e by (rule malloc_found [OF s1(2,3) n(1)]) (use s1(4,5,6) in auto)
  qed
qed

section \<open>What a program that uses the allocator can rely on\<close>

definition heap_inv :: "nat \<Rightarrow> (nat \<rightharpoonup> nat) \<Rightarrow> uheap \<Rightarrow> bool" where
  "heap_inv lo A s \<longleftrightarrow> 0 < base_at s \<and> base_at s + 16 \<le> lo \<and> lo \<le> brk s \<and> brk s \<le> limit s \<and> limit s \<le> 2 ^ 36 \<and>
     (if freep s = 0 then A = Map.empty \<and> brk s = lo else \<exists>F. heap lo F A s)"

lemma heap_inv_heap: "heap lo F A s \<Longrightarrow> heap_inv lo A s"
proof -
  assume h: "heap lo F A s"
  then show ?thesis unfolding heap_inv_def if_not_P [OF heap_freep [OF h]] by (auto simp: heap_def)
qed

lemma u64_of_nat: "k < 2 ^ 64 \<Longrightarrow> unat (of_nat k :: u64) = k"
  by (simp add: unsigned_of_nat take_bit_nat_eq_self)

lemma u32_of_nat: "k < 2 ^ 32 \<Longrightarrow> unat (ucast (of_nat k :: u64) :: u32) = k"
  by (simp add: unsigned_ucast_eq u64_of_nat take_bit_nat_eq_self)

lemma nunits_exact: "unat (nunits_of n) = (unat n + 15) div 16 + 1"
proof -
  have n: "unat n < 2 ^ 32" using unsigned_less [of n] by simp
  let ?k = "(unat n + 15) div 16 + 1"
  have "(ucast n :: u64) + 16 - 1 = of_nat (unat n + 15)" by simp
  moreover have "unat (of_nat (unat n + 15) :: u64) = unat n + 15" using n by (intro u64_of_nat) simp
  ultimately have "unat (((ucast n :: u64) + 16 - 1) div 16) = (unat n + 15) div 16" by (simp only: unat_div_distrib) simp
  moreover have "of_nat (unat w) = w" for w :: u64 by simp
  ultimately have "((ucast n :: u64) + 16 - 1) div 16 = of_nat ((unat n + 15) div 16)" by metis
  then have e: "((ucast n :: u64) + 16 - 1) div 16 + 1 = of_nat ?k" by simp
  have "?k < 2 ^ 32" using n by simp
  then have "unat (ucast (of_nat ?k :: u64) :: u32) = ?k" by (rule u32_of_nat)
  then show ?thesis unfolding nunits_of_def e .
qed

lemma malloc_ok:
  assumes i: "heap_inv lo A s" and b: "unat nbytes < 2 ^ 31 - 64"
  shows "\<exists>r s'. malloc nbytes s = Some (r, s') \<and> limit s' = limit s \<and> brk s' \<le> brk s + 16 * core_units (nunits_of nbytes) \<and>
     (if r = 0 then heap_inv lo A s' \<and> limit s < brk s + 16 * core_units (nunits_of nbytes)
      else 16 \<le> r \<and> A (r - 16) = None \<and> heap_inv lo (A(r - 16 \<mapsto> unat (nunits_of nbytes))) s')"
proof -
  let ?n = "nunits_of nbytes"
  define t where "t = (if freep s = 0 then set_size (base_at s) 0 (set_ptr (base_at s) (base_at s) (s\<lparr>freep := base_at s\<rparr>)) else s)"
  have n: "0 < unat ?n" "unat ?n * 16 < 2 ^ 31" using b unfolding nunits_exact by simp_all
  have tl: "limit t = limit s" "brk t = brk s" by (simp_all add: t_def)
  obtain F where h: "heap lo F A t"
  proof (cases "freep s = 0")
    case True
    have "heap lo [] Map.empty t" using i True by (simp add: t_def heap_def heap_inv_def blist_def part_def)
    then show thesis using that i True by (simp add: heap_inv_def)
  next
    case False
    then show thesis using that i by (auto simp: heap_inv_def t_def)
  qed
  have m: "malloc nbytes s = malloc_loop ?n (freep t) (ptr t (freep t)) t" by (simp add: malloc_def t_def Let_def)
  show ?thesis using malloc_loop_ok [OF h n] heap_inv_heap [OF h] heap_inv_heap tl unfolding m by (elim disjE exE conjE) auto
qed

lemma heap_inv_free:
  assumes i: "heap_inv lo A s" and a: "A a = Some k"
  shows "\<exists>s'. free (a + 16) s = Some s' \<and> heap_inv lo (A(a := None)) s'"
proof -
  have "freep s \<noteq> 0" using i a by (auto simp: heap_inv_def split: if_splits)
  then obtain F where h: "heap lo F A s" using i by (auto simp: heap_inv_def)
  show ?thesis by (rule free_ok [OF h a]) (blast intro: heap_inv_heap)
qed

lemma heap_apart:
  assumes h: "heap lo F A s" and a: "A a = Some k"
  shows "lo \<le> a" and "a + 16 * k \<le> brk s" and "0 < k" and "A b = Some l \<Longrightarrow> a \<noteq> b \<Longrightarrow> a + 16 * k \<le> b \<or> b + 16 * l \<le> a"
    and "x \<in> nodes F s \<union> dom A \<Longrightarrow> \<not> (a < x \<and> x < a + 16 * k)"
proof -
  have p: "part lo (brk s) (set F \<union> Map.graph A)" using h by (simp add: heap_def)
  have g: "(a, k) \<in> set F \<union> Map.graph A" using a by (simp add: graph_iff)
  show "lo \<le> a" "a + 16 * k \<le> brk s" "0 < k" using part_within [OF p g] part_pos [OF p g] by simp_all
  show "a + 16 * k \<le> b \<or> b + 16 * l \<le> a" if "A b = Some l" "a \<noteq> b"
    using part_apart [OF p g, of "(b, l)"] that by (simp add: graph_iff)
  have n: "\<not> (a < c \<and> c < a + 16 * k)" if "(c, l) \<in> set F \<union> Map.graph A" for c l using part_same [OF p g that] by auto
  have b: "base_at s < a" using heap_block(1) [OF h g] by simp
  show "\<not> (a < x \<and> x < a + 16 * k)" if x: "x \<in> nodes F s \<union> dom A"
  proof -
    consider "x = base_at s" | l where "(x, l) \<in> set F" | l where "A x = Some l" using x by auto
    then show ?thesis using n b by cases (auto simp: graph_iff)
  qed
qed

text \<open>A program: it calls \<^verbatim>\<open>malloc\<close>, frees blocks it has, and writes into their contents, which changes any
  header that a stale pointer into them might show.\<close>

definition inner :: "(nat \<rightharpoonup> nat) \<Rightarrow> nat \<Rightarrow> bool" where
  "inner A x \<longleftrightarrow> (\<exists>a k. A a = Some k \<and> a < x \<and> x < a + 16 * k)"

inductive uses :: "(nat \<rightharpoonup> nat) \<Rightarrow> uheap \<Rightarrow> (nat \<rightharpoonup> nat) \<Rightarrow> uheap \<Rightarrow> bool" where
  got: "malloc n s = Some (r, s') \<Longrightarrow> r \<noteq> 0 \<Longrightarrow> unat n < 2 ^ 31 - 64 \<Longrightarrow> uses A s (A(r - 16 \<mapsto> unat (nunits_of n))) s'"
| null: "malloc n s = Some (0, s') \<Longrightarrow> unat n < 2 ^ 31 - 64 \<Longrightarrow> uses A s A s'"
| freed: "A a = Some k \<Longrightarrow> free (a + 16) s = Some s' \<Longrightarrow> uses A s (A(a := None)) s'"
| stored: "\<forall>x. \<not> inner A x \<longrightarrow> h x = hdrs s x \<Longrightarrow> uses A s A (s\<lparr>hdrs := h\<rparr>)"

inductive run :: "uheap \<Rightarrow> (nat \<rightharpoonup> nat) \<Rightarrow> uheap \<Rightarrow> bool" for s0 where
  start: "run s0 Map.empty s0"
| step: "run s0 A s \<Longrightarrow> uses A s A' s' \<Longrightarrow> run s0 A' s'"

lemma stored_keeps:
  assumes i: "heap_inv lo A s" and h: "\<forall>x. \<not> inner A x \<longrightarrow> h x = hdrs s x"
  shows "heap_inv lo A (s\<lparr>hdrs := h\<rparr>)"
proof (cases "freep s = 0")
  case True
  then show ?thesis using i by (simp add: heap_inv_def)
next
  case False
  then obtain F where hp: "heap lo F A s" using i by (auto simp: heap_inv_def)
  let ?s = "s\<lparr>hdrs := h\<rparr>"
  have eq: "hdrs ?s x = hdrs s x" if "x \<in> nodes F s \<union> dom A" for x
  proof -
    have "\<not> inner A x" unfolding inner_def using heap_apart(5) [OF hp _ that] by blast
    then show ?thesis using h by simp
  qed
  have "leads ?s (base_at s) (map fst F) (base_at s) = leads s (base_at s) (map fst F) (base_at s)"
    by (rule leads_cong, rule arg_cong [of _ _ h_ptr], rule eq) auto
  moreover have "h (fst x) = hdrs s (fst x)" if "x \<in> set F" for x using eq [of "fst x"] that by simp
  moreover have "h (base_at s) = hdrs s (base_at s)" "\<And>a k. A a = Some k \<Longrightarrow> h a = hdrs s a" using eq by auto
  ultimately have "heap lo F A ?s" using hp by (simp add: heap_def blist_def)
  then show ?thesis by (rule heap_inv_heap)
qed

lemma uses_keeps:
  assumes "uses A s A' s'" and i: "heap_inv lo A s"
  shows "heap_inv lo A' s'"
  using assms(1)
proof cases
  case (got n r)
  then show ?thesis using malloc_ok [OF i, of n] by auto
next
  case (null n)
  then show ?thesis using malloc_ok [OF i, of n] by auto
next
  case (freed a k)
  then show ?thesis using heap_inv_free [OF i freed(2)] by auto
next
  case (stored h)
  then show ?thesis using stored_keeps [OF i] by simp
qed

lemma run_keeps: "run s0 A s \<Longrightarrow> heap_inv lo Map.empty s0 \<Longrightarrow> heap_inv lo A s"
  by (induction rule: run.induct) (auto intro: uses_keeps)

text \<open>
  C12. The heap stays well formed. However a program calls \<^verbatim>\<open>malloc\<close>, with requests below 2^31 - 64
  bytes, and \<^verbatim>\<open>free\<close> on blocks it has, and whatever it writes into the contents of its blocks: the heap
  is a well-formed one, the next such \<^verbatim>\<open>malloc\<close> returns and so does the \<^verbatim>\<open>free\<close> of any block it has, so
  that the program is never stuck in the allocator; every block it has lies inside the process,
  above the program, with its size in its header, and overlaps no other block it has.
\<close>

theorem heap_well_formed:
  assumes "heap_inv lo Map.empty s0" and "run s0 A s"
  shows "heap_inv lo A s \<and> (\<forall>n. unat n < 2 ^ 31 - 64 \<longrightarrow> malloc n s \<noteq> None) \<and>
     (\<forall>a k. A a = Some k \<longrightarrow> free (a + 16) s \<noteq> None \<and> lo \<le> a \<and> a + 16 * k \<le> brk s \<and> unat (hsize s a) = k \<and>
        (\<forall>b l. A b = Some l \<longrightarrow> a \<noteq> b \<longrightarrow> a + 16 * k \<le> b \<or> b + 16 * l \<le> a))"
proof (intro conjI allI impI)
  show i: "heap_inv lo A s" by (rule run_keeps [OF assms(2,1)])
  show "malloc n s \<noteq> None" if "unat n < 2 ^ 31 - 64" for n using malloc_ok [OF i that] by auto
  fix a k assume a: "A a = Some k"
  have "freep s \<noteq> 0" using i a by (auto simp: heap_inv_def split: if_splits)
  then obtain F where h: "heap lo F A s" using i by (auto simp: heap_inv_def)
  show "unat (hsize s a) = k" using h a by (simp add: heap_def)
  show "free (a + 16) s \<noteq> None" using heap_inv_free [OF i a] by auto
  show "lo \<le> a" "a + 16 * k \<le> brk s" using heap_apart(1,2) [OF h a] by auto
  show "a + 16 * k \<le> b \<or> b + 16 * l \<le> a" if "A b = Some l" "a \<noteq> b" for b l using heap_apart(4) [OF h a that] by auto
qed

text \<open>A process of 16 pages whose program ends below address 8192.\<close>

definition uheap0 :: uheap where
  "uheap0 = \<lparr>hdrs = (\<lambda>_. \<lparr>h_ptr = 0, h_size = 0\<rparr>), freep = 0, base_at = 4096, brk = 8192, limit = 1048576\<rparr>"

lemma uheap0_inv: "heap_inv 8192 Map.empty uheap0"
  by (simp add: heap_inv_def uheap0_def)

text \<open>
  C16. Fresh memory. For every request below 2^31 - 64 bytes \<^verbatim>\<open>malloc\<close> returns. It returns 0 only when
  the process cannot grow by what it would ask for, and then nothing is lost; otherwise the
  block it returns was not handed out before, has room for the bytes asked for, and the heap is
  well formed with this block handed out too. Freeing the block gives back a heap in which just
  the other blocks are handed out.
\<close>

theorem malloc_gives_fresh_block:
  assumes "heap_inv lo A s" and "unat nbytes < 2 ^ 31 - 64"
  shows "\<exists>r s'. malloc nbytes s = Some (r, s') \<and>
     (if r = 0 then heap_inv lo A s' \<and> limit s < brk s + 16 * max 4096 ((unat nbytes + 15) div 16 + 1)
      else A (r - 16) = None \<and> heap_inv lo (A(r - 16 \<mapsto> unat (nunits_of nbytes))) s' \<and> unat nbytes \<le> 16 * unat (nunits_of nbytes) - 16 \<and>
        (\<exists>s''. free r s' = Some s'' \<and> heap_inv lo A s''))"
proof -
  obtain r s' where m: "malloc nbytes s = Some (r, s')"
    "if r = 0 then heap_inv lo A s' \<and> limit s < brk s + 16 * core_units (nunits_of nbytes)
      else 16 \<le> r \<and> A (r - 16) = None \<and> heap_inv lo (A(r - 16 \<mapsto> unat (nunits_of nbytes))) s'"
    using malloc_ok [OF assms] by blast
  show ?thesis
  proof (cases "r = 0")
    case True
    then show ?thesis using m by (intro exI [of _ r] exI [of _ s']) (simp add: core_units_def nunits_exact)
  next
    case False
    then have r: "16 \<le> r" "A (r - 16) = None" "heap_inv lo (A(r - 16 \<mapsto> unat (nunits_of nbytes))) s'" using m(2) by simp_all
    have "(A(r - 16 \<mapsto> unat (nunits_of nbytes)))(r - 16 := None) = A" using r(2) by auto
    then have "\<exists>s''. free r s' = Some s'' \<and> heap_inv lo A s''" using heap_inv_free [OF r(3), of "r - 16"] r(1) by auto
    moreover have "unat nbytes \<le> 16 * unat (nunits_of nbytes) - 16" unfolding nunits_exact by simp
    ultimately show ?thesis using m(1) r False by (intro exI [of _ r] exI [of _ s']) simp
  qed
qed

theorem malloc_gives_fresh_block_witness:
  "\<exists>r s'. malloc 24 uheap0 = Some (r, s') \<and> r \<noteq> 0 \<and> heap_inv 8192 [r - 16 \<mapsto> 3] s'"
proof -
  have u: "unat (nunits_of 24) = 3" by (simp add: nunits_exact)
  show ?thesis using malloc_gives_fresh_block [OF uheap0_inv, of 24] unfolding u by (auto simp: uheap0_def split: if_splits)
qed

theorem heap_well_formed_witness:
  "\<exists>A s a b. a \<noteq> b \<and> run uheap0 A s \<and> A a = Some 3 \<and> A b = Some 2 \<and> (a + 48 \<le> b \<or> b + 32 \<le> a) \<and> free (a + 16) s \<noteq> None"
proof -
  have u: "unat (nunits_of 24) = 3" "unat (nunits_of 5) = 2" by (simp_all add: nunits_exact)
  have big: "core_units (nunits_of 24) = 4096" "core_units (nunits_of 5) = 4096" by (simp_all add: core_units_def u)
  obtain r s1 where r: "malloc 24 uheap0 = Some (r, s1)" "limit s1 = 1048576" "brk s1 \<le> 73728" "r \<noteq> 0" "heap_inv 8192 [r - 16 \<mapsto> 3] s1"
    using malloc_ok [OF uheap0_inv, of 24] unfolding u big by (auto simp: uheap0_def split: if_splits)
  obtain q s2 where q: "malloc 5 s1 = Some (q, s2)" "q \<noteq> 0" "[r - 16 \<mapsto> 3] (q - 16) = None"
    using malloc_ok [OF r(5), of 5] r(2,3) unfolding u big by (auto split: if_splits)
  let ?A = "[r - 16 \<mapsto> 3, q - 16 \<mapsto> 2]"
  have "run uheap0 [r - 16 \<mapsto> 3] s1" using run.step [OF run.start uses.got [OF r(1,4)]] u by simp
  then have run: "run uheap0 ?A s2" using run.step [OF _ uses.got [OF q(1,2)]] u by simp
  have ne: "r - 16 \<noteq> q - 16" using q(3) by (auto split: if_splits)
  then have A: "?A (r - 16) = Some 3" "?A (q - 16) = Some 2" by simp_all
  show ?thesis using heap_well_formed [OF uheap0_inv run] run A ne
    by (intro exI [of _ ?A] exI [of _ s2] exI [of _ "r - 16"] exI [of _ "q - 16"]) fastforce
qed

end
