(* ===== verification/Ulib.thy ===== *)
theory Ulib
  imports Kstring
begin

text \<open>
  The C library of the user programs: the routines of \<^verbatim>\<open>user/ulib.c\<close> on byte-addressed memory, and the
  formatted output of \<^verbatim>\<open>user/printf.c\<close>. A loop that ends at a zero byte does not end when there is
  none: its result is then \<open>None\<close>. The names that the kernel has too end in \<open>_u\<close>.
\<close>

section \<open>user/ulib.c\<close>

partial_function (option) strcpy_loop :: "memory \<Rightarrow> u64 \<Rightarrow> u64 \<Rightarrow> memory option" where
  "strcpy_loop m s t = (let c = m t; m = m(s := c) in if c \<noteq> 0 then strcpy_loop m (s + 1) (t + 1) else Some m)"

definition strcpy :: "memory \<Rightarrow> u64 \<Rightarrow> u64 \<Rightarrow> (u64 \<times> memory) option" where
  "strcpy m s t = (case strcpy_loop m s t of None \<Rightarrow> None | Some m \<Rightarrow> Some (s, m))"

partial_function (option) strcmp :: "memory \<Rightarrow> u64 \<Rightarrow> u64 \<Rightarrow> int option" where
  "strcmp m p q = (if m p \<noteq> 0 \<and> m p = m q then strcmp m (p + 1) (q + 1) else Some (uint (m p) - uint (m q)))"

partial_function (option) strlen_loop :: "memory \<Rightarrow> u64 \<Rightarrow> i32 \<Rightarrow> u32 option" where
  "strlen_loop m s n = (if m (s + scast n) \<noteq> 0 then strlen_loop m s (n + 1) else Some n)"

definition strlen_u :: "memory \<Rightarrow> u64 \<Rightarrow> u32 option" where
  "strlen_u m s = strlen_loop m s 0"

definition memset_u :: "memory \<Rightarrow> u64 \<Rightarrow> i32 \<Rightarrow> u32 \<Rightarrow> u64 \<times> memory" where
  "memset_u m dst c n = (dst, memset_loop m dst (ucast c) 0 (unat n))"

partial_function (option) strchr :: "memory \<Rightarrow> u64 \<Rightarrow> u8 \<Rightarrow> u64 option" where
  "strchr m s c = (if m s = 0 then Some 0 else if m s = c then Some s else strchr m (s + 1) c)"

text \<open>\<^verbatim>\<open>gets\<close>, where \<open>input\<close> is what the reads of one byte will deliver: the bytes stored, without the zero at the
  end, and the rest of the input.\<close>

primrec gets_loop :: "u8 list \<Rightarrow> nat \<Rightarrow> i32 \<Rightarrow> u8 list \<times> u8 list" where
  "gets_loop [] i mx = ([], [])"
| "gets_loop (c # cs) i mx =
     (if int i + 1 < sint mx then
        if c = 10 \<or> c = 13 then ([c], cs)
        else let r = gets_loop cs (Suc i) mx in (c # fst r, snd r)
      else ([], c # cs))"

definition gets :: "memory \<Rightarrow> u64 \<Rightarrow> i32 \<Rightarrow> u8 list \<Rightarrow> memory \<times> u8 list" where
  "gets m buf mx input = (let r = gets_loop input 0 mx in (storeb m buf (fst r @ [0]), snd r))"

text \<open>\<^verbatim>\<open>stat\<close>, on the results of its three system calls.\<close>

definition stat_u :: "int \<Rightarrow> (int \<Rightarrow> int) \<Rightarrow> int" where
  "stat_u fd fstat = (if fd < 0 then - 1 else fstat fd)"

partial_function (option) atoi_loop :: "memory \<Rightarrow> u64 \<Rightarrow> i32 \<Rightarrow> i32 option" where
  "atoi_loop m s n = (if 48 \<le> m s \<and> m s \<le> 57 then atoi_loop m (s + 1) (n * 10 + ucast (m s) - 48) else Some n)"

definition atoi :: "memory \<Rightarrow> u64 \<Rightarrow> i32 option" where
  "atoi m s = atoi_loop m s 0"

definition memmove_u :: "memory \<Rightarrow> u64 \<Rightarrow> u64 \<Rightarrow> i32 \<Rightarrow> u64 \<times> memory" where
  "memmove_u m dst src n =
     (dst, if src > dst then copy_up m dst src (nat (sint n)) else copy_down m (dst + scast n) (src + scast n) (nat (sint n)))"

definition memcmp_u :: "memory \<Rightarrow> u64 \<Rightarrow> u64 \<Rightarrow> u32 \<Rightarrow> int" where
  "memcmp_u m s1 s2 n = memcmp_loop m s1 s2 (unat n)"

definition memcpy_u :: "memory \<Rightarrow> u64 \<Rightarrow> u64 \<Rightarrow> u32 \<Rightarrow> u64 \<times> memory" where
  "memcpy_u m dst src n = memmove_u m dst src n"

section \<open>user/printf.c\<close>

text \<open>What is written to the file. The base is 10 or 16.\<close>

definition digits_u :: "nat \<Rightarrow> u8" where
  "digits_u d = map of_char ''0123456789ABCDEF'' ! d"

function digits_loop :: "nat \<Rightarrow> nat \<Rightarrow> u8 list" where
  "digits_loop base x = digits_u (x mod base) # (if 2 \<le> base \<and> x div base \<noteq> 0 then digits_loop base (x div base) else [])"
  by auto
termination
  by (relation "measure snd") (auto intro!: div_less_dividend gr0I)

declare digits_loop.simps [simp del]

definition printint_u :: "i32 \<Rightarrow> nat \<Rightarrow> bool \<Rightarrow> u8 list" where
  "printint_u xx base sign =
     (let neg = (sign \<and> sint xx < 0);
          x = (if neg then - xx else xx);
          buf = digits_loop base (unat x);
          buf = (if neg then buf @ [45] else buf)
      in rev buf)"

definition printptr_u :: "u64 \<Rightarrow> u8 list" where
  "printptr_u x = [48, 120] @ map (\<lambda>i. digits_u (unat (drop_bit 60 (push_bit (4 * i) x)))) [0..<16]"

text \<open>The arguments; \<open>UStr None\<close> is a null pointer. A call whose arguments do not fit the format is undefined.\<close>

datatype uarg = UInt i32 | ULong u64 | UStr "u8 list option"

fun directive :: "u8 \<Rightarrow> uarg list \<Rightarrow> (u8 list \<times> uarg list) option" where
  "directive c args =
     (if c = 100 then (case args of UInt x # args \<Rightarrow> Some (printint_u x 10 True, args) | _ \<Rightarrow> None)
      else if c = 108 then (case args of ULong x # args \<Rightarrow> Some (printint_u (ucast x) 10 False, args) | _ \<Rightarrow> None)
      else if c = 120 then (case args of UInt x # args \<Rightarrow> Some (printint_u x 16 False, args) | _ \<Rightarrow> None)
      else if c = 112 then (case args of ULong x # args \<Rightarrow> Some (printptr_u x, args) | _ \<Rightarrow> None)
      else if c = 115 then
        (case args of UStr t # args \<Rightarrow> Some (case t of None \<Rightarrow> map of_char ''(null)'' | Some t \<Rightarrow> t, args) | _ \<Rightarrow> None)
      else if c = 99 then (case args of UInt x # args \<Rightarrow> Some ([ucast x], args) | _ \<Rightarrow> None)
      else if c = 37 then Some ([c], args)
      else Some ([37, c], args))"

primrec vprintf_loop :: "u8 list \<Rightarrow> bool \<Rightarrow> uarg list \<Rightarrow> u8 list option" where
  "vprintf_loop [] st args = Some []"
| "vprintf_loop (c # fmt) st args =
     (if \<not> st then
        if c = 37 then vprintf_loop fmt True args
        else (case vprintf_loop fmt False args of None \<Rightarrow> None | Some out \<Rightarrow> Some (c # out))
      else (case directive c args of None \<Rightarrow> None
        | Some r \<Rightarrow> (case vprintf_loop fmt False (snd r) of None \<Rightarrow> None | Some out \<Rightarrow> Some (fst r @ out))))"

definition vprintf :: "u8 list \<Rightarrow> uarg list \<Rightarrow> u8 list option" where
  "vprintf fmt args = vprintf_loop fmt False args"

text \<open>The file that is written to, and what is written.\<close>

definition fprintf_u :: "int \<Rightarrow> u8 list \<Rightarrow> uarg list \<Rightarrow> (int \<times> u8 list) option" where
  "fprintf_u fd fmt args = map_option (Pair fd) (vprintf fmt args)"

definition printf_u :: "u8 list \<Rightarrow> uarg list \<Rightarrow> (int \<times> u8 list) option" where
  "printf_u fmt args = map_option (Pair 1) (vprintf fmt args)"

declare strcpy_loop.simps [code] strcmp.simps [code] strlen_loop.simps [code] strchr.simps [code] atoi_loop.simps [code]

section \<open>Strings\<close>

text \<open>\<open>string_at m s cs\<close>: at address \<open>s\<close> lies the string \<open>cs\<close>, then a zero.\<close>

primrec string_at :: "memory \<Rightarrow> u64 \<Rightarrow> u8 list \<Rightarrow> bool" where
  "string_at m s [] = (m s = 0)"
| "string_at m s (c # cs) = (m s = c \<and> c \<noteq> 0 \<and> string_at m (s + 1) cs)"

lemma string_at_cong: "(\<And>i. i \<le> length cs \<Longrightarrow> m' (s + of_nat i) = m (s + of_nat i)) \<Longrightarrow> string_at m' s cs = string_at m s cs"
proof (induction cs arbitrary: s)
  case Nil
  then show ?case using Nil [of 0] by simp
next
  case (Cons c cs)
  have "m' s = m s" using Cons.prems [of 0] by simp
  moreover have "string_at m' (s + 1) cs = string_at m (s + 1) cs"
    by (rule Cons.IH) (use Cons.prems [of "Suc _"] in \<open>simp add: algebra_simps\<close>)
  ultimately show ?case by simp
qed

lemma strcmp_equal: "string_at m p cs \<Longrightarrow> string_at m q cs \<Longrightarrow> strcmp m p q = Some 0"
  by (induction cs arbitrary: p q) (auto simp: strcmp.simps [of m])

lemma strlen_loop_string:
  "string_at m (s + scast n) cs \<Longrightarrow> 0 \<le> sint n \<Longrightarrow> sint n + int (length cs) < 2 ^ 31 \<Longrightarrow> strlen_loop m s n = Some (n + of_nat (length cs))"
proof (induction cs arbitrary: n)
  case Nil
  then show ?case by (simp add: strlen_loop.simps [of m s n])
next
  case (Cons c cs)
  have e: "sint (n + 1) = sint n + 1" using Cons.prems by (simp add: sint_word_ariths signed_take_bit_int_eq_self)
  have "(scast (n + 1) :: u64) = scast n + 1" using e by (metis of_int_add of_int_sint of_int_1)
  then have "strlen_loop m s (n + 1) = Some (n + 1 + of_nat (length cs))" using Cons.IH [of "n + 1"] Cons.prems e by (simp add: add.assoc)
  then show ?case using Cons.prems(1) by (simp add: strlen_loop.simps [of m s n] add.assoc)
qed

lemma strcpy_loop_string:
  "string_at m t cs \<Longrightarrow> (\<forall>i \<le> length cs. \<forall>j \<le> length cs. s + of_nat i \<noteq> t + of_nat j) \<Longrightarrow> length cs < 2 ^ 63 \<Longrightarrow>
   strcpy_loop m s t = Some (storeb m s (cs @ [0]))"
proof (induction cs arbitrary: m s t)
  case Nil
  then show ?case by (subst strcpy_loop.simps) (simp add: storeb_Cons)
next
  case (Cons c cs)
  have n: "s + of_nat i \<noteq> t + of_nat j" if "i \<le> Suc (length cs)" "j \<le> Suc (length cs)" for i j using Cons.prems(2) that by simp
  have "string_at (m(s := c)) (t + 1) cs = string_at m (t + 1) cs"
    by (rule string_at_cong) (use n [of 0 "Suc _"] in \<open>auto simp: algebra_simps\<close>)
  then have a: "string_at (m(s := c)) (t + 1) cs" using Cons.prems(1) by simp
  have b: "\<forall>i \<le> length cs. \<forall>j \<le> length cs. s + 1 + of_nat i \<noteq> t + 1 + of_nat j"
    using n [of "Suc _" "Suc _"] by (auto simp: algebra_simps)
  have "strcpy_loop (m(s := c)) (s + 1) (t + 1) = Some (storeb (m(s := c)) (s + 1) (cs @ [0]))"
    by (rule Cons.IH [OF a b]) (use Cons.prems(3) in simp)
  then show ?case using Cons.prems storeb_Cons [of "cs @ [0]" m s c] by (subst strcpy_loop.simps) simp
qed

lemma string_at_storeb: "0 \<notin> set cs \<Longrightarrow> length cs < 2 ^ 64 \<Longrightarrow> string_at (storeb m s (cs @ [0])) s cs"
proof -
  assume cs: "0 \<notin> set cs" "length cs < 2 ^ 64"
  have "string_at f s cs" if "\<And>i. i < length cs \<Longrightarrow> f (s + of_nat i) = cs ! i" "f (s + of_nat (length cs)) = 0" "0 \<notin> set cs" for f s
    using that
  proof (induction cs arbitrary: s)
    case (Cons c cs)
    have "f s = c" using Cons.prems(1) [of 0] by simp
    moreover have "string_at f (s + 1) cs"
      by (rule Cons.IH) (use Cons.prems(1) [of "Suc _"] Cons.prems(2,3) in \<open>auto simp: algebra_simps\<close>)
    ultimately show ?case using Cons.prems(3) by simp
  qed simp
  moreover have "storeb m s (cs @ [0]) (s + of_nat i) = (cs @ [0]) ! i" if "i \<le> length cs" for i using that cs(2) by (intro storeb_in) simp_all
  ultimately show ?thesis using cs by (simp add: nth_append)
qed

lemma string_nonzero: "string_at m s cs \<Longrightarrow> 0 \<notin> set cs"
  by (induction cs arbitrary: s) auto

text \<open>
  C30. Copying a string. When the destination does not overlap the source, \<^verbatim>\<open>strcpy\<close> returns and stores the
  string and its zero there and nothing else; then \<^verbatim>\<open>strcmp\<close> finds the two equal and \<^verbatim>\<open>strlen\<close> has
  the length of the source for the copy.
\<close>

theorem strcpy_copies:
  assumes "string_at m t cs" and "length cs < 2 ^ 31" and "\<forall>i \<le> length cs. \<forall>j \<le> length cs. s + of_nat i \<noteq> t + of_nat j"
  shows "\<exists>m'. strcpy m s t = Some (s, m') \<and> m' = storeb m s (cs @ [0]) \<and> strcmp m' s t = Some 0 \<and> strlen_u m' s = Some (of_nat (length cs))"
proof -
  let ?m = "storeb m s (cs @ [0])"
  have c: "string_at ?m s cs" using assms(1,2) string_nonzero by (intro string_at_storeb) auto
  have "?m (t + of_nat j) = m (t + of_nat j)" if "j \<le> length cs" for j
  proof (rule storeb_out, rule ccontr)
    assume n: "\<not> length (cs @ [0]) \<le> unat (t + of_nat j - s)"
    then have "unat (t + of_nat j - s) \<le> length cs" by simp
    then have "s + of_nat (unat (t + of_nat j - s)) \<noteq> t + of_nat j" using assms(3) that by blast
    then show False by simp
  qed
  then have "string_at ?m t cs" using string_at_cong [of cs ?m t m] assms(1) by simp
  moreover have "strlen_u ?m s = Some (of_nat (length cs))"
    using strlen_loop_string [of ?m s 0 cs] c assms(2) by (simp add: strlen_u_def)
  ultimately show ?thesis using strcpy_loop_string [OF assms(1,3)] assms(2) strcmp_equal [OF c] by (simp add: strcpy_def)
qed

theorem strcpy_copies_witness:
  "\<exists>m'. strcpy (storeb (\<lambda>_. 7) 100 [104, 105, 0]) 200 100 = Some (200, m') \<and> strcmp m' 200 100 = Some 0 \<and> strlen_u m' 200 = Some 2"
proof -
  have "string_at (storeb (\<lambda>_. 7) 100 ([104, 105] @ [0])) 100 [104, 105]" by (rule string_at_storeb) simp_all
  moreover have "\<forall>i \<le> length [104, 105 :: u8]. \<forall>j \<le> length [104, 105 :: u8]. (200 :: u64) + of_nat i \<noteq> 100 + of_nat j"
    by (auto simp: le_Suc_eq)
  ultimately show ?thesis using strcpy_copies [of "storeb (\<lambda>_. 7) 100 [104, 105, 0]" 100 "[104, 105]" 200] by auto
qed

section \<open>Numbers\<close>

text \<open>The value of a sequence of digits, the most significant first.\<close>

definition value_of :: "u8 list \<Rightarrow> nat" where
  "value_of ds = foldl (\<lambda>n d. n * 10 + unat (d - 48)) 0 ds"

definition is_digit :: "u8 \<Rightarrow> bool" where
  "is_digit d \<longleftrightarrow> 48 \<le> d \<and> d \<le> 57"

lemma digits_u_ten: "d < 10 \<Longrightarrow> is_digit (digits_u d) \<and> unat (digits_u d - 48) = d"
proof -
  assume "d < 10"
  moreover have "\<forall>d \<in> set [0..<10]. is_digit (digits_u d) \<and> unat (digits_u d - 48) = d" by code_simp
  ultimately show ?thesis by simp
qed

lemma digits_loop_value: "value_of (rev (digits_loop 10 x)) = x" and digits_loop_digits: "\<forall>d \<in> set (digits_loop 10 x). is_digit d"
proof (induction x rule: less_induct)
  case (less x)
  have d: "is_digit (digits_u (x mod 10))" "unat (digits_u (x mod 10) - 48) = x mod 10" using digits_u_ten [of "x mod 10"] by simp_all
  show "value_of (rev (digits_loop 10 x)) = x"
    using less.IH(1) [of "x div 10"] d by (cases "x div 10 = 0"; subst digits_loop.simps) (auto simp: value_of_def)
  show "\<forall>d \<in> set (digits_loop 10 x). is_digit d"
    using less.IH(2) [of "x div 10"] d by (cases "x div 10 = 0"; subst digits_loop.simps) auto
qed

text \<open>\<^verbatim>\<open>atoi\<close> on digits that something else follows.\<close>

primrec digits_at :: "memory \<Rightarrow> u64 \<Rightarrow> u8 list \<Rightarrow> bool" where
  "digits_at m s [] = (\<not> is_digit (m s))"
| "digits_at m s (c # cs) = (m s = c \<and> digits_at m (s + 1) cs)"

lemma atoi_loop_digits:
  "digits_at m s cs \<Longrightarrow> \<forall>d \<in> set cs. is_digit d \<Longrightarrow> atoi_loop m s (of_nat n) = Some (of_nat (foldl (\<lambda>n d. n * 10 + unat (d - 48)) n cs))"
proof (induction cs arbitrary: s n)
  case Nil
  then show ?case by (subst atoi_loop.simps) (auto simp: is_digit_def)
next
  case (Cons c cs)
  have c: "48 \<le> c" "c \<le> 57" using Cons.prems(2) by (simp_all add: is_digit_def)
  have e: "(of_nat n :: i32) * 10 + ucast c - 48 = of_nat (n * 10 + unat (c - 48))"
  proof -
    have "unat (c - 48) = unat c - 48" "48 \<le> unat c" using c by (simp_all add: unat_sub word_le_nat_alt)
    then show ?thesis by (simp add: of_nat_diff)
  qed
  have "atoi_loop m s (of_nat n) = atoi_loop m (s + 1) (of_nat n * 10 + ucast c - 48)"
    using Cons.prems(1) c by (subst atoi_loop.simps) simp
  then have "atoi_loop m s (of_nat n) = atoi_loop m (s + 1) (of_nat (n * 10 + unat (c - 48)))" unfolding e .
  then show ?case using Cons.IH [of "s + 1" "n * 10 + unat (c - 48)"] Cons.prems by simp
qed

text \<open>
  C31. Printing and reading a number. The text that \<^verbatim>\<open>printf\<close> writes for \<^verbatim>\<open>%d\<close> and a number that is not
  negative consists of digits, and \<^verbatim>\<open>atoi\<close> of it returns the number, whatever follows that is not a
  digit.
\<close>

theorem atoi_of_printf:
  assumes "0 \<le> sint n" and "vprintf (map of_char ''%d'') [UInt n] = Some out" and "digits_at m s out"
  shows "(\<forall>d \<in> set out. is_digit d) \<and> atoi m s = Some n"
proof -
  have o: "out = rev (digits_loop 10 (unat n))" using assms(1,2) by (simp add: vprintf_def printint_u_def Let_def)
  have dg: "\<forall>d \<in> set out. is_digit d" using digits_loop_digits o by simp
  have "atoi m s = Some (of_nat (value_of out))" using atoi_loop_digits [OF assms(3) dg, of 0] by (simp add: atoi_def value_of_def)
  then show ?thesis using dg digits_loop_value [of "unat n"] o by simp
qed

theorem atoi_of_printf_witness:
  "atoi (storeb (\<lambda>_. 0) 500 [50, 48, 57]) 500 = Some 209"
proof -
  have v: "vprintf (map of_char ''%d'') [UInt 209] = Some [50, 48, 57]" by code_simp
  have "digits_at (storeb (\<lambda>_. 0) 500 [50, 48, 57]) 500 [50, 48, 57]" by (simp add: storeb_def is_digit_def)
  then show ?thesis using atoi_of_printf [OF _ v] by simp
qed

end
