(* ===== verification/Utools.thy ===== *)
theory Utools
  imports Ulib Grep
begin

text \<open>
  The user programs \<^verbatim>\<open>wc\<close>, \<^verbatim>\<open>cat\<close> and \<^verbatim>\<open>echo\<close>. \<open>rd k input\<close> is what \<^verbatim>\<open>read\<close> returns when \<open>k\<close> bytes are asked for
  and \<open>input\<close> is left of the file, -1 for an error; \<open>files\<close> gives the contents of the files that can
  be opened. A run gives the exit status and what is written to the outputs 1 and 2.
\<close>

section \<open>Definitions\<close>

type_synonym outcome = "nat \<times> u8 list \<times> u8 list"

record wcount =
  wc_l :: i32
  wc_w :: i32
  wc_c :: i32
  wc_inword :: bool

definition is_space :: "u8 \<Rightarrow> bool" where
  "is_space b \<longleftrightarrow> b \<in> {32, 13, 9, 10, 11}"

definition wc_byte :: "wcount \<Rightarrow> u8 \<Rightarrow> wcount" where
  "wc_byte st b =
     (let st = st\<lparr>wc_c := wc_c st + 1\<rparr>;
          st = (if b = 10 then st\<lparr>wc_l := wc_l st + 1\<rparr> else st)
      in if is_space b then st\<lparr>wc_inword := False\<rparr>
         else if \<not> wc_inword st then st\<lparr>wc_w := wc_w st + 1, wc_inword := True\<rparr>
         else st)"

primrec wc_loop :: "(nat \<Rightarrow> u8 list \<Rightarrow> int) \<Rightarrow> nat \<Rightarrow> wcount \<Rightarrow> u8 list \<Rightarrow> (int \<times> wcount) option" where
  "wc_loop rd 0 st input = None"
| "wc_loop rd (Suc fuel) st input =
     (let n = rd 512 input in
      if n > 0 then wc_loop rd fuel (foldl wc_byte st (take (nat n) input)) (drop (nat n) input)
      else Some (n, st))"

text \<open>\<open>Inl\<close>: the program has exited; \<open>Inr\<close>: what \<^verbatim>\<open>wc\<close> has written when it returns.\<close>

definition wc :: "(nat \<Rightarrow> u8 list \<Rightarrow> int) \<Rightarrow> nat \<Rightarrow> u8 list \<Rightarrow> u8 list \<Rightarrow> (outcome + u8 list) option" where
  "wc rd fuel name input =
     (case wc_loop rd fuel \<lparr>wc_l = 0, wc_w = 0, wc_c = 0, wc_inword = False\<rparr> input of None \<Rightarrow> None
      | Some (n, st) \<Rightarrow>
          if n < 0 then Some (Inl (1, map of_char ''wc: read error\<newline>'', []))
          else map_option Inr (vprintf (map of_char ''%d %d %d %s\<newline>'')
                 [UInt (wc_l st), UInt (wc_w st), UInt (wc_c st), UStr (Some name)]))"

primrec wc_files :: "(nat \<Rightarrow> u8 list \<Rightarrow> int) \<Rightarrow> nat \<Rightarrow> (u8 list \<Rightarrow> u8 list option) \<Rightarrow> u8 list list \<Rightarrow> u8 list \<Rightarrow> outcome option" where
  "wc_files rd fuel files [] out = Some (0, out, [])"
| "wc_files rd fuel files (f # fs) out =
     (case files f of None \<Rightarrow> Some (1, out @ map of_char ''wc: cannot open '' @ f @ [10], [])
      | Some input \<Rightarrow> (case wc rd fuel f input of None \<Rightarrow> None
          | Some (Inl r) \<Rightarrow> Some (fst r, out @ fst (snd r), snd (snd r))
          | Some (Inr t) \<Rightarrow> wc_files rd fuel files fs (out @ t)))"

definition wc_main :: "(nat \<Rightarrow> u8 list \<Rightarrow> int) \<Rightarrow> nat \<Rightarrow> u8 list \<Rightarrow> (u8 list \<Rightarrow> u8 list option) \<Rightarrow> u8 list list \<Rightarrow> outcome option" where
  "wc_main rd fuel stdin files argv =
     (if length argv \<le> 1 then
        (case wc rd fuel [] stdin of None \<Rightarrow> None | Some (Inl r) \<Rightarrow> Some r | Some (Inr t) \<Rightarrow> Some (0, t, []))
      else wc_files rd fuel files (tl argv) [])"

text \<open>\<^verbatim>\<open>cat\<close>; \<open>wr bs\<close> is what \<^verbatim>\<open>write\<close> returns for the bytes \<open>bs\<close>.\<close>

primrec cat :: "(nat \<Rightarrow> u8 list \<Rightarrow> int) \<Rightarrow> (u8 list \<Rightarrow> int) \<Rightarrow> nat \<Rightarrow> u8 list \<Rightarrow> u8 list \<Rightarrow> (outcome + u8 list) option" where
  "cat rd wr 0 input out = None"
| "cat rd wr (Suc fuel) input out =
     (let n = rd 512 input in
      if n > 0 then
        let bs = take (nat n) input in
        if wr bs \<noteq> n then Some (Inl (1, out @ take (nat (wr bs)) bs, map of_char ''cat: write error\<newline>''))
        else cat rd wr fuel (drop (nat n) input) (out @ bs)
      else if n < 0 then Some (Inl (1, out, map of_char ''cat: read error\<newline>''))
      else Some (Inr out))"

primrec cat_files :: "(nat \<Rightarrow> u8 list \<Rightarrow> int) \<Rightarrow> (u8 list \<Rightarrow> int) \<Rightarrow> nat \<Rightarrow> (u8 list \<Rightarrow> u8 list option) \<Rightarrow> u8 list list \<Rightarrow> u8 list \<Rightarrow> outcome option" where
  "cat_files rd wr fuel files [] out = Some (0, out, [])"
| "cat_files rd wr fuel files (f # fs) out =
     (case files f of None \<Rightarrow> Some (1, out, map of_char ''cat: cannot open '' @ f @ [10])
      | Some input \<Rightarrow> (case cat rd wr fuel input out of None \<Rightarrow> None
          | Some (Inl r) \<Rightarrow> Some r
          | Some (Inr out) \<Rightarrow> cat_files rd wr fuel files fs out))"

definition cat_main :: "(nat \<Rightarrow> u8 list \<Rightarrow> int) \<Rightarrow> (u8 list \<Rightarrow> int) \<Rightarrow> nat \<Rightarrow> u8 list \<Rightarrow> (u8 list \<Rightarrow> u8 list option) \<Rightarrow> u8 list list \<Rightarrow> outcome option" where
  "cat_main rd wr fuel stdin files argv =
     (if length argv \<le> 1 then
        (case cat rd wr fuel stdin [] of None \<Rightarrow> None | Some (Inl r) \<Rightarrow> Some r | Some (Inr out) \<Rightarrow> Some (0, out, []))
      else cat_files rd wr fuel files (tl argv) [])"

fun echo_loop :: "u8 list list \<Rightarrow> u8 list" where
  "echo_loop [] = []"
| "echo_loop [a] = a @ [10]"
| "echo_loop (a # as) = a @ [32] @ echo_loop as"

definition echo_main :: "u8 list list \<Rightarrow> outcome" where
  "echo_main argv = (0, echo_loop (tl argv), [])"

section \<open>Counting does not depend on how the input is read\<close>

text \<open>The words of a text: the places at which one begins. \<open>prev\<close> tells whether the byte before is in a word.\<close>

primrec word_starts :: "bool \<Rightarrow> u8 list \<Rightarrow> nat" where
  "word_starts prev [] = 0"
| "word_starts prev (b # bs) = (if \<not> is_space b \<and> \<not> prev then 1 else 0) + word_starts (\<not> is_space b) bs"

definition honest :: "(nat \<Rightarrow> u8 list \<Rightarrow> int) \<Rightarrow> bool" where
  "honest rd \<longleftrightarrow> (\<forall>k input. 0 \<le> rd k input \<and> rd k input \<le> int k \<and> rd k input \<le> int (length input) \<and>
     (0 < k \<and> input \<noteq> [] \<longrightarrow> 0 < rd k input))"

lemma foldl_wc_byte:
  "foldl wc_byte st bs = \<lparr>wc_l = wc_l st + of_nat (count_list bs 10), wc_w = wc_w st + of_nat (word_starts (wc_inword st) bs),
     wc_c = wc_c st + of_nat (length bs), wc_inword = (if bs = [] then wc_inword st else \<not> is_space (last bs))\<rparr>"
proof (induction bs arbitrary: st)
  case (Cons b bs)
  have "is_space 10" by (simp add: is_space_def)
  then show ?case unfolding foldl_Cons Cons.IH by (auto simp: wc_byte_def Let_def)
qed simp

lemma honest_drop: "honest rd \<Longrightarrow> input \<noteq> [] \<Longrightarrow> length (drop (nat (rd 512 input)) input) < length input"
proof -
  assume "honest rd" "input \<noteq> []"
  then have "0 < rd 512 input" by (simp add: honest_def)
  then show ?thesis using \<open>input \<noteq> []\<close> by simp
qed

lemma wc_loop_all: "honest rd \<Longrightarrow> length input < fuel \<Longrightarrow> wc_loop rd fuel st input = Some (0, foldl wc_byte st input)"
proof (induction fuel arbitrary: st input)
  case (Suc fuel)
  show ?case
  proof (cases "input = []")
    case True
    have "0 \<le> rd 512 [] \<and> rd 512 [] \<le> int (length ([] :: u8 list))" using Suc.prems(1) unfolding honest_def by blast
    then show ?thesis using True by simp
  next
    case False
    then have p: "0 < rd 512 input" using Suc.prems(1) by (simp add: honest_def)
    have "length (drop (nat (rd 512 input)) input) < fuel" using honest_drop [OF Suc.prems(1) False] Suc.prems(2) by simp
    then have "wc_loop rd (Suc fuel) st input =
        Some (0, foldl wc_byte (foldl wc_byte st (take (nat (rd 512 input)) input)) (drop (nat (rd 512 input)) input))"
      using Suc.IH [OF Suc.prems(1)] p by (simp add: Let_def)
    then show ?thesis by (simp flip: foldl_append)
  qed
qed simp

text \<open>
  C32. Counting. \<^verbatim>\<open>wc\<close> returns and prints the number of newlines, of words and of bytes of the whole input,
  each as the 32-bit number it is counted in, however \<^verbatim>\<open>read\<close> cuts the input into pieces, also in
  the middle of a word.
\<close>

theorem wc_counts:
  assumes "honest rd" and "length input < fuel"
  shows "wc rd fuel name input = map_option Inr (vprintf (map of_char ''%d %d %d %s\<newline>'')
     [UInt (of_nat (count_list input 10)), UInt (of_nat (word_starts False input)), UInt (of_nat (length input)), UStr (Some name)])"
  using wc_loop_all [OF assms] by (simp add: wc_def foldl_wc_byte)

theorem wc_counts_witness:
  "wc (\<lambda>k input. if k = 0 \<or> input = [] then 0 else 1) 20 (map of_char ''x'') (map of_char ''a bc\<newline>'') = Some (Inr (map of_char ''1 2 5 x\<newline>''))"
proof -
  have h: "honest (\<lambda>k input. if k = 0 \<or> input = [] then 0 else 1)" by (auto simp: honest_def Suc_le_eq)
  have "map_option Inr (vprintf (map of_char ''%d %d %d %s\<newline>'') [UInt (of_nat (count_list (map of_char ''a bc\<newline>'' :: u8 list) 10)),
      UInt (of_nat (word_starts False (map of_char ''a bc\<newline>''))), UInt (of_nat (length (map of_char ''a bc\<newline>'' :: u8 list))),
      UStr (Some (map of_char ''x''))]) = (Some (Inr (map of_char ''1 2 5 x\<newline>'')) :: (outcome + u8 list) option)" by code_simp
  then show ?thesis using wc_counts [OF h, of "map of_char ''a bc\<newline>''" 20] by simp
qed

text \<open>\<^verbatim>\<open>cat\<close> copies.\<close>

lemma cat_copies:
  "honest rd \<Longrightarrow> (\<And>bs. wr bs = int (length bs)) \<Longrightarrow> length input < fuel \<Longrightarrow> cat rd wr fuel input out = Some (Inr (out @ input))"
proof (induction fuel arbitrary: input out)
  case (Suc fuel)
  show ?case
  proof (cases "input = []")
    case True
    have "0 \<le> rd 512 [] \<and> rd 512 [] \<le> int (length ([] :: u8 list))" using Suc.prems(1) unfolding honest_def by blast
    then show ?thesis using True by simp
  next
    case False
    then have p: "0 < rd 512 input" "rd 512 input \<le> int (length input)" using Suc.prems(1) by (simp_all add: honest_def)
    then have "length (take (nat (rd 512 input)) input) = nat (rd 512 input)" by simp
    then have w: "wr (take (nat (rd 512 input)) input) = rd 512 input" using Suc.prems(2) p(1) by simp
    have "length (drop (nat (rd 512 input)) input) < fuel" using honest_drop [OF Suc.prems(1) False] Suc.prems(3) by simp
    then show ?thesis using Suc.IH [OF Suc.prems(1,2)] p(1) w by (simp add: Let_def)
  qed
qed simp

text \<open>
  C33. Copying files. When every file can be opened, what \<^verbatim>\<open>read\<close> returns is sound and writes succeed, \<^verbatim>\<open>cat\<close> exits with
  status 0 and has written the contents of the files, one after the other; at the first file that
  cannot be opened it stops with status 1, having written the contents of those before it.
\<close>

theorem cat_main_copies:
  assumes "honest rd" and "\<And>bs. wr bs = int (length bs)" and "\<forall>f \<in> set fs. \<exists>c. files f = Some c \<and> length c < fuel" and "fs \<noteq> []"
  shows "cat_main rd wr fuel stdin files (prog # fs) = Some (0, concat (map (the \<circ> files) fs), []) \<and>
     (files g = None \<longrightarrow> cat_main rd wr fuel stdin files (prog # fs @ g # hs) =
        Some (1, concat (map (the \<circ> files) fs), map of_char ''cat: cannot open '' @ g @ [10]))"
proof -
  have "cat_files rd wr fuel files (fs @ r) out = cat_files rd wr fuel files r (out @ concat (map (the \<circ> files) fs))" for r out
    using assms(3)
  proof (induction fs arbitrary: out)
    case (Cons f fs)
    then obtain c where "files f = Some c" "length c < fuel" by auto
    then show ?case using Cons cat_copies [OF assms(1,2)] by simp
  qed simp
  from this [of "[]"] this [of "g # hs"] show ?thesis using assms(4) by (auto simp: cat_main_def)
qed

theorem cat_main_copies_witness:
  "cat_main (\<lambda>k input. if k = 0 \<or> input = [] then 0 else 1) (\<lambda>bs. int (length bs)) 10 [] [[97] \<mapsto> [1, 2], [98] \<mapsto> [3]] [[99], [97], [98]] =
     Some (0, [1, 2, 3], [])"
proof -
  have "honest (\<lambda>k input. if k = 0 \<or> input = [] then 0 else 1)" by (auto simp: honest_def Suc_le_eq)
  from cat_main_copies [OF this, of "\<lambda>bs. int (length bs)" "[[97], [98]]" "[[97] \<mapsto> [1, 2], [98] \<mapsto> [3]]" 10 "[]" "[99]"] show ?thesis by simp
qed

end
