(* ===== verification/Spec2Isabelle.thy ===== *)
theory Spec2Isabelle
  imports Prelude Kstring Spinlock Kalloc Usermem Proc Sleepwake Proctable Crash Pipering Consring Sysreport
    Grep Writeback Fileread Umalloc Utools
begin

text \<open>
  A verification development for the xv6 kernel of this repository (RISC-V xv6 with per-process
  scheduling counters and the system calls \<^verbatim>\<open>getppid\<close>, \<^verbatim>\<open>ps\<close> and \<^verbatim>\<open>getschedhistory\<close>) and for some of its
  user programs. The files named below are under \<^verbatim>\<open>src\<close>.

  \<^bold>\<open>The program and the model.\<close> The kernel runs user programs in page tables of their own. A trap saves the
  registers in assembly code, \<^verbatim>\<open>usertrap\<close> dispatches it to the system calls, the clock or the device
  drivers, and the way back restores them. Below the system calls lie processes and their scheduling,
  open files, pipes and the console, and the file system, which works on blocks through a write-ahead
  log and a buffer cache over the disk driver. The model is a shallow embedding of this code. C integers
  are words of their width, except where a bound that the theorems state makes that the same: the
  nesting depth of \<open>push_off\<close> is an integer, the addresses of \<open>Umalloc\<close> and counts in loops are natural numbers.
  Memory is a function from 64-bit addresses to bytes; each component adds its
  variables to one extensible record, so that the state of the kernel is the record at the end of the
  chain. An operation maps a state to a result and a new state: \<open>Ret\<close> for a return, \<open>Panic\<close> for a kernel
  panic, \<open>Swtch\<close> for a switch to the scheduler from which this run does not come back, and \<open>Hang\<close> for a
  loop that waits for a device that never answers. \<open>bnd\<close> composes them as the code does, and \<open>ok m P\<close>
  says that a run returns, with a result and a state for which \<open>P\<close> holds.

  \<^bold>\<open>Shared vocabulary.\<close> \<open>Prelude\<close> has the words, memory, byte arrays, results and the lemma collections; \<open>Ring\<close>
  the ring buffers, as a locale that is interpreted for pipes, console and UART.

  \<^bold>\<open>Memory.\<close> \<open>Kstring\<close> models \<^verbatim>\<open>kernel/string.c\<close>, \<open>Layout\<close> the address macros, \<open>Kalloc\<close> the page allocator, whose free
  list is threaded through the free pages. The locale \<open>page_allocator\<close> is its contract: no page is handed
  out twice. \<open>Vm\<close> models \<^verbatim>\<open>kernel/vm.c\<close>; \<open>Pagetable\<close>, \<open>Usermem\<close> and \<open>Vmframe\<close> show that \<^verbatim>\<open>mappages\<close> installs exactly the
  translations asked for, that \<^verbatim>\<open>copyin\<close> and \<^verbatim>\<open>copyout\<close> move bytes as the page table translates them and touch
  nothing else.

  \<^bold>\<open>Locks, processes and scheduling.\<close> \<open>Spinlock\<close> models \<^verbatim>\<open>kernel/spinlock.c\<close> twice, as operations of one CPU and as steps of
  several CPUs on the lock word; the locale \<open>lock_stack\<close> is what the rest relies on. \<open>Proc\<close> models the
  process table of \<^verbatim>\<open>kernel/proc.c\<close>; \<open>Sched\<close> shows that the counters of \<^verbatim>\<open>struct proc\<close> count the scheduling events
  exactly, \<open>Sleepwake\<close> that a wakeup is not lost between two CPUs, as an invariant of a step relation,
  and \<open>Proctable\<close> that \<^verbatim>\<open>allocproc\<close> prepares a fresh slot and that \<^verbatim>\<open>wakeup\<close> and \<^verbatim>\<open>kill\<close> change just the processes meant.
  \<open>Sleeplock\<close> models \<^verbatim>\<open>kernel/sleeplock.c\<close>.

  \<^bold>\<open>Disk blocks and the log.\<close> \<open>Bio\<close> models \<^verbatim>\<open>kernel/bio.c\<close> with the list of buffers as linked. \<open>Bcache\<close> abstracts it to the
  contents, references and locks of the blocks; the locale \<open>block_cache\<close> is its contract, on which the
  loops of \<open>Log\<close>, the model of \<^verbatim>\<open>kernel/log.c\<close>, are verified in \<open>Logops\<close>. \<open>Crash\<close> shows that a commit cut short after
  any of its block writes, followed by recovery, leaves the state before or after the transaction.
  \<open>Tx\<close> is what an operation may rely on inside a transaction.

  \<^bold>\<open>Files.\<close> \<open>Fs\<close> models \<^verbatim>\<open>kernel/fs.c\<close>, \<open>Console\<close>, \<open>Pipe\<close>, \<open>File\<close>, \<open>Procfs\<close>, \<open>Sysfile\<close> and \<open>Exec\<close> the files of these names (\<open>Procfs\<close> the part of \<^verbatim>\<open>proc.c\<close>
  that needs open files). \<open>Fstx\<close> shows what \<^verbatim>\<open>balloc\<close> and \<^verbatim>\<open>bfree\<close> do to the free map, \<open>Filedata\<close> that \<^verbatim>\<open>readi\<close> reads the
  contents of a file for the kernel, \<open>Fileread\<close> that \<^verbatim>\<open>fileread\<close> puts them into user memory, failures included, and
  \<open>Filewrite\<close> and \<open>Writeback\<close> that \<^verbatim>\<open>writei\<close>, with the allocation in \<^verbatim>\<open>bmap\<close>, writes them, keeps
  every other file, and stores the inode. \<open>Pipering\<close> and \<open>Consring\<close> show that pipes and the console are bounded
  queues and that output reaches the device in order; \<open>Uart\<close> and \<open>Printf\<close> model the code below.

  \<^bold>\<open>System calls and traps.\<close> \<open>Sysproc\<close>, \<open>Sysfile\<close> and \<open>Syscall\<close> have the calls and their dispatch, \<open>Virtio\<close>, \<open>Trap\<close> and \<open>Boot\<close> the disk driver,
  \<^verbatim>\<open>trap.c\<close>, and start-up; \<open>Tramp\<close> the assembly code. \<open>Saverestore\<close> shows, once for a save area in a locale that is
  interpreted three times, that what the assembly code saves it restores; its stores and its loads are
  lists of their own, as they are in the code. \<open>Userspace\<close> and \<open>Sysreport\<close> follow
  \<^verbatim>\<open>getschedhistory\<close> and \<^verbatim>\<open>ps\<close> from the trap in user space to the return there. \<open>Kexample\<close> is a concrete kernel state
  at which hypotheses are shown to hold.

  \<^bold>\<open>User programs.\<close> \<open>Ulib\<close> models \<^verbatim>\<open>user/ulib.c\<close> and \<^verbatim>\<open>user/printf.c\<close>, \<open>Umalloc\<close> the allocator \<^verbatim>\<open>user/umalloc.c\<close>, \<open>Grep\<close> and \<open>Utools\<close> the programs
  \<^verbatim>\<open>grep\<close>, \<^verbatim>\<open>wc\<close>, \<^verbatim>\<open>cat\<close> and \<^verbatim>\<open>echo\<close>. What a system call returns is a parameter there, with what the code relies on as
  a hypothesis.

  \<^bold>\<open>Bounds and fuel.\<close> Constants are those of \<^verbatim>\<open>kernel/param.h\<close> and \<^verbatim>\<open>kernel/fs.h\<close>. Loops over tables and counts are structural; the walks
  along free lists and the string loops of \<open>Ulib\<close> and \<open>Umalloc\<close> are partial functions whose result is shown to be
  there; loops that read a file take fuel, and any fuel above the length of the input is enough. In \<open>Umalloc\<close> a
  call that does not return is \<open>None\<close>, a page fault included; what is shown is for requests below 2^31 - 64
  bytes, since \<^verbatim>\<open>sbrk\<close> takes an \<^verbatim>\<open>int\<close>. A
  transaction may log 29 blocks, one less than \<^verbatim>\<open>LOGSIZE\<close> because of the header block; a write of three
  blocks' worth of data, the most \<^verbatim>\<open>filewrite\<close> asks for at once, needs at most 25 of them.

  \<^bold>\<open>Not modelled.\<close> The device side of UART, disk and interrupt controller is input of the state. The buffer cache
  uses the disk by its effect, and the driver in \<open>Virtio\<close> is modelled beside it; nothing is proved about how
  they relate. Operations run
  to completion on one CPU except where interleaving is the point (\<open>Spinlock\<close>, \<open>Sleepwake\<close>): a process that sleeps
  ends its run with \<open>Swtch\<close>. The shell, the other user programs and the tests are sequences of system
  calls between forked processes, for which user and kernel code would have to run together in one
  model; \<^verbatim>\<open>mkfs\<close> runs on the host; \<^verbatim>\<open>entry.S\<close>, \<^verbatim>\<open>initcode.S\<close> and the generated stubs set up a stack or a trap
  instruction; \<^verbatim>\<open>ramdisk.c\<close> is not built.
\<close>

end
